(* ===== verification/Prelude.thy ===== *)
theory Prelude
  imports Complex_Main "HOL-Library.List_Lexorder" "HOL-Library.Char_ord" "HOL-Library.Multiset"
begin

text \<open>
  What every component shares: the Go data the model is written in and the loops of the code.

  \<^item> A Go map is an association list with distinct keys.  Its order stands for the order in which
    the runtime happens to range over the map, which Go leaves open; a fact proved for every list is
    a fact about every iteration order.  The operations are \<open>map_of\<close> (\<open>m[k]\<close>) and \<open>aput\<close>
    (\<open>m[k] = v\<close>), and the interface they promise is the locale \<open>go_map\<close>.
  \<^item> A slice is a list, \<open>sort.Strings\<close> is \<open>sort\<close> on the byte order of strings.
  \<^item> An error return is the left side of a sum.  \<open>fold_err\<close> is a \<open>for\<close> loop that returns at the
    first error, \<open>first_err\<close> a chain of checks; the locale \<open>checked_loop\<close> carries the invariant
    argument of such a loop.
  \<^item> \<open>show_nat\<close>, \<open>pad\<close> and \<open>atoi\<close> are the decimal printing and parsing of \<open>fmt\<close> and \<open>strconv\<close>.
\<close>

named_theorems go_simps \<open>unfolding rules for the small helpers of the code\<close>

section \<open>Maps\<close>

type_synonym 'v gomap = "(string \<times> 'v) list"

fun aput :: "'k \<Rightarrow> 'v \<Rightarrow> ('k \<times> 'v) list \<Rightarrow> ('k \<times> 'v) list" where
  "aput k v [] = [(k, v)]"
| "aput k v ((k', v') # m) = (if k' = k then (k, v) # m else (k', v') # aput k v m)"

abbreviation keys :: "('k \<times> 'v) list \<Rightarrow> 'k list" where
  "keys m \<equiv> map fst m"

locale go_map =
  fixes get :: "'m \<Rightarrow> 'k \<Rightarrow> 'v option"
    and put :: "'k \<Rightarrow> 'v \<Rightarrow> 'm \<Rightarrow> 'm"
    and valid :: "'m \<Rightarrow> bool"
    and empty :: "'m"
  assumes get_put: "get (put k v m) k' = (if k' = k then Some v else get m k')"
    and get_empty: "get empty k = None"
    and valid_empty: "valid empty"
    and valid_put: "valid m \<Longrightarrow> valid (put k v m)"
begin

fun put_all :: "('k \<times> 'v) list \<Rightarrow> 'm \<Rightarrow> 'm" where
  "put_all [] m = m"
| "put_all ((k, v) # r) m = put_all r (put k v m)"

lemma get_put_same: "get (put k v m) k = Some v"
  by (simp add: get_put)

lemma get_put_other: "k' \<noteq> k \<Longrightarrow> get (put k v m) k' = get m k'"
  by (simp add: get_put)

lemma put_dom: "{x. get (put k v m) x \<noteq> None} = insert k {x. get m x \<noteq> None}"
  by (auto simp: get_put)

lemma put_all_valid: "valid m \<Longrightarrow> valid (put_all r m)"
  by (induction r m rule: put_all.induct) (auto intro: valid_put)

lemma put_all_get:
  "distinct (map fst r) \<Longrightarrow>
    get (put_all r m) k = (case map_of r k of None \<Rightarrow> get m k | Some v \<Rightarrow> Some v)"
proof (induction r m rule: put_all.induct)
  case (2 k0 v0 r m)
  then have fresh: "map_of r k0 = None" by (simp add: map_of_eq_None_iff)
  from 2 have "get (put_all ((k0, v0) # r) m) k
      = (case map_of r k of None \<Rightarrow> get (put k0 v0 m) k | Some v \<Rightarrow> Some v)" by simp
  with fresh show ?case by (cases "k = k0") (simp_all add: get_put split: option.splits)
qed simp

end

lemma map_of_aput: "map_of (aput k v m) k' = (if k' = k then Some v else map_of m k')"
  by (induction k v m rule: aput.induct) auto

lemma keys_aput: "set (keys (aput k v m)) = insert k (set (keys m))"
  by (induction k v m rule: aput.induct) auto

lemma image_keys_aput [simp]: "fst ` set (aput k v m) = insert k (fst ` set m)"
  using keys_aput [of k v m] by simp

lemma distinct_aput: "distinct (keys m) \<Longrightarrow> distinct (keys (aput k v m))"
proof (induction k v m rule: aput.induct)
  case (2 k v k' v' m)
  then show ?case using keys_aput [of k v m] by auto
qed simp

interpretation am: go_map map_of aput "\<lambda>m. distinct (keys m)" "[]"
  by unfold_locales (auto simp: map_of_aput distinct_aput)

text \<open>\<open>for k, v := range new { old[k] = v }\<close>\<close>

definition over :: "('k \<times> 'v) list \<Rightarrow> ('k \<times> 'v) list \<Rightarrow> ('k \<times> 'v) list" where
  "over new old = fold (\<lambda>(k, v). aput k v) new old"

lemma set_aput: "distinct (keys m) \<Longrightarrow> set (aput k v m) = insert (k, v) {x \<in> set m. fst x \<noteq> k}"
proof (induction k v m rule: aput.induct)
  case (2 k v k' v' m)
  then show ?case by (cases "k' = k") (force simp: image_iff)+
qed simp

lemma over_simps [simp]:
  "over [] m = m"
  "over ((k, v) # new) m = over new (aput k v m)"
  by (simp_all add: over_def)

lemma keys_over: "set (keys (over new m)) = set (keys new) \<union> set (keys m)"
proof (induction new arbitrary: m)
  case (Cons p new)
  then show ?case by (cases p) (auto simp: image_iff)
qed simp

lemma distinct_over: "distinct (keys m) \<Longrightarrow> distinct (keys (over new m))"
proof (induction new arbitrary: m)
  case (Cons p new)
  then show ?case using distinct_aput [of m] by (cases p) simp
qed simp

lemma map_of_over_other: "k \<notin> set (keys new) \<Longrightarrow> map_of (over new m) k = map_of m k"
proof (induction new arbitrary: m)
  case (Cons p new)
  then show ?case by (cases p) (auto simp: map_of_aput)
qed simp

lemma set_over:
  "distinct (keys m) \<Longrightarrow> distinct (keys new) \<Longrightarrow>
    set (over new m) = set new \<union> {x \<in> set m. fst x \<notin> set (keys new)}"
proof (induction new arbitrary: m)
  case (Cons p new)
  obtain k v where p: "p = (k, v)" by (cases p)
  from Cons.prems have "distinct (keys (aput k v m))" and "distinct (keys new)" and new: "k \<notin> set (keys new)"
    by (auto simp: p intro: distinct_aput)
  from Cons.IH [OF this(1,2)] Cons.prems new show ?case by (auto simp: p set_aput) (force simp: image_iff)+
qed simp

lemma distinct_keys_filter: "distinct (keys m) \<Longrightarrow> distinct (keys (filter P m))"
  by (induction m) auto

lemma in_keys_filter: "k \<in> set (map fst (filter P m)) \<longleftrightarrow> (\<exists>v. (k, v) \<in> set m \<and> P (k, v))"
  by (induction m) auto

lemma map_of_None_key: "map_of m k = None \<longleftrightarrow> k \<notin> set (keys m)"
  by (simp add: map_of_eq_None_iff)

lemma map_of_without: "map_of (filter (\<lambda>(k, _). k \<noteq> n) m) k = (if k = n then None else map_of m k)"
  by (induction m) auto

lemma aput_fresh: "k \<notin> set (keys m) \<Longrightarrow> aput k v m = m @ [(k, v)]"
  by (induction k v m rule: aput.induct) auto

lemma map_of_Some_key: "map_of m k = Some v \<Longrightarrow> k \<in> set (keys m)"
  by (induction m) (auto split: if_splits)

lemma map_of_key_Some: "k \<in> set (keys m) \<Longrightarrow> \<exists>v. map_of m k = Some v"
  by (induction m) auto

text \<open>The sorted key list the code builds before it ranges over a map deterministically.\<close>

definition sorted_entries :: "'v gomap \<Rightarrow> 'v gomap" where
  "sorted_entries m = sort_key fst m"

lemma set_sorted_entries [simp]: "set (sorted_entries m) = set m"
  by (simp add: sorted_entries_def)

lemma mset_sorted_entries [simp]: "mset (sorted_entries m) = mset m"
  by (simp add: sorted_entries_def)

lemma keys_sorted_entries: "set (keys (sorted_entries m)) = set (keys m)"
  by simp

lemma distinct_sorted_entries: "distinct (keys (sorted_entries m)) = distinct (keys m)"
proof -
  have "mset (keys (sorted_entries m)) = mset (keys m)" by simp
  then show ?thesis by (rule mset_eq_imp_distinct_iff)
qed

lemma size_list_sorted_entries: "size_list f (sorted_entries m) = size_list f m"
proof -
  have len: "length (sorted_entries m) = length m" by (simp add: sorted_entries_def)
  have "sum_list (map f (sorted_entries m)) = sum_list (map f m)"
    by (metis mset_map mset_sorted_entries sum_mset_sum_list)
  with len show ?thesis by (simp add: size_list_conv_sum_list)
qed

lemma in_map_filter: "y \<in> set (List.map_filter f xs) \<longleftrightarrow> (\<exists>x \<in> set xs. f x = Some y)"
  by (induction xs) (auto simp: map_filter_simps split: option.splits)

lemma hd_singleton: "set xs = {x} \<Longrightarrow> hd xs = x"
  by (cases xs) auto

section \<open>Loops that return at the first error\<close>

fun fold_err :: "('a \<Rightarrow> 's \<Rightarrow> 'e + 's) \<Rightarrow> 'a list \<Rightarrow> 's \<Rightarrow> 'e + 's" where
  "fold_err f [] s = Inr s"
| "fold_err f (x # xs) s = (case f x s of Inl e \<Rightarrow> Inl e | Inr s' \<Rightarrow> fold_err f xs s')"

fun first_err :: "('a \<Rightarrow> 'e option) \<Rightarrow> 'a list \<Rightarrow> 'e option" where
  "first_err f [] = None"
| "first_err f (x # xs) = (case f x of Some e \<Rightarrow> Some e | None \<Rightarrow> first_err f xs)"

lemma first_err_None [simp]: "first_err f xs = None \<longleftrightarrow> (\<forall>x \<in> set xs. f x = None)"
  by (induction xs) (auto split: option.splits)

lemma first_err_Some: "first_err f xs = Some e \<Longrightarrow> \<exists>x \<in> set xs. f x = Some e"
  by (induction xs) (auto split: option.splits)

lemma fold_err_append:
  "fold_err f (xs @ ys) s = (case fold_err f xs s of Inl e \<Rightarrow> Inl e | Inr s' \<Rightarrow> fold_err f ys s')"
  by (induction xs arbitrary: s) (auto split: sum.splits)

lemma fold_err_cong [fundef_cong]:
  "\<lbrakk>xs = ys; s = t; \<And>x s. x \<in> set ys \<Longrightarrow> f x s = g x s\<rbrakk> \<Longrightarrow> fold_err f xs s = fold_err g ys t"
proof (induction xs arbitrary: s t ys)
  case (Cons x xs)
  then show ?case by (auto split: sum.splits)
qed auto

locale checked_loop =
  fixes body :: "'a \<Rightarrow> 's \<Rightarrow> 'e + 's"
    and inv :: "'s \<Rightarrow> bool"
  assumes keeps: "inv s \<Longrightarrow> body x s = Inr s' \<Longrightarrow> inv s'"
begin

lemma loop_inv: "inv s \<Longrightarrow> fold_err body xs s = Inr s' \<Longrightarrow> inv s'"
  by (induction xs arbitrary: s) (auto split: sum.splits intro: keeps)

end

text \<open>\<open>for _, x := range xs { if y, err := f(x); err != nil { return err }; out = append(out, y) }\<close>\<close>

fun map_err :: "('a \<Rightarrow> 'e + 'b) \<Rightarrow> 'a list \<Rightarrow> 'e + 'b list" where
  "map_err f [] = Inr []"
| "map_err f (x # xs) =
     (case f x of Inl e \<Rightarrow> Inl e
      | Inr y \<Rightarrow> (case map_err f xs of Inl e \<Rightarrow> Inl e | Inr ys \<Rightarrow> Inr (y # ys)))"

lemma map_err_cong [fundef_cong]:
  "\<lbrakk>xs = ys; \<And>x. x \<in> set ys \<Longrightarrow> f x = g x\<rbrakk> \<Longrightarrow> map_err f xs = map_err g ys"
proof (induction xs arbitrary: ys)
  case (Cons x xs)
  then show ?case by (auto split: sum.splits)
qed auto

lemma map_err_Inr: "map_err f xs = Inr ys \<longleftrightarrow> list_all2 (\<lambda>x y. f x = Inr y) xs ys"
proof (induction xs arbitrary: ys)
  case (Cons x xs)
  show ?case
    by (cases ys; cases "f x"; cases "map_err f xs") (auto simp flip: Cons.IH)
qed auto

lemma map_err_length: "map_err f xs = Inr ys \<Longrightarrow> length ys = length xs"
  by (auto simp: map_err_Inr dest: list_all2_lengthD)

lemma map_err_all: "map_err f xs = Inr ys \<Longrightarrow> x \<in> set xs \<Longrightarrow> \<exists>y. f x = Inr y"
  by (induction xs arbitrary: ys) (auto split: sum.splits)

lemma map_err_id: "(\<And>x. x \<in> set xs \<Longrightarrow> f x = Inr x) \<Longrightarrow> map_err f xs = Inr xs"
  by (induction xs) auto

lemma map_err_stages:
  assumes "map_err f xs = Inr ys"
    and "\<And>x y. x \<in> set xs \<Longrightarrow> f x = Inr y \<Longrightarrow> g y = h x"
  shows "map_err g ys = map_err h xs"
proof -
  from assms(1) have "list_all2 (\<lambda>x y. f x = Inr y) xs ys" by (simp add: map_err_Inr)
  then show ?thesis using assms(2)
  proof (induction xs ys rule: list_all2_induct)
    case (Cons x xs y ys)
    then have "g y = h x" and "map_err g ys = map_err h xs" by simp_all
    then show ?case by (simp split: sum.split)
  qed simp
qed

end
