(* ===== verification/GoText.thy ===== *)
theory GoText
  imports Prelude
begin

text \<open>
  Strings of the Go source (byte sequences, so \<open>string\<close>): decimal printing and parsing as
  \<open>fmt.Sprintf("%d")\<close>, \<open>"%0*d"\<close> and \<open>strconv.Atoi\<close> do them, and the functions of package
  \<open>strings\<close> the components call (\<open>Split\<close> and \<open>Cut\<close> at a character, \<open>CutPrefix\<close>, \<open>Contains\<close>, the part
  after the last separator).  The lemmas are the round trips: what \<open>show_nat\<close> prints, padded with
  zeros or not, \<open>atoi\<close> reads back.
\<close>

section \<open>Decimal numbers\<close>

definition digit_char :: "nat \<Rightarrow> char" where
  "digit_char d = char_of (48 + d)"

definition digit_val :: "char \<Rightarrow> nat option" where
  "digit_val c = (let n = of_char c :: nat in if 48 \<le> n \<and> n \<le> 57 then Some (n - 48) else None)"

fun show_nat :: "nat \<Rightarrow> string" where
  "show_nat n = (if n < 10 then [digit_char n] else show_nat (n div 10) @ [digit_char (n mod 10)])"

declare show_nat.simps [simp del]

definition show_int :: "int \<Rightarrow> string" where
  "show_int i = (if i < 0 then CHR ''-'' # show_nat (nat (- i)) else show_nat (nat i))"

text \<open>\<open>fmt.Sprintf("%0*d", width, n)\<close> for a non-negative \<open>n\<close>.\<close>

definition pad :: "nat \<Rightarrow> nat \<Rightarrow> string" where
  "pad width n = (let s = show_nat n in replicate (width - length s) (CHR ''0'') @ s)"

fun read_digits :: "nat \<Rightarrow> string \<Rightarrow> nat option" where
  "read_digits acc [] = Some acc"
| "read_digits acc (c # cs) =
     (case digit_val c of None \<Rightarrow> None | Some d \<Rightarrow> read_digits (10 * acc + d) cs)"

definition read_nat :: "string \<Rightarrow> nat option" where
  "read_nat s = (if s = [] then None else read_digits 0 s)"

text \<open>
  \<open>strconv.Atoi\<close>: an optional sign, at least one digit, and a value that fits the 64-bit \<open>int\<close>
  (otherwise \<open>ErrSyntax\<close> or \<open>ErrRange\<close>, here \<open>None\<close>).
\<close>

definition max_int64 :: int where
  "max_int64 = 9223372036854775807"

definition in_int64 :: "int \<Rightarrow> bool" where
  "in_int64 i \<longleftrightarrow> - max_int64 - 1 \<le> i \<and> i \<le> max_int64"

definition atoi :: "string \<Rightarrow> int option" where
  "atoi s =
     (let (neg, ds) = (case s of c # cs \<Rightarrow> if c = CHR ''-'' then (True, cs)
                                           else if c = CHR ''+'' then (False, cs) else (False, s)
                       | [] \<Rightarrow> (False, []))
      in case read_nat ds of
           None \<Rightarrow> None
         | Some n \<Rightarrow> (let i = (if neg then - int n else int n) in if in_int64 i then Some i else None))"

lemma digit_val_char [simp]: "d < 10 \<Longrightarrow> digit_val (digit_char d) = Some d"
  by (simp add: digit_val_def digit_char_def)

lemma digit_char_plain [simp]:
  "d < 10 \<Longrightarrow> digit_char d \<noteq> CHR ''-''" "d < 10 \<Longrightarrow> digit_char d \<noteq> CHR ''+''"
  by (auto dest!: arg_cong [where f = digit_val]) (simp_all add: digit_val_def)

lemma show_nat_nonempty [simp]: "show_nat n \<noteq> []"
  by (subst show_nat.simps) simp

lemma show_nat_digits: "c \<in> set (show_nat n) \<Longrightarrow> \<exists>d < 10. c = digit_char d"
proof (induction n rule: show_nat.induct)
  case (1 n)
  show ?case
  proof (cases "n < 10")
    case True
    with 1 show ?thesis by (subst (asm) (2) show_nat.simps) auto
  next
    case False
    then have "show_nat n = show_nat (n div 10) @ [digit_char (n mod 10)]"
      by (subst show_nat.simps) simp
    with 1 False consider "\<exists>d < 10. c = digit_char d" | "c = digit_char (n mod 10)" by auto
    then show ?thesis
    proof cases
      case 2
      then show ?thesis by (intro exI [of _ "n mod 10"]) simp
    qed
  qed
qed

lemma read_digits_append:
  "read_digits acc (xs @ ys) = (case read_digits acc xs of None \<Rightarrow> None | Some a \<Rightarrow> read_digits a ys)"
  by (induction xs arbitrary: acc) (auto split: option.splits)

lemma read_digits_show: "read_digits 0 (show_nat n) = Some n"
proof (induction n rule: show_nat.induct)
  case (1 n)
  then show ?case by (subst show_nat.simps) (auto simp: read_digits_append)
qed

lemma read_digits_zeros: "read_digits 0 (replicate k (CHR ''0'') @ s) = read_digits 0 s"
proof (induction k)
  case (Suc k)
  then show ?case by (simp add: digit_val_def)
qed simp

lemma read_nat_show [simp]: "read_nat (show_nat n) = Some n"
  by (simp add: read_nat_def read_digits_show)

lemma read_nat_pad [simp]: "read_nat (pad w n) = Some n"
  by (simp add: read_nat_def pad_def Let_def read_digits_zeros read_digits_show)

lemma show_nat_inj: "show_nat m = show_nat n \<Longrightarrow> m = n"
  by (metis option.inject read_nat_show)

lemma pad_inj: "pad w m = pad w n \<Longrightarrow> m = n"
  by (metis option.inject read_nat_pad)

lemma zero_char: "digit_char 0 = CHR ''0''"
  by code_simp

lemma pad_digits: "c \<in> set (pad w n) \<Longrightarrow> \<exists>d < 10. c = digit_char d"
proof -
  assume "c \<in> set (pad w n)"
  then consider "c = CHR ''0''" | "c \<in> set (show_nat n)"
    by (auto simp: pad_def Let_def in_set_replicate)
  then show ?thesis
  proof cases
    case 1
    then have "c = digit_char 0" by (simp add: zero_char)
    then show ?thesis by (intro exI [of _ 0]) simp
  qed (rule show_nat_digits)
qed

lemma pad_nonempty [simp]: "pad w n \<noteq> []"
  by (simp add: pad_def Let_def)

lemma pad_no_dash: "CHR ''-'' \<notin> set (pad w n)"
  using pad_digits [of "CHR ''-''" w n] digit_char_plain(1) by metis

lemma atoi_pad: "int n \<le> max_int64 \<Longrightarrow> atoi (pad w n) = Some (int n)"
proof -
  assume fits: "int n \<le> max_int64"
  obtain c cs where s: "pad w n = c # cs" by (cases "pad w n") auto
  then obtain d where "d < 10" "c = digit_char d" using pad_digits [of c w n] by auto
  then have "c \<noteq> CHR ''-''" "c \<noteq> CHR ''+''" by simp_all
  moreover have "read_nat (c # cs) = Some n" using read_nat_pad [of w n] s by simp
  ultimately show ?thesis using fits s by (simp add: atoi_def in_int64_def max_int64_def)
qed

section \<open>Package \<open>strings\<close>\<close>

text \<open>\<open>strings.Split(s, c)\<close> for a one-character separator: never empty.\<close>

fun split_on :: "char \<Rightarrow> string \<Rightarrow> string list" where
  "split_on c [] = [[]]"
| "split_on c (x # xs) =
     (if x = c then [] # split_on c xs
      else case split_on c xs of [] \<Rightarrow> [[x]] | s # ss \<Rightarrow> (x # s) # ss)"

fun join_with :: "string \<Rightarrow> string list \<Rightarrow> string" where
  "join_with sep [] = []"
| "join_with sep [s] = s"
| "join_with sep (s # t # ss) = s @ sep @ join_with sep (t # ss)"

text \<open>\<open>strings.Cut(s, c)\<close>'s first result: the text before the first separator, or all of it.\<close>

definition before_sep :: "char \<Rightarrow> string \<Rightarrow> string" where
  "before_sep c s = takeWhile (\<lambda>x. x \<noteq> c) s"

text \<open>\<open>s[strings.LastIndex(s, c)+1:]\<close>, or \<open>s\<close> itself when there is no separator.\<close>

definition after_last :: "char \<Rightarrow> string \<Rightarrow> string" where
  "after_last c s = rev (takeWhile (\<lambda>x. x \<noteq> c) (rev s))"

fun cut_prefix :: "string \<Rightarrow> string \<Rightarrow> string option" where
  "cut_prefix [] s = Some s"
| "cut_prefix (p # ps) [] = None"
| "cut_prefix (p # ps) (c # cs) = (if p = c then cut_prefix ps cs else None)"

definition has_prefix :: "string \<Rightarrow> string \<Rightarrow> bool" where
  "has_prefix p s \<longleftrightarrow> cut_prefix p s \<noteq> None"

fun contains :: "string \<Rightarrow> string \<Rightarrow> bool" where
  "contains p [] = (p = [])"
| "contains p (c # cs) = (has_prefix p (c # cs) \<or> contains p cs)"

text \<open>Lower case of an ASCII letter (\<open>strings.ToLower\<close>, the case folding of \<open>encoding/json\<close>).\<close>

definition lower_char :: "char \<Rightarrow> char" where
  "lower_char c = (let n = of_char c :: nat in if 65 \<le> n \<and> n \<le> 90 then char_of (n + 32) else c)"

lemma split_on_nonempty [simp]: "split_on c s \<noteq> []"
  by (induction s) (auto split: list.splits)

lemma split_on_no_sep: "c \<notin> set s \<Longrightarrow> split_on c s = [s]"
  by (induction s) auto

lemma split_on_append_sep: "c \<notin> set s \<Longrightarrow> split_on c (s @ c # t) = s # split_on c t"
  by (induction s) auto

lemma join_split: "join_with [c] (split_on c s) = s"
proof (induction s)
  case (Cons x xs)
  obtain a ss where "split_on c xs = a # ss" by (cases "split_on c xs") auto
  with Cons show ?case by (cases ss) auto
qed simp

lemma split_join:
  "ss \<noteq> [] \<Longrightarrow> \<forall>s \<in> set ss. c \<notin> set s \<Longrightarrow> split_on c (join_with [c] ss) = ss"
proof (induction "[c]" ss rule: join_with.induct)
  case (3 s t ss)
  then show ?case using split_on_append_sep [of c s "join_with [c] (t # ss)"] by simp
qed (simp_all add: split_on_no_sep)

lemma hd_split_on: "hd (split_on c s) = before_sep c s"
  by (induction s) (auto simp: before_sep_def split: list.splits)

lemma cut_prefix_Some [simp]: "cut_prefix p s = Some r \<longleftrightarrow> s = p @ r"
  by (induction p s rule: cut_prefix.induct) auto

lemma has_prefix_iff: "has_prefix p s \<longleftrightarrow> (\<exists>r. s = p @ r)"
  by (auto simp: has_prefix_def)

lemma contains_iff: "contains p s \<longleftrightarrow> (\<exists>a b. s = a @ p @ b)"
proof (induction p s rule: contains.induct)
  case (2 p c cs)
  show ?case
  proof
    assume "contains p (c # cs)"
    with 2 consider r where "c # cs = p @ r" | a b where "cs = a @ p @ b"
      by (auto simp: has_prefix_iff)
    then show "\<exists>a b. c # cs = a @ p @ b"
    proof cases
      case 1
      then show ?thesis by (metis append_Nil)
    next
      case 2
      then show ?thesis by (metis append_Cons)
    qed
  next
    assume "\<exists>a b. c # cs = a @ p @ b"
    then obtain a b where "c # cs = a @ p @ b" by blast
    with 2 show "contains p (c # cs)"
    proof (cases a)
      case Nil
      with \<open>c # cs = a @ p @ b\<close> have "has_prefix p (c # cs)" by (auto simp: has_prefix_iff)
      then show ?thesis by simp
    qed auto
  qed
qed auto

lemma contains_Cons: "contains p s \<Longrightarrow> contains p (x # s)"
  by simp

lemma not_contains_drop: "\<not> contains p (a @ s) \<Longrightarrow> \<not> contains p s"
  by (metis contains_iff append.assoc)

lemma after_last_no_sep: "c \<notin> set s \<Longrightarrow> after_last c s = s"
proof -
  assume "c \<notin> set s"
  then have "\<forall>x \<in> set (rev s). x \<noteq> c" by auto
  then have "takeWhile (\<lambda>x. x \<noteq> c) (rev s) = rev s" by (simp only: takeWhile_eq_all_conv)
  then show ?thesis unfolding after_last_def by (simp only: rev_rev_ident)
qed

lemma after_last_sep: "c \<notin> set t \<Longrightarrow> after_last c (s @ c # t) = t"
proof -
  assume "c \<notin> set t"
  then have "takeWhile (\<lambda>x. x \<noteq> c) (rev t @ c # rev s) = rev t"
    by (subst takeWhile_append2) auto
  then show ?thesis by (simp add: after_last_def)
qed

end
