(* ===== verification/Json.thy ===== *)
theory Json
  imports GoText
begin

text \<open>
  The JSON-shaped values of the code (\<open>map[string]any\<close>, \<open>[]any\<close> and scalars).  Go keeps an \<open>int\<close>
  (decoded from YAML or built by the control plane) apart from a \<open>float64\<close> (decoded from JSON); a
  \<open>float64\<close> is the rational it denotes.  \<open>deep_equal\<close> is \<open>reflect.DeepEqual\<close> (the order of a map's
  entries does not count), \<open>sprint\<close> is \<open>fmt.Sprint\<close> with the printing of floats as a parameter.
\<close>

datatype json =
    JNull
  | JBool bool
  | JInt int
  | JFloat rat
  | JStr string
  | JArr "json list"
  | JObj "(string \<times> json) list"

type_synonym jmap = "(string \<times> json) list"

fun deep_equal :: "json \<Rightarrow> json \<Rightarrow> bool"
and deep_equal_arr :: "json list \<Rightarrow> json list \<Rightarrow> bool"
and deep_sub_obj :: "(string \<times> json) list \<Rightarrow> (string \<times> json) list \<Rightarrow> bool" where
  "deep_equal (JArr xs) (JArr ys) = deep_equal_arr xs ys"
| "deep_equal (JObj m) (JObj n) = (length m = length n \<and> deep_sub_obj m n)"
| "deep_equal JNull w = (w = JNull)"
| "deep_equal (JBool b) w = (w = JBool b)"
| "deep_equal (JInt i) w = (w = JInt i)"
| "deep_equal (JFloat f) w = (w = JFloat f)"
| "deep_equal (JStr s) w = (w = JStr s)"
| "deep_equal (JArr xs) w = False"
| "deep_equal (JObj m) w = False"
| "deep_equal_arr [] ys = (ys = [])"
| "deep_equal_arr (x # xs) ys = (case ys of [] \<Rightarrow> False | y # ys' \<Rightarrow> deep_equal x y \<and> deep_equal_arr xs ys')"
| "deep_sub_obj [] n = True"
| "deep_sub_obj ((k, v) # m) n =
     ((case map_of n k of None \<Rightarrow> False | Some w \<Rightarrow> deep_equal v w) \<and> deep_sub_obj m n)"

text \<open>Every map in the value has distinct keys, as every Go map has.\<close>

fun json_ok :: "json \<Rightarrow> bool"
and jobj_ok :: "(string \<times> json) list \<Rightarrow> bool" where
  "json_ok (JArr xs) = list_all json_ok xs"
| "json_ok (JObj m) = (distinct (keys m) \<and> jobj_ok m)"
| "json_ok _ = True"
| "jobj_ok [] = True"
| "jobj_ok ((k, v) # m) = (json_ok v \<and> jobj_ok m)"

lemma jobj_ok_iff: "jobj_ok m \<longleftrightarrow> (\<forall>(k, v) \<in> set m. json_ok v)"
  by (induction m) auto

lemma deep_sub_obj_iff:
  "deep_sub_obj m n \<longleftrightarrow> (\<forall>(k, v) \<in> set m. \<exists>w. map_of n k = Some w \<and> deep_equal v w)"
  by (induction m) (auto split: option.splits)

lemma deep_equal_refl: "json_ok v \<Longrightarrow> deep_equal v v"
proof (induction v)
  case (JArr xs)
  then have "\<forall>x \<in> set xs. deep_equal x x" by (auto simp: list_all_iff)
  then show ?case by simp (induction xs; simp)
next
  case (JObj m)
  then have "\<forall>(k, v) \<in> set m. deep_equal v v" and d: "distinct (keys m)"
    by (auto simp: jobj_ok_iff intro: snds.intros)
  then show ?case by (auto simp: deep_sub_obj_iff map_of_is_SomeI)
qed auto

text \<open>\<open>fmt.Sprint\<close> of a value; maps print with sorted keys.\<close>

fun sprint :: "(rat \<Rightarrow> string) \<Rightarrow> json \<Rightarrow> string" where
  "sprint ff JNull = ''<nil>''"
| "sprint ff (JBool b) = (if b then ''true'' else ''false'')"
| "sprint ff (JInt i) = show_int i"
| "sprint ff (JFloat f) = ff f"
| "sprint ff (JStr s) = s"
| "sprint ff (JArr xs) = ''['' @ join_with '' '' (map (sprint ff) xs) @ '']''"
| "sprint ff (JObj m) =
     ''map['' @ join_with '' '' (map (\<lambda>(k, s). k @ '':'' @ s)
       (sorted_entries (map (\<lambda>(k, v). (k, sprint ff v)) m))) @ '']''"

text \<open>The two kinds \<open>encoding/json\<close> is used for: decoding a document and encoding a value.\<close>

record codec =
  unmarshal :: "string \<Rightarrow> json option"
  marshal :: "json \<Rightarrow> string + string"
  fmt_float :: "rat \<Rightarrow> string"

text \<open>Traversal of one path segment: the type assertion to \<open>map[string]any\<close> and the read.\<close>

fun obj_entries :: "json \<Rightarrow> jmap option" where
  "obj_entries (JObj m) = Some m"
| "obj_entries _ = None"

lemma obj_entries_Some [simp]: "obj_entries v = Some m \<longleftrightarrow> v = JObj m"
  by (cases v) auto

lemma size_obj_entry: "(k, v) \<in> set m \<Longrightarrow> size v < size (JObj m)"
  using size_list_estimation' [of "(k, v)" m "size v" "size_prod (\<lambda>_. 0) size"] by auto

end
