(* ===== verification/Template.thy ===== *)
theory Template
  imports Json
begin

text \<open>
  Package \<open>core/internal/template\<close>: the one value-binding mechanism of the platform.  A token
  \<open>{{.ns.a.b}}\<close> is a dotted lookup into a named namespace.  \<open>match_token\<close> is the regular expression
  \<open>tokenRe\<close> at one position (its character classes are disjoint, so the greedy match is the only
  one), \<open>scan\<close> the left-to-right non-overlapping search of \<open>ReplaceAllStringFunc\<close> and
  \<open>FindAllStringSubmatch\<close>, and \<open>subst\<close> the walk over a value.  The lemmas show that binding fails
  closed (every token of the input was bound or deliberately deferred), that a value without tokens
  passes unchanged, and that the two stages of a deferred binding compose.
\<close>

section \<open>Tokens\<close>

definition is_letter :: "char \<Rightarrow> bool" where
  "is_letter c = (let n = of_char c :: nat in (65 \<le> n \<and> n \<le> 90) \<or> (97 \<le> n \<and> n \<le> 122))"

definition is_word :: "char \<Rightarrow> bool" where
  "is_word c = (is_letter c \<or> digit_val c \<noteq> None \<or> c = CHR ''_'')"

definition is_ws :: "char \<Rightarrow> bool" where
  "is_ws c = (of_char c \<in> {9, 10, 12, 13, 32 :: nat})"

text \<open>\<open>(?:\.[a-zA-Z0-9_]+)*\<close>: the matched segments and what is left.\<close>

function parse_segs :: "string \<Rightarrow> string list \<times> string" where
  "parse_segs s =
     (case s of
        c # r \<Rightarrow>
          if c = CHR ''.'' \<and> takeWhile is_word r \<noteq> []
          then let (ss, rest) = parse_segs (dropWhile is_word r) in (takeWhile is_word r # ss, rest)
          else ([], s)
      | [] \<Rightarrow> ([], s))"
  by pat_completeness auto
termination
proof (relation "measure length", simp_all)
  fix r :: string
  have "length (dropWhile is_word r) \<le> length r" by (rule length_dropWhile_le)
  then show "length (dropWhile is_word r) < Suc (length r)" by simp
qed

declare parse_segs.simps [simp del]

text \<open>\<open>[a-zA-Z][a-zA-Z0-9_]*(?:\.[a-zA-Z0-9_]+)+\<close>: the dotted path of a token.\<close>

definition parse_path :: "string \<Rightarrow> (string \<times> string) option" where
  "parse_path s =
     (let seg = takeWhile is_word s in
      if seg = [] \<or> \<not> is_letter (hd seg) then None
      else let (ss, rest) = parse_segs (dropWhile is_word s) in
        if ss = [] then None else Some (join_with ''.'' (seg # ss), rest))"

definition match_token :: "string \<Rightarrow> (string \<times> string) option" where
  "match_token s =
     (case cut_prefix ''{{'' s of
        None \<Rightarrow> None
      | Some r \<Rightarrow>
          (case cut_prefix ''.'' (dropWhile is_ws r) of
             None \<Rightarrow> None
           | Some r2 \<Rightarrow>
               (case parse_path r2 of
                  None \<Rightarrow> None
                | Some (p, r3) \<Rightarrow>
                    (case cut_prefix ''}}'' (dropWhile is_ws r3) of
                       None \<Rightarrow> None
                     | Some r4 \<Rightarrow> Some (p, r4)))))"

text \<open>\<open>exactRe\<close>: the whole string is one token.\<close>

definition exact_token :: "string \<Rightarrow> string option" where
  "exact_token s = (case match_token s of Some (p, []) \<Rightarrow> Some p | _ \<Rightarrow> None)"

datatype piece = Lit char | Tok string string \<comment> \<open>path, matched text\<close>

lemma parse_segs_Nil [simp]: "parse_segs [] = ([], [])"
  by (simp add: parse_segs.simps [of "[]"])

lemma parse_segs_Cons:
  "parse_segs (c # r) =
     (if c = CHR ''.'' \<and> takeWhile is_word r \<noteq> []
      then (takeWhile is_word r # fst (parse_segs (dropWhile is_word r)), snd (parse_segs (dropWhile is_word r)))
      else ([], c # r))"
  by (simp add: parse_segs.simps [of "c # r"] split_beta)

lemma parse_segs_length: "length (snd (parse_segs s)) \<le> length s"
proof (induction s rule: parse_segs.induct)
  case (1 s)
  show ?case
  proof (cases s)
    case (Cons c r)
    show ?thesis
    proof (cases "c = CHR ''.'' \<and> takeWhile is_word r \<noteq> []")
      case True
      with 1 Cons have "length (snd (parse_segs (dropWhile is_word r))) \<le> length (dropWhile is_word r)"
        by auto
      also have "\<dots> \<le> length r" by (rule length_dropWhile_le)
      finally show ?thesis using Cons True by (simp add: parse_segs_Cons)
    qed (auto simp: Cons parse_segs_Cons)
  qed simp
qed

lemma parse_path_length: "parse_path s = Some (p, rest) \<Longrightarrow> length rest \<le> length s"
  using parse_segs_length [of "dropWhile is_word s"] length_dropWhile_le [of is_word s]
  by (fastforce simp: parse_path_def Let_def split: if_splits prod.splits)

lemma match_token_length: "match_token s = Some (p, rest) \<Longrightarrow> length rest < length s"
proof -
  assume "match_token s = Some (p, rest)"
  then obtain r r2 r3 where s: "s = ''{{'' @ r" and r: "dropWhile is_ws r = ''.'' @ r2"
    and r2: "parse_path r2 = Some (p, r3)" and r3: "dropWhile is_ws r3 = ''}}'' @ rest"
    by (auto simp: match_token_def split: option.splits)
  have "length (''}}'' @ rest) \<le> length r3" using length_dropWhile_le [of is_ws r3] r3 by simp
  moreover have "length r3 \<le> length r2" using parse_path_length [OF r2] .
  moreover have "length (''.'' @ r2) \<le> length r" using length_dropWhile_le [of is_ws r] r by simp
  ultimately show ?thesis using s by simp
qed

function scan :: "string \<Rightarrow> piece list" where
  "scan s =
     (case match_token s of
        Some (p, rest) \<Rightarrow> Tok p (take (length s - length rest) s) # scan rest
      | None \<Rightarrow> (case s of [] \<Rightarrow> [] | c # cs \<Rightarrow> Lit c # scan cs))"
  by pat_completeness auto
termination
  by (relation "measure length") (auto dest: match_token_length)

declare scan.simps [simp del]

text \<open>The submatches of \<open>tokenRe.FindAllStringSubmatch(s, -1)\<close>: the paths of the tokens.\<close>

definition token_paths :: "string \<Rightarrow> string list" where
  "token_paths s = List.map_filter (\<lambda>pc. case pc of Tok p _ \<Rightarrow> Some p | Lit _ \<Rightarrow> None) (scan s)"

section \<open>Lookup and substitution\<close>

type_synonym namespaces = "(string \<times> jmap) list"

datatype terror =
    UnknownNamespace string
  | NotAnObject string string \<comment> \<open>path, segment\<close>
  | UnknownField string
  | Malformed string

fun lookup_segs :: "string \<Rightarrow> string list \<Rightarrow> json \<Rightarrow> terror + json" where
  "lookup_segs path [] cur = Inr cur"
| "lookup_segs path (seg # segs) cur =
     (case obj_entries cur of
        None \<Rightarrow> Inl (NotAnObject path seg)
      | Some m \<Rightarrow>
          (case map_of m seg of
             None \<Rightarrow> Inl (UnknownField path)
           | Some v \<Rightarrow> lookup_segs path segs v))"

definition lookup :: "string \<Rightarrow> namespaces \<Rightarrow> terror + json" where
  "lookup path ns =
     (let segs = split_on (CHR ''.'') path in
      case map_of ns (hd segs) of
        None \<Rightarrow> Inl (UnknownNamespace (hd segs))
      | Some data \<Rightarrow> lookup_segs path (tl segs) (JObj data))"

definition is_deferred :: "string \<Rightarrow> string list \<Rightarrow> bool" where
  "is_deferred path deferred = (before_sep (CHR ''.'') path \<in> set deferred)"

text \<open>
  The callback of \<open>ReplaceAllStringFunc\<close>: the replaced text of each piece, and the error of the last
  token that failed (a later failure overwrites an earlier one, as \<open>lookErr\<close> is overwritten).
\<close>

fun render :: "(rat \<Rightarrow> string) \<Rightarrow> namespaces \<Rightarrow> string list \<Rightarrow> piece list \<Rightarrow> string \<times> terror option" where
  "render ff ns deferred [] = ([], None)"
| "render ff ns deferred (Lit c # ps) =
     (let (out, err) = render ff ns deferred ps in (c # out, err))"
| "render ff ns deferred (Tok p txt # ps) =
     (let (out, err) = render ff ns deferred ps in
      if is_deferred p deferred then (txt @ out, err)
      else case lookup p ns of
             Inl e \<Rightarrow> (txt @ out, case err of None \<Rightarrow> Some e | Some e' \<Rightarrow> Some e')
           | Inr v \<Rightarrow> (sprint ff v @ out, err))"

fun strip_pieces :: "string list \<Rightarrow> piece list \<Rightarrow> string" where
  "strip_pieces deferred [] = []"
| "strip_pieces deferred (Lit c # ps) = c # strip_pieces deferred ps"
| "strip_pieces deferred (Tok p txt # ps) =
     (if is_deferred p deferred then [] else txt) @ strip_pieces deferred ps"

definition strip_deferred :: "string \<Rightarrow> string list \<Rightarrow> string" where
  "strip_deferred s deferred = (if deferred = [] then s else strip_pieces deferred (scan s))"

definition substitute_string :: "(rat \<Rightarrow> string) \<Rightarrow> namespaces \<Rightarrow> string list \<Rightarrow> string \<Rightarrow> terror + json" where
  "substitute_string ff ns deferred s =
     (if \<not> contains ''{{'' s then Inr (JStr s)
      else case exact_token s of
        Some p \<Rightarrow> if is_deferred p deferred then Inr (JStr s) else lookup p ns
      | None \<Rightarrow>
          (case render ff ns deferred (scan s) of
             (_, Some e) \<Rightarrow> Inl e
           | (out, None) \<Rightarrow>
               if contains ''{{'' (strip_deferred out deferred) then Inl (Malformed s)
               else Inr (JStr out)))"

fun subst :: "(rat \<Rightarrow> string) \<Rightarrow> namespaces \<Rightarrow> string list \<Rightarrow> json \<Rightarrow> terror + json" where
  "subst ff ns deferred (JStr s) = substitute_string ff ns deferred s"
| "subst ff ns deferred (JObj m) =
     (case map_err (\<lambda>(k, v). case subst ff ns deferred v of Inl e \<Rightarrow> Inl e | Inr r \<Rightarrow> Inr (k, r)) m of
        Inl e \<Rightarrow> Inl e | Inr out \<Rightarrow> Inr (JObj out))"
| "subst ff ns deferred (JArr xs) =
     (case map_err (subst ff ns deferred) xs of Inl e \<Rightarrow> Inl e | Inr out \<Rightarrow> Inr (JArr out))"
| "subst ff ns deferred v = Inr v"

definition substitute :: "(rat \<Rightarrow> string) \<Rightarrow> json \<Rightarrow> namespaces \<Rightarrow> terror + json" where
  "substitute ff v ns = subst ff ns [] v"

definition substitute_deferring ::
  "(rat \<Rightarrow> string) \<Rightarrow> json \<Rightarrow> namespaces \<Rightarrow> string list \<Rightarrow> terror + json" where
  "substitute_deferring ff v ns deferred = subst ff ns deferred v"

text \<open>A nil params map (\<open>None\<close>) stays nil.\<close>

definition substitute_params_deferring ::
  "(rat \<Rightarrow> string) \<Rightarrow> jmap option \<Rightarrow> namespaces \<Rightarrow> string list \<Rightarrow> terror + jmap option" where
  "substitute_params_deferring ff params ns deferred =
     (case params of
        None \<Rightarrow> Inr None
      | Some m \<Rightarrow>
          (case subst ff ns deferred (JObj m) of
             Inl e \<Rightarrow> Inl e
           | Inr out \<Rightarrow> Inr (obj_entries out)))"

definition substitute_params :: "(rat \<Rightarrow> string) \<Rightarrow> jmap option \<Rightarrow> namespaces \<Rightarrow> terror + jmap option" where
  "substitute_params ff params ns = substitute_params_deferring ff params ns []"

definition namespace_entity :: string where
  "namespace_entity = ''entity''"

definition defer_entity :: "string list" where
  "defer_entity = [namespace_entity]"

section \<open>Inspection at declaration time\<close>

fun has :: "json \<Rightarrow> bool" where
  "has (JStr s) = contains ''{{'' s"
| "has (JObj m) = list_ex (\<lambda>(k, v). has v) m"
| "has (JArr xs) = list_ex has xs"
| "has v = False"

definition launch_fields :: "string \<Rightarrow> string list" where
  "launch_fields s = List.map_filter (\<lambda>p.
     case split_on (CHR ''.'') p of
       n # f # _ \<Rightarrow> if n = ''launch'' then Some f else None
     | _ \<Rightarrow> None) (token_paths s)"

definition launch_param_fields :: "string \<Rightarrow> string list" where
  "launch_param_fields s = List.map_filter (\<lambda>p.
     case split_on (CHR ''.'') p of
       n # f # g # _ \<Rightarrow> if n = ''launch'' \<and> f = ''params'' then Some g else None
     | _ \<Rightarrow> None) (token_paths s)"

fun paths :: "json \<Rightarrow> string list" where
  "paths (JStr s) = token_paths s"
| "paths (JObj m) = concat (map (\<lambda>(k, v). paths v) m)"
| "paths (JArr xs) = concat (map paths xs)"
| "paths v = []"

definition references :: "json \<Rightarrow> string list" where
  "references v = map (before_sep (CHR ''.'')) (paths v)"

section \<open>Properties\<close>

named_theorems template_scan \<open>how \<open>scan\<close> splits a string\<close>

lemma match_token_open: "match_token s = Some pr \<Longrightarrow> contains ''{{'' s"
  by (cases pr) (auto simp: match_token_def has_prefix_iff split: option.splits)

lemma scan_Nil [simp, template_scan]: "scan [] = []"
  by (simp add: scan.simps [of "[]"] match_token_def)

lemma scan_no_open [template_scan]: "\<not> contains ''{{'' s \<Longrightarrow> scan s = map Lit s"
proof (induction s)
  case (Cons c cs)
  then have "match_token (c # cs) = None" by (metis match_token_open option.exhaust)
  with Cons show ?case by (simp add: scan.simps [of "c # cs"])
qed simp

lemma scan_exact [template_scan]: "exact_token s = Some p \<Longrightarrow> scan s = [Tok p s]"
  by (auto simp: exact_token_def scan.simps [of s] split: option.splits prod.splits list.splits)

lemma token_paths_no_open: "\<not> contains ''{{'' s \<Longrightarrow> token_paths s = []"
  by (induction s) (auto simp: token_paths_def scan_no_open List.map_filter_def)

lemma token_paths_exact: "exact_token s = Some p \<Longrightarrow> token_paths s = [p]"
  by (simp add: token_paths_def scan_exact List.map_filter_def)

lemma token_paths_member: "p \<in> set (token_paths s) \<longleftrightarrow> (\<exists>txt. Tok p txt \<in> set (scan s))"
  by (force simp: token_paths_def List.map_filter_def split: piece.splits)

lemma render_bound:
  "render ff ns deferred ps = (out, None) \<Longrightarrow> Tok p txt \<in> set ps \<Longrightarrow>
    is_deferred p deferred \<or> (\<exists>v. lookup p ns = Inr v)"
  by (induction ff ns deferred ps arbitrary: out rule: render.induct)
    (auto simp: Let_def split: prod.splits if_splits sum.splits option.splits)

lemma substitute_string_bound:
  assumes "substitute_string ff ns deferred s = Inr w" and "p \<in> set (token_paths s)"
  shows "is_deferred p deferred \<or> (\<exists>v. lookup p ns = Inr v)"
proof (cases "contains ''{{'' s")
  case False
  with assms(2) show ?thesis by (simp add: token_paths_no_open)
next
  case True
  show ?thesis
  proof (cases "exact_token s")
    case None
    with assms(1) True obtain out where "render ff ns deferred (scan s) = (out, None)"
      by (auto simp: substitute_string_def split: prod.splits option.splits)
    moreover obtain t where "Tok p t \<in> set (scan s)" using assms(2) token_paths_member by blast
    ultimately show ?thesis by (rule render_bound)
  next
    case (Some q)
    with assms True show ?thesis
      by (auto simp: substitute_string_def token_paths_exact split: if_splits)
  qed
qed

text \<open>
  A binding never silently drops: when substitution succeeds, every token of the value, at any depth,
  was either looked up successfully or names a namespace the caller deferred.
\<close>

lemma subst_all_bound_aux:
  "subst ff ns deferred v = Inr w \<Longrightarrow> p \<in> set (paths v) \<Longrightarrow>
    is_deferred p deferred \<or> (\<exists>u. lookup p ns = Inr u)"
proof (induction v arbitrary: w)
  case (JStr s)
  then show ?case using substitute_string_bound by fastforce
next
  case (JArr xs)
  then obtain x where x: "x \<in> set xs" "p \<in> set (paths x)" by auto
  from JArr.prems(1) obtain out where "map_err (subst ff ns deferred) xs = Inr out"
    by (auto split: sum.splits)
  then obtain y where "subst ff ns deferred x = Inr y" using x(1) map_err_all by metis
  with x JArr.IH show ?case by blast
next
  case (JObj m)
  then obtain k x where x: "(k, x) \<in> set m" "p \<in> set (paths x)" by auto
  from JObj.prems(1) obtain out where
    "map_err (\<lambda>(k, v). case subst ff ns deferred v of Inl e \<Rightarrow> Inl e | Inr r \<Rightarrow> Inr (k, r)) m = Inr out"
    by (auto split: sum.splits)
  then obtain y where "subst ff ns deferred x = Inr y"
    using x(1) map_err_all by (fastforce split: sum.splits)
  moreover have "x \<in> Basic_BNFs.snds (k, x)" by simp
  ultimately show ?case using x JObj.IH by blast
qed simp_all

lemma subst_no_tokens_aux: "\<not> has v \<Longrightarrow> subst ff ns deferred v = Inr v"
proof (induction v)
  case (JObj m)
  have "map_err (\<lambda>(k, v). case subst ff ns deferred v of Inl e \<Rightarrow> Inl e | Inr r \<Rightarrow> Inr (k, r)) m = Inr m"
  proof (rule map_err_id)
    fix kv assume kv: "kv \<in> set m"
    obtain k v where e: "kv = (k, v)" by fastforce
    moreover have "v \<in> Basic_BNFs.snds kv" by (simp add: e)
    ultimately have "subst ff ns deferred v = Inr v"
      using JObj kv by (fastforce simp: list_ex_iff)
    with e show "(case kv of (k, v) \<Rightarrow> case subst ff ns deferred v of Inl e \<Rightarrow> Inl e | Inr r \<Rightarrow> Inr (k, r)) = Inr kv"
      by simp
  qed
  then show ?case by simp
next
  case (JArr xs)
  then have "map_err (subst ff ns deferred) xs = Inr xs"
    by (intro map_err_id) (auto simp: list_ex_iff)
  then show ?case by simp
qed (simp_all add: substitute_string_def)

text \<open>What a string result of an embedded substitution can still contain.\<close>

lemma substitute_string_embedded:
  assumes "substitute_string ff ns deferred s = Inr w" and "exact_token s = None"
  shows "\<exists>out. w = JStr out \<and> \<not> contains ''{{'' (strip_deferred out deferred)"
proof (cases "contains ''{{'' s")
  case True
  with assms show ?thesis
    by (auto simp: substitute_string_def split: option.splits prod.splits if_splits)
next
  case False
  with assms have w: "w = JStr s" by (simp add: substitute_string_def)
  have "strip_pieces d (map Lit cs) = cs" for d cs by (induction cs) auto
  with False have "strip_deferred s deferred = s" by (simp add: strip_deferred_def scan_no_open)
  with False w show ?thesis by simp
qed

subsection \<open>Printing a token and reading it back\<close>

definition token_of :: "string list \<Rightarrow> string" where
  "token_of segs = ''{{.'' @ join_with ''.'' segs @ ''}}''"

definition good_segs :: "string list \<Rightarrow> bool" where
  "good_segs segs \<longleftrightarrow>
     2 \<le> length segs \<and> (\<forall>s \<in> set segs. s \<noteq> [] \<and> list_all is_word s) \<and> is_letter (hd (hd segs))"

lemma not_word [simp]: "\<not> is_word (CHR ''.'')" "\<not> is_word (CHR ''}'')" "\<not> is_ws (CHR ''.'')" "\<not> is_ws (CHR ''}'')"
  by code_simp+

lemma takeWhile_word:
  "list_all is_word s \<Longrightarrow> \<not> is_word c \<Longrightarrow> takeWhile is_word (s @ c # t) = s \<and> dropWhile is_word (s @ c # t) = c # t"
  by (induction s) auto

lemma join_with_dots: "join_with ''.'' (seg # ss) = seg @ concat (map (\<lambda>s. CHR ''.'' # s) ss)"
  by (induction ss arbitrary: seg) auto

lemma parse_segs_join:
  "\<forall>s \<in> set ss. s \<noteq> [] \<and> list_all is_word s \<Longrightarrow>
    parse_segs (concat (map (\<lambda>s. CHR ''.'' # s) ss) @ CHR ''}'' # t) = (ss, CHR ''}'' # t)"
proof (induction ss)
  case Nil
  then show ?case by (simp add: parse_segs_Cons)
next
  case (Cons s ss)
  obtain c u where tail: "concat (map (\<lambda>s. CHR ''.'' # s) ss) @ CHR ''}'' # t = c # u" and c: "\<not> is_word c"
    by (cases ss) auto
  from Cons.prems have "list_all is_word s" "s \<noteq> []" by auto
  with c have "takeWhile is_word (s @ c # u) = s" "dropWhile is_word (s @ c # u) = c # u"
    by (simp_all add: takeWhile_word)
  with Cons \<open>s \<noteq> []\<close> show ?case by (simp add: parse_segs_Cons tail)
qed

lemma parse_path_join:
  assumes "good_segs segs"
  shows "parse_path (join_with ''.'' segs @ CHR ''}'' # t) = Some (join_with ''.'' segs, CHR ''}'' # t)"
proof -
  from assms obtain seg ss where segs: "segs = seg # ss" "ss \<noteq> []"
    by (cases segs; cases "tl segs") (auto simp: good_segs_def)
  have words: "\<forall>s \<in> set ss. s \<noteq> [] \<and> list_all is_word s" "seg \<noteq> []" "list_all is_word seg" "is_letter (hd seg)"
    using assms segs by (auto simp: good_segs_def)
  obtain c u where tail: "concat (map (\<lambda>s. CHR ''.'' # s) ss) @ CHR ''}'' # t = c # u" and c: "\<not> is_word c"
    using segs(2) by (cases ss) auto
  have split: "join_with ''.'' segs @ CHR ''}'' # t = seg @ c # u"
    using tail by (simp add: segs(1) join_with_dots del: join_with.simps)
  have "takeWhile is_word (seg @ c # u) = seg" "dropWhile is_word (seg @ c # u) = c # u"
    using words c by (simp_all add: takeWhile_word)
  moreover have "parse_segs (c # u) = (ss, CHR ''}'' # t)"
    using parse_segs_join [OF words(1), of t] tail by simp
  ultimately show ?thesis
    using words segs unfolding split by (simp add: parse_path_def Let_def)
qed

lemma exact_token_of: "good_segs segs \<Longrightarrow> exact_token (token_of segs) = Some (join_with ''.'' segs)"
  using parse_path_join [of segs "''}''"]
  by (simp add: exact_token_def match_token_def token_of_def)

lemma lookup_join:
  assumes "good_segs segs"
  shows "lookup (join_with ''.'' segs) ns =
    (case map_of ns (hd segs) of None \<Rightarrow> Inl (UnknownNamespace (hd segs))
     | Some data \<Rightarrow> lookup_segs (join_with ''.'' segs) (tl segs) (JObj data))"
proof -
  have "CHR ''.'' \<notin> set s" if "s \<in> set segs" for s
    using assms that not_word(1) unfolding good_segs_def list_all_iff by metis
  then have "split_on (CHR ''.'') (join_with ''.'' segs) = segs"
    using assms by (intro split_join) (auto simp: good_segs_def)
  then show ?thesis by (simp add: lookup_def Let_def)
qed

subsection \<open>Binding in two stages\<close>

text \<open>Every string of the value is free of tokens or exactly one token.\<close>

fun staged :: "json \<Rightarrow> bool" where
  "staged (JStr s) = (\<not> contains ''{{'' s \<or> exact_token s \<noteq> None)"
| "staged (JObj m) = list_all (\<lambda>(k, v). staged v) m"
| "staged (JArr xs) = list_all staged xs"
| "staged v = True"

lemma lookup_segs_plain: "\<not> has cur \<Longrightarrow> lookup_segs path segs cur = Inr v \<Longrightarrow> \<not> has v"
proof (induction path segs cur rule: lookup_segs.induct)
  case (2 path seg segs cur)
  then obtain m u where m: "cur = JObj m" "map_of m seg = Some u" and u: "lookup_segs path segs u = Inr v"
    by (auto split: option.splits)
  from m have "(seg, u) \<in> set m" by (auto dest: map_of_SomeD)
  with 2(2) m have "\<not> has u" by (auto simp: list_ex_iff)
  with 2 m u show ?case by auto
qed simp

lemma lookup_plain: "\<forall>(n, d) \<in> set ns. \<not> has (JObj d) \<Longrightarrow> lookup p ns = Inr v \<Longrightarrow> \<not> has v"
proof -
  assume plain: "\<forall>(n, d) \<in> set ns. \<not> has (JObj d)" and "lookup p ns = Inr v"
  then obtain d where d: "map_of ns (before_sep (CHR ''.'') p) = Some d"
    "lookup_segs p (tl (split_on (CHR ''.'') p)) (JObj d) = Inr v"
    by (auto simp: lookup_def Let_def hd_split_on split: option.splits)
  with plain have "\<not> has (JObj d)" by (auto dest: map_of_SomeD)
  with d(2) show ?thesis by (rule lookup_segs_plain [rotated])
qed

lemma lookup_append:
  "lookup p (ns1 @ ns2) =
    (if before_sep (CHR ''.'') p \<in> set (keys ns1) then lookup p ns1 else lookup p ns2)"
  by (auto simp: lookup_def Let_def hd_split_on map_add_def map_of_eq_None_iff split: option.splits
      dest: map_of_Some_key)

lemma lookup_known: "lookup p ns = Inr v \<Longrightarrow> before_sep (CHR ''.'') p \<in> set (keys ns)"
  by (auto simp: lookup_def Let_def hd_split_on split: option.splits dest: map_of_Some_key)

lemma two_stage_string:
  assumes "staged (JStr s)" and "substitute_string ff ns1 D s = Inr v1"
    and "\<forall>(n, d) \<in> set ns1. \<not> has (JObj d)" and "set (keys ns1) \<inter> set D = {}"
  shows "subst ff ns2 [] v1 = subst ff (ns1 @ ns2) [] (JStr s)"
proof (cases "contains ''{{'' s")
  case False
  with assms(2) show ?thesis by (auto simp: substitute_string_def)
next
  case True
  with assms(1) obtain p where p: "exact_token s = Some p" by auto
  show ?thesis
  proof (cases "is_deferred p D")
    case True
    with assms(4) have "before_sep (CHR ''.'') p \<notin> set (keys ns1)" by (auto simp: is_deferred_def)
    with True p \<open>contains ''{{'' s\<close> assms(2) show ?thesis
      by (auto simp: substitute_string_def lookup_append is_deferred_def)
  next
    case False
    with p \<open>contains ''{{'' s\<close> assms(2) have v1: "lookup p ns1 = Inr v1"
      by (auto simp: substitute_string_def)
    then have "\<not> has v1" by (rule lookup_plain [OF assms(3)])
    then have "subst ff ns2 [] v1 = Inr v1" by (rule subst_no_tokens_aux)
    moreover have "lookup p (ns1 @ ns2) = Inr v1" using v1 lookup_known by (simp add: lookup_append)
    ultimately show ?thesis using p \<open>contains ''{{'' s\<close>
      by (simp add: substitute_string_def is_deferred_def)
  qed
qed

lemma two_stage_aux:
  assumes "\<forall>(n, d) \<in> set ns1. \<not> has (JObj d)" and "set (keys ns1) \<inter> set D = {}"
  shows "staged v \<Longrightarrow> subst ff ns1 D v = Inr v1 \<Longrightarrow> subst ff ns2 [] v1 = subst ff (ns1 @ ns2) [] v"
proof (induction v arbitrary: v1)
  case (JStr s)
  then show ?case using two_stage_string [OF JStr.prems(1) _ assms] by simp
next
  case (JArr xs)
  then obtain ys where ys: "map_err (subst ff ns1 D) xs = Inr ys" "v1 = JArr ys"
    by (auto split: sum.splits)
  have "map_err (subst ff ns2 []) ys = map_err (subst ff (ns1 @ ns2) []) xs"
    by (rule map_err_stages [OF ys(1)]) (use JArr in \<open>auto simp: list_all_iff\<close>)
  with ys(2) show ?case by simp
next
  case (JObj m)
  let ?f = "\<lambda>ns D (k :: string, v). case subst ff ns D v of Inl e \<Rightarrow> Inl e | Inr r \<Rightarrow> Inr (k, r)"
  from JObj.prems(2) obtain ys where ys: "map_err (?f ns1 D) m = Inr ys" "v1 = JObj ys"
    by (auto split: sum.splits)
  have "map_err (?f ns2 []) ys = map_err (?f (ns1 @ ns2) []) m"
  proof (rule map_err_stages [OF ys(1)])
    fix kv kv' assume kv: "kv \<in> set m" and eq: "?f ns1 D kv = Inr kv'"
    obtain k x where e: "kv = (k, x)" by fastforce
    with eq obtain y where y: "subst ff ns1 D x = Inr y" "kv' = (k, y)" by (auto split: sum.splits)
    have "staged x" using JObj.prems(1) kv e by (auto simp: list_all_iff)
    moreover have "x \<in> Basic_BNFs.snds kv" by (simp add: e)
    ultimately have "subst ff ns2 [] y = subst ff (ns1 @ ns2) [] x" using JObj.IH kv y(1) by blast
    with e y show "?f ns2 [] kv' = ?f (ns1 @ ns2) [] kv" by simp
  qed
  with ys(2) show ?case by simp
qed auto

section \<open>Properties\<close>

text \<open>
  Binding fails closed: when a substitution succeeds, every token anywhere in the value was looked
  up successfully or names a namespace that was deferred on purpose; a typo never passes through.
\<close>
theorem subst_fails_closed:
  assumes "substitute_deferring ff v ns deferred = Inr w" and "p \<in> set (paths v)"
  shows "is_deferred p deferred \<or> (\<exists>u. lookup p ns = Inr u)"
  using assms unfolding substitute_deferring_def by (rule subst_all_bound_aux)

text \<open>
  No unresolved text survives: a string that is not exactly one token either fails or yields a
  string that, once the deferred tokens are taken out, holds no \<open>{{\<close> any more.
\<close>
theorem subst_no_residue:
  assumes "substitute_deferring ff (JStr s) ns deferred = Inr w" and "exact_token s = None"
  shows "\<exists>out. w = JStr out \<and> \<not> contains ''{{'' (strip_deferred out deferred)"
  using assms substitute_string_embedded by (simp add: substitute_deferring_def)

text \<open>
  A string that is exactly one token takes the referenced value with its native type (a number
  stays a number): printing a path as a token and substituting it is the field-by-field lookup.
\<close>
theorem exact_token_native:
  assumes "good_segs segs"
  shows "substitute ff (JStr (token_of segs)) ns =
    (case map_of ns (hd segs) of
       None \<Rightarrow> Inl (UnknownNamespace (hd segs))
     | Some data \<Rightarrow> lookup_segs (join_with ''.'' segs) (tl segs) (JObj data))"
  using exact_token_of [OF assms] lookup_join [OF assms, of ns]
  by (simp add: substitute_def substitute_string_def is_deferred_def token_of_def has_prefix_iff)

text \<open>
  The two-stage binding is one binding: deferring some namespaces and resolving the result later
  gives what a single substitution with all the namespaces gives, for values whose strings are plain
  or exactly one token, when the first stage's data carries no tokens of its own.
\<close>
theorem two_stage_binding:
  assumes "staged v" and "substitute_deferring ff v ns1 deferred = Inr v1"
    and "\<forall>(n, d) \<in> set ns1. \<not> has (JObj d)" and "set (keys ns1) \<inter> set deferred = {}"
  shows "substitute ff v1 ns2 = substitute ff v (ns1 @ ns2)"
  using two_stage_aux [OF assms(3,4,1)] assms(2) by (simp add: substitute_deferring_def substitute_def)

section \<open>The properties at concrete values\<close>

definition ex_spec :: namespaces where
  "ex_spec = [(''spec'', [(''port'', JInt 8443), (''name'', JStr ''web'')])]"

definition ex_value :: json where
  "ex_value = JObj [(''cn'', JStr ''{{.entity.dns.fqdn}}''), (''port'', JStr ''{{.spec.port}}'')]"

definition ex_entity :: namespaces where
  "ex_entity = [(''entity'', [(''dns'', JObj [(''fqdn'', JStr ''a.example'')])])]"

lemma ex_stage1:
  "substitute_deferring (\<lambda>_. []) ex_value ex_spec defer_entity =
     Inr (JObj [(''cn'', JStr ''{{.entity.dns.fqdn}}''), (''port'', JInt 8443)])"
  by code_simp

theorem subst_fails_closed_witness:
  "''spec.port'' \<in> set (paths ex_value) \<and>
   (is_deferred ''spec.port'' defer_entity \<or> (\<exists>u. lookup ''spec.port'' ex_spec = Inr u))"
proof -
  have p: "''spec.port'' \<in> set (paths ex_value)" by code_simp
  from subst_fails_closed [OF ex_stage1 p] p show ?thesis by blast
qed

theorem subst_no_residue_witness:
  "\<exists>out. substitute_deferring (\<lambda>_. []) (JStr ''host {{.spec.name}} {{.entity.id}}'') ex_spec defer_entity = Inr (JStr out) \<and>
     \<not> contains ''{{'' (strip_deferred out defer_entity)"
proof -
  have s: "substitute_deferring (\<lambda>_. []) (JStr ''host {{.spec.name}} {{.entity.id}}'') ex_spec defer_entity
      = Inr (JStr ''host web {{.entity.id}}'')" by code_simp
  have "exact_token ''host {{.spec.name}} {{.entity.id}}'' = None" by code_simp
  from subst_no_residue [OF s this] s show ?thesis by auto
qed

theorem exact_token_native_witness:
  "substitute (\<lambda>_. []) (JStr (token_of [''spec'', ''port''])) ex_spec = Inr (JInt 8443)"
proof -
  have "good_segs [''spec'', ''port'']" by code_simp
  from exact_token_native [OF this] show ?thesis by (simp add: ex_spec_def)
qed

theorem two_stage_binding_witness:
  "substitute (\<lambda>_. []) ex_value (ex_spec @ ex_entity) =
     Inr (JObj [(''cn'', JStr ''a.example''), (''port'', JInt 8443)])"
proof -
  have "staged ex_value" by code_simp
  moreover have "\<forall>(n, d) \<in> set ex_spec. \<not> has (JObj d)" by code_simp
  moreover have "set (keys ex_spec) \<inter> set defer_entity = {}"
    by (simp add: ex_spec_def defer_entity_def namespace_entity_def)
  ultimately have "substitute (\<lambda>_. []) (JObj [(''cn'', JStr ''{{.entity.dns.fqdn}}''), (''port'', JInt 8443)]) ex_entity
      = substitute (\<lambda>_. []) ex_value (ex_spec @ ex_entity)"
    by (rule two_stage_binding [OF _ ex_stage1])
  moreover have "substitute (\<lambda>_. []) (JObj [(''cn'', JStr ''{{.entity.dns.fqdn}}''), (''port'', JInt 8443)]) ex_entity
      = Inr (JObj [(''cn'', JStr ''a.example''), (''port'', JInt 8443)])" by code_simp
  ultimately show ?thesis by simp
qed

end
