(* ===== verification/Overlay.thy ===== *)
theory Overlay
  imports Json
begin

text \<open>
  Package \<open>core/internal/overlay\<close>: the defaults/override merge.  A layer is yielding (a Blueprint's
  defaults) or declaring (an Intent spec, an Assignment's values); \<open>merge\<close> folds an ordered list of
  layers into one value map, with the provenance of every path and the scalar paths claimed by a
  declaring layer.  The Go code mutates nested maps in place; the model threads the triple
  (values, provenance, claims) and puts the merged submap back.  The lemmas show the two resolutions
  the package promises: a scalar path has at most one declaring layer and keeps its value, a list only
  grows, and a default shows through exactly where nobody declared.
\<close>

record layer =
  layer_name :: string
  layer_values :: jmap
  yielding :: bool

type_synonym provenance = "(string \<times> string list) list"
type_synonym claims = "(string \<times> string) list"
type_synonym mstate = "jmap \<times> provenance \<times> claims"

datatype oerror =
    MapOver string string \<comment> \<open>path, kind of the earlier value\<close>
  | ListOver string string
  | ScalarOver string string
  | DoubleClaim string string \<comment> \<open>path, the layer that already declared it\<close>

fun kind_of :: "json \<Rightarrow> string" where
  "kind_of (JObj _) = ''map''"
| "kind_of (JArr _) = ''list''"
| "kind_of _ = ''scalar''"

definition contains_deep :: "json list \<Rightarrow> json \<Rightarrow> bool" where
  "contains_deep xs e = list_ex (\<lambda>x. deep_equal x e) xs"

fun union_append :: "json list \<Rightarrow> json list \<Rightarrow> json list" where
  "union_append out [] = out"
| "union_append out (e # add) = union_append (if contains_deep out e then out else out @ [e]) add"

text \<open>\<open>prov[path] = append(prov[path], layer)\<close>\<close>

definition note_layer :: "string \<Rightarrow> string \<Rightarrow> provenance \<Rightarrow> provenance" where
  "note_layer path name prov = aput path (case map_of prov path of None \<Rightarrow> [name] | Some ns \<Rightarrow> ns @ [name]) prov"

definition sub_path :: "string \<Rightarrow> string \<Rightarrow> string" where
  "sub_path prefix k = (if prefix = [] then k else prefix @ ''.'' @ k)"

text \<open>The three arms of the type switch in \<open>mergeInto\<close>; the map arm yields the submap to merge into.\<close>

definition map_arm :: "string \<Rightarrow> string \<Rightarrow> jmap \<Rightarrow> oerror + jmap" where
  "map_arm path k dst =
     (case map_of dst k of
        None \<Rightarrow> Inr []
      | Some (JObj dm) \<Rightarrow> Inr dm
      | Some v \<Rightarrow> Inl (MapOver path (kind_of v)))"

definition list_arm :: "layer \<Rightarrow> string \<Rightarrow> string \<Rightarrow> json list \<Rightarrow> mstate \<Rightarrow> oerror + mstate" where
  "list_arm l path k xs st =
     (case st of (dst, prov, claimed) \<Rightarrow>
        case map_of dst k of
          None \<Rightarrow> Inr (aput k (JArr (union_append [] xs)) dst, note_layer path (layer_name l) prov, claimed)
        | Some (JArr ex) \<Rightarrow>
            Inr (aput k (JArr (union_append ex xs)) dst, note_layer path (layer_name l) prov, claimed)
        | Some v \<Rightarrow> Inl (ListOver path (kind_of v)))"

definition scalar_arm :: "layer \<Rightarrow> string \<Rightarrow> string \<Rightarrow> json \<Rightarrow> mstate \<Rightarrow> oerror + mstate" where
  "scalar_arm l path k sv st =
     (case st of (dst, prov, claimed) \<Rightarrow>
        if (case map_of dst k of Some v \<Rightarrow> kind_of v \<noteq> ''scalar'' | None \<Rightarrow> False)
        then Inl (ScalarOver path (kind_of (the (map_of dst k))))
        else if yielding l
        then (if map_of claimed path \<noteq> None then Inr (dst, prov, claimed)
              else Inr (aput k sv dst, note_layer path (layer_name l) prov, claimed))
        else (case map_of claimed path of
                Some prev \<Rightarrow> Inl (DoubleClaim path prev)
              | None \<Rightarrow> Inr (aput k sv dst, note_layer path (layer_name l) prov,
                             aput path (layer_name l) claimed)))"

function merge_into :: "layer \<Rightarrow> string \<Rightarrow> jmap \<Rightarrow> mstate \<Rightarrow> oerror + mstate" where
  "merge_into l prefix [] st = Inr st"
| "merge_into l prefix ((k, sv) # es) (dst, prov, claimed) =
     (case (case sv of
              JObj m \<Rightarrow>
                (case map_arm (sub_path prefix k) k dst of
                   Inl e \<Rightarrow> Inl e
                 | Inr dm \<Rightarrow>
                     (case merge_into l (sub_path prefix k) (sorted_entries m) (dm, prov, claimed) of
                        Inl e \<Rightarrow> Inl e
                      | Inr (dm', prov', claimed') \<Rightarrow> Inr (aput k (JObj dm') dst, prov', claimed')))
            | JArr xs \<Rightarrow> list_arm l (sub_path prefix k) k xs (dst, prov, claimed)
            | _ \<Rightarrow> scalar_arm l (sub_path prefix k) k sv (dst, prov, claimed)) of
        Inl e \<Rightarrow> Inl e
      | Inr st' \<Rightarrow> merge_into l prefix es st')"
  by pat_completeness auto
termination
  by (relation "measure (\<lambda>(l, p, es, st). size_list (size_prod (\<lambda>_. 0) size) es)")
    (auto simp: size_list_sorted_entries)

definition merge_layer :: "layer \<Rightarrow> mstate \<Rightarrow> (string \<times> oerror) + mstate" where
  "merge_layer l st =
     (case merge_into l [] (sorted_entries (layer_values l)) st of
        Inl e \<Rightarrow> Inl (layer_name l, e)
      | Inr st' \<Rightarrow> Inr st')"

definition merge :: "layer list \<Rightarrow> (string \<times> oerror) + (jmap \<times> provenance)" where
  "merge layers =
     (case fold_err merge_layer layers ([], [], []) of
        Inl e \<Rightarrow> Inl e
      | Inr (out, prov, claimed) \<Rightarrow> Inr (out, prov))"

section \<open>Leaves of a layer\<close>

text \<open>
  A key path addresses a value by its keys; \<open>dotted\<close> is the path string the code uses for it.
  \<open>leaves es\<close> are the scalars of a value map with their key paths, \<open>list_leaves es\<close> its lists.
\<close>

fun dotted :: "string \<Rightarrow> string list \<Rightarrow> string" where
  "dotted prefix [] = prefix"
| "dotted prefix (k # ks) = dotted (sub_path prefix k) ks"

fun get_at :: "string list \<Rightarrow> jmap \<Rightarrow> json option" where
  "get_at [] m = None"
| "get_at (k # ks) m =
     (case map_of m k of
        None \<Rightarrow> None
      | Some v \<Rightarrow> if ks = [] then Some v else (case v of JObj d \<Rightarrow> get_at ks d | _ \<Rightarrow> None))"

definition scalar :: "json \<Rightarrow> bool" where
  "scalar v \<longleftrightarrow> kind_of v = ''scalar''"

inductive leaf_of :: "jmap \<Rightarrow> string list \<Rightarrow> json \<Rightarrow> bool" where
  here: "(k, v) \<in> set es \<Longrightarrow> \<forall>m. v \<noteq> JObj m \<Longrightarrow> leaf_of es [k] v"
| deeper: "(k, JObj m) \<in> set es \<Longrightarrow> leaf_of m ks v \<Longrightarrow> leaf_of es (k # ks) v"

inductive_simps leaf_of_Nil [simp]: "leaf_of [] ks v"

lemma leaf_of_mono: "leaf_of es ks v \<Longrightarrow> set es \<subseteq> set fs \<Longrightarrow> leaf_of fs ks v"
  by (induction es ks v arbitrary: fs rule: leaf_of.induct) (blast intro: leaf_of.intros)+

lemma leaf_of_Cons:
  "leaf_of ((k, sv) # es) ks v \<longleftrightarrow>
     (ks = [k] \<and> v = sv \<and> (\<forall>m. sv \<noteq> JObj m)) \<or>
     (\<exists>m ks'. sv = JObj m \<and> ks = k # ks' \<and> leaf_of m ks' v) \<or> leaf_of es ks v"
  (is "?L \<longleftrightarrow> ?R")
proof
  assume ?L
  then show ?R
  proof cases
    case (here k')
    then show ?thesis by (cases "(k', v) = (k, sv)") (simp_all, metis leaf_of.here)
  next
    case (deeper k' m ks')
    then consider "k' = k" "sv = JObj m" | "leaf_of es ks v"
      using leaf_of.deeper [of k' m es ks' v] by auto
    then show ?thesis using deeper by cases auto
  qed
next
  assume ?R
  then show ?L
  proof (elim disjE exE conjE)
    assume "leaf_of es ks v"
    then show ?L by (rule leaf_of_mono) auto
  next
    assume "ks = [k]" "v = sv" "\<forall>m. sv \<noteq> JObj m"
    then show ?L by (metis leaf_of.here list.set_intros(1))
  next
    fix m ks' assume "sv = JObj m" "ks = k # ks'" "leaf_of m ks' v"
    then show ?L by (metis leaf_of.deeper list.set_intros(1))
  qed
qed

lemma leaf_of_set: "set es = set fs \<Longrightarrow> leaf_of es ks v = leaf_of fs ks v"
  using leaf_of_mono by blast

lemma leaf_of_sorted [simp]: "leaf_of (sorted_entries m) = leaf_of m"
  by (intro ext leaf_of_set) simp

lemma leaf_nonempty: "leaf_of es ks v \<Longrightarrow> ks \<noteq> []"
  by (auto elim: leaf_of.cases)

lemma leaf_not_obj: "leaf_of es ks v \<Longrightarrow> v \<noteq> JObj m"
  by (induction rule: leaf_of.induct) auto

lemma scalar_arm_eq:
  "scalar_arm l path k sv (dst, prov, claimed) =
     (if \<exists>v. map_of dst k = Some v \<and> kind_of v \<noteq> ''scalar''
      then Inl (ScalarOver path (kind_of (the (map_of dst k))))
      else if yielding l
      then (if map_of claimed path \<noteq> None then Inr (dst, prov, claimed)
            else Inr (aput k sv dst, note_layer path (layer_name l) prov, claimed))
      else (case map_of claimed path of
              Some prev \<Rightarrow> Inl (DoubleClaim path prev)
            | None \<Rightarrow> Inr (aput k sv dst, note_layer path (layer_name l) prov,
                           aput path (layer_name l) claimed)))"
  by (auto simp: scalar_arm_def split: option.splits)

lemma scalar_simps [simp]:
  "scalar JNull" "scalar (JBool b)" "scalar (JInt i)" "scalar (JFloat f)" "scalar (JStr s)"
  "\<not> scalar (JArr xs)" "\<not> scalar (JObj m)"
  by (simp_all add: scalar_def)

section \<open>What one merge does to the leaves\<close>

lemma union_append_prefix: "\<exists>ys. union_append out add = out @ ys"
  by (induction out add rule: union_append.induct) (auto split: if_splits)

lemma union_append_keeps: "contains_deep out e \<Longrightarrow> contains_deep (union_append out add) e"
  using union_append_prefix [of out add] by (auto simp: contains_deep_def)

lemma union_append_contains: "list_all json_ok add \<Longrightarrow> x \<in> set add \<Longrightarrow> contains_deep (union_append out add) x"
proof (induction out add rule: union_append.induct)
  case (2 out e add)
  have "contains_deep (if contains_deep out e then out else out @ [e]) e"
    using 2(2) by (auto simp: contains_deep_def deep_equal_refl)
  then show ?case using 2 by (auto intro: union_append_keeps)
qed simp

text \<open>
  \<open>keeps l prefix st st'\<close>: what the step from \<open>st\<close> to \<open>st'\<close> guarantees for the values below
  \<open>prefix\<close>: claims only grow, a claimed scalar keeps its value, and a list keeps what it holds.
\<close>

definition keeps :: "string \<Rightarrow> mstate \<Rightarrow> mstate \<Rightarrow> bool" where
  "keeps prefix st st' \<longleftrightarrow>
     (case (st, st') of ((dst, prov, claimed), (dst', prov', claimed')) \<Rightarrow>
        (\<forall>p n. map_of claimed p = Some n \<longrightarrow> map_of claimed' p = Some n) \<and>
        (\<forall>ks v. get_at ks dst = Some v \<and> scalar v \<and> map_of claimed (dotted prefix ks) \<noteq> None \<longrightarrow>
           get_at ks dst' = Some v) \<and>
        (\<forall>ks xs. get_at ks dst = Some (JArr xs) \<longrightarrow> (\<exists>ys. get_at ks dst' = Some (JArr (xs @ ys)))))"

lemma keeps_refl: "keeps prefix st st"
  by (cases st) (auto simp: keeps_def)

lemma keeps_trans: "keeps prefix st st' \<Longrightarrow> keeps prefix st' st'' \<Longrightarrow> keeps prefix st st''"
proof -
  assume a: "keeps prefix st st'" and b: "keeps prefix st' st''"
  obtain d p c d' p' c' d'' p'' c'' where st: "st = (d, p, c)" "st' = (d', p', c')" "st'' = (d'', p'', c'')"
    by (cases st; cases st'; cases st'') auto
  have "\<exists>ys. get_at ks d'' = Some (JArr (xs @ ys))" if "get_at ks d = Some (JArr xs)" for ks xs
    using a b that unfolding st keeps_def by simp (metis append.assoc)
  with a b show ?thesis unfolding st keeps_def by simp (metis option.exhaust option.distinct(1))
qed

lemma get_at_aput:
  "get_at ks (aput k w dst) =
     (if ks \<noteq> [] \<and> hd ks = k
      then (if tl ks = [] then Some w else case w of JObj d \<Rightarrow> get_at (tl ks) d | _ \<Rightarrow> None)
      else get_at ks dst)"
  by (cases ks) (auto simp: map_of_aput split: json.split)

lemma get_at_Cons_obj: "map_of dst k = Some (JObj d) \<Longrightarrow> ks \<noteq> [] \<Longrightarrow> get_at (k # ks) dst = get_at ks d"
  by simp

text \<open>The scalar and the list arm write one key; the claim of its path decides.\<close>

lemma scalar_arm_keeps:
  assumes "scalar_arm l (sub_path prefix k) k sv st = Inr st'" and "scalar sv"
  shows "keeps prefix st st'"
proof -
  obtain d p c where st: "st = (d, p, c)" by (cases st) auto
  have kd: "kind_of v = ''scalar''" if "map_of d k = Some v" for v
    using assms(1) that by (auto simp: st scalar_arm_eq split: if_splits)
  then have below: "get_at (k # ks) d = None" if "ks \<noteq> []" for ks
    using that by (auto split: option.splits json.splits)
  have nolist: "map_of d k \<noteq> Some (JArr xs)" for xs using kd [of "JArr xs"] by auto
  show ?thesis
    using assms below nolist
    by (auto simp: st keeps_def scalar_arm_eq map_of_aput get_at_aput neq_Nil_conv
        split: if_splits option.splits)
qed

lemma list_arm_keeps:
  assumes "list_arm l path k xs st = Inr st'"
  shows "keeps prefix st st'"
proof -
  obtain d p c where st: "st = (d, p, c)" by (cases st) auto
  from assms consider (new) "map_of d k = None" "st' = (aput k (JArr (union_append [] xs)) d, note_layer path (layer_name l) p, c)"
    | (old) ex where "map_of d k = Some (JArr ex)"
        "st' = (aput k (JArr (union_append ex xs)) d, note_layer path (layer_name l) p, c)"
    by (auto simp: st list_arm_def split: option.splits json.splits)
  then show ?thesis
  proof cases
    case new
    then show ?thesis by (auto simp: st keeps_def get_at_aput neq_Nil_conv)
  next
    case old
    with union_append_prefix [of ex xs] show ?thesis
      by (auto simp: st keeps_def get_at_aput neq_Nil_conv)
  qed
qed

text \<open>The map arm: what holds below the key holds for the whole map after the submap is put back.\<close>

lemma map_arm_step_keeps:
  assumes arm: "map_arm path k dst = Inr dm"
    and sub: "keeps (sub_path prefix k) (dm, prov, claimed) (dm', prov', claimed')"
  shows "keeps prefix (dst, prov, claimed) (aput k (JObj dm') dst, prov', claimed')"
proof -
  have sub_dst: "map_of dst k = Some v \<Longrightarrow> v = JObj dm" for v
    using arm by (auto simp: map_arm_def split: json.splits)
  have below: "ks' \<noteq> [] \<and> get_at ks' dm = Some v"
    if "get_at (k # ks') dst = Some v" "\<And>m. v \<noteq> JObj m" for ks' v
    using that sub_dst by (cases "map_of dst k") (auto split: if_splits)
  show ?thesis
    unfolding keeps_def prod.case
  proof (intro conjI allI impI)
    show "map_of claimed' p = Some n" if "map_of claimed p = Some n" for p n
      using sub that by (simp add: keeps_def)
  next
    fix ks v
    assume a: "get_at ks dst = Some v \<and> scalar v \<and> map_of claimed (dotted prefix ks) \<noteq> None"
    show "get_at ks (aput k (JObj dm') dst) = Some v"
    proof (cases "\<exists>ks'. ks = k # ks'")
      case True
      then obtain ks' where ks: "ks = k # ks'" by blast
      with a below have "ks' \<noteq> [] \<and> get_at ks' dm = Some v" by force
      with a ks sub show ?thesis by (auto simp: keeps_def get_at_aput)
    next
      case False
      with a show ?thesis by (cases ks) (auto simp: get_at_aput)
    qed
  next
    fix ks xs
    assume a: "get_at ks dst = Some (JArr xs)"
    show "\<exists>ys. get_at ks (aput k (JObj dm') dst) = Some (JArr (xs @ ys))"
    proof (cases "\<exists>ks'. ks = k # ks'")
      case True
      then obtain ks' where ks: "ks = k # ks'" by blast
      with a below have "ks' \<noteq> [] \<and> get_at ks' dm = Some (JArr xs)" by force
      with a ks sub show ?thesis by (auto simp: keeps_def get_at_aput)
    next
      case False
      with a show ?thesis by (cases ks) (auto simp: get_at_aput)
    qed
  qed
qed

text \<open>The step of one entry, as a function, and the loop over the entries as its fold.\<close>

definition entry_step :: "layer \<Rightarrow> string \<Rightarrow> string \<Rightarrow> json \<Rightarrow> mstate \<Rightarrow> oerror + mstate" where
  "entry_step l prefix k sv st =
     (case st of (dst, prov, claimed) \<Rightarrow>
       (case sv of
          JObj m \<Rightarrow>
            (case map_arm (sub_path prefix k) k dst of
               Inl e \<Rightarrow> Inl e
             | Inr dm \<Rightarrow>
                 (case merge_into l (sub_path prefix k) (sorted_entries m) (dm, prov, claimed) of
                    Inl e \<Rightarrow> Inl e
                  | Inr (dm', prov', claimed') \<Rightarrow> Inr (aput k (JObj dm') dst, prov', claimed')))
        | JArr xs \<Rightarrow> list_arm l (sub_path prefix k) k xs (dst, prov, claimed)
        | _ \<Rightarrow> scalar_arm l (sub_path prefix k) k sv (dst, prov, claimed)))"

lemma merge_into_Cons:
  "merge_into l prefix ((k, sv) # es) st =
     (case entry_step l prefix k sv st of Inl e \<Rightarrow> Inl e | Inr st' \<Rightarrow> merge_into l prefix es st')"
  by (cases st) (simp add: entry_step_def)

lemma entry_step_scalar: "scalar sv \<Longrightarrow> entry_step l prefix k sv st = scalar_arm l (sub_path prefix k) k sv st"
  by (cases st; cases sv) (auto simp: entry_step_def)

lemma entry_step_list: "entry_step l prefix k (JArr xs) st = list_arm l (sub_path prefix k) k xs st"
  by (cases st) (auto simp: entry_step_def)

lemma entry_step_obj:
  "entry_step l prefix k (JObj m) (dst, prov, claimed) = Inr st' \<longleftrightarrow>
     (\<exists>dm dm' prov' claimed'. map_arm (sub_path prefix k) k dst = Inr dm \<and>
        merge_into l (sub_path prefix k) (sorted_entries m) (dm, prov, claimed) = Inr (dm', prov', claimed') \<and>
        st' = (aput k (JObj dm') dst, prov', claimed'))"
  by (auto simp: entry_step_def split: sum.splits prod.splits)

declare merge_into.simps(2) [simp del]

text \<open>Induction over the entries of a layer and, for a map entry, over its submap.\<close>

lemma merge_into_induct [case_names Nil Entry]:
  assumes "\<And>prefix. P prefix []"
    and "\<And>prefix k sv es. (\<And>m q. sv = JObj m \<Longrightarrow> P q (sorted_entries m)) \<Longrightarrow> P prefix es \<Longrightarrow>
           P prefix ((k, sv) # es)"
  shows "P prefix es"
proof (induction "size_list (size_prod (\<lambda>_. 0) size) es" arbitrary: prefix es rule: less_induct)
  case less
  show ?case
  proof (cases es)
    case Nil
    then show ?thesis using assms(1) by simp
  next
    case (Cons kv es')
    obtain k sv where kv: "kv = (k, sv)" by fastforce
    show ?thesis
      unfolding Cons kv
    proof (rule assms(2))
      show "P q (sorted_entries m)" if "sv = JObj m" for m q
        by (rule less) (use Cons kv that in \<open>simp add: size_list_sorted_entries\<close>)
      show "P prefix es'" by (rule less) (use Cons kv in simp)
    qed
  qed
qed

lemma json_kind_cases: obtains "scalar v" | xs where "v = JArr xs" | m where "v = JObj m"
  by (cases v) auto

lemma merge_into_keeps: "merge_into l prefix es st = Inr st' \<Longrightarrow> keeps prefix st st'"
proof (induction prefix es arbitrary: st st' rule: merge_into_induct)
  case (Nil prefix)
  then show ?case by (simp add: keeps_refl)
next
  case (Entry prefix k sv es)
  then obtain st1 where st1: "entry_step l prefix k sv st = Inr st1" "merge_into l prefix es st1 = Inr st'"
    by (auto simp: merge_into_Cons split: sum.splits)
  have "keeps prefix st st1"
  proof (cases sv rule: json_kind_cases)
    case 1
    with st1 show ?thesis by (auto simp: entry_step_scalar intro: scalar_arm_keeps)
  next
    case (2 xs)
    with st1 show ?thesis by (auto simp: entry_step_list intro: list_arm_keeps)
  next
    case (3 m)
    obtain d p c where st: "st = (d, p, c)" by (cases st) auto
    from st1(1) 3 obtain dm dm' p' c' where "map_arm (sub_path prefix k) k d = Inr dm"
      "merge_into l (sub_path prefix k) (sorted_entries m) (dm, p, c) = Inr (dm', p', c')"
      "st1 = (aput k (JObj dm') d, p', c')"
      unfolding st by (auto simp: entry_step_obj)
    with Entry.IH(1) [OF 3] show ?thesis unfolding st by (blast intro: map_arm_step_keeps)
  qed
  moreover have "keeps prefix st1 st'" using Entry.IH(2) st1(2) .
  ultimately show ?case by (rule keeps_trans)
qed

abbreviation vals :: "mstate \<Rightarrow> jmap" where "vals st \<equiv> fst st"
abbreviation claims_of :: "mstate \<Rightarrow> claims" where "claims_of st \<equiv> snd (snd st)"

lemma keeps_iff:
  "keeps prefix st st' \<longleftrightarrow>
     (\<forall>p n. map_of (claims_of st) p = Some n \<longrightarrow> map_of (claims_of st') p = Some n) \<and>
     (\<forall>ks v. get_at ks (vals st) = Some v \<and> scalar v \<and> map_of (claims_of st) (dotted prefix ks) \<noteq> None \<longrightarrow>
        get_at ks (vals st') = Some v) \<and>
     (\<forall>ks xs. get_at ks (vals st) = Some (JArr xs) \<longrightarrow> (\<exists>ys. get_at ks (vals st') = Some (JArr (xs @ ys))))"
  by (cases st; cases st') (simp add: keeps_def)

lemma keeps_claim: "keeps prefix st st' \<Longrightarrow> map_of (claims_of st) p = Some n \<Longrightarrow> map_of (claims_of st') p = Some n"
  by (simp add: keeps_iff)

lemma keeps_scalar:
  "keeps prefix st st' \<Longrightarrow> get_at ks (vals st) = Some v \<Longrightarrow> scalar v \<Longrightarrow>
    map_of (claims_of st) (dotted prefix ks) = Some n \<Longrightarrow> get_at ks (vals st') = Some v"
  by (simp add: keeps_iff)

lemma keeps_list:
  "keeps prefix st st' \<Longrightarrow> get_at ks (vals st) = Some (JArr xs) \<Longrightarrow>
    \<exists>ys. get_at ks (vals st') = Some (JArr (xs @ ys))"
  by (simp add: keeps_iff)

lemma scalar_arm_declares:
  "\<not> yielding l \<Longrightarrow> scalar_arm l path k sv st = Inr st' \<Longrightarrow>
    map_of (claims_of st) path = None \<and> map_of (claims_of st') path = Some (layer_name l) \<and>
    get_at [k] (vals st') = Some sv"
  by (cases st) (auto simp: scalar_arm_eq map_of_aput split: if_splits option.splits)

lemma merge_into_declares:
  assumes "\<not> yielding l"
  shows "merge_into l prefix es st = Inr st' \<Longrightarrow> leaf_of es ks v \<Longrightarrow> scalar v \<Longrightarrow>
    map_of (claims_of st) (dotted prefix ks) = None \<and>
    map_of (claims_of st') (dotted prefix ks) = Some (layer_name l) \<and> get_at ks (vals st') = Some v"
proof (induction prefix es arbitrary: st st' ks v rule: merge_into_induct)
  case (Entry prefix k sv es)
  then obtain st1 where st1: "entry_step l prefix k sv st = Inr st1" "merge_into l prefix es st1 = Inr st'"
    by (auto simp: merge_into_Cons split: sum.splits)
  have rest: "keeps prefix st1 st'" using st1(2) by (rule merge_into_keeps)
  have first: "keeps prefix st st1"
    using merge_into_keeps [of l prefix "[(k, sv)]" st st1] st1(1) by (simp add: merge_into_Cons)
  consider (scal) "ks = [k]" "v = sv" | (sub) m ks' where "sv = JObj m" "ks = k # ks'" "leaf_of m ks' v"
    | (tail) "leaf_of es ks v"
    using Entry.prems(2) by (auto simp: leaf_of_Cons)
  then show ?case
  proof cases
    case scal
    with st1(1) Entry.prems(3) have "scalar_arm l (sub_path prefix k) k sv st = Inr st1"
      by (simp add: entry_step_scalar)
    note d = scalar_arm_declares [OF assms this]
    then have "map_of (claims_of st) (dotted prefix ks) = None"
      and c1: "map_of (claims_of st1) (dotted prefix ks) = Some (layer_name l)"
      and "get_at ks (vals st1) = Some v"
      using scal by (simp_all del: get_at.simps)
    then show ?thesis using keeps_claim [OF rest c1] keeps_scalar [OF rest _ Entry.prems(3) c1] by blast
  next
    case sub
    obtain d p c where st: "st = (d, p, c)" by (cases st) auto
    from st1(1) obtain dm dm' p' c' where
      m: "merge_into l (sub_path prefix k) (sorted_entries m) (dm, p, c) = Inr (dm', p', c')"
      and st1': "st1 = (aput k (JObj dm') d, p', c')"
      unfolding st sub(1) by (auto simp: entry_step_obj)
    from Entry.IH(1) [OF sub(1) m] sub(3) Entry.prems(3)
    have "map_of c (dotted (sub_path prefix k) ks') = None"
      "map_of c' (dotted (sub_path prefix k) ks') = Some (layer_name l)" "get_at ks' dm' = Some v"
      by auto
    moreover have "ks' \<noteq> []" using sub(3) by (rule leaf_nonempty)
    ultimately have "map_of (claims_of st) (dotted prefix ks) = None"
      and c1: "map_of (claims_of st1) (dotted prefix ks) = Some (layer_name l)"
      and "get_at ks (vals st1) = Some v"
      by (simp_all add: st st1' sub(2) map_of_aput)
    then show ?thesis using keeps_claim [OF rest c1] keeps_scalar [OF rest _ Entry.prems(3) c1] by blast
  next
    case tail
    note d = Entry.IH(2) [OF st1(2) tail Entry.prems(3)]
    then have "map_of (claims_of st) (dotted prefix ks) = None"
      using keeps_claim [OF first] by (metis option.exhaust option.distinct(1))
    with d show ?thesis by blast
  qed
qed simp

lemma merge_into_lists:
  "merge_into l prefix es st = Inr st' \<Longrightarrow> leaf_of es ks (JArr xs) \<Longrightarrow> list_all json_ok xs \<Longrightarrow>
    \<exists>zs. get_at ks (vals st') = Some (JArr zs) \<and> (\<forall>x \<in> set xs. contains_deep zs x)"
proof (induction prefix es arbitrary: st st' ks rule: merge_into_induct)
  case (Entry prefix k sv es)
  then obtain st1 where st1: "entry_step l prefix k sv st = Inr st1" "merge_into l prefix es st1 = Inr st'"
    by (auto simp: merge_into_Cons split: sum.splits)
  have rest: "\<exists>zs. get_at ks (vals st') = Some (JArr zs) \<and> (\<forall>x \<in> set xs. contains_deep zs x)"
    if "get_at ks (vals st1) = Some (JArr ys)" "\<forall>x \<in> set xs. contains_deep ys x" for ys
    using keeps_list [OF merge_into_keeps [OF st1(2)] that(1)] that(2) by (auto simp: contains_deep_def)
  consider (lst) "ks = [k]" "sv = JArr xs" | (sub) m ks' where "sv = JObj m" "ks = k # ks'" "leaf_of m ks' (JArr xs)"
    | (tail) "leaf_of es ks (JArr xs)"
    using Entry.prems(2) by (auto simp: leaf_of_Cons)
  then show ?case
  proof cases
    case lst
    with st1(1) have "list_arm l (sub_path prefix k) k xs st = Inr st1" by (simp add: entry_step_list)
    then have "\<exists>ex. get_at [k] (vals st1) = Some (JArr (union_append ex xs))"
      by (cases st) (auto simp: list_arm_def map_of_aput split: option.splits json.splits)
    with lst(1) rest Entry.prems(3) union_append_contains show ?thesis by blast
  next
    case sub
    obtain d p c where st: "st = (d, p, c)" by (cases st) auto
    from st1(1) obtain dm dm' p' c' where
      m: "merge_into l (sub_path prefix k) (sorted_entries m) (dm, p, c) = Inr (dm', p', c')"
      and st1': "st1 = (aput k (JObj dm') d, p', c')"
      unfolding st sub(1) by (auto simp: entry_step_obj)
    obtain zs where "get_at ks' dm' = Some (JArr zs)" "\<forall>x \<in> set xs. contains_deep zs x"
      using Entry.IH(1) [OF sub(1) m] sub(3) Entry.prems(3) by auto
    moreover have "ks' \<noteq> []" using sub(3) by (rule leaf_nonempty)
    ultimately show ?thesis using rest by (simp add: st1' sub(2) map_of_aput)
  next
    case tail
    with Entry show ?thesis using st1(2) by blast
  qed
qed simp

lemma merge_into_yields: "yielding l \<Longrightarrow> merge_into l prefix es st = Inr st' \<Longrightarrow> claims_of st' = claims_of st"
proof (induction prefix es arbitrary: st st' rule: merge_into_induct)
  case (Entry prefix k sv es)
  then obtain st1 where st1: "entry_step l prefix k sv st = Inr st1" "merge_into l prefix es st1 = Inr st'"
    by (auto simp: merge_into_Cons split: sum.splits)
  have "claims_of st1 = claims_of st"
  proof (cases sv rule: json_kind_cases)
    case 1
    with st1(1) Entry.prems(1) show ?thesis
      by (cases st) (auto simp: entry_step_scalar scalar_arm_eq split: if_splits option.splits)
  next
    case (2 xs)
    with st1(1) show ?thesis
      by (cases st) (auto simp: entry_step_list list_arm_def split: option.splits json.splits)
  next
    case (3 m)
    obtain d p c where st: "st = (d, p, c)" by (cases st) auto
    from st1(1) 3 Entry.IH(1) [OF 3 Entry.prems(1)] show ?thesis
      unfolding st by (fastforce simp: entry_step_obj)
  qed
  with Entry.IH(2) [OF Entry.prems(1) st1(2)] show ?case by simp
qed simp

text \<open>A scalar a layer has no leaf for is left alone, and a default is written where nothing is claimed.\<close>

lemma merge_into_frame:
  "merge_into l prefix es st = Inr st' \<Longrightarrow> get_at ks (vals st) = Some v \<Longrightarrow> scalar v \<Longrightarrow>
    (\<And>u. \<not> leaf_of es ks u) \<Longrightarrow> get_at ks (vals st') = Some v"
proof (induction prefix es arbitrary: st st' ks rule: merge_into_induct)
  case (Entry prefix k sv es)
  from Entry.prems(1) obtain st1 where
    st1: "entry_step l prefix k sv st = Inr st1" "merge_into l prefix es st1 = Inr st'"
    by (auto simp: merge_into_Cons split: sum.splits)
  have noleaf: "\<And>u. \<not> leaf_of es ks u" "ks = [k] \<Longrightarrow> \<exists>m. sv = JObj m"
    using Entry.prems(4) by (auto simp: leaf_of_Cons)
  obtain d p c where st: "st = (d, p, c)" by (cases st) auto
  have "get_at ks (vals st1) = Some v"
  proof (cases sv rule: json_kind_cases)
    case 1
    then have "ks \<noteq> [k]" using noleaf(2) by auto
    have sc: "scalar_arm l (sub_path prefix k) k sv st = Inr st1" using 1 st1(1) by (simp add: entry_step_scalar)
    then have "map_of d k \<noteq> Some (JObj m)" for m by (auto simp: st scalar_arm_eq)
    then have "\<not> (ks \<noteq> [] \<and> hd ks = k)"
      using Entry.prems(2) \<open>ks \<noteq> [k]\<close> by (cases ks) (auto simp: st split: option.splits json.splits if_splits)
    with sc Entry.prems(2) show ?thesis
      by (auto simp: st scalar_arm_eq get_at_aput split: if_splits option.splits)
  next
    case (2 xs)
    then have "ks \<noteq> [k]" using noleaf(2) by auto
    have ls: "list_arm l (sub_path prefix k) k xs st = Inr st1" using 2 st1(1) by (simp add: entry_step_list)
    then have "map_of d k \<noteq> Some (JObj m)" for m by (auto simp: st list_arm_def)
    then have "\<not> (ks \<noteq> [] \<and> hd ks = k)"
      using Entry.prems(2) \<open>ks \<noteq> [k]\<close> by (cases ks) (auto simp: st split: option.splits json.splits if_splits)
    with ls Entry.prems(2) show ?thesis
      by (auto simp: st list_arm_def get_at_aput split: option.splits json.splits)
  next
    case (3 m)
    from st1(1) obtain dm dm' p' c' where arm: "map_arm (sub_path prefix k) k d = Inr dm"
      and m: "merge_into l (sub_path prefix k) (sorted_entries m) (dm, p, c) = Inr (dm', p', c')"
      and st1': "st1 = (aput k (JObj dm') d, p', c')"
      unfolding st 3 by (auto simp: entry_step_obj)
    show ?thesis
    proof (cases "\<exists>ks'. ks = k # ks'")
      case True
      then obtain ks' where ks: "ks = k # ks'" by blast
      have dk: "map_of d k = Some u \<Longrightarrow> u = JObj dm" for u
        using arm by (auto simp: map_arm_def split: json.splits)
      then have below: "ks' \<noteq> []" "get_at ks' dm = Some v"
        using Entry.prems(2,3) ks by (auto simp: st split: option.splits if_splits)
      have "\<not> leaf_of m ks' u" for u using Entry.prems(4) [of u] 3 ks by (auto simp: leaf_of_Cons)
      with Entry.IH(1) [OF 3 m _ Entry.prems(3)] below have "get_at ks' dm' = Some v" by auto
      with below(1) show ?thesis by (simp add: st1' ks map_of_aput)
    next
      case False
      with Entry.prems(2) show ?thesis by (cases ks) (auto simp: st st1' get_at_aput)
    qed
  qed
  with Entry.IH(2) [OF st1(2) _ Entry.prems(3) noleaf(1)] show ?case by blast
qed simp

lemma leaf_key: "leaf_of es (k # ks) v \<Longrightarrow> k \<in> set (keys es)"
  by (erule leaf_of.cases) force+

lemma leaf_keys: "leaf_of es ks v \<Longrightarrow> hd ks \<in> set (keys es)"
  by (cases ks) (auto dest: leaf_nonempty leaf_key)

lemma merge_into_default:
  assumes "yielding l"
  shows "merge_into l prefix es st = Inr st' \<Longrightarrow> leaf_of es ks v \<Longrightarrow> scalar v \<Longrightarrow>
    distinct (keys es) \<Longrightarrow> jobj_ok es \<Longrightarrow> map_of (claims_of st) (dotted prefix ks) = None \<Longrightarrow>
    get_at ks (vals st') = Some v"
proof (induction prefix es arbitrary: st st' ks rule: merge_into_induct)
  case (Entry prefix k sv es)
  from Entry.prems(1) obtain st1 where
    st1: "entry_step l prefix k sv st = Inr st1" "merge_into l prefix es st1 = Inr st'"
    by (auto simp: merge_into_Cons split: sum.splits)
  have "merge_into l prefix [(k, sv)] st = Inr st1" using st1(1) by (simp add: merge_into_Cons)
  from merge_into_yields [OF assms this] have cl: "claims_of st1 = claims_of st" .
  obtain d p c where st: "st = (d, p, c)" by (cases st) auto
  consider (tail) "leaf_of es ks v" | (first) "hd ks = k" "get_at ks (vals st1) = Some v"
  proof -
    consider (a) "ks = [k]" "v = sv" | (b) m ks' where "sv = JObj m" "ks = k # ks'" "leaf_of m ks' v"
      | (c) "leaf_of es ks v" using Entry.prems(2) by (auto simp: leaf_of_Cons)
    then show thesis
    proof cases
      case a
      with st1(1) Entry.prems(3) have "scalar_arm l (sub_path prefix k) k sv st = Inr st1"
        by (simp add: entry_step_scalar)
      with assms a Entry.prems(6) have "get_at ks (vals st1) = Some v"
        by (auto simp: st scalar_arm_eq map_of_aput split: if_splits)
      with a that show thesis by simp
    next
      case b
      from st1(1) obtain dm dm' p' c' where
        m: "merge_into l (sub_path prefix k) (sorted_entries m) (dm, p, c) = Inr (dm', p', c')"
        and st1': "st1 = (aput k (JObj dm') d, p', c')"
        unfolding st b(1) by (auto simp: entry_step_obj)
      have "distinct (keys (sorted_entries m))" "jobj_ok (sorted_entries m)"
        using Entry.prems(5) b(1) by (auto simp: distinct_sorted_entries jobj_ok_iff)
      with Entry.IH(1) [OF b(1) m _ Entry.prems(3)] b Entry.prems(6) have "get_at ks' dm' = Some v"
        by (simp add: st)
      moreover have "ks' \<noteq> []" using b(3) by (rule leaf_nonempty)
      ultimately show thesis using that b(2) by (simp add: st1' map_of_aput)
    next
      case c
      with that show thesis by simp
    qed
  qed
  then show ?case
  proof cases
    case tail
    with Entry.IH(2) [OF st1(2) tail Entry.prems(3)] Entry.prems(4-6) cl show ?thesis by simp
  next
    case first
    have "\<not> leaf_of es ks u" for u using leaf_keys [of es ks u] first(1) Entry.prems(4) by auto
    with merge_into_frame [OF st1(2) first(2) Entry.prems(3)] show ?thesis by blast
  qed
qed simp

section \<open>The fold over the layers\<close>

lemma merge_layer_Inr:
  "merge_layer l st = Inr st' \<longleftrightarrow> merge_into l [] (sorted_entries (layer_values l)) st = Inr st'"
  by (auto simp: merge_layer_def split: sum.splits)

lemma merge_Inr:
  "merge layers = Inr (out, prov) \<longleftrightarrow> (\<exists>claimed. fold_err merge_layer layers ([], [], []) = Inr (out, prov, claimed))"
  by (auto simp: merge_def split: sum.splits)

lemma layers_keep: "fold_err merge_layer layers st = Inr st' \<Longrightarrow> keeps [] st st'"
  by (induction layers arbitrary: st)
    (auto simp: keeps_refl merge_layer_Inr split: sum.splits dest: merge_into_keeps intro: keeps_trans)

text \<open>What one declaring layer of a successful fold did, seen from before and from after it.\<close>

lemma layers_declare:
  assumes "fold_err merge_layer (pre @ l # post) st = Inr st'" and "\<not> yielding l"
    and "leaf_of (layer_values l) ks v" and "scalar v"
  obtains st1 st2 where "fold_err merge_layer pre st = Inr st1" "fold_err merge_layer post st2 = Inr st'"
    "map_of (claims_of st1) (dotted [] ks) = None" "map_of (claims_of st2) (dotted [] ks) = Some (layer_name l)"
    "get_at ks (vals st2) = Some v"
proof -
  from assms(1) obtain st1 st2 where st: "fold_err merge_layer pre st = Inr st1"
    "merge_layer l st1 = Inr st2" "fold_err merge_layer post st2 = Inr st'"
    by (auto simp: fold_err_append split: sum.splits)
  from st(2) have "merge_into l [] (sorted_entries (layer_values l)) st1 = Inr st2"
    by (simp add: merge_layer_Inr)
  from merge_into_declares [OF assms(2) this _ assms(4)] assms(3) st that show thesis by auto
qed

section \<open>Flat layers: when a merge succeeds\<close>

definition flat :: "jmap \<Rightarrow> bool" where
  "flat m \<longleftrightarrow> list_all (\<lambda>(k, v). scalar v) m \<and> distinct (keys m)"

definition declared_keys :: "layer list \<Rightarrow> string list" where
  "declared_keys layers = concat (map (\<lambda>l. keys (layer_values l)) (filter (\<lambda>l. \<not> yielding l) layers))"

definition flat_state :: "mstate \<Rightarrow> bool" where
  "flat_state st \<longleftrightarrow> (\<forall>k v. map_of (vals st) k = Some v \<longrightarrow> scalar v)"

lemma flat_sorted [simp]: "flat (sorted_entries m) = flat m"
  by (simp add: flat_def distinct_sorted_entries list_all_iff)

lemma flat_merge_into:
  "flat es \<Longrightarrow> flat_state st \<Longrightarrow> (\<not> yielding l \<Longrightarrow> set (keys es) \<inter> set (keys (claims_of st)) = {}) \<Longrightarrow>
    \<exists>st'. merge_into l [] es st = Inr st' \<and> flat_state st' \<and>
      set (keys (claims_of st')) = set (keys (claims_of st)) \<union> (if yielding l then {} else set (keys es))"
proof (induction es arbitrary: st)
  case (Cons kv es)
  obtain k sv where kv: "kv = (k, sv)" by fastforce
  obtain d p c where st: "st = (d, p, c)" by (cases st) auto
  from Cons.prems have sc: "scalar sv" "flat es" "k \<notin> set (keys es)" by (auto simp: kv flat_def)
  have kd: "map_of d k = Some v \<Longrightarrow> kind_of v = ''scalar''" for v
    using Cons.prems(2) by (auto simp: flat_state_def st scalar_def)
  have fresh: "map_of c k = None" if "\<not> yielding l"
    using Cons.prems(3) that by (auto simp: kv st map_of_eq_None_iff)
  have put: "flat_state (aput k sv d, p', c')" for p' c'
    using Cons.prems(2) sc(1) by (auto simp: flat_state_def st map_of_aput)
  have "\<exists>st1. scalar_arm l k k sv st = Inr st1 \<and> flat_state st1 \<and>
      set (keys (claims_of st1)) = set (keys c) \<union> (if yielding l then {} else {k})"
  proof (cases "yielding l \<and> map_of c k \<noteq> None")
    case True
    then have "scalar_arm l k k sv st = Inr st" using kd by (auto simp: st scalar_arm_eq)
    with True Cons.prems(2) show ?thesis by (simp add: st)
  next
    case False
    let ?c = "if yielding l then c else aput k (layer_name l) c"
    from False have "scalar_arm l k k sv st = Inr (aput k sv d, note_layer k (layer_name l) p, ?c)"
      using kd fresh by (auto simp: st scalar_arm_eq)
    with put show ?thesis by (intro exI [of _ "(aput k sv d, note_layer k (layer_name l) p, ?c)"]) simp
  qed
  then obtain st1 where st1: "scalar_arm l k k sv st = Inr st1" "flat_state st1"
    "set (keys (claims_of st1)) = set (keys c) \<union> (if yielding l then {} else {k})" by blast
  have step: "entry_step l [] k sv st = Inr st1" using st1(1) sc(1) by (simp add: entry_step_scalar sub_path_def)
  have dis: "set (keys es) \<inter> set (keys (claims_of st1)) = {}" if "\<not> yielding l"
    using Cons.prems(3) that sc(3) unfolding st1(3) by (simp add: kv st)
  obtain st' where st': "merge_into l [] es st1 = Inr st'" "flat_state st'"
    "set (keys (claims_of st')) = set (keys (claims_of st1)) \<union> (if yielding l then {} else set (keys es))"
    using Cons.IH [OF sc(2) st1(2) dis] by blast
  have "merge_into l [] (kv # es) st = Inr st'" using step st'(1) by (simp add: merge_into_Cons kv)
  moreover have "set (keys (claims_of st')) =
      set (keys (claims_of st)) \<union> (if yielding l then {} else set (keys (kv # es)))"
    unfolding st'(3) st1(3) by (simp add: kv st)
  ultimately show ?case using st'(2) by blast
qed auto

lemma declared_keys_Cons:
  "declared_keys (l # layers) = (if yielding l then [] else keys (layer_values l)) @ declared_keys layers"
  by (simp add: declared_keys_def)

lemma flat_fold:
  "\<forall>l \<in> set layers. flat (layer_values l) \<Longrightarrow> flat_state st \<Longrightarrow> distinct (declared_keys layers) \<Longrightarrow>
    set (declared_keys layers) \<inter> set (keys (claims_of st)) = {} \<Longrightarrow>
    \<exists>st'. fold_err merge_layer layers st = Inr st'"
proof (induction layers arbitrary: st)
  case (Cons l layers)
  have "\<exists>st1. merge_into l [] (sorted_entries (layer_values l)) st = Inr st1 \<and> flat_state st1 \<and>
      set (keys (claims_of st1)) = set (keys (claims_of st)) \<union>
        (if yielding l then {} else set (keys (sorted_entries (layer_values l))))"
    using Cons.prems by (intro flat_merge_into) (auto simp: declared_keys_Cons)
  then obtain st1 where st1: "merge_layer l st = Inr st1" "flat_state st1"
    "set (keys (claims_of st1)) = set (keys (claims_of st)) \<union> (if yielding l then {} else set (keys (layer_values l)))"
    by (auto simp: merge_layer_Inr)
  have "\<exists>st'. fold_err merge_layer layers st1 = Inr st'"
    using Cons.prems st1(2,3)
    by (intro Cons.IH) (auto simp: declared_keys_Cons Int_Un_distrib Int_Un_distrib2 split: if_splits)
  with st1(1) show ?case by simp
qed auto

section \<open>Properties\<close>

text \<open>
  Exclusive claim: when a merge succeeds, no scalar path is set by two declaring layers, at any
  depth.  (The path is the dotted string the code reports.)
\<close>
theorem merge_exclusive:
  assumes "merge (pre @ a # mid @ b # post) = Inr r" and "\<not> yielding a" and "\<not> yielding b"
    and "leaf_of (layer_values a) ks v" and "scalar v"
    and "leaf_of (layer_values b) ks' v'" and "scalar v'"
  shows "dotted [] ks \<noteq> dotted [] ks'"
proof
  assume same: "dotted [] ks = dotted [] ks'"
  obtain out prov claimed where f: "fold_err merge_layer (pre @ a # mid @ b # post) ([], [], []) = Inr (out, prov, claimed)"
    using assms(1) by (cases r) (auto simp: merge_Inr)
  obtain st2 where st2: "fold_err merge_layer (mid @ b # post) st2 = Inr (out, prov, claimed)"
    "map_of (claims_of st2) (dotted [] ks) = Some (layer_name a)"
    using layers_declare [OF f assms(2,4,5)] .
  obtain st3 where st3: "fold_err merge_layer mid st2 = Inr st3" "map_of (claims_of st3) (dotted [] ks') = None"
    using layers_declare [OF st2(1) assms(3,6,7)] .
  from keeps_claim [OF layers_keep [OF st3(1)] st2(2)] st3(2) same show False by simp
qed

text \<open>
  A declaration is effective: every scalar a declaring layer sets is the value of that key path in
  the merged map, whatever the other layers are and whatever their order.
\<close>
theorem merge_declared_value:
  assumes "merge layers = Inr (out, prov)" and "l \<in> set layers" and "\<not> yielding l"
    and "leaf_of (layer_values l) ks v" and "scalar v"
  shows "get_at ks out = Some v"
proof -
  obtain pre post where layers: "layers = pre @ l # post" using assms(2) split_list by metis
  obtain claimed where f: "fold_err merge_layer (pre @ l # post) ([], [], []) = Inr (out, prov, claimed)"
    using assms(1) by (auto simp: merge_Inr layers)
  obtain st2 where "fold_err merge_layer post st2 = Inr (out, prov, claimed)"
    and c: "map_of (claims_of st2) (dotted [] ks) = Some (layer_name l)" and g: "get_at ks (vals st2) = Some v"
    using layers_declare [OF f assms(3-5)] .
  from keeps_scalar [OF layers_keep [OF this(1)] g assms(5) c] show ?thesis by simp
qed

text \<open>
  A default shows through: a scalar of the yielding first layer (the Blueprint's defaults) is the
  merged value wherever no later layer has a leaf at that key path.
\<close>
theorem merge_default_fills:
  assumes "merge (d # rest) = Inr (out, prov)" and "yielding d" and "json_ok (JObj (layer_values d))"
    and "leaf_of (layer_values d) ks v" and "scalar v"
    and "\<And>l u. l \<in> set rest \<Longrightarrow> \<not> leaf_of (layer_values l) ks u"
  shows "get_at ks out = Some v"
proof -
  obtain st1 claimed where st1: "merge_into d [] (sorted_entries (layer_values d)) ([], [], []) = Inr st1"
    "fold_err merge_layer rest st1 = Inr (out, prov, claimed)"
    using assms(1) by (auto simp: merge_Inr merge_layer_Inr split: sum.splits)
  have first: "get_at ks (vals st1) = Some v"
    using assms(3) by (intro merge_into_default [OF assms(2) st1(1) _ assms(5)])
      (auto simp: assms(4) distinct_sorted_entries jobj_ok_iff)
  have "fold_err merge_layer rest st = Inr st' \<Longrightarrow> get_at ks (vals st) = Some v \<Longrightarrow>
      get_at ks (vals st') = Some v" for st st'
    using assms(6)
  proof (induction rest arbitrary: st)
    case (Cons l rest)
    then obtain st2 where "merge_into l [] (sorted_entries (layer_values l)) st = Inr st2"
      "fold_err merge_layer rest st2 = Inr st'"
      by (auto simp: merge_layer_Inr split: sum.splits)
    with Cons merge_into_frame [OF _ Cons.prems(2) assms(5)] show ?case by auto
  qed simp
  from this [OF st1(2) first] show ?thesis by simp
qed

text \<open>
  Additive union: no layer can narrow a list.  In a successful merge the list at a key path holds
  every element of every layer's list there (up to \<open>reflect.DeepEqual\<close>).
\<close>
theorem merge_lists_union:
  assumes "merge layers = Inr (out, prov)" and "l \<in> set layers"
    and "leaf_of (layer_values l) ks (JArr xs)" and "list_all json_ok xs"
  shows "\<exists>zs. get_at ks out = Some (JArr zs) \<and> (\<forall>x \<in> set xs. contains_deep zs x)"
proof -
  obtain pre post where layers: "layers = pre @ l # post" using assms(2) split_list by metis
  obtain claimed st1 st2 where st: "merge_into l [] (sorted_entries (layer_values l)) st1 = Inr st2"
    "fold_err merge_layer post st2 = Inr (out, prov, claimed)"
    using assms(1) by (auto simp: merge_Inr layers fold_err_append merge_layer_Inr split: sum.splits)
  obtain zs where zs: "get_at ks (vals st2) = Some (JArr zs)" "\<forall>x \<in> set xs. contains_deep zs x"
    using merge_into_lists [OF st(1) _ assms(4)] assms(3) by auto
  from keeps_list [OF layers_keep [OF st(2)] zs(1)] zs(2) show ?thesis by (auto simp: contains_deep_def)
qed

text \<open>
  Exactly the double claims are refused: layers of plain scalars merge if and only if no key is
  declared twice; the defaults never stand in the way.
\<close>
theorem merge_flat_iff:
  assumes "\<forall>l \<in> set layers. flat (layer_values l)"
  shows "(\<exists>r. merge layers = Inr r) \<longleftrightarrow> distinct (declared_keys layers)"
proof
  assume "distinct (declared_keys layers)"
  then show "\<exists>r. merge layers = Inr r"
    using flat_fold [OF assms, of "([], [], [])"] by (auto simp: merge_Inr flat_state_def)
next
  assume ok: "\<exists>r. merge layers = Inr r"
  have "distinct (declared_keys layers)" if f: "fold_err merge_layer layers st = Inr st'"
    and fl: "\<forall>l \<in> set layers. flat (layer_values l)" for st st'
    using f fl
  proof (induction layers arbitrary: st)
    case (Cons l layers)
    then obtain st1 where st1: "merge_layer l st = Inr st1" "fold_err merge_layer layers st1 = Inr st'"
      by (auto split: sum.splits)
    have leaf1: "leaf_of (layer_values a) [k] v \<and> scalar v"
      if "a \<in> set (l # layers)" "(k, v) \<in> set (layer_values a)" for a k v
      using Cons.prems(2) that by (force simp: flat_def list_all_iff intro: leaf_of.here)
    have "k \<notin> set (declared_keys layers)" 
      if decl: "\<not> yielding l" and key: "k \<in> set (keys (layer_values l))" for k
    proof
      assume "k \<in> set (declared_keys layers)"
      then obtain b v' where b: "b \<in> set layers" "\<not> yielding b" "(k, v') \<in> set (layer_values b)"
        by (auto simp: declared_keys_def)
      obtain v where v: "(k, v) \<in> set (layer_values l)" using key by auto
      from st1(1) have m: "merge_into l [] (sorted_entries (layer_values l)) st = Inr st1"
        by (simp add: merge_layer_Inr)
      have leafk: "leaf_of (sorted_entries (layer_values l)) [k] v" "scalar v" using leaf1 [OF _ v] by auto
      from merge_into_declares [OF decl m leafk]
      have c: "map_of (claims_of st1) (dotted [] [k]) = Some (layer_name l)" by blast
      obtain pre post where "layers = pre @ b # post" using b(1) split_list by metis
      with st1(2) have "fold_err merge_layer (pre @ b # post) st1 = Inr st'" by simp
      then obtain st2 where "fold_err merge_layer pre st1 = Inr st2" "map_of (claims_of st2) (dotted [] [k]) = None"
        using layers_declare [OF _ b(2)] leaf1 [OF _ b(3)] b(1) by (metis list.set_intros(2))
      with keeps_claim [OF layers_keep c] show False by simp
    qed
    with Cons.IH [OF st1(2)] Cons.prems(2) show ?case by (auto simp: declared_keys_Cons flat_def)
  qed (simp add: declared_keys_def)
  with ok assms show "distinct (declared_keys layers)" by (auto simp: merge_Inr)
qed

section \<open>The properties at a concrete merge\<close>

definition ex_defaults :: layer where
  "ex_defaults = \<lparr>layer_name = ''blueprint:web/defaults'',
     layer_values = [(''port'', JInt 80), (''tags'', JArr [JStr ''base'']), (''tls'', JObj [(''min'', JStr ''1.2'')])],
     yielding = True\<rparr>"

definition ex_intent :: layer where
  "ex_intent = \<lparr>layer_name = ''intent:web'',
     layer_values = [(''package'', JStr ''nginx''), (''tags'', JArr [JStr ''web''])], yielding = False\<rparr>"

definition ex_assignment :: layer where
  "ex_assignment = \<lparr>layer_name = ''assignment:prod'',
     layer_values = [(''tls'', JObj [(''cert'', JStr ''prod'')]), (''port'', JInt 443)], yielding = False\<rparr>"

lemma ex_merge:
  "merge [ex_defaults, ex_intent, ex_assignment] = Inr
     ([(''port'', JInt 443), (''tags'', JArr [JStr ''base'', JStr ''web'']),
       (''tls'', JObj [(''min'', JStr ''1.2''), (''cert'', JStr ''prod'')]), (''package'', JStr ''nginx'')],
      [(''port'', [''blueprint:web/defaults'', ''assignment:prod'']),
       (''tags'', [''blueprint:web/defaults'', ''intent:web'']),
       (''tls.min'', [''blueprint:web/defaults'']), (''package'', [''intent:web'']),
       (''tls.cert'', [''assignment:prod''])])"
  by code_simp

lemma ex_leaves:
  "leaf_of (layer_values ex_intent) [''package''] (JStr ''nginx'')"
  "leaf_of (layer_values ex_intent) [''tags''] (JArr [JStr ''web''])"
  "leaf_of (layer_values ex_assignment) [''tls'', ''cert''] (JStr ''prod'')"
  "leaf_of (layer_values ex_defaults) [''tls'', ''min''] (JStr ''1.2'')"
  "\<not> leaf_of (layer_values ex_intent) [''tls'', ''min''] u"
  "\<not> leaf_of (layer_values ex_assignment) [''tls'', ''min''] u"
  by (simp_all add: ex_defaults_def ex_intent_def ex_assignment_def leaf_of_Cons)

theorem merge_exclusive_witness:
  "\<exists>r. merge [ex_defaults, ex_intent, ex_assignment] = Inr r \<and> dotted [] [''package''] \<noteq> dotted [] [''tls'', ''cert'']"
proof -
  have "merge ([ex_defaults] @ ex_intent # [] @ ex_assignment # []) = Inr (projr (merge [ex_defaults, ex_intent, ex_assignment]))"
    by (simp add: ex_merge)
  from merge_exclusive [OF this _ _ ex_leaves(1) _ ex_leaves(3)] show ?thesis
    using ex_merge by (simp add: ex_intent_def ex_assignment_def)
qed

theorem merge_declared_value_witness:
  "\<exists>out prov. merge [ex_defaults, ex_intent, ex_assignment] = Inr (out, prov) \<and>
     get_at [''tls'', ''cert''] out = Some (JStr ''prod'')"
  using merge_declared_value [OF ex_merge _ _ ex_leaves(3)] ex_merge
  by (simp add: ex_assignment_def)

theorem merge_default_fills_witness:
  "\<exists>out prov. merge [ex_defaults, ex_intent, ex_assignment] = Inr (out, prov) \<and>
     get_at [''tls'', ''min''] out = Some (JStr ''1.2'')"
proof -
  have "get_at [''tls'', ''min''] (fst (projr (merge [ex_defaults, ex_intent, ex_assignment]))) = Some (JStr ''1.2'')"
    by (rule merge_default_fills [of ex_defaults "[ex_intent, ex_assignment]" _
          "snd (projr (merge [ex_defaults, ex_intent, ex_assignment]))"])
      (auto simp: ex_merge ex_leaves, auto simp: ex_defaults_def)
  then show ?thesis by (simp add: ex_merge)
qed

theorem merge_lists_union_witness:
  "\<exists>out prov zs. merge [ex_defaults, ex_intent, ex_assignment] = Inr (out, prov) \<and>
     get_at [''tags''] out = Some (JArr zs) \<and> contains_deep zs (JStr ''web'')"
  using merge_lists_union [OF ex_merge _ ex_leaves(2)] ex_merge by (simp del: get_at.simps)

theorem merge_flat_iff_witness:
  "(\<exists>r. merge [ex_intent\<lparr>layer_values := [(''a'', JInt 1)]\<rparr>, ex_assignment\<lparr>layer_values := [(''a'', JInt 1)]\<rparr>] = Inr r)
     \<longleftrightarrow> False"
  using merge_flat_iff [of "[ex_intent\<lparr>layer_values := [(''a'', JInt 1)]\<rparr>, ex_assignment\<lparr>layer_values := [(''a'', JInt 1)]\<rparr>]"]
  by (simp add: flat_def declared_keys_def ex_intent_def ex_assignment_def)

text \<open>
  The path of a claim is a dotted string, so a key that itself holds a dot is taken for a nested path:
  an Intent that sets the key \<open>a.b\<close> and an Assignment that sets \<open>b\<close> inside \<open>a\<close> address different
  fields and are still refused as a double claim.
\<close>
lemma dotted_key_conflation:
  "merge [\<lparr>layer_name = ''intent:x'', layer_values = [(''a.b'', JInt 1)], yielding = False\<rparr>,
          \<lparr>layer_name = ''assignment:y'', layer_values = [(''a'', JObj [(''b'', JInt 2)])], yielding = False\<rparr>]
   = Inl (''assignment:y'', DoubleClaim ''a.b'' ''intent:x'')"
  by code_simp

end
