(* ===== verification/Capability.thy ===== *)
theory Capability
  imports GoText
begin

text \<open>
  Package \<open>core/internal/capability\<close>: \<open>Resolve\<close> binds a capability class and an Intent kind to a
  verified provider and its Workflow, over a snapshot of providers and in-scope bindings.  The Go sets
  are duplicate-free lists (\<open>ins\<close>), the message of a result is a constructor of \<open>reason\<close> with the
  values the message prints.  The body of \<open>Resolve\<close> is split where it branches: the builders, the
  selections of the bindings, the substrate branch (with the entries that complete it) and the
  provider branch.  The lemmas characterise exactly when a provider is resolved and show that the
  answer does not depend on the order of providers or bindings.
\<close>

record provider =
  pv_name :: string
  pv_workflows :: "string gomap"
  pv_substrate :: string

record binding_entry =
  be_capability :: string
  be_provider :: string
  be_intent_kind :: string
  be_substrate :: string

record capability_binding =
  cb_name :: string
  cb_entries :: "binding_entry list"
  cb_environments :: "string list"

datatype cap_status = StatusResolved | StatusPending | StatusAmbiguous

datatype reason =
    NoReason
  | ConflictingSubstrates "string list"
  | ProviderOutsideSubstrate string "string list" "string list"
  | SubstrateAndProviderContest string string "string list"
  | ConflictingPicks "string list"
  | NoProviderOfSubstrate string "string list" "string list"
  | ManyProvidersOfSubstrate string "string list"
  | SelectedCannotBuild string
  | ConflictingProviders nat
  | NoBuilder
  | ManyBuilders "string list"

record cap_result =
  cr_status :: cap_status
  cr_provider :: string
  cr_workflow :: string
  cr_reason :: reason

definition resolved :: "string \<Rightarrow> string \<Rightarrow> cap_result" where
  "resolved p w = \<lparr>cr_status = StatusResolved, cr_provider = p, cr_workflow = w, cr_reason = NoReason\<rparr>"

definition pending :: "reason \<Rightarrow> cap_result" where
  "pending r = \<lparr>cr_status = StatusPending, cr_provider = [], cr_workflow = [], cr_reason = r\<rparr>"

definition ambiguous :: "reason \<Rightarrow> cap_result" where
  "ambiguous r = \<lparr>cr_status = StatusAmbiguous, cr_provider = [], cr_workflow = [], cr_reason = r\<rparr>"

text \<open>A read of a \<open>map[string]string\<close>: the empty string when the key is absent.\<close>

definition get0 :: "string gomap \<Rightarrow> string \<Rightarrow> string" where
  "get0 m k = (case map_of m k of None \<Rightarrow> [] | Some v \<Rightarrow> v)"

text \<open>Insertion into a \<open>map[string]bool\<close> used as a set.\<close>

definition ins :: "'a \<Rightarrow> 'a list \<Rightarrow> 'a list" where
  "ins x xs = (if x \<in> set xs then xs else xs @ [x])"

text \<open>The providers that can build the kind: \<open>canBuild\<close> and the sorted \<open>builders\<close>.\<close>

fun can_build :: "string \<Rightarrow> provider list \<Rightarrow> string gomap \<Rightarrow> string gomap" where
  "can_build kind [] m = m"
| "can_build kind (p # ps) m =
     can_build kind ps
       (if get0 (pv_workflows p) kind \<noteq> [] then aput (pv_name p) (get0 (pv_workflows p) kind) m else m)"

definition builders :: "string \<Rightarrow> provider list \<Rightarrow> string list" where
  "builders kind ps = sort (map pv_name (filter (\<lambda>p. get0 (pv_workflows p) kind \<noteq> []) ps))"

text \<open>One entry of a binding: it claims a substrate, selects a provider, or does not apply.\<close>

definition select_entry :: "string \<Rightarrow> string \<Rightarrow> binding_entry \<Rightarrow> string list \<times> string list \<Rightarrow> string list \<times> string list" where
  "select_entry cap kind e sel =
     (case sel of (selected, substrates) \<Rightarrow>
        if be_capability e \<noteq> cap then (selected, substrates)
        else if be_substrate e \<noteq> [] \<and> (be_intent_kind e = [] \<or> be_intent_kind e = kind)
        then (selected, ins (be_substrate e) substrates)
        else if be_provider e \<noteq> [] \<and> be_intent_kind e = kind
        then (ins (be_provider e) selected, substrates)
        else (selected, substrates))"

definition selections :: "string \<Rightarrow> string \<Rightarrow> capability_binding list \<Rightarrow> string list \<times> string list" where
  "selections cap kind bs = fold (\<lambda>b. fold (select_entry cap kind) (cb_entries b)) bs ([], [])"

text \<open>The providers of the wanted substrate that can build the kind.\<close>

definition matched :: "string \<Rightarrow> string \<Rightarrow> provider list \<Rightarrow> string list" where
  "matched sub kind ps =
     sort (map pv_name (filter (\<lambda>p. pv_substrate p = sub \<and> get0 (can_build kind ps []) (pv_name p) \<noteq> []) ps))"

text \<open>The substrates some builder of the kind declares, for the diagnosis.\<close>

definition available :: "string \<Rightarrow> provider list \<Rightarrow> string list" where
  "available kind ps =
     sort (remdups (map pv_substrate
       (filter (\<lambda>p. get0 (can_build kind ps []) (pv_name p) \<noteq> [] \<and> pv_substrate p \<noteq> []) ps)))"

text \<open>A provider entry beside a substrate entry may only complete an underdetermined substrate.\<close>

definition complete_substrate :: "string \<Rightarrow> string \<Rightarrow> provider list \<Rightarrow> string list \<Rightarrow> cap_result" where
  "complete_substrate kind sub ps selected =
     (let ms = matched sub kind ps; picked = sort selected in
      if list_ex (\<lambda>p. p \<notin> set ms) picked then ambiguous (ProviderOutsideSubstrate sub picked ms)
      else if length ms = 1 then ambiguous (SubstrateAndProviderContest sub (hd ms) picked)
      else if length picked > 1 then ambiguous (ConflictingPicks picked)
      else resolved (hd picked) (get0 (can_build kind ps []) (hd picked)))"

definition resolve_substrate ::
  "string \<Rightarrow> provider list \<Rightarrow> string list \<Rightarrow> string list \<Rightarrow> cap_result" where
  "resolve_substrate kind ps selected substrates =
     (let wanted = sort substrates in
      if length wanted > 1 then ambiguous (ConflictingSubstrates wanted)
      else let sub = hd wanted; ms = matched sub kind ps in
        if selected \<noteq> [] then complete_substrate kind sub ps selected
        else if length ms = 1 then resolved (hd ms) (get0 (can_build kind ps []) (hd ms))
        else if length ms = 0 then pending (NoProviderOfSubstrate sub (available kind ps) (builders kind ps))
        else ambiguous (ManyProvidersOfSubstrate sub ms))"

definition resolve_provider :: "string \<Rightarrow> provider list \<Rightarrow> string list \<Rightarrow> cap_result" where
  "resolve_provider kind ps selected =
     (if length selected = 1
      then (case map_of (can_build kind ps []) (hd selected) of
              None \<Rightarrow> pending (SelectedCannotBuild (hd selected))
            | Some bw \<Rightarrow> resolved (hd selected) bw)
      else if length selected \<ge> 2 then ambiguous (ConflictingProviders (length selected))
      else let bs = builders kind ps in
        if length bs = 0 then pending NoBuilder
        else if length bs = 1 then resolved (hd bs) (get0 (can_build kind ps []) (hd bs))
        else ambiguous (ManyBuilders bs))"

definition resolve :: "string \<Rightarrow> string \<Rightarrow> provider list \<Rightarrow> capability_binding list \<Rightarrow> cap_result" where
  "resolve cap kind ps bs =
     (case selections cap kind bs of (selected, substrates) \<Rightarrow>
        if substrates \<noteq> [] then resolve_substrate kind ps selected substrates
        else resolve_provider kind ps selected)"

section \<open>The snapshot as sets\<close>

definition builds :: "string \<Rightarrow> provider list \<Rightarrow> provider \<Rightarrow> bool" where
  "builds kind ps p \<longleftrightarrow> p \<in> set ps \<and> get0 (pv_workflows p) kind \<noteq> []"

definition claims_substrate :: "string \<Rightarrow> string \<Rightarrow> capability_binding list \<Rightarrow> string \<Rightarrow> bool" where
  "claims_substrate cap kind bs s \<longleftrightarrow>
     (\<exists>b \<in> set bs. \<exists>e \<in> set (cb_entries b). be_capability e = cap \<and> be_substrate e = s \<and> s \<noteq> [] \<and>
        (be_intent_kind e = [] \<or> be_intent_kind e = kind))"

definition selects_provider :: "string \<Rightarrow> string \<Rightarrow> capability_binding list \<Rightarrow> string \<Rightarrow> bool" where
  "selects_provider cap kind bs q \<longleftrightarrow>
     (\<exists>b \<in> set bs. \<exists>e \<in> set (cb_entries b). be_capability e = cap \<and> be_provider e = q \<and> q \<noteq> [] \<and>
        be_intent_kind e = kind \<and> be_substrate e = [])"

lemma set_ins [simp]: "set (ins x xs) = insert x (set xs)"
  by (auto simp: ins_def)

lemma distinct_ins [simp]: "distinct xs \<Longrightarrow> distinct (ins x xs)"
  by (simp add: ins_def)

lemma fold_select:
  "fold (select_entry cap kind) es (sel, sub) = (sel', sub') \<Longrightarrow>
     set sel' = set sel \<union> {q. \<exists>e \<in> set es. be_capability e = cap \<and> be_provider e = q \<and> q \<noteq> [] \<and>
        be_intent_kind e = kind \<and> be_substrate e = []} \<and>
     set sub' = set sub \<union> {s. \<exists>e \<in> set es. be_capability e = cap \<and> be_substrate e = s \<and> s \<noteq> [] \<and>
        (be_intent_kind e = [] \<or> be_intent_kind e = kind)} \<and>
     (distinct sel \<longrightarrow> distinct sel') \<and> (distinct sub \<longrightarrow> distinct sub')"
proof (induction es arbitrary: sel sub)
  case (Cons e es)
  obtain s1 b1 where s1: "select_entry cap kind e (sel, sub) = (s1, b1)" by fastforce
  with Cons.prems have "fold (select_entry cap kind) es (s1, b1) = (sel', sub')" by simp
  from Cons.IH [OF this] s1 show ?case
    by (auto simp: select_entry_def split: if_splits)
qed auto

lemma selections_spec:
  assumes "selections cap kind bs = (sel, sub)"
  shows "set sel = {q. selects_provider cap kind bs q}"
    and "set sub = {s. claims_substrate cap kind bs s}"
    and "distinct sel" and "distinct sub"
proof -
  have flat: "fold (\<lambda>b. fold (select_entry cap kind) (cb_entries b)) bs z
      = fold (select_entry cap kind) (concat (map cb_entries bs)) z" for z
    by (induction bs arbitrary: z) auto
  from assms have "fold (select_entry cap kind) (concat (map cb_entries bs)) ([], []) = (sel, sub)"
    by (simp add: selections_def flat)
  note r = fold_select [OF this]
  from r show "set sel = {q. selects_provider cap kind bs q}"
    by (auto simp: selects_provider_def)
  from r show "set sub = {s. claims_substrate cap kind bs s}"
    by (auto simp: claims_substrate_def)
  from r show "distinct sel" and "distinct sub" by simp_all
qed

lemma can_build_spec:
  assumes "distinct (map pv_name ps)" and "set (map pv_name ps) \<inter> set (keys m) = {}"
  shows "map_of (can_build kind ps m) n = Some v \<longleftrightarrow>
     map_of m n = Some v \<or> (\<exists>p. builds kind ps p \<and> pv_name p = n \<and> get0 (pv_workflows p) kind = v)"
  using assms
proof (induction kind ps m rule: can_build.induct)
  case (2 kind p ps m)
  let ?m = "if get0 (pv_workflows p) kind \<noteq> [] then aput (pv_name p) (get0 (pv_workflows p) kind) m else m"
  have fresh: "map_of m (pv_name p) = None" using "2.prems"(2) by (auto simp: map_of_eq_None_iff)
  have "map_of (can_build kind ps ?m) n = Some v \<longleftrightarrow>
     map_of ?m n = Some v \<or> (\<exists>q. builds kind ps q \<and> pv_name q = n \<and> get0 (pv_workflows q) kind = v)"
    using "2.prems" by (intro "2.IH") (auto simp: keys_aput)
  then show ?case using fresh by (auto simp: map_of_aput builds_def split: if_splits)
qed (simp add: builds_def)

lemma can_build_None:
  assumes "distinct (map pv_name ps)"
  shows "map_of (can_build kind ps []) n = None \<longleftrightarrow> (\<nexists>p. builds kind ps p \<and> pv_name p = n)"
  using can_build_spec [OF assms, of "[]" kind n] by (cases "map_of (can_build kind ps []) n") auto

lemma can_build_get:
  assumes "distinct (map pv_name ps)" and "p \<in> set ps"
  shows "get0 (can_build kind ps []) (pv_name p) = get0 (pv_workflows p) kind"
proof (cases "builds kind ps p")
  case True
  then have "map_of (can_build kind ps []) (pv_name p) = Some (get0 (pv_workflows p) kind)"
    using can_build_spec [OF assms(1), of "[]"] by auto
  then show ?thesis by (simp add: get0_def)
next
  case False
  have "\<nexists>q. builds kind ps q \<and> pv_name q = pv_name p"
    using False assms by (metis builds_def distinct_map inj_on_def)
  then have "map_of (can_build kind ps []) (pv_name p) = None"
    by (simp add: can_build_None [OF assms(1)])
  with False assms(2) show ?thesis by (simp add: get0_def builds_def)
qed

lemma matched_spec:
  assumes "distinct (map pv_name ps)"
  shows "matched sub kind ps = sort (map pv_name (filter (\<lambda>p. pv_substrate p = sub \<and> builds kind ps p) ps))"
proof -
  have "filter (\<lambda>p. pv_substrate p = sub \<and> get0 (can_build kind ps []) (pv_name p) \<noteq> []) ps
      = filter (\<lambda>p. pv_substrate p = sub \<and> builds kind ps p) ps"
    by (rule filter_cong) (auto simp: can_build_get [OF assms] builds_def)
  then show ?thesis by (simp add: matched_def)
qed

lemma builders_spec:
  "builders kind ps = sort (map pv_name (filter (builds kind ps) ps))"
  by (simp add: builders_def builds_def cong: filter_cong)

lemma distinct_names_filter: "distinct (map f ps) \<Longrightarrow> distinct (map f (filter P ps))"
  by (simp add: distinct_map_filter)

text \<open>A sorted duplicate-free list is a function of its set, and is a singleton when its set is.\<close>

lemma sort_by_set:
  fixes xs :: "'a::linorder list"
  assumes "distinct xs" "distinct ys" "set xs = set ys"
  shows "sort xs = sort ys"
  by (rule sorted_distinct_set_unique) (use assms in auto)

lemma length_one_set: "distinct xs \<Longrightarrow> length xs = 1 \<longleftrightarrow> (\<exists>x. set xs = {x})"
  by (metis card_1_singletonE distinct_card is_singletonI is_singleton_altdef)

lemma many_set: "distinct xs \<Longrightarrow> length xs > 1 \<longleftrightarrow> (\<exists>x \<in> set xs. \<exists>y \<in> set xs. x \<noteq> y)"
proof (cases xs)
  case (Cons x ys)
  assume "distinct xs"
  with Cons show ?thesis by (cases ys) auto
qed simp

section \<open>When a provider is resolved\<close>

text \<open>
  The contract in terms of sets: the builders admitted by the substrate claims, the providers named
  for the kind, and the consistency of the claims.
\<close>

definition admitted :: "string \<Rightarrow> string \<Rightarrow> provider list \<Rightarrow> capability_binding list \<Rightarrow> string set" where
  "admitted cap kind ps bs =
     pv_name ` {p. builds kind ps p \<and> (\<forall>s. claims_substrate cap kind bs s \<longrightarrow> pv_substrate p = s)}"

definition one_substrate :: "string \<Rightarrow> string \<Rightarrow> capability_binding list \<Rightarrow> bool" where
  "one_substrate cap kind bs \<longleftrightarrow>
     (\<forall>s t. claims_substrate cap kind bs s \<longrightarrow> claims_substrate cap kind bs t \<longrightarrow> s = t)"

definition builds_as :: "string \<Rightarrow> provider list \<Rightarrow> string \<Rightarrow> string \<Rightarrow> bool" where
  "builds_as kind ps q w \<longleftrightarrow> (\<exists>p. builds kind ps p \<and> pv_name p = q \<and> get0 (pv_workflows p) kind = w)"

lemma resolved_eq_iff [simp]: "resolved p w = resolved p' w' \<longleftrightarrow> p = p' \<and> w = w'"
  by (simp add: resolved_def)

lemma other_status [simp]:
  "resolved p w \<noteq> pending r" "pending r \<noteq> resolved p w"
  "resolved p w \<noteq> ambiguous r" "ambiguous r \<noteq> resolved p w"
  "cr_status (resolved p w) = StatusResolved" "cr_status (pending r) = StatusPending"
  "cr_status (ambiguous r) = StatusAmbiguous"
  by (simp_all add: resolved_def pending_def ambiguous_def)

lemma builds_as_get:
  assumes "distinct (map pv_name ps)"
  shows "map_of (can_build kind ps []) q = Some w \<longleftrightarrow> builds_as kind ps q w"
  using can_build_spec [OF assms, of "[]"] by (simp add: builds_as_def)

lemma builds_as_get0:
  assumes "distinct (map pv_name ps)" and "builds kind ps p" and "pv_name p = q"
  shows "get0 (can_build kind ps []) q = w \<longleftrightarrow> builds_as kind ps q w"
proof -
  have "map_of (can_build kind ps []) q = Some (get0 (pv_workflows p) kind)"
    using assms by (auto simp: builds_as_get builds_as_def)
  then show ?thesis using builds_as_get [OF assms(1), of kind q w] by (simp add: get0_def)
qed

lemma set_builders: "set (builders kind ps) = pv_name ` {p. builds kind ps p}"
  by (auto simp: builders_spec builds_def)

lemma set_matched:
  "distinct (map pv_name ps) \<Longrightarrow>
    set (matched sub kind ps) = pv_name ` {p. builds kind ps p \<and> pv_substrate p = sub}"
  by (auto simp: matched_spec builds_def)

lemma distinct_builders: "distinct (map pv_name ps) \<Longrightarrow> distinct (builders kind ps)"
  by (simp add: builders_spec distinct_names_filter)

lemma distinct_matched: "distinct (map pv_name ps) \<Longrightarrow> distinct (matched sub kind ps)"
  by (simp add: matched_spec distinct_names_filter)

lemma one_or_more:
  assumes "distinct xs"
  obtains (none) "xs = []"
    | (one) x where "xs = [x]"
    | (more) "length xs > 1" "set xs \<noteq> {}" "\<And>z. set xs \<noteq> {z}"
proof (cases xs)
  case (Cons x ys)
  then show ?thesis
  proof (cases ys)
    case (Cons y zs)
    with \<open>xs = x # ys\<close> assms show ?thesis by (intro more) auto
  qed (auto intro: one)
qed (rule none)

lemma resolve_provider_iff:
  assumes d: "distinct (map pv_name ps)" and sel: "distinct sel"
  shows "resolve_provider kind ps sel = resolved q w \<longleftrightarrow>
     (set sel = {} \<and> set (builders kind ps) = {q} \<or> set sel = {q}) \<and> builds_as kind ps q w"
    and "cr_status (resolve_provider kind ps sel) = StatusPending \<longleftrightarrow>
     set sel = {} \<and> set (builders kind ps) = {} \<or> (\<exists>r. set sel = {r} \<and> r \<notin> set (builders kind ps))"
proof -
  have get: "get0 (can_build kind ps []) r = w \<longleftrightarrow> builds_as kind ps r w" if "r \<in> set (builders kind ps)" for r
    using that builds_as_get0 [OF d] by (auto simp: set_builders)
  have inb: "map_of (can_build kind ps []) r = None \<longleftrightarrow> r \<notin> set (builders kind ps)" for r
    by (auto simp: can_build_None [OF d] set_builders)
  note pdef = resolve_provider_def Let_def
  show "resolve_provider kind ps sel = resolved q w \<longleftrightarrow>
     (set sel = {} \<and> set (builders kind ps) = {q} \<or> set sel = {q}) \<and> builds_as kind ps q w"
  using sel proof (cases rule: one_or_more)
    case none
    show ?thesis
      by (cases rule: one_or_more [OF distinct_builders [OF d, of kind]]) (auto simp: pdef none get)
  next
    case (one r)
    show ?thesis using builds_as_get [OF d, of kind r w] one
      by (auto simp: pdef split: option.splits)
  next
    case more
    then show ?thesis by (auto simp: pdef)
  qed
  show "cr_status (resolve_provider kind ps sel) = StatusPending \<longleftrightarrow>
     set sel = {} \<and> set (builders kind ps) = {} \<or> (\<exists>r. set sel = {r} \<and> r \<notin> set (builders kind ps))"
  using sel proof (cases rule: one_or_more)
    case none
    show ?thesis
      by (cases rule: one_or_more [OF distinct_builders [OF d, of kind]]) (auto simp: pdef none)
  next
    case (one r)
    show ?thesis using inb [of r] one by (auto simp: pdef split: option.splits)
  next
    case more
    then show ?thesis by (auto simp: pdef)
  qed
qed

lemma complete_substrate_iff:
  assumes d: "distinct (map pv_name ps)" and sel: "distinct sel" and ne: "sel \<noteq> []"
  shows "complete_substrate kind sub ps sel = resolved q w \<longleftrightarrow>
     set sel = {q} \<and> q \<in> set (matched sub kind ps) \<and> set (matched sub kind ps) \<noteq> {q} \<and> builds_as kind ps q w"
    and "cr_status (complete_substrate kind sub ps sel) \<noteq> StatusPending"
proof -
  let ?ms = "matched sub kind ps"
  have get: "get0 (can_build kind ps []) r = w \<longleftrightarrow> builds_as kind ps r w" if "r \<in> set ?ms" for r
    using that builds_as_get0 [OF d] by (auto simp: set_matched [OF d])
  note cdef = complete_substrate_def Let_def list_ex_iff
  show "complete_substrate kind sub ps sel = resolved q w \<longleftrightarrow>
     set sel = {q} \<and> q \<in> set ?ms \<and> set ?ms \<noteq> {q} \<and> builds_as kind ps q w"
  using sel proof (cases rule: one_or_more)
    case none
    with ne show ?thesis by simp
  next
    case (one r)
    show ?thesis
      by (cases rule: one_or_more [OF distinct_matched [OF d, of sub kind]]) (auto simp: cdef one get)
  next
    case more
    then show ?thesis by (auto simp: cdef)
  qed
  show "cr_status (complete_substrate kind sub ps sel) \<noteq> StatusPending"
    by (simp add: cdef)
qed

lemma resolve_substrate_iff:
  assumes d: "distinct (map pv_name ps)" and sel: "distinct sel" and ne: "subs \<noteq> []" and sub: "distinct subs"
  shows "resolve_substrate kind ps sel subs = resolved q w \<longleftrightarrow>
     (\<exists>s. set subs = {s} \<and> q \<in> set (matched s kind ps) \<and> builds_as kind ps q w \<and>
        (set sel = {} \<and> set (matched s kind ps) = {q} \<or> set sel = {q} \<and> set (matched s kind ps) \<noteq> {q}))"
    and "cr_status (resolve_substrate kind ps sel subs) = StatusPending \<longleftrightarrow>
     (\<exists>s. set subs = {s} \<and> set sel = {} \<and> set (matched s kind ps) = {})"
proof -
  have get: "get0 (can_build kind ps []) r = w \<longleftrightarrow> builds_as kind ps r w" if "r \<in> set (matched s kind ps)" for r s
    using that builds_as_get0 [OF d] by (auto simp: set_matched [OF d])
  note sdef = resolve_substrate_def Let_def
  show "resolve_substrate kind ps sel subs = resolved q w \<longleftrightarrow>
     (\<exists>s. set subs = {s} \<and> q \<in> set (matched s kind ps) \<and> builds_as kind ps q w \<and>
        (set sel = {} \<and> set (matched s kind ps) = {q} \<or> set sel = {q} \<and> set (matched s kind ps) \<noteq> {q}))"
  using sub proof (cases rule: one_or_more)
    case none
    with ne show ?thesis by simp
  next
    case (one s)
    show ?thesis
    proof (cases "sel = []")
      case True
      then show ?thesis
        using get [of q s]
        by (cases rule: one_or_more [OF distinct_matched [OF d, of s kind]]) (auto simp: sdef one)
    next
      case False
      then show ?thesis by (auto simp: sdef one complete_substrate_iff [OF d sel])
    qed
  next
    case more
    then show ?thesis by (auto simp: sdef)
  qed
  show "cr_status (resolve_substrate kind ps sel subs) = StatusPending \<longleftrightarrow>
     (\<exists>s. set subs = {s} \<and> set sel = {} \<and> set (matched s kind ps) = {})"
  using sub proof (cases rule: one_or_more)
    case none
    with ne show ?thesis by simp
  next
    case (one s)
    show ?thesis
    proof (cases "sel = []")
      case True
      then show ?thesis
        by (cases rule: one_or_more [OF distinct_matched [OF d, of s kind]]) (auto simp: sdef one)
    next
      case False
      then show ?thesis by (auto simp: sdef one complete_substrate_iff [OF d sel])
    qed
  next
    case more
    then show ?thesis by (auto simp: sdef)
  qed
qed

lemma admitted_unclaimed:
  "(\<nexists>s. claims_substrate cap kind bs s) \<Longrightarrow> admitted cap kind ps bs = set (builders kind ps)"
  by (auto simp: admitted_def set_builders)

lemma admitted_claimed:
  assumes "distinct (map pv_name ps)" and "{s. claims_substrate cap kind bs s} = {t}"
  shows "admitted cap kind ps bs = set (matched t kind ps)"
proof -
  from assms(2) have "claims_substrate cap kind bs s \<longleftrightarrow> s = t" for s by blast
  then show ?thesis by (auto simp: admitted_def set_matched [OF assms(1)])
qed

lemma one_substrate_cases:
  assumes "one_substrate cap kind bs"
  obtains (none) "{s. claims_substrate cap kind bs s} = {}"
    | (one) t where "{s. claims_substrate cap kind bs s} = {t}"
  using assms by (auto simp: one_substrate_def)

lemma ex_singleton: "(\<exists>s. {t} = {s} \<and> P s) \<longleftrightarrow> P t"
  by auto

lemma builds_as_builder: "builds_as kind ps q w \<Longrightarrow> q \<in> set (builders kind ps)"
  by (auto simp: builds_as_def set_builders)

lemma resolve_iff:
  assumes "distinct (map pv_name ps)"
  shows "resolve cap kind ps bs = resolved q w \<longleftrightarrow>
    one_substrate cap kind bs \<and> q \<in> admitted cap kind ps bs \<and> builds_as kind ps q w \<and>
    ((\<nexists>r. selects_provider cap kind bs r) \<and> admitted cap kind ps bs = {q} \<or>
     (\<forall>r. selects_provider cap kind bs r \<longleftrightarrow> r = q) \<and>
       ((\<nexists>s. claims_substrate cap kind bs s) \<or> admitted cap kind ps bs \<noteq> {q}))"
proof -
  obtain sel subs where ss: "selections cap kind bs = (sel, subs)" by fastforce
  note sp = selections_spec [OF ss]
  have selE: "(\<nexists>r. selects_provider cap kind bs r) \<longleftrightarrow> set sel = {}"
    and selO: "(\<forall>r. selects_provider cap kind bs r \<longleftrightarrow> r = q) \<longleftrightarrow> set sel = {q}"
    using sp(1) by auto
  show ?thesis
  proof (cases "one_substrate cap kind bs")
    case False
    then obtain s t where st: "s \<in> set subs" "t \<in> set subs" "s \<noteq> t"
      using sp(2) by (auto simp: one_substrate_def)
    have "subs \<noteq> []" using st(1) by (cases subs) simp_all
    moreover have "\<nexists>u. set subs = {u}" using st by (metis singletonD)
    ultimately show ?thesis using False
      by (simp add: resolve_def ss resolve_substrate_iff(1) [OF assms sp(3) _ sp(4)])
  next
    case True
    then show ?thesis
    proof (cases rule: one_substrate_cases)
      case none
      then have "subs = []" and un: "\<nexists>s. claims_substrate cap kind bs s" using sp(2) by auto
      have "resolve cap kind ps bs = resolve_provider kind ps sel" using \<open>subs = []\<close> by (simp add: resolve_def ss)
      with un show ?thesis unfolding selE selO admitted_unclaimed [OF un]
        by (auto simp: resolve_provider_iff(1) [OF assms sp(3)] True builds_as_builder)
    next
      case (one t)
      then have subs: "set subs = {t}" and ne: "subs \<noteq> []" and cl: "claims_substrate cap kind bs t"
        using sp(2) by auto
      note ad = admitted_claimed [OF assms one]
      have "resolve cap kind ps bs = resolve_substrate kind ps sel subs" using ne by (simp add: resolve_def ss)
      then have "resolve cap kind ps bs = resolved q w \<longleftrightarrow>
         q \<in> set (matched t kind ps) \<and> builds_as kind ps q w \<and>
         (set sel = {} \<and> set (matched t kind ps) = {q} \<or> set sel = {q} \<and> set (matched t kind ps) \<noteq> {q})"
        by (simp only: resolve_substrate_iff(1) [OF assms sp(3) ne sp(4)] subs ex_singleton)
      moreover have "(\<nexists>s. claims_substrate cap kind bs s) = False" using cl by blast
      ultimately show ?thesis unfolding selE selO ad by (simp only: True simp_thms)
    qed
  qed
qed

text \<open>
  C6. The reach path resolves a provider exactly when the declarations determine one: at most one
  substrate is claimed for the kind, the provider builds the kind with that Workflow and is of the
  claimed substrate, and either nothing selects a provider and it is the only admitted one, or the
  provider entries name it alone and, under a substrate claim, the substrate left the choice open.
\<close>

theorem resolve_exactly:
  assumes "distinct (map pv_name ps)"
  shows "resolve cap kind ps bs = resolved q w \<longleftrightarrow>
    one_substrate cap kind bs \<and> q \<in> admitted cap kind ps bs \<and> builds_as kind ps q w \<and>
    ((\<nexists>r. selects_provider cap kind bs r) \<and> admitted cap kind ps bs = {q} \<or>
     (\<forall>r. selects_provider cap kind bs r \<longleftrightarrow> r = q) \<and>
       ((\<nexists>s. claims_substrate cap kind bs s) \<or> admitted cap kind ps bs \<noteq> {q}))"
  by (rule resolve_iff [OF assms])

definition two_landscapes :: "provider list" where
  "two_landscapes =
     [\<lparr>pv_name = ''kubecompute'', pv_workflows = [(''Compute'', ''kube-build'')], pv_substrate = ''kubernetes''\<rparr>,
      \<lparr>pv_name = ''opentofu'', pv_workflows = [(''Compute'', ''tofu-build''), (''Subnet'', ''net-build'')],
       pv_substrate = ''aws''\<rparr>]"

definition kube_everywhere :: "capability_binding list" where
  "kube_everywhere = [\<lparr>cb_name = ''provisioning-kube'', cb_entries = [\<lparr>be_capability = ''provisioning'',
     be_provider = [], be_intent_kind = [], be_substrate = ''kubernetes''\<rparr>], cb_environments = []\<rparr>]"

lemma resolve_exactly_witness:
  "one_substrate ''provisioning'' ''Compute'' kube_everywhere \<and>
   admitted ''provisioning'' ''Compute'' two_landscapes kube_everywhere = {''kubecompute''}"
proof -
  have d: "distinct (map pv_name two_landscapes)" by (simp add: two_landscapes_def)
  have "resolve ''provisioning'' ''Compute'' two_landscapes kube_everywhere = resolved ''kubecompute'' ''kube-build''"
    by code_simp
  with resolve_exactly [OF d] show ?thesis
    by (fastforce simp: selects_provider_def kube_everywhere_def)
qed

text \<open>
  The reach path refuses with \<open>Pending\<close> exactly when the declarations do not contest each other
  and nothing admitted can serve them: no provider entry and no admitted builder, or, without a
  substrate claim, one named provider that does not build the kind.  Every other failure is the
  \<open>Ambiguous\<close> authoring error, so an unserved substrate never falls back to another landscape.
\<close>

theorem resolve_pending_exactly:
  assumes "distinct (map pv_name ps)"
  shows "cr_status (resolve cap kind ps bs) = StatusPending \<longleftrightarrow>
    one_substrate cap kind bs \<and>
    ((\<nexists>r. selects_provider cap kind bs r) \<and> admitted cap kind ps bs = {} \<or>
     (\<nexists>s. claims_substrate cap kind bs s) \<and>
       (\<exists>q. (\<forall>r. selects_provider cap kind bs r \<longleftrightarrow> r = q) \<and> q \<notin> admitted cap kind ps bs))"
proof -
  obtain sel subs where ss: "selections cap kind bs = (sel, subs)" by fastforce
  note sp = selections_spec [OF ss]
  have selE: "(\<nexists>r. selects_provider cap kind bs r) \<longleftrightarrow> set sel = {}"
    and selO: "\<And>q. (\<forall>r. selects_provider cap kind bs r \<longleftrightarrow> r = q) \<longleftrightarrow> set sel = {q}"
    using sp(1) by auto
  show ?thesis
  proof (cases "one_substrate cap kind bs")
    case False
    then obtain s t where st: "s \<in> set subs" "t \<in> set subs" "s \<noteq> t"
      using sp(2) by (auto simp: one_substrate_def)
    have "subs \<noteq> []" using st(1) by (cases subs) simp_all
    moreover have "\<nexists>u. set subs = {u}" using st by (metis singletonD)
    ultimately show ?thesis using False
      by (simp add: resolve_def ss resolve_substrate_iff(2) [OF assms sp(3) _ sp(4)])
  next
    case True
    then show ?thesis
    proof (cases rule: one_substrate_cases)
      case none
      then have "subs = []" and un: "\<nexists>s. claims_substrate cap kind bs s" using sp(2) by auto
      have "resolve cap kind ps bs = resolve_provider kind ps sel" using \<open>subs = []\<close> by (simp add: resolve_def ss)
      with un show ?thesis unfolding selE selO admitted_unclaimed [OF un]
        by (simp add: resolve_provider_iff(2) [OF assms sp(3)] True)
    next
      case (one t)
      then have subs: "set subs = {t}" and ne: "subs \<noteq> []" and cl: "\<exists>s. claims_substrate cap kind bs s"
        using sp(2) by auto
      note ad = admitted_claimed [OF assms one]
      have "resolve cap kind ps bs = resolve_substrate kind ps sel subs" using ne by (simp add: resolve_def ss)
      then have "cr_status (resolve cap kind ps bs) = StatusPending \<longleftrightarrow>
         set sel = {} \<and> set (matched t kind ps) = {}"
        by (simp only: resolve_substrate_iff(2) [OF assms sp(3) ne sp(4)] subs ex_singleton)
      then show ?thesis using cl unfolding selE selO ad by (simp only: True simp_thms)
    qed
  qed
qed

lemma resolve_pending_exactly_witness:
  "admitted ''provisioning'' ''Subnet'' two_landscapes kube_everywhere = {}"
proof -
  have d: "distinct (map pv_name two_landscapes)" by (simp add: two_landscapes_def)
  have "cr_status (resolve ''provisioning'' ''Subnet'' two_landscapes kube_everywhere) = StatusPending"
    by code_simp
  with resolve_pending_exactly [OF d] show ?thesis
    by (fastforce simp: claims_substrate_def kube_everywhere_def)
qed

text \<open>The functions of the code see a list of providers and of selections only through sorted lists.\<close>

lemma sort_mset: "mset xs = mset ys \<Longrightarrow> sort xs = sort ys"
  by (rule properties_for_sort) simp_all

lemma order_filter:
  "mset ps = mset ps' \<Longrightarrow> mset (map f (filter P ps)) = mset (map f (filter P ps'))"
  by (simp add: mset_map mset_filter)

lemma order_builders: "mset ps = mset ps' \<Longrightarrow> builders kind ps = builders kind ps'"
  unfolding builders_def by (intro sort_mset order_filter)

lemma order_can_build:
  assumes "distinct (map pv_name ps)" and "mset ps = mset ps'"
  shows "map_of (can_build kind ps []) = map_of (can_build kind ps' [])"
proof
  fix n
  have "mset (map pv_name ps) = mset (map pv_name ps')" using assms(2) by simp
  then have d': "distinct (map pv_name ps')" using assms(1) by (metis mset_eq_imp_distinct_iff)
  have b: "builds kind ps = builds kind ps'"
    by (simp add: builds_def fun_eq_iff mset_eq_setD [OF assms(2)])
  have "map_of (can_build kind ps []) n = Some v \<longleftrightarrow> map_of (can_build kind ps' []) n = Some v" for v
    unfolding builds_as_get [OF assms(1)] builds_as_get [OF d'] builds_as_def b ..
  then show "map_of (can_build kind ps []) n = map_of (can_build kind ps' []) n"
    by (metis option.exhaust)
qed

lemma order_get0:
  assumes "distinct (map pv_name ps)" and "mset ps = mset ps'"
  shows "get0 (can_build kind ps []) = get0 (can_build kind ps' [])"
  by (rule ext) (simp add: get0_def order_can_build [OF assms])

lemma order_matched:
  assumes "distinct (map pv_name ps)" and "mset ps = mset ps'"
  shows "matched sub kind ps = matched sub kind ps'"
  unfolding matched_def order_get0 [OF assms] by (intro sort_mset order_filter assms)

lemma order_available:
  assumes "distinct (map pv_name ps)" and "mset ps = mset ps'"
  shows "available kind ps = available kind ps'"
  unfolding available_def order_get0 [OF assms]
  by (intro sort_by_set distinct_remdups) (use mset_eq_setD [OF assms(2)] in auto)

lemma order_selected:
  assumes "distinct sel" "distinct sel'" "set sel = set sel'"
  shows "sort sel = sort sel'" and "length sel = length sel'"
    and "length sel = 1 \<Longrightarrow> hd sel = hd sel'" and "sel = [] \<longleftrightarrow> sel' = []"
proof -
  show s: "sort sel = sort sel'" using assms by (rule sort_by_set)
  show l: "length sel = length sel'" using s by (metis length_sort)
  show "sel = [] \<longleftrightarrow> sel' = []" using assms(3) by auto
  show "hd sel = hd sel'" if "length sel = 1"
    using s l that by (cases sel; cases sel'; simp)
qed

text \<open>
  Resolution is deterministic in the snapshot: the order in which the verified providers are
  listed, in which the bindings are scanned and in which a binding lists its entries cannot change
  the result, its provider, its Workflow or the diagnosis it prints.
\<close>

theorem resolve_order_independent:
  assumes "distinct (map pv_name ps)" and "mset ps = mset ps'"
    and "\<Union>(set ` cb_entries ` set bs) = \<Union>(set ` cb_entries ` set bs')"
  shows "resolve cap kind ps bs = resolve cap kind ps' bs'"
proof -
  obtain sel subs where s: "selections cap kind bs = (sel, subs)" by fastforce
  obtain sel' subs' where s': "selections cap kind bs' = (sel', subs')" by fastforce
  have "selects_provider cap kind bs = selects_provider cap kind bs'"
    using assms(3) by (simp add: selects_provider_def fun_eq_iff) blast
  then have sel: "set sel = set sel'" using selections_spec(1) [OF s] selections_spec(1) [OF s'] by simp
  have "claims_substrate cap kind bs = claims_substrate cap kind bs'"
    using assms(3) by (simp add: claims_substrate_def fun_eq_iff) blast
  then have sub: "set subs = set subs'" using selections_spec(2) [OF s] selections_spec(2) [OF s'] by simp
  note os = order_selected [OF selections_spec(3) [OF s] selections_spec(3) [OF s'] sel]
  note ou = order_selected [OF selections_spec(4) [OF s] selections_spec(4) [OF s'] sub]
  note same = order_builders [OF assms(2)] order_can_build [OF assms(1,2)] order_get0 [OF assms(1,2)]
    order_matched [OF assms(1,2)] order_available [OF assms(1,2)]
  have "resolve_provider kind ps sel = resolve_provider kind ps' sel'"
    unfolding resolve_provider_def same using os(2,3) by (cases "length sel = 1") (simp_all cong: option.case_cong)
  moreover have "resolve_substrate kind ps sel subs = resolve_substrate kind ps' sel' subs'"
    unfolding resolve_substrate_def complete_substrate_def same os(1) ou(1) os(4) ..
  ultimately show ?thesis by (simp add: resolve_def s s' ou(4))
qed

lemma resolve_order_independent_witness:
  "resolve ''provisioning'' ''Compute'' (rev two_landscapes) (kube_everywhere @ kube_everywhere)
     = resolved ''kubecompute'' ''kube-build''"
proof -
  have d: "distinct (map pv_name two_landscapes)" by (simp add: two_landscapes_def)
  have "resolve ''provisioning'' ''Compute'' two_landscapes kube_everywhere
      = resolve ''provisioning'' ''Compute'' (rev two_landscapes) (kube_everywhere @ kube_everywhere)"
    by (rule resolve_order_independent [OF d]) auto
  moreover have "resolve ''provisioning'' ''Compute'' two_landscapes kube_everywhere
      = resolved ''kubecompute'' ''kube-build''" by code_simp
  ultimately show ?thesis by simp
qed

end
