(* ===== verification/Float64.thy ===== *)
theory Float64
  imports Prelude
begin

text \<open>
  The \<open>float64\<close> arithmetic of the blast-radius gates.  A \<open>float64\<close> is the rational it denotes and
  \<open>f64\<close> rounds an exact result to 53 significant bits, ties to even, as every operation of the
  language does.  Overflow and subnormal results are left out: the gates multiply and divide counts
  and ratios between 0 and 1, far from both.  The lemmas: an integer up to \<open>2^53\<close> is exact, and
  rounding does not cross such an integer.
\<close>

definition round_even :: "rat \<Rightarrow> int" where
  "round_even y = (let k = \<lfloor>y\<rfloor>; r = y - of_int k in
     if r < 1/2 then k else if r > 1/2 then k + 1 else if even k then k else k + 1)"

function bit_count :: "int \<Rightarrow> nat" where
  "bit_count n = (if n \<le> 0 then 0 else Suc (bit_count (n div 2)))"
  by auto
termination by (relation "measure nat") auto

declare bit_count.simps [simp del]

definition pow2 :: "int \<Rightarrow> rat" where
  "pow2 e = (if e \<ge> 0 then of_int (2 ^ nat e) else 1 / of_int (2 ^ nat (- e)))"

text \<open>The exponent of a positive rational: \<open>2^e \<le> x < 2^(e+1)\<close>.\<close>

definition bin_exp :: "rat \<Rightarrow> int" where
  "bin_exp x = (case quotient_of x of (n, d) \<Rightarrow>
                  (let e = int (bit_count n) - int (bit_count d)
                   in if pow2 e \<le> x then e else e - 1))"

definition f64_pos :: "rat \<Rightarrow> rat" where
  "f64_pos x = (let u = pow2 (bin_exp x - 52) in of_int (round_even (x / u)) * u)"

definition f64 :: "rat \<Rightarrow> rat" where
  "f64 x = (if x = 0 then 0 else if x > 0 then f64_pos x else - f64_pos (- x))"

lemma round_even_int [simp]: "round_even (of_int k) = k"
  by (simp add: round_even_def)

lemma round_even_le: "y \<le> of_int k \<Longrightarrow> round_even y \<le> k"
proof -
  assume le: "y \<le> of_int k"
  show ?thesis
  proof (cases "\<lfloor>y\<rfloor> = k")
    case True
    with le have "y = of_int k" by linarith
    then show ?thesis by simp
  next
    case False
    with le have "\<lfloor>y\<rfloor> + 1 \<le> k" by linarith
    then show ?thesis by (simp add: round_even_def Let_def)
  qed
qed

lemma round_even_ge: "of_int k \<le> y \<Longrightarrow> k \<le> round_even y"
  by (auto simp: round_even_def Let_def le_floor_iff intro: order_trans)
    (meson le_floor_iff order_trans zle_add1_eq_le less_add_one order_less_imp_le)

lemma bit_count_bounds: "n > 0 \<Longrightarrow> 2 ^ (bit_count n - 1) \<le> n \<and> n < 2 ^ bit_count n"
proof (induction n rule: bit_count.induct)
  case (1 n)
  show ?case
  proof (cases "n = 1")
    case True
    then show ?thesis by (simp add: bit_count.simps)
  next
    case False
    with 1 have pos: "n div 2 > 0" and IH: "2 ^ (bit_count (n div 2) - 1) \<le> n div 2 \<and> n div 2 < 2 ^ bit_count (n div 2)"
      by (auto simp: pos_imp_zdiv_pos_iff)
    have step: "bit_count n = Suc (bit_count (n div 2))" using 1 by (subst bit_count.simps) simp
    obtain k where k: "bit_count (n div 2) = Suc k" using pos by (subst (asm) bit_count.simps) (auto simp: bit_count.simps)
    show ?thesis using IH by (auto simp: step k)
  qed
qed

lemma pow2_pos [simp]: "pow2 e > 0"
  by (simp add: pow2_def)

lemma pow2_powi: "pow2 e = 2 powi e"
  by (simp add: pow2_def power_int_def field_simps)

lemma pow2_add: "pow2 (a + b) = pow2 a * pow2 b"
  by (simp add: pow2_powi power_int_add)

lemma pow2_diff: "pow2 (a - b) = pow2 a / pow2 b"
  by (simp add: pow2_powi power_int_diff)

lemma pow2_nat: "pow2 (int k) = of_int (2 ^ k)"
  by (simp add: pow2_def)

lemma bin_exp_bounds:
  assumes "x > 0"
  shows "pow2 (bin_exp x) \<le> x" and "x < pow2 (bin_exp x + 1)"
proof -
  obtain n d where q: "quotient_of x = (n, d)" by fastforce
  have d: "d > 0" and x: "x = of_int n / of_int d"
    using quotient_of_denom_pos [OF q] quotient_of_div [OF q] by simp_all
  with assms have n: "n > 0" by (simp add: zero_less_divide_iff)
  define a b where "a = bit_count n" and "b = bit_count d"
  have real: "pow2 (int (bit_count m) - 1) \<le> of_int m \<and> of_int m < pow2 (int (bit_count m))" if "m > 0" for m
  proof -
    from that obtain k where k: "bit_count m = Suc k" by (subst (asm) bit_count.simps) (auto simp: bit_count.simps)
    with bit_count_bounds [OF that] have "2 ^ k \<le> m" and "m < 2 ^ Suc k" by simp_all
    then have "of_int (2 ^ k) \<le> (of_int m :: rat)" and "(of_int m :: rat) < of_int (2 ^ Suc k)"
      by (simp_all only: of_int_le_iff of_int_less_iff)
    then show ?thesis by (simp add: k pow2_nat flip: of_nat_Suc) (simp add: pow2_nat)
  qed
  note rn = real [OF n, folded a_def] and rd = real [OF d, folded b_def]
  have dr: "(of_int d :: rat) > 0" using d by simp
  have low: "pow2 (int a - int b - 1) \<le> x"
  proof -
    have "pow2 (int a - int b - 1) * of_int d \<le> pow2 (int a - int b - 1) * pow2 (int b)"
      using rd by (intro mult_left_mono) (auto simp: less_imp_le)
    also have "\<dots> = pow2 (int a - 1)" by (simp flip: pow2_add)
    also have "\<dots> \<le> of_int n" using rn by simp
    finally show ?thesis using dr by (simp add: x pos_le_divide_eq)
  qed
  have high: "x < pow2 (int a - int b + 1)"
  proof -
    have "of_int n < pow2 (int a)" using rn by simp
    also have "pow2 (int a) = pow2 (int a - int b + 1) * pow2 (int b - 1)" by (simp flip: pow2_add)
    also have "\<dots> \<le> pow2 (int a - int b + 1) * of_int d"
      using rd by (intro mult_left_mono) (auto simp: less_imp_le)
    finally show ?thesis using dr by (simp add: x pos_divide_less_eq)
  qed
  show "pow2 (bin_exp x) \<le> x" and "x < pow2 (bin_exp x + 1)"
    using low high by (auto simp: bin_exp_def q Let_def a_def b_def)
qed

text \<open>The unit in the last place divides every integer whose magnitude fits 53 bits.\<close>

lemma ulp_int:
  assumes "0 < x" and "x \<le> of_int n" and "n \<le> 2 ^ 53"
  obtains k where "of_int n = of_int k * pow2 (bin_exp x - 52)"
proof (cases "bin_exp x \<le> 52")
  case True
  define j where "j = nat (52 - bin_exp x)"
  have "pow2 (bin_exp x - 52) * pow2 (int j) = 1"
    using True by (simp add: j_def flip: pow2_add) (simp add: pow2_def)
  then have "of_int n = of_int (n * 2 ^ j) * pow2 (bin_exp x - 52)"
    by (simp add: pow2_nat field_simps)
  then show ?thesis by (rule that)
next
  case False
  then have "pow2 53 * 1 \<le> pow2 53 * pow2 (bin_exp x - 53)"
    by (intro mult_left_mono) (auto simp: pow2_def)
  also have "\<dots> = pow2 (bin_exp x)" by (simp flip: pow2_add)
  also have "\<dots> \<le> x" by (rule bin_exp_bounds(1) [OF assms(1)])
  finally have ge: "2 ^ 53 \<le> x" by (simp add: pow2_def)
  have "(of_int n :: rat) \<le> of_int (2 ^ 53)" using assms(3) by (simp only: of_int_le_iff)
  with ge assms(2) have n: "n = 2 ^ 53" and x: "x = 2 ^ 53"
    by (metis antisym of_int_eq_iff of_int_numeral of_int_power order_trans)+
  have "\<not> pow2 54 \<le> x" by (simp add: x pow2_def)
  moreover have "pow2 54 * 1 \<le> pow2 54 * pow2 (bin_exp x - 54)" if "bin_exp x \<ge> 54"
    using that by (intro mult_left_mono) (auto simp: pow2_def)
  moreover have "pow2 54 * pow2 (bin_exp x - 54) = pow2 (bin_exp x)" by (simp flip: pow2_add)
  ultimately have "bin_exp x = 53" using False bin_exp_bounds(1) [OF assms(1)] by fastforce
  then have "of_int n = of_int (2 ^ 52) * pow2 (bin_exp x - 52)" by (simp add: n pow2_def)
  then show ?thesis by (rule that)
qed

lemma f64_nonneg: "0 \<le> x \<Longrightarrow> 0 \<le> f64 x"
  using round_even_ge [of 0 "x / pow2 (bin_exp x - 52)"]
  by (auto simp: f64_def f64_pos_def Let_def less_imp_le)

lemma f64_zero [simp]: "f64 0 = 0"
  by (simp add: f64_def)

lemma f64_le_int: "0 \<le> x \<Longrightarrow> x \<le> of_int n \<Longrightarrow> n \<le> 2 ^ 53 \<Longrightarrow> f64 x \<le> of_int n"
proof (cases "x = 0")
  case False
  assume a: "0 \<le> x" "x \<le> of_int n" "n \<le> 2 ^ 53"
  with False have pos: "0 < x" by simp
  from a(2,3) obtain k where k: "of_int n = of_int k * pow2 (bin_exp x - 52)"
    by (rule ulp_int [OF pos])
  have "x / pow2 (bin_exp x - 52) \<le> of_int k" using a(2) by (simp add: k pos_divide_le_eq)
  then have "of_int (round_even (x / pow2 (bin_exp x - 52))) \<le> (of_int k :: rat)"
    by (simp add: round_even_le)
  then show ?thesis using pos by (simp add: f64_def f64_pos_def Let_def k mult_right_mono less_imp_le)
qed simp

lemma f64_int [simp]: "0 \<le> n \<Longrightarrow> n \<le> 2 ^ 53 \<Longrightarrow> f64 (of_int n) = of_int n"
proof (cases "n = 0")
  case False
  assume a: "0 \<le> n" "n \<le> 2 ^ 53"
  with False have pos: "(0::rat) < of_int n" by simp
  obtain k where k: "(of_int n :: rat) = of_int k * pow2 (bin_exp (of_int n) - 52)"
    by (rule ulp_int [OF pos order_refl a(2)])
  have "pow2 (bin_exp (of_int n) - 52) \<noteq> 0" using pow2_pos by (metis less_irrefl)
  then have "(of_int n :: rat) / pow2 (bin_exp (of_int n) - 52) = of_int k"
    using k by (metis nonzero_mult_div_cancel_right)
  then show ?thesis using pos k by (simp add: f64_def f64_pos_def Let_def)
qed simp

text \<open>The result of a positive operation is positive: rounding never reaches zero.\<close>

lemma f64_positive: "0 < x \<Longrightarrow> 0 < f64 x"
proof -
  assume pos: "0 < x"
  let ?u = "pow2 (bin_exp x - 52)"
  have "pow2 (bin_exp x) = pow2 52 * ?u" by (simp flip: pow2_add)
  then have le: "pow2 52 * ?u \<le> x" using bin_exp_bounds(1) [OF pos] by simp
  have "(1::rat) \<le> pow2 52" by (simp add: pow2_def)
  then have "1 * ?u \<le> pow2 52 * ?u" by (rule mult_right_mono) (simp add: less_imp_le)
  also note le
  finally have "of_int 1 \<le> x / ?u" by (simp add: pos_le_divide_eq)
  then have "1 \<le> round_even (x / ?u)" by (rule round_even_ge)
  then show ?thesis using pos by (simp add: f64_def f64_pos_def Let_def)
qed

lemma f64_seven_percent: "f64 (f64 (7/100) * 100) > 7"
  by code_simp

end
