(* ===== verification/Claims.thy ===== *)
theory Claims
  imports Prelude
begin

text \<open>
  Exclusive claims.  Several reconciles refuse two documents that claim one identity; each scans its
  documents in order, keeps the claims made so far in a map and returns an error at the first clash.
  The locale \<open>claim_scan\<close> states what a step of such a scan promises and proves once when the whole
  scan succeeds; every planner interprets it on its own step.
\<close>

locale claim_scan =
  fixes body :: "'a \<Rightarrow> ('k \<times> 'o) list \<Rightarrow> 'e + ('k \<times> 'o) list"
    and key :: "'a \<Rightarrow> 'k"
    and owner :: "'a \<Rightarrow> 'o"
    and clash :: "'o \<Rightarrow> 'o \<Rightarrow> bool"
  assumes free: "map_of m (key x) = None \<Longrightarrow> body x m = Inr (aput (key x) (owner x) m)"
    and held: "map_of m (key x) = Some prev \<Longrightarrow> \<not> clash prev (owner x) \<Longrightarrow> body x m = Inr (aput (key x) (owner x) m)"
    and refused: "map_of m (key x) = Some prev \<Longrightarrow> clash prev (owner x) \<Longrightarrow> \<exists>e. body x m = Inl e"
    and agree_trans: "\<not> clash a b \<Longrightarrow> \<not> clash b c \<Longrightarrow> \<not> clash a c"
begin

definition compatible :: "'a \<Rightarrow> 'a \<Rightarrow> bool" where
  "compatible x y \<longleftrightarrow> (key x = key y \<longrightarrow> \<not> clash (owner x) (owner y))"

lemma body_Inr:
  "body x m = Inr m' \<longleftrightarrow> m' = aput (key x) (owner x) m \<and> (\<forall>p. map_of m (key x) = Some p \<longrightarrow> \<not> clash p (owner x))"
proof (cases "map_of m (key x)")
  case None
  with free [OF None] show ?thesis by auto
next
  case (Some p)
  with held [OF Some] refused [OF Some] show ?thesis by (cases "clash p (owner x)") auto
qed

lemma scan_from:
  "(\<exists>m'. fold_err body xs m = Inr m') \<longleftrightarrow> sorted_wrt compatible xs \<and>
     (\<forall>x \<in> set xs. \<forall>p. map_of m (key x) = Some p \<longrightarrow> \<not> clash p (owner x))"
proof (induction xs arbitrary: m)
  case (Cons x xs)
  show ?case
  proof (cases "\<forall>p. map_of m (key x) = Some p \<longrightarrow> \<not> clash p (owner x)")
    case True
    then have b: "body x m = Inr (aput (key x) (owner x) m)" by (simp add: body_Inr)
    have "(\<forall>p. map_of (aput (key x) (owner x) m) (key y) = Some p \<longrightarrow> \<not> clash p (owner y)) \<longleftrightarrow>
        compatible x y \<and> (\<forall>p. map_of m (key y) = Some p \<longrightarrow> \<not> clash p (owner y))" for y
    proof (cases "key y = key x")
      case same: True
      then show ?thesis using True agree_trans
        by (simp add: map_of_aput compatible_def) blast
    qed (simp add: map_of_aput compatible_def)
    then have "(\<forall>y \<in> set xs. \<forall>p. map_of (aput (key x) (owner x) m) (key y) = Some p \<longrightarrow> \<not> clash p (owner y)) \<longleftrightarrow>
        (\<forall>y \<in> set xs. compatible x y) \<and> (\<forall>y \<in> set xs. \<forall>p. map_of m (key y) = Some p \<longrightarrow> \<not> clash p (owner y))"
      by blast
    with Cons.IH [of "aput (key x) (owner x) m"] True show ?thesis by (auto simp: b)
  next
    case False
    then obtain e where "body x m = Inl e" using refused by blast
    with False show ?thesis by auto
  qed
qed simp

lemma scan_ok: "(\<exists>m'. fold_err body xs [] = Inr m') \<longleftrightarrow> sorted_wrt compatible xs"
  by (simp add: scan_from)

lemma scan_fails: "(\<exists>e. fold_err body xs [] = Inl e) \<longleftrightarrow> \<not> sorted_wrt compatible xs"
  using scan_ok [of xs] by (cases "fold_err body xs []") auto

lemma body_keeps: "distinct (keys m) \<Longrightarrow> body x m = Inr m' \<Longrightarrow> distinct (keys m')"
  by (auto simp: body_Inr distinct_aput)

end

sublocale claim_scan \<subseteq> claims: checked_loop body "\<lambda>m. distinct (keys m)"
  by unfold_locales (rule body_keeps)

end
