(* ===== verification/Provision.thy ===== *)
theory Provision
  imports Json Float64 Claims "HOL-Library.Product_Lexorder"
begin

text \<open>
  Package \<open>core/internal/provision\<close>: the pure planner that compares the instances an Intent declares
  with the names already built and says what to surface, what has converged and what pauses.  The
  \<open>built\<close> set is the list of the names the code maps to \<open>true\<close>; a count is a \<open>nat\<close> (the Contract of
  \<open>Intent/Compute\<close> asks for at least 1), \<open>maxDelta\<close> the rational its \<open>float64\<close> denotes.  The lemmas
  show that names and ordinals are a round trip, that two Intents never claim one instance, that a
  plan loses nothing, and that what it surfaces at once stays within the blast-radius limit.
\<close>

definition default_max_build_batch :: int where
  "default_max_build_batch = 25"

record placement =
  pl_subnet :: string
  pl_dmz :: string
  pl_availability_zone :: string

record compute_spec =
  cs_count :: nat
  cs_name_prefix :: string
  cs_project_kind :: string
  cs_labels :: "string gomap"
  cs_requires :: "string list"
  cs_params :: "jmap option"
  cs_max_delta :: rat
  cs_placement :: "placement option"
  cs_zones :: "string list"
  cs_per_zone :: nat

record intent =
  in_name :: string
  in_spec :: compute_spec

record inst =
  inst_name :: string
  inst_intent :: string
  inst_ordinal :: nat
  inst_zone :: string
  inst_subnet_ref :: string

record pause =
  pa_intent :: string
  pa_missing :: nat
  pa_desired :: nat
  pa_limit :: int

record plan_result =
  r_to_build :: "inst list"
  r_resolved :: "inst list"
  r_paused :: "pause list"

datatype perror =
    InstanceClaimedTwice string string string
  | SingletonClaimedTwice string string string
  | SubnetRefUnbuilt string
  | NoSharedScheme string "string list" "string list"
  | ManySchemes string "string list"

definition keyed :: "compute_spec \<Rightarrow> bool" where
  "keyed s \<longleftrightarrow> length (cs_zones s) > 0"

definition desired_count :: "compute_spec \<Rightarrow> nat" where
  "desired_count s = (if keyed s then length (cs_zones s) * cs_per_zone s else cs_count s)"

definition ordinal_width :: "nat \<Rightarrow> nat" where
  "ordinal_width n = max 2 (length (show_nat n))"

definition instance_name :: "string \<Rightarrow> nat \<Rightarrow> nat \<Rightarrow> string" where
  "instance_name prefix ordinal cnt = prefix @ ''-'' @ pad (ordinal_width cnt) ordinal"

definition keyed_instance_name :: "string \<Rightarrow> string \<Rightarrow> nat \<Rightarrow> nat \<Rightarrow> string" where
  "keyed_instance_name prefix zone ordinal per_zone =
     prefix @ ''-'' @ zone @ ''-'' @ pad (ordinal_width per_zone) ordinal"

definition desired :: "intent \<Rightarrow> inst list" where
  "desired i = (let s = in_spec i in
     if keyed s
     then concat (map (\<lambda>z. map (\<lambda>o'. \<lparr>inst_name = keyed_instance_name (cs_name_prefix s) z o' (cs_per_zone s),
            inst_intent = in_name i, inst_ordinal = o', inst_zone = z, inst_subnet_ref = []\<rparr>)
            [1..<cs_per_zone s + 1]) (cs_zones s))
     else map (\<lambda>o'. \<lparr>inst_name = instance_name (cs_name_prefix s) o' (cs_count s),
            inst_intent = in_name i, inst_ordinal = o', inst_zone = [], inst_subnet_ref = []\<rparr>)
            [1..<cs_count s + 1])"

definition instance_ordinal :: "string \<Rightarrow> string \<Rightarrow> nat option" where
  "instance_ordinal prefix name =
     (case cut_prefix (prefix @ ''-'') name of
        None \<Rightarrow> None
      | Some rest \<Rightarrow> (case atoi (after_last (CHR ''-'') rest) of
            None \<Rightarrow> None
          | Some ord \<Rightarrow> if ord < 1 then None else Some (nat ord)))"

definition excess :: "intent \<Rightarrow> string list \<Rightarrow> inst list" where
  "excess i built = rev (sort_key inst_ordinal (rev (List.map_filter
     (\<lambda>name. if name \<in> set (map inst_name (desired i)) then None
        else map_option (\<lambda>ord. \<lparr>inst_name = name, inst_intent = in_name i, inst_ordinal = ord,
               inst_zone = [], inst_subnet_ref = []\<rparr>) (instance_ordinal (cs_name_prefix (in_spec i)) name))
     built)))"

section \<open>The plan of the counted fleets\<close>

text \<open>One step of the exclusive-claim scan over the desired instances.\<close>

definition claim_instance :: "inst \<Rightarrow> string gomap \<Rightarrow> perror + string gomap" where
  "claim_instance d claim =
     (case map_of claim (inst_name d) of
        Some prev \<Rightarrow> if prev \<noteq> inst_intent d then Inl (InstanceClaimedTwice (inst_name d) prev (inst_intent d))
                     else Inr (aput (inst_name d) (inst_intent d) claim)
      | None \<Rightarrow> Inr (aput (inst_name d) (inst_intent d) claim))"

definition effective_cap :: "int \<Rightarrow> int" where
  "effective_cap cap = (if cap \<le> 0 then default_max_build_batch else cap)"

definition build_limit :: "int \<Rightarrow> compute_spec \<Rightarrow> int" where
  "build_limit cap s =
     (if cs_max_delta s > 0
      then (let f = \<lceil>f64 (cs_max_delta s * f64 (of_nat (desired_count s)))\<rceil> in if f < cap then f else cap)
      else cap)"

definition plan_intent :: "int \<Rightarrow> string list \<Rightarrow> intent \<Rightarrow> plan_result \<Rightarrow> plan_result" where
  "plan_intent cap built i r =
     (let resolved = filter (\<lambda>d. inst_name d \<in> set built) (desired i);
          missing = filter (\<lambda>d. inst_name d \<notin> set built) (desired i);
          limit = build_limit cap (in_spec i);
          r1 = r\<lparr>r_resolved := r_resolved r @ resolved\<rparr>
      in if int (length missing) > limit
         then r1\<lparr>r_paused := r_paused r @ [\<lparr>pa_intent = in_name i, pa_missing = length missing,
                pa_desired = desired_count (in_spec i), pa_limit = limit\<rparr>]\<rparr>
         else r1\<lparr>r_to_build := r_to_build r @ missing\<rparr>)"

definition empty_plan :: plan_result where
  "empty_plan = \<lparr>r_to_build = [], r_resolved = [], r_paused = []\<rparr>"

definition plan :: "intent list \<Rightarrow> string list \<Rightarrow> int \<Rightarrow> perror + plan_result" where
  "plan intents built cap =
     (let sorted = sort_key in_name intents
      in case fold_err claim_instance (concat (map desired sorted)) [] of
           Inl e \<Rightarrow> Inl e
         | Inr claim \<Rightarrow> Inr (fold (plan_intent (effective_cap cap) built) sorted empty_plan))"

section \<open>Named singletons\<close>

record singleton_spec =
  ss_project_kind :: string
  ss_labels :: "string gomap"
  ss_requires :: "string list"
  ss_params :: "jmap option"
  ss_placement :: "placement option"

record singleton_intent =
  si_name :: string
  si_kind :: string
  si_spec :: singleton_spec

definition singleton_key :: "string \<Rightarrow> string \<Rightarrow> string" where
  "singleton_key kind name = kind @ ''/'' @ name"

definition skey :: "singleton_intent \<Rightarrow> string" where
  "skey si = singleton_key (si_kind si) (si_name si)"

definition claim_singleton :: "singleton_intent \<Rightarrow> string gomap \<Rightarrow> perror + string gomap" where
  "claim_singleton si claim =
     (case map_of claim (skey si) of
        Some prev \<Rightarrow> Inl (SingletonClaimedTwice (skey si) prev (si_name si))
      | None \<Rightarrow> Inr (aput (skey si) (si_name si) claim))"

definition singleton_inst :: "singleton_intent \<Rightarrow> inst" where
  "singleton_inst si = \<lparr>inst_name = skey si, inst_intent = si_name si, inst_ordinal = 0,
     inst_zone = [], inst_subnet_ref = []\<rparr>"

definition plan_singletons :: "singleton_intent list \<Rightarrow> string list \<Rightarrow> int \<Rightarrow> perror + plan_result" where
  "plan_singletons intents built cap =
     (let cap' = effective_cap cap;
          sorted = sort_key (\<lambda>si. (si_kind si, si_name si)) intents
      in case fold_err claim_singleton sorted [] of
           Inl e \<Rightarrow> Inl e
         | Inr claim \<Rightarrow>
             (let resolved = filter (\<lambda>d. inst_name d \<in> set built) (map singleton_inst sorted);
                  missing = filter (\<lambda>d. inst_name d \<notin> set built) (map singleton_inst sorted)
              in if int (length missing) > cap'
                 then Inr \<lparr>r_to_build = [], r_resolved = resolved,
                        r_paused = [\<lparr>pa_intent = ''(singletons)'', pa_missing = length missing,
                          pa_desired = length sorted, pa_limit = cap'\<rparr>]\<rparr>
                 else Inr \<lparr>r_to_build = missing, r_resolved = resolved, r_paused = []\<rparr>))"

section \<open>Placement drift\<close>

record drift =
  dr_unit :: string
  dr_declared :: string
  dr_observed :: "string list"

definition detect_placement_drift :: "string gomap \<Rightarrow> string list gomap \<Rightarrow> drift list" where
  "detect_placement_drift declared observed = sort_key dr_unit (List.map_filter
     (\<lambda>(unit, want). case map_of observed unit of
        None \<Rightarrow> None
      | Some obs \<Rightarrow> if obs = [] \<or> want \<in> set obs then None
                    else Some \<lparr>dr_unit = unit, dr_declared = want, dr_observed = obs\<rparr>)
     declared)"

definition declared_compute_placements :: "intent list \<Rightarrow> string gomap" where
  "declared_compute_placements intents = fold (\<lambda>i out.
     case cs_placement (in_spec i) of
       None \<Rightarrow> out
     | Some pl \<Rightarrow> if pl_subnet pl = [] then out
                  else fold (\<lambda>d. aput (inst_name d) (pl_subnet pl)) (desired i) out) intents []"

definition declared_singleton_placements :: "singleton_intent list \<Rightarrow> string gomap" where
  "declared_singleton_placements intents = fold (\<lambda>si out.
     case ss_placement (si_spec si) of
       None \<Rightarrow> out
     | Some pl \<Rightarrow> if pl_subnet pl = [] then out else aput (skey si) (pl_subnet pl) out) intents []"

section \<open>Launch parameters\<close>

definition instance_label :: string where
  "instance_label = ''stratt.intent/instance''"

definition singleton_label :: string where
  "singleton_label = ''stratt.intent/singleton''"

definition empty_if_nil :: "jmap option \<Rightarrow> jmap" where
  "empty_if_nil p = (case p of None \<Rightarrow> [] | Some m \<Rightarrow> m)"

text \<open>\<open>labels\<close>: a copy of the declared ones, then the correlation label over whatever it held.\<close>

definition launch_labels :: "string gomap \<Rightarrow> string \<Rightarrow> string \<Rightarrow> jmap" where
  "launch_labels declared label name = aput label (JStr name) (map (\<lambda>(k, v). (k, JStr v)) declared)"

definition placement_params :: "placement option \<Rightarrow> jmap" where
  "placement_params p =
     (let base = [(''subnet'', JStr []), (''subnetRef'', JStr []), (''dmz'', JStr []), (''availabilityZone'', JStr [])]
      in case p of
           None \<Rightarrow> base
         | Some pl \<Rightarrow> aput ''availabilityZone'' (JStr (pl_availability_zone pl))
             (aput ''dmz'' (JStr (pl_dmz pl)) (aput ''subnet'' (JStr (pl_subnet pl)) base)))"

definition build_launch_params :: "intent \<Rightarrow> inst \<Rightarrow> jmap" where
  "build_launch_params i d =
     (let labels = launch_labels (cs_labels (in_spec i)) instance_label (inst_name d);
          out = [(''instance'', JStr (inst_name d)), (''ordinal'', JInt (int (inst_ordinal d))),
                 (''projectKind'', JStr (cs_project_kind (in_spec i))), (''labels'', JObj labels)];
          place = aput ''subnetRef'' (JStr (inst_subnet_ref d)) (placement_params (cs_placement (in_spec i)));
          place' = (if inst_zone d \<noteq> [] then aput ''availabilityZone'' (JStr (inst_zone d)) place else place)
      in aput ''params'' (JObj (empty_if_nil (cs_params (in_spec i)))) (aput ''placement'' (JObj place') out))"

definition teardown_launch_params :: "string \<Rightarrow> inst \<Rightarrow> string \<Rightarrow> string \<Rightarrow> jmap" where
  "teardown_launch_params iname d scheme value =
     [(''instance'', JStr (inst_name d)), (''intent'', JStr iname), (''ordinal'', JInt (int (inst_ordinal d))),
      (''identityScheme'', JStr scheme), (''identityValue'', JStr value)]"

definition filter_to_declared :: "jmap \<Rightarrow> string list \<Rightarrow> jmap" where
  "filter_to_declared ps declared =
     (if declared = [] then ps else filter (\<lambda>(k, v). k \<in> set declared) ps)"

definition singleton_launch_params :: "singleton_intent \<Rightarrow> inst \<Rightarrow> jmap" where
  "singleton_launch_params si d =
     (let labels = launch_labels (ss_labels (si_spec si)) singleton_label (inst_name d);
          out = [(''singleton'', JStr (inst_name d)), (''name'', JStr (si_name si)),
                 (''intentKind'', JStr (si_kind si)), (''projectKind'', JStr (ss_project_kind (si_spec si))),
                 (''labels'', JObj labels)];
          place = aput ''subnetRef'' (JStr (inst_subnet_ref d)) (placement_params (ss_placement (si_spec si)))
      in aput ''params'' (JObj (empty_if_nil (ss_params (si_spec si)))) (aput ''placement'' (JObj place) out))"

section \<open>Placement resolution\<close>

definition sorted_schemes :: "string gomap \<Rightarrow> string list" where
  "sorted_schemes identities = sort (keys identities)"

text \<open>\<open>strings.SplitN(hit, "=", 2)[1]\<close>: everything after the first separator.\<close>

definition after_first :: "char \<Rightarrow> string \<Rightarrow> string" where
  "after_first c s = drop (Suc (length (before_sep c s))) s"

definition resolve_subnet_ref :: "string \<Rightarrow> string gomap \<Rightarrow> string list \<Rightarrow> perror + string" where
  "resolve_subnet_ref target identities schemes =
     (if identities = [] then Inl (SubnetRefUnbuilt target)
      else let hits = sort (List.map_filter
             (\<lambda>scheme. map_option (\<lambda>v. scheme @ ''='' @ v) (map_of identities scheme)) schemes)
        in if length hits = 1 then Inr (after_first (CHR ''='') (hd hits))
           else if length hits = 0 then Inl (NoSharedScheme target (sorted_schemes identities) schemes)
           else Inl (ManySchemes target hits))"

section \<open>Names and ordinals\<close>

lemma instance_ordinal_iff:
  "instance_ordinal prefix name = Some n \<longleftrightarrow>
     (\<exists>rest. name = prefix @ ''-'' @ rest \<and> atoi (after_last (CHR ''-'') rest) = Some (int n) \<and> 1 \<le> n)"
proof (cases "cut_prefix (prefix @ ''-'') name")
  case None
  have "name \<noteq> prefix @ CHR ''-'' # rest" for rest
    using cut_prefix_Some [of "prefix @ ''-''" name rest] None by auto
  with None show ?thesis by (simp add: instance_ordinal_def)
next
  case (Some rest)
  then have "name = prefix @ CHR ''-'' # rest" by simp
  then show ?thesis unfolding instance_ordinal_def Some by (auto split: option.splits)
qed

text \<open>
  What the planner names it can read back: the ordinal parsed from a positional or a zone-keyed
  instance name is the ordinal it was made with, for every prefix, zone and width.
\<close>

theorem instance_ordinal_round_trip:
  assumes "1 \<le> n" and "int n \<le> max_int64"
  shows "instance_ordinal prefix (instance_name prefix n cnt) = Some n \<and>
    instance_ordinal prefix (keyed_instance_name prefix zone n per_zone) = Some n"
proof
  show "instance_ordinal prefix (instance_name prefix n cnt) = Some n"
    using assms by (simp add: instance_ordinal_iff instance_name_def after_last_no_sep pad_no_dash atoi_pad)
  show "instance_ordinal prefix (keyed_instance_name prefix zone n per_zone) = Some n"
    using assms by (simp add: instance_ordinal_iff keyed_instance_name_def after_last_sep pad_no_dash atoi_pad)
qed

lemma instance_ordinal_round_trip_witness:
  "instance_ordinal ''web'' ''web-07'' = Some 7 \<and> instance_ordinal ''web'' ''web-az-a-07'' = Some 7"
proof -
  have n: "instance_name ''web'' 7 12 = ''web-07''" "keyed_instance_name ''web'' ''az-a'' 7 12 = ''web-az-a-07''"
    by code_simp+
  show ?thesis
    using instance_ordinal_round_trip [of 7 "''web''" 12 "''az-a''" 12] by (simp add: max_int64_def n)
qed

text \<open>Names split back into their parts, because a padded ordinal holds no dash.\<close>

lemma last_dash_inj:
  assumes "a @ CHR ''-'' # s = b @ CHR ''-'' # t" and "CHR ''-'' \<notin> set s" and "CHR ''-'' \<notin> set t"
  shows "a = b \<and> s = t"
proof -
  have "after_last (CHR ''-'') (a @ CHR ''-'' # s) = s" and "after_last (CHR ''-'') (b @ CHR ''-'' # t) = t"
    using assms(2,3) by (simp_all add: after_last_sep)
  with assms(1) show ?thesis by simp
qed

lemma keyed_name_inj:
  "keyed_instance_name p z m k = keyed_instance_name p z' n k' \<Longrightarrow> z = z' \<and> pad (ordinal_width k) m = pad (ordinal_width k') n"
  using last_dash_inj [of "p @ ''-'' @ z" "pad (ordinal_width k) m" "p @ ''-'' @ z'" "pad (ordinal_width k') n"]
  by (simp add: keyed_instance_name_def pad_no_dash)

lemma name_inj: "instance_name p m k = instance_name p n k' \<Longrightarrow> pad (ordinal_width k) m = pad (ordinal_width k') n"
  by (simp add: instance_name_def)

lemma desired_intent: "d \<in> set (desired i) \<Longrightarrow> inst_intent d = in_name i"
  by (auto simp: desired_def Let_def split: if_splits)

lemma set_desired_keyed:
  assumes "keyed (in_spec i)"
  shows "set (map inst_name (desired i)) = {keyed_instance_name (cs_name_prefix (in_spec i)) z n (cs_per_zone (in_spec i)) | z n.
     z \<in> set (cs_zones (in_spec i)) \<and> 1 \<le> n \<and> n \<le> cs_per_zone (in_spec i)}"
  using assms by (force simp: desired_def Let_def less_Suc_eq_le)

lemma length_desired: "length (desired i) = desired_count (in_spec i)"
  by (auto simp: desired_def desired_count_def Let_def length_concat o_def sum_list_triv)

lemma concat_map_distinct:
  "distinct zs \<Longrightarrow> distinct ns \<Longrightarrow> inj_on (\<lambda>(z, n). f z n) (set zs \<times> set ns) \<Longrightarrow>
    distinct (concat (map (\<lambda>z. map (f z) ns) zs))"
proof (induction zs)
  case (Cons z zs)
  have "inj_on (\<lambda>(z, n). f z n) (set zs \<times> set ns)" by (rule inj_on_subset [OF Cons.prems(3)]) auto
  with Cons have "distinct (concat (map (\<lambda>z. map (f z) ns) zs))" by simp
  moreover have "inj_on (f z) (set ns)"
    using Cons.prems(3) by (auto simp: inj_on_def)
  moreover have "f z n \<noteq> f y m" if "y \<in> set zs" "n \<in> set ns" "m \<in> set ns" for y n m
    using inj_onD [OF Cons.prems(3), of "(z, n)" "(y, m)"] that Cons.prems(1) by auto
  ultimately show ?case using Cons.prems(2) by (auto simp: distinct_map)
qed simp

text \<open>
  An Intent with distinct zones derives as many different instance names as it wants instances, so
  the blast-radius gate and the shortfall count the same fleet.
\<close>

theorem desired_names_distinct:
  assumes "distinct (cs_zones (in_spec i))"
  shows "distinct (map inst_name (desired i)) \<and> length (desired i) = desired_count (in_spec i)"
proof (cases "keyed (in_spec i)")
  case True
  let ?s = "in_spec i"
  have inj: "inj_on (\<lambda>(z, n). keyed_instance_name (cs_name_prefix ?s) z n (cs_per_zone ?s)) X" for X
    by (auto simp: inj_on_def dest!: keyed_name_inj pad_inj)
  have "map inst_name (desired i) = concat (map (\<lambda>z. map (\<lambda>n. keyed_instance_name (cs_name_prefix ?s) z n (cs_per_zone ?s))
      [1..<cs_per_zone ?s + 1]) (cs_zones ?s))"
    using True by (simp add: desired_def Let_def map_concat o_def)
  then show ?thesis using concat_map_distinct [OF assms _ inj, of "[1..<cs_per_zone ?s + 1]"]
    by (simp add: length_desired)
next
  case False
  then show ?thesis
    by (auto simp: desired_def desired_count_def Let_def o_def distinct_map inj_on_def dest!: name_inj pad_inj)
qed

definition two_zones :: "string list \<Rightarrow> intent" where
  "two_zones zs = \<lparr>in_name = ''web'', in_spec = \<lparr>cs_count = 0, cs_name_prefix = ''web'', cs_project_kind = ''host'',
     cs_labels = [], cs_requires = [''provisioning''], cs_params = None, cs_max_delta = 0, cs_placement = None,
     cs_zones = zs, cs_per_zone = 2\<rparr>\<rparr>"

lemma desired_names_distinct_witness:
  "distinct (map inst_name (desired (two_zones [''a'', ''b'']))) \<and> desired_count (in_spec (two_zones [''a'', ''b''])) = 4"
  using desired_names_distinct [of "two_zones [''a'', ''b'']"] by (simp add: two_zones_def desired_count_def keyed_def)

text \<open>
  Editing the zone list is additive: an instance keyed to a zone that stays keeps its name, so a new
  zone, or zones listed in another order, destroys and renames nothing, and the only names that appear
  or disappear are those of the zones that were added or removed.
\<close>

theorem zone_edit_additive:
  assumes "in_spec j = (in_spec i)\<lparr>cs_zones := zs\<rparr>" and "cs_zones (in_spec i) \<noteq> []" and "zs \<noteq> []"
    and "z \<in> set (cs_zones (in_spec i))" and "1 \<le> n" and "n \<le> cs_per_zone (in_spec i)"
  shows "keyed_instance_name (cs_name_prefix (in_spec i)) z n (cs_per_zone (in_spec i)) \<in> set (map inst_name (desired i)) \<and>
    (keyed_instance_name (cs_name_prefix (in_spec i)) z n (cs_per_zone (in_spec i)) \<in> set (map inst_name (desired j))
      \<longleftrightarrow> z \<in> set zs)"
proof -
  have k: "keyed (in_spec i)" "keyed (in_spec j)" using assms(1-3) by (simp_all add: keyed_def)
  show ?thesis using assms(1,4-6) unfolding set_desired_keyed [OF k(1)] set_desired_keyed [OF k(2)]
    by (auto dest: keyed_name_inj)
qed

lemma zone_edit_additive_witness:
  "''web-a-02'' \<in> set (map inst_name (desired (two_zones [''b'', ''c'', ''a''])))"
proof -
  have n: "keyed_instance_name ''web'' ''a'' 2 2 = ''web-a-02''" by code_simp
  show ?thesis
    using zone_edit_additive [where j = "two_zones [''b'', ''c'', ''a'']" and i = "two_zones [''a'', ''b'']"
      and zs = "[''b'', ''c'', ''a'']" and z = "''a''" and n = 2]
    by (simp add: two_zones_def n)
qed

section \<open>The plan\<close>

interpretation instances: claim_scan claim_instance inst_name inst_intent "(\<noteq>)"
  by unfold_locales (auto simp: claim_instance_def)

interpretation singletons: claim_scan claim_singleton skey si_name "\<lambda>_ _. True"
  by unfold_locales (auto simp: claim_singleton_def)

lemma sorted_wrt_symmetric:
  assumes "\<And>x y. P x y \<Longrightarrow> P y x" and "\<And>x. P x x"
  shows "sorted_wrt P xs \<longleftrightarrow> (\<forall>x \<in> set xs. \<forall>y \<in> set xs. P x y)"
  using assms by (induction xs) auto

lemma plan_Inr:
  "plan intents built cap = Inr r \<longleftrightarrow>
     (\<exists>m. fold_err claim_instance (concat (map desired (sort_key in_name intents))) [] = Inr m) \<and>
     r = fold (plan_intent (effective_cap cap) built) (sort_key in_name intents) empty_plan"
  by (auto simp: plan_def Let_def split: sum.splits)

text \<open>
  Exclusive claim: the plan of the counted fleets exists exactly when no two Intents with different
  names derive one instance name; otherwise the reconcile gets the error and surfaces nothing.
\<close>

theorem plan_exclusive_claim:
  "(\<exists>r. plan intents built cap = Inr r) \<longleftrightarrow>
     (\<forall>i \<in> set intents. \<forall>j \<in> set intents. in_name i \<noteq> in_name j \<longrightarrow>
        set (map inst_name (desired i)) \<inter> set (map inst_name (desired j)) = {})"
proof -
  have "(\<exists>r. plan intents built cap = Inr r) \<longleftrightarrow>
      sorted_wrt instances.compatible (concat (map desired (sort_key in_name intents)))"
    by (simp add: plan_Inr instances.scan_ok)
  also have "\<dots> \<longleftrightarrow> (\<forall>d \<in> \<Union>(set ` desired ` set intents). \<forall>e \<in> \<Union>(set ` desired ` set intents).
      inst_name d = inst_name e \<longrightarrow> inst_intent d = inst_intent e)"
    by (subst sorted_wrt_symmetric) (auto simp: instances.compatible_def)
  also have "\<dots> \<longleftrightarrow> (\<forall>i \<in> set intents. \<forall>j \<in> set intents. in_name i \<noteq> in_name j \<longrightarrow>
        set (map inst_name (desired i)) \<inter> set (map inst_name (desired j)) = {})"
    by (auto simp: desired_intent)
  finally show ?thesis .
qed

lemma plan_exclusive_claim_witness:
  "\<nexists>r. plan [two_zones [''a''], (two_zones [''a''])\<lparr>in_name := ''web2''\<rparr>] [] 0 = Inr r"
proof -
  have d: "set (map inst_name (desired (two_zones [''a'']))) \<inter> set (map inst_name (desired ((two_zones [''a''])\<lparr>in_name := ''web2''\<rparr>))) \<noteq> {}"
    by code_simp
  have "in_name (two_zones [''a'']) \<noteq> in_name ((two_zones [''a''])\<lparr>in_name := ''web2''\<rparr>)" by (simp add: two_zones_def)
  with d plan_exclusive_claim [of "[two_zones [''a''], (two_zones [''a''])\<lparr>in_name := ''web2''\<rparr>]" "[]" 0]
  show ?thesis by simp
qed

text \<open>The part of a plan that one Intent contributes.\<close>

definition missing :: "string list \<Rightarrow> intent \<Rightarrow> inst list" where
  "missing built i = filter (\<lambda>d. inst_name d \<notin> set built) (desired i)"

definition within_limit :: "int \<Rightarrow> string list \<Rightarrow> intent \<Rightarrow> bool" where
  "within_limit cap built i \<longleftrightarrow> int (length (missing built i)) \<le> build_limit (effective_cap cap) (in_spec i)"

definition pause_of :: "int \<Rightarrow> string list \<Rightarrow> intent \<Rightarrow> pause" where
  "pause_of cap built i = \<lparr>pa_intent = in_name i, pa_missing = length (missing built i),
     pa_desired = desired_count (in_spec i), pa_limit = build_limit (effective_cap cap) (in_spec i)\<rparr>"

lemma fold_plan_intent:
  "fold (plan_intent (effective_cap cap) built) is r =
     \<lparr>r_to_build = r_to_build r @ concat (map (missing built) (filter (within_limit cap built) is)),
      r_resolved = r_resolved r @ concat (map (\<lambda>i. filter (\<lambda>d. inst_name d \<in> set built) (desired i)) is),
      r_paused = r_paused r @ map (pause_of cap built) (filter (\<lambda>i. \<not> within_limit cap built i) is)\<rparr>"
proof (induction "is" arbitrary: r)
  case (Cons i "is")
  then show ?case
    by (cases "within_limit cap built i")
      (auto simp: plan_intent_def Let_def missing_def [symmetric] within_limit_def pause_of_def)
qed simp

lemma plan_shape:
  "plan intents built cap = Inr r \<Longrightarrow>
     r = \<lparr>r_to_build = concat (map (missing built) (filter (within_limit cap built) (sort_key in_name intents))),
      r_resolved = concat (map (\<lambda>i. filter (\<lambda>d. inst_name d \<in> set built) (desired i)) (sort_key in_name intents)),
      r_paused = map (pause_of cap built) (filter (\<lambda>i. \<not> within_limit cap built i) (sort_key in_name intents))\<rparr>"
  by (simp add: plan_Inr fold_plan_intent empty_plan_def)

text \<open>
  A plan loses nothing and invents nothing: a desired instance is reported resolved exactly when its
  name is built, is surfaced for building exactly when it is not and its Intent is within the limit, and
  an Intent is paused exactly when its missing instances exceed the limit; every other surfaced or
  resolved instance does not exist.
\<close>

theorem plan_partition:
  assumes "plan intents built cap = Inr r" and "distinct (map in_name intents)"
    and "i \<in> set intents" and "d \<in> set (desired i)"
  shows "(d \<in> set (r_resolved r) \<longleftrightarrow> inst_name d \<in> set built) \<and>
    (d \<in> set (r_to_build r) \<longleftrightarrow> inst_name d \<notin> set built \<and> within_limit cap built i) \<and>
    (pause_of cap built i \<in> set (r_paused r) \<longleftrightarrow> \<not> within_limit cap built i) \<and>
    set (r_to_build r) \<union> set (r_resolved r) \<subseteq> \<Union>(set ` desired ` set intents)"
proof -
  note r = plan_shape [OF assms(1)]
  have own: "j = i" if "j \<in> set intents" "d \<in> set (desired j)" for j
    using that assms(2-4) desired_intent by (metis distinct_map inj_onD)
  have name: "j = i" if "j \<in> set intents" "pause_of cap built j = pause_of cap built i" for j
    using that assms(2,3) by (auto simp: pause_of_def distinct_map dest: inj_onD)
  have "d \<in> set (r_resolved r) \<longleftrightarrow> inst_name d \<in> set built"
    using assms(3,4) by (auto simp: r)
  moreover have "d \<in> set (r_to_build r) \<longleftrightarrow> inst_name d \<notin> set built \<and> within_limit cap built i"
  proof -
    have "d \<in> set (r_to_build r) \<longleftrightarrow>
        (\<exists>j \<in> set intents. within_limit cap built j \<and> d \<in> set (desired j) \<and> inst_name d \<notin> set built)"
      by (simp add: r missing_def) blast
    with own assms(3,4) show ?thesis by metis
  qed
  moreover have "pause_of cap built i \<in> set (r_paused r) \<longleftrightarrow> \<not> within_limit cap built i"
  proof
    assume "pause_of cap built i \<in> set (r_paused r)"
    then obtain j where "j \<in> set intents" "\<not> within_limit cap built j" "pause_of cap built j = pause_of cap built i"
      by (auto simp: r)
    with name show "\<not> within_limit cap built i" by metis
  qed (simp add: r assms(3))
  moreover have "set (r_to_build r) \<union> set (r_resolved r) \<subseteq> \<Union>(set ` desired ` set intents)"
    by (auto simp: r missing_def)
  ultimately show ?thesis by blast
qed

lemma plan_partition_witness:
  "map inst_name (r_to_build (projr (plan [two_zones [''a'']] [''web-a-01''] 0))) = [''web-a-02''] \<and>
   hd (desired (two_zones [''a''])) \<in> set (r_resolved (projr (plan [two_zones [''a'']] [''web-a-01''] 0)))"
proof
  show "map inst_name (r_to_build (projr (plan [two_zones [''a'']] [''web-a-01''] 0))) = [''web-a-02'']"
    by code_simp
  have "\<not> isl (plan [two_zones [''a'']] [''web-a-01''] 0)" by code_simp
  then have r: "plan [two_zones [''a'']] [''web-a-01''] 0 = Inr (projr (plan [two_zones [''a'']] [''web-a-01''] 0))"
    by simp
  have d: "hd (desired (two_zones [''a''])) \<in> set (desired (two_zones [''a'']))" by (rule hd_in_set) code_simp
  have "inst_name (hd (desired (two_zones [''a'']))) \<in> set [''web-a-01'']" by code_simp
  with plan_partition [OF r _ _ d]
  show "hd (desired (two_zones [''a''])) \<in> set (r_resolved (projr (plan [two_zones [''a'']] [''web-a-01''] 0)))"
    by simp
qed

lemma missing_intent: "d \<in> set (missing built i) \<Longrightarrow> inst_intent d = in_name i"
  by (auto simp: missing_def desired_intent)

lemma filter_intent: "filter (\<lambda>d. inst_intent d = n) (missing built i) = (if in_name i = n then missing built i else [])"
  by (auto simp: filter_id_conv filter_empty_conv missing_intent)

lemma surfaced_of_intent:
  "distinct (map in_name js) \<Longrightarrow> (\<And>j. j \<in> set js \<Longrightarrow> in_name j = n \<Longrightarrow> length (missing built j) \<le> k) \<Longrightarrow>
     length (filter (\<lambda>d. inst_intent d = n) (concat (map (missing built) js))) \<le> k"
proof (induction js)
  case (Cons j js)
  show ?case
  proof (cases "in_name j = n")
    case True
    with Cons.prems(1) have "n \<notin> set (map in_name js)" by auto
    then have "filter (\<lambda>d. inst_intent d = n) (concat (map (missing built) js)) = []"
      by (auto simp: filter_empty_conv missing_intent)
    with Cons.prems(2) [of j] True show ?thesis by (simp add: filter_intent)
  next
    case False
    with Cons show ?thesis by (simp add: filter_intent)
  qed
qed simp

lemma effective_cap_pos: "1 \<le> effective_cap cap"
  by (simp add: effective_cap_def default_max_build_batch_def)

lemma build_limit_bounds:
  assumes "1 \<le> cap" and "1 \<le> desired_count s" and "int (desired_count s) \<le> 2 ^ 53"
  shows "1 \<le> build_limit cap s" and "build_limit cap s \<le> cap"
    and "0 < cs_max_delta s \<Longrightarrow> cs_max_delta s \<le> 1 \<Longrightarrow> build_limit cap s \<le> int (desired_count s)"
proof -
  let ?n = "rat_of_nat (desired_count s)"
  have fn: "f64 ?n = ?n" using f64_int [of "int (desired_count s)"] assms(3) by simp
  have n: "1 \<le> ?n" using assms(2) by simp
  have pos: "0 < f64 (cs_max_delta s * f64 ?n)" if "0 < cs_max_delta s"
    using that n by (intro f64_positive) (simp add: fn)
  show "1 \<le> build_limit cap s" using assms(1) pos
    by (auto simp: build_limit_def Let_def int_one_le_iff_zero_less)
  show "build_limit cap s \<le> cap" by (auto simp: build_limit_def Let_def)
  show "build_limit cap s \<le> int (desired_count s)" if "0 < cs_max_delta s" "cs_max_delta s \<le> 1"
  proof -
    have "cs_max_delta s * f64 ?n \<le> of_int (int (desired_count s))"
      using that(2) n mult_right_mono [of "cs_max_delta s" 1 ?n] by (simp add: fn)
    then have "f64 (cs_max_delta s * f64 ?n) \<le> of_int (int (desired_count s))"
      using that(1) n assms(3) by (intro f64_le_int) (simp_all add: fn)
    then have "\<lceil>f64 (cs_max_delta s * f64 ?n)\<rceil> \<le> int (desired_count s)" by (simp add: ceiling_le_iff)
    then show ?thesis using that(1) by (simp add: build_limit_def Let_def)
  qed
qed

text \<open>
  Blast radius: one reconcile surfaces for an Intent at most the limit, the limit never exceeds the
  controller's cap nor, for a \<open>maxDelta\<close> up to 1, the size of the fleet, and it is never zero, so rounding
  in floating point can neither open the gate past the cap nor block a fleet for ever.
\<close>

theorem plan_blast_radius:
  assumes "plan intents built cap = Inr r" and "distinct (map in_name intents)" and "i \<in> set intents"
    and "1 \<le> desired_count (in_spec i)" and "int (desired_count (in_spec i)) \<le> 2 ^ 53"
  shows "int (length (filter (\<lambda>d. inst_intent d = in_name i) (r_to_build r))) \<le> build_limit (effective_cap cap) (in_spec i) \<and>
    1 \<le> build_limit (effective_cap cap) (in_spec i) \<and> build_limit (effective_cap cap) (in_spec i) \<le> effective_cap cap \<and>
    (0 < cs_max_delta (in_spec i) \<and> cs_max_delta (in_spec i) \<le> 1 \<longrightarrow>
       build_limit (effective_cap cap) (in_spec i) \<le> int (desired_count (in_spec i)))"
proof -
  note b = build_limit_bounds [OF effective_cap_pos assms(4,5)]
  let ?js = "filter (within_limit cap built) (sort_key in_name intents)"
  have "mset (map in_name (sort_key in_name intents)) = mset (map in_name intents)" by simp
  then have "distinct (map in_name (sort_key in_name intents))" using assms(2) by (metis mset_eq_imp_distinct_iff)
  then have d: "distinct (map in_name ?js)" by (simp add: distinct_map_filter)
  have own: "j = i" if "j \<in> set intents" "in_name j = in_name i" for j
    using that assms(2,3) by (auto simp: distinct_map dest: inj_onD)
  have "length (missing built j) \<le> nat (build_limit (effective_cap cap) (in_spec i))"
    if "j \<in> set ?js" "in_name j = in_name i" for j
    using that own [of j] by (auto simp: within_limit_def)
  then have "length (filter (\<lambda>d. inst_intent d = in_name i) (concat (map (missing built) ?js)))
      \<le> nat (build_limit (effective_cap cap) (in_spec i))"
    by (rule surfaced_of_intent [OF d])
  then have "int (length (filter (\<lambda>d. inst_intent d = in_name i) (concat (map (missing built) ?js))))
      \<le> build_limit (effective_cap cap) (in_spec i)"
    using b(1) [of cap] by (simp only: le_nat_iff)
  with b show ?thesis by (simp add: plan_shape [OF assms(1)])
qed

lemma plan_blast_radius_witness:
  "\<exists>r. plan [two_zones [''a'']] [] 0 = Inr r \<and>
     int (length (filter (\<lambda>d. inst_intent d = ''web'') (r_to_build r))) \<le> 25"
proof -
  have "\<not> isl (plan [two_zones [''a'']] [] 0)" by code_simp
  then obtain r where r: "plan [two_zones [''a'']] [] 0 = Inr r" by (cases "plan [two_zones [''a'']] [] 0") auto
  have "effective_cap 0 = 25" by code_simp
  moreover have "in_name (two_zones [''a'']) = ''web''" "desired_count (in_spec (two_zones [''a''])) = 2"
    by (simp_all add: two_zones_def desired_count_def keyed_def)
  ultimately show ?thesis using r plan_blast_radius [OF r, of "two_zones [''a'']"] by auto
qed

section \<open>Count-down teardown\<close>

lemma sort_key_desc: "sorted (rev (map f (rev (sort_key f xs))))"
  by (simp add: rev_map)

text \<open>
  Teardown selects exactly the built names of the fleet's scheme that are no longer desired, highest
  ordinal first, and never an instance that is still desired.
\<close>

theorem excess_spec:
  "set (excess i built) = {\<lparr>inst_name = name, inst_intent = in_name i, inst_ordinal = n, inst_zone = [], inst_subnet_ref = []\<rparr> | name n.
      name \<in> set built \<and> name \<notin> set (map inst_name (desired i)) \<and>
      instance_ordinal (cs_name_prefix (in_spec i)) name = Some n} \<and>
   sorted_wrt (\<ge>) (map inst_ordinal (excess i built))"
proof
  show "set (excess i built) = {\<lparr>inst_name = name, inst_intent = in_name i, inst_ordinal = n, inst_zone = [], inst_subnet_ref = []\<rparr> | name n.
      name \<in> set built \<and> name \<notin> set (map inst_name (desired i)) \<and>
      instance_ordinal (cs_name_prefix (in_spec i)) name = Some n}"
    by (auto simp: excess_def map_filter_def split: if_splits) (force split: if_splits)
  have "sorted (map inst_ordinal (rev (excess i built)))" by (simp add: excess_def)
  then show "sorted_wrt (\<ge>) (map inst_ordinal (excess i built))"
    by (simp add: sorted_wrt_rev rev_map [symmetric])
qed

text \<open>
  The prefix of one Intent may continue with a dash into the prefix of another; the built instances of
  the second then parse as instances of the first, and its teardown lists them.
\<close>

lemma excess_lists_other_intent:
  "let web = \<lparr>in_name = ''web'', in_spec = (in_spec (two_zones []))\<lparr>cs_count := 1\<rparr>\<rparr>;
       web_db = \<lparr>in_name = ''web-db'', in_spec = (in_spec (two_zones []))\<lparr>cs_count := 2, cs_name_prefix := ''web-db''\<rparr>\<rparr>
   in (\<not> isl (plan [web, web_db] [] 0)) \<and> map inst_name (desired web_db) = [''web-db-01'', ''web-db-02''] \<and>
      map inst_name (excess web [''web-01'', ''web-db-01'', ''web-db-02'']) = [''web-db-02'', ''web-db-01'']"
  by code_simp

section \<open>Singletons, placement resolution and launch parameters\<close>

lemma singleton_compatible: "singletons.compatible = (\<lambda>x y. skey x \<noteq> skey y)"
  by (simp add: fun_eq_iff singletons.compatible_def)

lemma sorted_wrt_false: "sorted_wrt (\<lambda>x y. f x \<noteq> f y) xs \<longleftrightarrow> distinct (map f xs)"
  by (induction xs) (auto simp: image_iff)

text \<open>
  The singleton pass is all or nothing: it fails exactly when two Intents claim one (kind, name) key,
  and otherwise it either surfaces every unbuilt singleton, when they fit the cap, or surfaces none of
  them and pauses the batch; the built ones are resolved in both cases.
\<close>

theorem plan_singletons_spec:
  "((\<exists>e. plan_singletons intents built cap = Inl e) \<longleftrightarrow> \<not> distinct (map skey intents)) \<and>
   (\<forall>r. plan_singletons intents built cap = Inr r \<longrightarrow>
      (let unbuilt = filter (\<lambda>si. skey si \<notin> set built) intents in
        mset (r_resolved r) = mset (map singleton_inst (filter (\<lambda>si. skey si \<in> set built) intents)) \<and>
        (if int (length unbuilt) \<le> effective_cap cap
         then mset (r_to_build r) = mset (map singleton_inst unbuilt) \<and> r_paused r = []
         else r_to_build r = [] \<and> map pa_missing (r_paused r) = [length unbuilt])))"
proof
  let ?s = "sort_key (\<lambda>si. (si_kind si, si_name si)) intents"
  have "mset (map skey ?s) = mset (map skey intents)" by simp
  then have d: "distinct (map skey ?s) \<longleftrightarrow> distinct (map skey intents)" by (rule mset_eq_imp_distinct_iff)
  have "(\<exists>e. plan_singletons intents built cap = Inl e) \<longleftrightarrow> (\<exists>e. fold_err claim_singleton ?s [] = Inl e)"
    by (auto simp: plan_singletons_def Let_def split: sum.splits)
  also have "\<dots> \<longleftrightarrow> \<not> distinct (map skey intents)"
    by (simp add: singletons.scan_fails singleton_compatible sorted_wrt_false d)
  finally show "(\<exists>e. plan_singletons intents built cap = Inl e) \<longleftrightarrow> \<not> distinct (map skey intents)" .
  have part: "mset (filter (\<lambda>d. P (inst_name d)) (map singleton_inst ?s)) = mset (map singleton_inst (filter (\<lambda>si. P (skey si)) intents))" for P
    by (simp add: filter_map o_def singleton_inst_def mset_filter)
  have len: "length (filter (\<lambda>d. P (inst_name d)) (map singleton_inst ?s)) = length (filter (\<lambda>si. P (skey si)) intents)" for P
    using arg_cong [OF part [of P], of size] by (simp only: size_mset length_map)
  show "\<forall>r. plan_singletons intents built cap = Inr r \<longrightarrow>
      (let unbuilt = filter (\<lambda>si. skey si \<notin> set built) intents in
        mset (r_resolved r) = mset (map singleton_inst (filter (\<lambda>si. skey si \<in> set built) intents)) \<and>
        (if int (length unbuilt) \<le> effective_cap cap
         then mset (r_to_build r) = mset (map singleton_inst unbuilt) \<and> r_paused r = []
         else r_to_build r = [] \<and> map pa_missing (r_paused r) = [length unbuilt]))"
    using part [of "\<lambda>n. n \<in> set built"] part [of "\<lambda>n. n \<notin> set built"] len [of "\<lambda>n. n \<notin> set built"]
    by (auto simp: plan_singletons_def Let_def split: sum.splits if_splits)
qed

definition app_subnet :: singleton_intent where
  "app_subnet = \<lparr>si_name = ''app-subnet'', si_kind = ''Intent/Subnet'', si_spec = \<lparr>ss_project_kind = ''subnet'',
     ss_labels = [], ss_requires = [''provisioning''], ss_params = None, ss_placement = None\<rparr>\<rparr>"

lemma plan_singletons_spec_witness:
  "\<exists>e. plan_singletons [app_subnet, app_subnet] [] 0 = Inl e"
  using plan_singletons_spec [of "[app_subnet, app_subnet]" "[]" 0] by simp

lemma after_first_hit: "CHR ''='' \<notin> set s \<Longrightarrow> after_first (CHR ''='') (s @ ''='' @ v) = v"
  using hd_split_on [of "CHR ''=''" "s @ ''='' @ v"]
  by (simp add: after_first_def split_on_append_sep flip: hd_split_on)

lemma map_filter_singleton:
  "distinct xs \<Longrightarrow> (length (List.map_filter f xs) = 1) \<longleftrightarrow> (\<exists>x. {x \<in> set xs. f x \<noteq> None} = {x})"
proof -
  assume d: "distinct xs"
  have "length (List.map_filter f xs) = length (filter (\<lambda>x. f x \<noteq> None) xs)" by (simp add: map_filter_def)
  moreover have "distinct (filter (\<lambda>x. f x \<noteq> None) xs)" using d by simp
  moreover have "set (filter (\<lambda>x. f x \<noteq> None) xs) = {x \<in> set xs. f x \<noteq> None}" by auto
  ultimately show ?thesis using card_1_singleton_iff by (metis (no_types, lifting) One_nat_def distinct_card)
qed

text \<open>
  A declared placement translates to a provider-native id exactly when the built subnet carries one,
  and only one, of the identity schemes the provider declares, and then to the value the subnet carries
  under that scheme; none and several are refused.
\<close>

theorem resolve_subnet_ref_iff:
  assumes "distinct schemes" and "\<forall>s \<in> set schemes. CHR ''='' \<notin> set s"
  shows "resolve_subnet_ref target identities schemes = Inr v \<longleftrightarrow>
    (\<exists>s. {s \<in> set schemes. map_of identities s \<noteq> None} = {s} \<and> map_of identities s = Some v)"
proof -
  let ?f = "\<lambda>scheme. map_option (\<lambda>v. scheme @ ''='' @ v) (map_of identities scheme)"
  let ?hits = "sort (List.map_filter ?f schemes)"
  have one: "length ?hits = 1 \<longleftrightarrow> (\<exists>s. {s \<in> set schemes. map_of identities s \<noteq> None} = {s})"
    using map_filter_singleton [OF assms(1), of ?f] by simp
  have ref: "after_first (CHR ''='') (hd ?hits) = u"
    if "{s \<in> set schemes. map_of identities s \<noteq> None} = {s}" "map_of identities s = Some u" for s u
  proof -
    have "set (List.map_filter ?f schemes) = {s @ ''='' @ u}"
    proof -
      have "set (List.map_filter ?f schemes) = (\<lambda>s. the (?f s)) ` {s \<in> set schemes. map_of identities s \<noteq> None}"
        by (auto simp: map_filter_def)
      with that show ?thesis by simp
    qed
    then have "set ?hits = {s @ ''='' @ u}" by simp
    then have "hd ?hits = s @ ''='' @ u" by (rule hd_singleton)
    moreover have "CHR ''='' \<notin> set s" using that(1) assms(2) by blast
    ultimately show ?thesis by (simp only: after_first_hit not_False_eq_True)
  qed
  show ?thesis
  proof (cases "\<exists>s. {s \<in> set schemes. map_of identities s \<noteq> None} = {s}")
    case True
    then obtain s where s: "{s \<in> set schemes. map_of identities s \<noteq> None} = {s}" by blast
    then obtain u where u: "map_of identities s = Some u" by blast
    have "identities \<noteq> []" using u by auto
    then have "resolve_subnet_ref target identities schemes = Inr u"
      using one True ref [OF s u] by (simp add: resolve_subnet_ref_def Let_def)
    with s u show ?thesis by (metis (no_types, lifting) option.inject singleton_inject sum.inject(2))
  next
    case False
    with one have "length ?hits \<noteq> 1" by simp
    then have "resolve_subnet_ref target identities schemes \<noteq> Inr v"
      by (simp add: resolve_subnet_ref_def Let_def)
    with False show ?thesis by blast
  qed
qed

lemma resolve_subnet_ref_iff_witness:
  "resolve_subnet_ref ''app-subnet'' [(''net.subnet.name'', ''app''), (''aws.subnetId'', ''subnet-0=1'')] [''aws.subnetId'']
     = Inr ''subnet-0=1''"
  by (subst resolve_subnet_ref_iff) (auto intro!: exI [of _ "''aws.subnetId''"])

lemma map_of_filter_key: "map_of (filter (\<lambda>(k, v). P k) m) k = (if P k then map_of m k else None)"
  by (induction m) auto

definition launch_place :: "intent \<Rightarrow> inst \<Rightarrow> jmap" where
  "launch_place i d = (let place = aput ''subnetRef'' (JStr (inst_subnet_ref d)) (placement_params (cs_placement (in_spec i)))
     in if inst_zone d \<noteq> [] then aput ''availabilityZone'' (JStr (inst_zone d)) place else place)"

lemma build_launch_params_eq:
  "build_launch_params i d =
     [(''instance'', JStr (inst_name d)), (''ordinal'', JInt (int (inst_ordinal d))),
      (''projectKind'', JStr (cs_project_kind (in_spec i))),
      (''labels'', JObj (launch_labels (cs_labels (in_spec i)) instance_label (inst_name d))),
      (''placement'', JObj (launch_place i d)), (''params'', JObj (empty_if_nil (cs_params (in_spec i))))]"
  by (simp add: build_launch_params_def launch_place_def Let_def)

lemma keys_placement_params:
  "set (keys (placement_params p)) = {''subnet'', ''subnetRef'', ''dmz'', ''availabilityZone''}"
  by (cases p) (auto simp: placement_params_def Let_def)

lemma launch_place_facts:
  "set (keys (launch_place i d)) = {''subnet'', ''subnetRef'', ''dmz'', ''availabilityZone''}"
  "map_of (launch_place i d) ''subnetRef'' = Some (JStr (inst_subnet_ref d))"
  "inst_zone d \<noteq> [] \<Longrightarrow> map_of (launch_place i d) ''availabilityZone'' = Some (JStr (inst_zone d))"
  using keys_placement_params [of "cs_placement (in_spec i)"]
  by (auto simp: launch_place_def Let_def map_of_aput keys_aput)

lemma launch_labels_own: "map_of (launch_labels declared label name) label = Some (JStr name)"
  by (simp add: launch_labels_def map_of_aput)

text \<open>
  What a gated build of a declared instance carries: for every input the builder declares among the
  offered ones the launch holds the reconcile's value, whose correlation label is the instance's own name
  whatever the Intent's labels say, and whose placement has every field, the zone being the instance's own
  when it is keyed; no undeclared input is sent.
\<close>

theorem build_launch_params_offered:
  assumes "declared \<noteq> []"
  shows "(\<forall>k. map_of (filter_to_declared (build_launch_params i d) declared) k =
       (if k \<in> set declared then map_of (build_launch_params i d) k else None)) \<and>
    set (keys (build_launch_params i d)) = {''instance'', ''ordinal'', ''projectKind'', ''labels'', ''placement'', ''params''} \<and>
    map_of (build_launch_params i d) ''instance'' = Some (JStr (inst_name d)) \<and>
    (\<exists>labels place. map_of (build_launch_params i d) ''labels'' = Some (JObj labels) \<and>
       map_of (build_launch_params i d) ''placement'' = Some (JObj place) \<and>
       map_of labels instance_label = Some (JStr (inst_name d)) \<and>
       set (keys place) = {''subnet'', ''subnetRef'', ''dmz'', ''availabilityZone''} \<and>
       map_of place ''subnetRef'' = Some (JStr (inst_subnet_ref d)) \<and>
       (inst_zone d \<noteq> [] \<longrightarrow> map_of place ''availabilityZone'' = Some (JStr (inst_zone d))))"
proof -
  have "map_of (filter_to_declared (build_launch_params i d) declared) k =
       (if k \<in> set declared then map_of (build_launch_params i d) k else None)" for k
    using assms by (simp add: filter_to_declared_def map_of_filter_key)
  moreover have "set (keys (build_launch_params i d)) = {''instance'', ''ordinal'', ''projectKind'', ''labels'', ''placement'', ''params''}"
    and "map_of (build_launch_params i d) ''instance'' = Some (JStr (inst_name d))"
    and "map_of (build_launch_params i d) ''labels'' =
      Some (JObj (launch_labels (cs_labels (in_spec i)) instance_label (inst_name d)))"
    and "map_of (build_launch_params i d) ''placement'' = Some (JObj (launch_place i d))"
    by (simp_all add: build_launch_params_eq)
  ultimately show ?thesis using launch_place_facts [where i = i and d = d] launch_labels_own by metis
qed

lemma build_launch_params_offered_witness:
  "map_of (filter_to_declared (build_launch_params (two_zones [''a'']) (hd (desired (two_zones [''a''])))) [''instance'']) ''labels'' = None"
  using build_launch_params_offered [of "[''instance'']" "two_zones [''a'']" "hd (desired (two_zones [''a'']))"]
  by simp

lemma bex_pair: "(\<exists>x \<in> A. P x) \<longleftrightarrow> (\<exists>u w. (u, w) \<in> A \<and> P (u, w))"
  by auto

text \<open>
  Placement drift is reported for exactly the units that are declared somewhere, observed somewhere,
  and not observed where they are declared; an unplaced or undeclared unit never drifts.
\<close>

theorem placement_drift_iff:
  assumes "distinct (keys declared)"
  shows "set (detect_placement_drift declared observed) =
    {\<lparr>dr_unit = u, dr_declared = want, dr_observed = obs\<rparr> | u want obs.
       map_of declared u = Some want \<and> map_of observed u = Some obs \<and> obs \<noteq> [] \<and> want \<notin> set obs} \<and>
    sorted (map dr_unit (detect_placement_drift declared observed))"
proof
  let ?f = "\<lambda>(unit, want). case map_of observed unit of None \<Rightarrow> None
      | Some obs \<Rightarrow> if obs = [] \<or> want \<in> set obs then None
                    else Some \<lparr>dr_unit = unit, dr_declared = want, dr_observed = obs\<rparr>"
  have f: "?f (u, want) = Some r \<longleftrightarrow> (\<exists>obs. map_of observed u = Some obs \<and> obs \<noteq> [] \<and> want \<notin> set obs \<and>
      r = \<lparr>dr_unit = u, dr_declared = want, dr_observed = obs\<rparr>)" for u want r
    by (auto split: option.splits)
  have "r \<in> set (detect_placement_drift declared observed) \<longleftrightarrow>
      (\<exists>u want. (u, want) \<in> set declared \<and> ?f (u, want) = Some r)" for r
    by (simp only: detect_placement_drift_def set_sort in_map_filter bex_pair)
  then have "r \<in> set (detect_placement_drift declared observed) \<longleftrightarrow>
      (\<exists>u want obs. map_of declared u = Some want \<and> map_of observed u = Some obs \<and> obs \<noteq> [] \<and> want \<notin> set obs \<and>
        r = \<lparr>dr_unit = u, dr_declared = want, dr_observed = obs\<rparr>)" for r
    unfolding f using map_of_eq_Some_iff [OF assms] by metis
  then show "set (detect_placement_drift declared observed) =
    {\<lparr>dr_unit = u, dr_declared = want, dr_observed = obs\<rparr> | u want obs.
       map_of declared u = Some want \<and> map_of observed u = Some obs \<and> obs \<noteq> [] \<and> want \<notin> set obs}"
    by blast
  show "sorted (map dr_unit (detect_placement_drift declared observed))"
    by (simp add: detect_placement_drift_def)
qed

lemma placement_drift_iff_witness:
  "detect_placement_drift [(''web-01'', ''app''), (''web-02'', ''app'')] [(''web-01'', [''dmz'']), (''web-02'', [''app''])]
     = [\<lparr>dr_unit = ''web-01'', dr_declared = ''app'', dr_observed = [''dmz'']\<rparr>]"
proof -
  have "distinct (keys [(''web-01'', ''app''), (''web-02'', ''app'')])" by simp
  note placement_drift_iff [OF this, of "[(''web-01'', [''dmz'']), (''web-02'', [''app''])]"]
  moreover have "length (detect_placement_drift [(''web-01'', ''app''), (''web-02'', ''app'')] [(''web-01'', [''dmz'']), (''web-02'', [''app''])]) = 1"
    by code_simp
  ultimately show ?thesis by (auto simp: length_Suc_conv split: if_splits)
qed

end
