(* ===== verification/Policy.thy ===== *)
theory Policy
  imports Json
begin

text \<open>
  The Policy Decision Point: \<open>types/policy.go\<close> and package \<open>core/internal/policy\<close>.  An outcome stays the
  string of the code (an unknown one ranks like a deny), an instant is a count of nanoseconds with
  \<open>None\<close> for the zero \<open>time.Time\<close>, the CEL engine is a parameter (\<open>pdp\<close>): what compiling a predicate and
  running the program on the rendered ChangeContext returns.  \<open>Evaluate\<close> is its two passes: the active
  waivers and break-glass entries, then one step per control on the decision built so far.
\<close>

section \<open>Types\<close>

definition OutcomeAllow :: string where "OutcomeAllow = ''allow''"
definition OutcomeRequireApproval :: string where "OutcomeRequireApproval = ''require_approval''"
definition OutcomeEscalate :: string where "OutcomeEscalate = ''escalate''"
definition OutcomeDeny :: string where "OutcomeDeny = ''deny''"

lemmas outcome_defs = OutcomeAllow_def OutcomeRequireApproval_def OutcomeEscalate_def OutcomeDeny_def

definition outcome_rank :: "string \<Rightarrow> nat" where
  "outcome_rank o' = (if o' = OutcomeAllow then 0 else if o' = OutcomeRequireApproval then 1
     else if o' = OutcomeEscalate then 2 else if o' = OutcomeDeny then 3 else 3)"

definition known_outcome :: "string \<Rightarrow> bool" where
  "known_outcome o' \<longleftrightarrow> o' \<in> {OutcomeAllow, OutcomeDeny, OutcomeRequireApproval, OutcomeEscalate}"

record principal_ref =
  pr_id :: string
  pr_kind :: string
  pr_roles :: "string list"
  pr_attr :: jmap

record target_ref =
  tr_entity_ref :: string
  tr_kind :: string
  tr_environment :: string
  tr_criticality :: string

record blast_radius =
  br_entity_count :: int
  br_service_count :: int
  br_max_criticality :: string

record change_context =
  cc_actor :: principal_ref
  cc_committers :: "principal_ref list"
  cc_targets :: "target_ref list"
  cc_blast_radius :: blast_radius
  cc_environment :: string
  cc_change_class :: string
  cc_risk_score :: "rat option"
  cc_scheduled_at :: "int option"
  cc_labels :: "string gomap"

record obligation =
  ob_type :: string
  ob_params :: jmap

record time_window_spec =
  tw_mode :: string
  tw_days :: "string list"
  tw_start_hour :: int
  tw_end_hour :: int

record sod_spec =
  sod_distinct_from :: "string list"

record waiver_spec =
  wv_control_ref :: string
  wv_expires_at :: "int option"
  wv_justification :: string
  wv_approved_by :: string

record break_glass_spec =
  bg_bypasses :: "string list"
  bg_post_review_by :: string

record control =
  ct_id :: string
  ct_type :: string
  ct_when :: string
  ct_outcome :: string
  ct_obligations :: "obligation list"
  ct_time_window :: "time_window_spec option"
  ct_sod :: "sod_spec option"
  ct_waiver :: "waiver_spec option"
  ct_break_glass :: "break_glass_spec option"

text \<open>\<open>firedMessage\<close> and its suffixes; every other message is the text of the code or of the engine.\<close>

datatype message =
    Matched string string
  | MatchedWaived string string
  | MatchedBypassed string string
  | Txt string

record reason =
  rs_code :: string
  rs_message :: message
  rs_control :: string

record decision =
  d_outcome :: string
  d_reasons :: "reason list"
  d_obligations :: "obligation list"
  d_engine :: string
  d_evaluated_at :: "int option"

definition ChangeClasses :: "string list" where
  "ChangeClasses = [''standard'', ''normal'', ''emergency'']"

definition valid_change_class :: "string \<Rightarrow> bool" where
  "valid_change_class cls \<longleftrightarrow> cls = [] \<or> cls \<in> set ChangeClasses"

definition ChangeLabelPrefix :: string where
  "ChangeLabelPrefix = ''stratt.change/''"

section \<open>The evaluator\<close>

record pdp =
  env_error :: "string option"
  compile :: "string \<Rightarrow> string + (jmap \<Rightarrow> string + bool)"
  time_string :: "int option \<Rightarrow> string"
  now :: "int option"

definition most_restrictive :: "string \<Rightarrow> string \<Rightarrow> string" where
  "most_restrictive a b = (if outcome_rank b > outcome_rank a then b else a)"

definition fired_message :: "control \<Rightarrow> message" where
  "fired_message c = Matched (ct_id c) (ct_type c)"

text \<open>\<open>ctxMap\<close>: the JSON rendering of the context; an empty optional field is left out.\<close>

definition opt_str :: "string \<Rightarrow> string \<Rightarrow> jmap" where
  "opt_str k s = (if s = [] then [] else [(k, JStr s)])"

definition principal_map :: "principal_ref \<Rightarrow> json" where
  "principal_map p = JObj ([(''id'', JStr (pr_id p))] @ opt_str ''kind'' (pr_kind p) @
     (if pr_roles p = [] then [] else [(''roles'', JArr (map JStr (pr_roles p)))]) @
     (if pr_attr p = [] then [] else [(''attr'', JObj (pr_attr p))]))"

definition target_map :: "target_ref \<Rightarrow> json" where
  "target_map t = JObj ([(''entityRef'', JStr (tr_entity_ref t))] @ opt_str ''kind'' (tr_kind t) @
     opt_str ''environment'' (tr_environment t) @ opt_str ''criticality'' (tr_criticality t))"

definition ctx_map :: "pdp \<Rightarrow> change_context \<Rightarrow> jmap" where
  "ctx_map p cc =
     [(''actor'', principal_map (cc_actor cc))] @
     (if cc_committers cc = [] then [] else [(''committers'', JArr (map principal_map (cc_committers cc)))]) @
     (if cc_targets cc = [] then [] else [(''targets'', JArr (map target_map (cc_targets cc)))]) @
     [(''blastRadius'', JObj ([(''entityCount'', JFloat (of_int (br_entity_count (cc_blast_radius cc)))),
        (''serviceCount'', JFloat (of_int (br_service_count (cc_blast_radius cc))))] @
        opt_str ''maxCriticality'' (br_max_criticality (cc_blast_radius cc))))] @
     opt_str ''environment'' (cc_environment cc) @ opt_str ''changeClass'' (cc_change_class cc) @
     (case cc_risk_score cc of None \<Rightarrow> [] | Some r \<Rightarrow> [(''riskScore'', JFloat r)]) @
     [(''scheduledAt'', JStr (time_string p (cc_scheduled_at cc)))] @
     (if cc_labels cc = [] then [] else [(''labels'', JObj (map (\<lambda>(k, v). (k, JStr v)) (cc_labels cc)))])"

definition nanos_per_hour :: int where
  "nanos_per_hour = 3600000000000"

definition hour_utc :: "int \<Rightarrow> int" where
  "hour_utc t = (t div nanos_per_hour) mod 24"

text \<open>The epoch was a Thursday; Sunday is day 0.\<close>

definition weekday_abbr :: "int \<Rightarrow> string" where
  "weekday_abbr t = [''sun'', ''mon'', ''tue'', ''wed'', ''thu'', ''fri'', ''sat''] ! nat ((t div (24 * nanos_per_hour) + 4) mod 7)"

definition in_window :: "time_window_spec \<Rightarrow> int \<Rightarrow> bool" where
  "in_window tw t \<longleftrightarrow> (tw_days tw = [] \<or> weekday_abbr t \<in> set (tw_days tw)) \<and>
     hour_utc t \<ge> tw_start_hour tw \<and> hour_utc t < tw_end_hour tw"

definition time_window_fires :: "time_window_spec \<Rightarrow> int \<Rightarrow> bool" where
  "time_window_fires tw t = (if tw_mode tw = ''allow-only'' then \<not> in_window tw t else in_window tw t)"

definition sod_violated :: "sod_spec \<Rightarrow> change_context \<Rightarrow> bool" where
  "sod_violated sod cc \<longleftrightarrow> list_ex (\<lambda>from'. from' = ''committers'' \<and>
     list_ex (\<lambda>c. pr_id c \<noteq> [] \<and> pr_id c = pr_id (cc_actor cc)) (cc_committers cc)) (sod_distinct_from sod)"

text \<open>The zero \<open>ExpiresAt\<close> is before every instant the code judges.\<close>

definition waiver_active :: "waiver_spec \<Rightarrow> int option \<Rightarrow> bool" where
  "waiver_active w instant = (case instant of None \<Rightarrow> False
     | Some t \<Rightarrow> (case wv_expires_at w of None \<Rightarrow> False | Some e \<Rightarrow> t < e))"

definition label_of :: "change_context \<Rightarrow> string \<Rightarrow> string" where
  "label_of cc k = (case map_of (cc_labels cc) k of None \<Rightarrow> [] | Some v \<Rightarrow> v)"

definition break_glass_active :: "break_glass_spec \<Rightarrow> change_context \<Rightarrow> bool" where
  "break_glass_active bg cc \<longleftrightarrow> cc_change_class cc = ''emergency'' \<and>
     label_of cc ''incident'' \<noteq> [] \<and> label_of cc ''reasonCode'' \<noteq> []"

datatype firing = Fails string string | Judged bool

definition control_fires :: "pdp \<Rightarrow> change_context \<Rightarrow> control \<Rightarrow> firing" where
  "control_fires p cc c =
     (case ct_time_window c of
        Some tw \<Rightarrow> (case cc_scheduled_at cc of
            None \<Rightarrow> Fails ''no_schedule_time'' ''time-window control has no scheduled_at to judge (fail-closed, M4)''
          | Some t \<Rightarrow> Judged (time_window_fires tw t))
      | None \<Rightarrow> (case ct_sod c of
            Some sod \<Rightarrow> Judged (sod_violated sod cc)
          | None \<Rightarrow> (case compile p (ct_when c) of
                Inl e \<Rightarrow> Fails ''compile_error'' e
              | Inr prg \<Rightarrow> (case prg (ctx_map p cc) of
                    Inl e \<Rightarrow> Fails ''eval_error'' e
                  | Inr b \<Rightarrow> Judged b))))"

text \<open>Pass 1: what the modifiers exempt, and which break-glass bypasses a control (the last one wins).\<close>

definition waived :: "control list \<Rightarrow> change_context \<Rightarrow> string list" where
  "waived cs cc = List.map_filter (\<lambda>c. case ct_waiver c of None \<Rightarrow> None
     | Some w \<Rightarrow> if waiver_active w (cc_scheduled_at cc) then Some (wv_control_ref w) else None) cs"

definition bypassed_by :: "control list \<Rightarrow> change_context \<Rightarrow> string gomap" where
  "bypassed_by cs cc = fold (\<lambda>c m. case ct_break_glass c of None \<Rightarrow> m
     | Some bg \<Rightarrow> if break_glass_active bg cc then fold (\<lambda>ref. aput ref (ct_id c)) (bg_bypasses bg) m else m) cs []"

text \<open>Pass 2 keeps the decision, the break-glass entries used and the controls that fired.\<close>

record eval_state =
  ev_outcome :: string
  ev_reasons :: "reason list"
  ev_bg_used :: "string list"
  ev_fired :: "control list"

definition is_modifier :: "control \<Rightarrow> bool" where
  "is_modifier c \<longleftrightarrow> ct_waiver c \<noteq> None \<or> ct_break_glass c \<noteq> None"

definition add_reason :: "string \<Rightarrow> message \<Rightarrow> control \<Rightarrow> eval_state \<Rightarrow> eval_state" where
  "add_reason code m c st = st\<lparr>ev_reasons := ev_reasons st @ [\<lparr>rs_code = code, rs_message = m, rs_control = ct_id c\<rparr>]\<rparr>"

definition eval_control :: "pdp \<Rightarrow> change_context \<Rightarrow> string list \<Rightarrow> string gomap \<Rightarrow> control \<Rightarrow> eval_state \<Rightarrow> eval_state" where
  "eval_control p cc wvd bgby c st =
     (if is_modifier c then st
      else case control_fires p cc c of
          Fails code m \<Rightarrow> add_reason code (Txt m) c (st\<lparr>ev_outcome := most_restrictive (ev_outcome st) OutcomeDeny\<rparr>)
        | Judged b \<Rightarrow>
            if \<not> b then st
            else if ct_id c \<in> set wvd then add_reason ''waived'' (MatchedWaived (ct_id c) (ct_type c)) c st
            else (case map_of bgby (ct_id c) of
                Some bg \<Rightarrow> add_reason ''break-glass'' (MatchedBypassed (ct_id c) (ct_type c)) c
                             (st\<lparr>ev_bg_used := bg # ev_bg_used st\<rparr>)
              | None \<Rightarrow> add_reason ''fired'' (fired_message c) c
                  (st\<lparr>ev_fired := ev_fired st @ [c], ev_outcome := most_restrictive (ev_outcome st) (ct_outcome c)\<rparr>)))"

definition post_review :: "change_context \<Rightarrow> break_glass_spec \<Rightarrow> obligation" where
  "post_review cc bg = \<lparr>ob_type = ''post_review'',
     ob_params = [(''by'', JStr (bg_post_review_by bg)), (''incident'', JStr (label_of cc ''incident''))]\<rparr>"

definition evaluate :: "pdp \<Rightarrow> control list \<Rightarrow> change_context \<Rightarrow> decision" where
  "evaluate p cs cc =
     (case env_error p of
        Some e \<Rightarrow> \<lparr>d_outcome = OutcomeDeny, d_reasons = [\<lparr>rs_code = ''env_error'', rs_message = Txt e, rs_control = []\<rparr>],
                    d_obligations = [], d_engine = ''cel-builtin'', d_evaluated_at = now p\<rparr>
      | None \<Rightarrow>
          (let st = fold (eval_control p cc (waived cs cc) (bypassed_by cs cc)) cs
                      \<lparr>ev_outcome = OutcomeAllow, ev_reasons = [], ev_bg_used = [], ev_fired = []\<rparr>;
               used = filter (\<lambda>c. ct_break_glass c \<noteq> None \<and> ct_id c \<in> set (ev_bg_used st)) cs
           in \<lparr>d_outcome = ev_outcome st,
               d_reasons = ev_reasons st @ map (\<lambda>c. \<lparr>rs_code = ''break-glass-used'',
                  rs_message = Txt ''emergency bypass - mandatory post-review'', rs_control = ct_id c\<rparr>) used,
               d_obligations = map (\<lambda>c. post_review cc (the (ct_break_glass c))) used @
                  concat (map ct_obligations (filter (\<lambda>c. ct_outcome c = ev_outcome st) (ev_fired st))),
               d_engine = ''cel-builtin'', d_evaluated_at = now p\<rparr>))"

section \<open>Declaration-time validation\<close>

datatype verror =
    NeedsId
  | ModifierAndPredicate string
  | WaiverAndBreakGlass string
  | WaiverInvalid string nat
  | BreakGlassInvalid string nat
  | UnknownOutcome string string
  | TimeWindowInvalid string nat
  | SoDInvalid string nat
  | NoKind string
  | ManyKinds string
  | CompileError string string
  | EngineError string
  | NeedsWhen string
  | NotAdmissionCheck string
  | AdmissionOutcome string

text \<open>The checks of one spec, in the order of the code; the number says which one refused.\<close>

definition validate_waiver :: "string \<Rightarrow> waiver_spec \<Rightarrow> string list \<Rightarrow> verror option" where
  "validate_waiver cid w ids =
     (if wv_control_ref w = [] then Some (WaiverInvalid cid 1)
      else if wv_control_ref w = cid then Some (WaiverInvalid cid 2)
      else if wv_control_ref w \<notin> set ids then Some (WaiverInvalid cid 3)
      else if wv_expires_at w = None then Some (WaiverInvalid cid 4)
      else if wv_justification w = [] then Some (WaiverInvalid cid 5)
      else if wv_approved_by w = [] then Some (WaiverInvalid cid 6)
      else None)"

definition validate_break_glass :: "string \<Rightarrow> break_glass_spec \<Rightarrow> string list \<Rightarrow> verror option" where
  "validate_break_glass cid bg ids =
     (if bg_post_review_by bg = [] then Some (BreakGlassInvalid cid 1)
      else if bg_bypasses bg = [] then Some (BreakGlassInvalid cid 2)
      else first_err (\<lambda>ref. if ref = cid then Some (BreakGlassInvalid cid 3)
                            else if ref \<notin> set ids then Some (BreakGlassInvalid cid 4) else None) (bg_bypasses bg))"

definition validate_sod :: "string \<Rightarrow> sod_spec \<Rightarrow> verror option" where
  "validate_sod cid sod =
     (if sod_distinct_from sod = [] then Some (SoDInvalid cid 1)
      else first_err (\<lambda>from'. if from' \<noteq> ''committers'' then Some (SoDInvalid cid 2) else None) (sod_distinct_from sod))"

definition validate_time_window :: "string \<Rightarrow> time_window_spec \<Rightarrow> verror option" where
  "validate_time_window cid tw =
     (if tw_mode tw \<notin> {''deny'', ''allow-only''} then Some (TimeWindowInvalid cid 1)
      else if tw_start_hour tw < 0 \<or> tw_end_hour tw > 24 \<or> tw_start_hour tw \<ge> tw_end_hour tw then Some (TimeWindowInvalid cid 2)
      else first_err (\<lambda>d. if d \<notin> {''sun'', ''mon'', ''tue'', ''wed'', ''thu'', ''fri'', ''sat''}
                          then Some (TimeWindowInvalid cid 3) else None) (tw_days tw))"

definition validate_modifier :: "control \<Rightarrow> string list \<Rightarrow> verror option" where
  "validate_modifier c ids =
     (if ct_when c \<noteq> [] \<or> ct_time_window c \<noteq> None \<or> ct_sod c \<noteq> None then Some (ModifierAndPredicate (ct_id c))
      else case (ct_waiver c, ct_break_glass c) of
          (Some w, Some bg) \<Rightarrow> Some (WaiverAndBreakGlass (ct_id c))
        | (Some w, None) \<Rightarrow> validate_waiver (ct_id c) w ids
        | (None, Some bg) \<Rightarrow> validate_break_glass (ct_id c) bg ids
        | (None, None) \<Rightarrow> None)"

definition kinds_of :: "control \<Rightarrow> nat" where
  "kinds_of c = (if ct_when c \<noteq> [] then 1 else 0) + (if ct_time_window c \<noteq> None then 1 else 0) +
     (if ct_sod c \<noteq> None then 1 else 0)"

definition validate_predicate :: "pdp \<Rightarrow> control \<Rightarrow> verror option" where
  "validate_predicate p c =
     (if \<not> known_outcome (ct_outcome c) then Some (UnknownOutcome (ct_id c) (ct_outcome c))
      else case (case ct_time_window c of None \<Rightarrow> None | Some tw \<Rightarrow> validate_time_window (ct_id c) tw) of
          Some e \<Rightarrow> Some e
        | None \<Rightarrow> (case (case ct_sod c of None \<Rightarrow> None | Some sod \<Rightarrow> validate_sod (ct_id c) sod) of
              Some e \<Rightarrow> Some e
            | None \<Rightarrow>
                if kinds_of c = 0 then Some (NoKind (ct_id c))
                else if kinds_of c \<noteq> 1 then Some (ManyKinds (ct_id c))
                else if ct_when c \<noteq> [] then (case compile p (ct_when c) of Inl e \<Rightarrow> Some (CompileError (ct_id c) e) | Inr _ \<Rightarrow> None)
                else None))"

definition validate_control :: "pdp \<Rightarrow> string list \<Rightarrow> control \<Rightarrow> verror option" where
  "validate_control p ids c =
     (if ct_id c = [] then Some NeedsId
      else if is_modifier c then validate_modifier c ids
      else validate_predicate p c)"

definition validate_controls :: "pdp \<Rightarrow> control list \<Rightarrow> verror option" where
  "validate_controls p cs =
     (case env_error p of Some e \<Rightarrow> Some (EngineError e)
      | None \<Rightarrow> first_err (validate_control p (filter (\<lambda>i. i \<noteq> []) (map ct_id cs))) cs)"

section \<open>Admission\<close>

definition admit_control :: "pdp \<Rightarrow> jmap \<Rightarrow> control \<Rightarrow> eval_state \<Rightarrow> eval_state" where
  "admit_control p object c st =
     (case compile p (ct_when c) of
        Inl e \<Rightarrow> add_reason ''compile_error'' (Txt e) c (st\<lparr>ev_outcome := most_restrictive (ev_outcome st) OutcomeDeny\<rparr>)
      | Inr prg \<Rightarrow> (case prg object of
            Inl e \<Rightarrow> add_reason ''eval_error'' (Txt e) c (st\<lparr>ev_outcome := most_restrictive (ev_outcome st) OutcomeDeny\<rparr>)
          | Inr b \<Rightarrow> if \<not> b then st
                     else add_reason ''fired'' (fired_message c) c
                            (st\<lparr>ev_outcome := most_restrictive (ev_outcome st) (ct_outcome c)\<rparr>)))"

definition admit :: "pdp \<Rightarrow> control list \<Rightarrow> jmap \<Rightarrow> decision" where
  "admit p cs object =
     (case env_error p of
        Some e \<Rightarrow> \<lparr>d_outcome = OutcomeDeny, d_reasons = [\<lparr>rs_code = ''env_error'', rs_message = Txt e, rs_control = []\<rparr>],
                    d_obligations = [], d_engine = ''cel-admission'', d_evaluated_at = now p\<rparr>
      | None \<Rightarrow>
          (let st = fold (admit_control p object) cs
                      \<lparr>ev_outcome = OutcomeAllow, ev_reasons = [], ev_bg_used = [], ev_fired = []\<rparr>
           in \<lparr>d_outcome = ev_outcome st, d_reasons = ev_reasons st, d_obligations = [],
               d_engine = ''cel-admission'', d_evaluated_at = now p\<rparr>))"

definition validate_admission_control :: "pdp \<Rightarrow> control \<Rightarrow> verror option" where
  "validate_admission_control p c =
     (if ct_id c = [] then Some NeedsId
      else if ct_when c = [] then Some (NeedsWhen (ct_id c))
      else if ct_time_window c \<noteq> None \<or> ct_sod c \<noteq> None \<or> is_modifier c then Some (NotAdmissionCheck (ct_id c))
      else if ct_outcome c \<notin> {OutcomeAllow, OutcomeDeny} then Some (AdmissionOutcome (ct_id c))
      else case compile p (ct_when c) of Inl e \<Rightarrow> Some (CompileError (ct_id c) e) | Inr _ \<Rightarrow> None)"

definition validate_admission_controls :: "pdp \<Rightarrow> control list \<Rightarrow> verror option" where
  "validate_admission_controls p cs =
     (case env_error p of Some e \<Rightarrow> Some (EngineError e) | None \<Rightarrow> first_err (validate_admission_control p) cs)"

section \<open>The other providers of the decision port\<close>

definition bypass_decision :: decision where
  "bypass_decision = \<lparr>d_outcome = OutcomeAllow, d_reasons = [\<lparr>rs_code = ''policy-bypassed'',
     rs_message = Txt ''policy decision point bypassed by configuration'', rs_control = []\<rparr>],
     d_obligations = [], d_engine = ''bypass'', d_evaluated_at = None\<rparr>"

text \<open>
  The external engine: \<open>run\<close> is the tool on the encoded request, \<open>parse\<close> the decoding of its output;
  both are parameters and may fail.
\<close>

definition exec_fail_closed :: "pdp \<Rightarrow> string \<Rightarrow> string \<Rightarrow> string \<Rightarrow> decision" where
  "exec_fail_closed p name code msg = \<lparr>d_outcome = OutcomeDeny,
     d_reasons = [\<lparr>rs_code = code, rs_message = Txt msg, rs_control = []\<rparr>], d_obligations = [],
     d_engine = ''exec:'' @ name, d_evaluated_at = now p\<rparr>"

definition exec_eval :: "pdp \<Rightarrow> string \<Rightarrow> (string \<Rightarrow> string \<Rightarrow> string + string) \<Rightarrow> (string \<Rightarrow> string + decision)
    \<Rightarrow> string \<Rightarrow> string \<Rightarrow> decision" where
  "exec_eval p name run parse op input =
     (case run op input of
        Inl e \<Rightarrow> exec_fail_closed p name ''exec_error'' e
      | Inr out \<Rightarrow> (case parse out of
            Inl e \<Rightarrow> exec_fail_closed p name ''parse_error'' e
          | Inr dec \<Rightarrow>
              if \<not> known_outcome (d_outcome dec) then exec_fail_closed p name ''invalid_outcome'' (d_outcome dec)
              else dec\<lparr>d_engine := ''exec:'' @ name,
                       d_evaluated_at := (if d_evaluated_at dec = None then now p else d_evaluated_at dec)\<rparr>))"

definition exec_decide :: "pdp \<Rightarrow> string \<Rightarrow> (string \<Rightarrow> string \<Rightarrow> string + string) \<Rightarrow> (string \<Rightarrow> string + decision)
    \<Rightarrow> string \<Rightarrow> string + string \<Rightarrow> decision" where
  "exec_decide p name run parse op encoded =
     (case encoded of Inl e \<Rightarrow> exec_fail_closed p name ''marshal_error'' e
      | Inr input \<Rightarrow> exec_eval p name run parse op input)"

section \<open>Change context admission\<close>

datatype cerror =
    AssertsEnvironment
  | ReservedNamespace string
  | ClassNotString
  | UnknownClass string

definition validate_context_key :: "jmap \<Rightarrow> string \<Rightarrow> cerror option" where
  "validate_context_key supplied k =
     (if k = ''environment'' then Some AssertsEnvironment
      else if has_prefix ChangeLabelPrefix k then Some (ReservedNamespace k)
      else if k = ''changeClass'' then
        (case map_of supplied k of
           Some (JStr cls) \<Rightarrow> if valid_change_class cls then None else Some (UnknownClass cls)
         | _ \<Rightarrow> Some ClassNotString)
      else None)"

definition sorted_keys :: "jmap \<Rightarrow> string list" where
  "sorted_keys m = sort (keys m)"

definition validate_change_context :: "jmap \<Rightarrow> cerror option" where
  "validate_change_context supplied = first_err (validate_context_key supplied) (sorted_keys supplied)"

fun walk_path :: "string list \<Rightarrow> json \<Rightarrow> json option" where
  "walk_path [] cur = Some cur"
| "walk_path (seg # segs) cur =
     (case cur of JObj m \<Rightarrow> (case map_of m seg of None \<Rightarrow> None | Some v \<Rightarrow> walk_path segs v) | _ \<Rightarrow> None)"

definition truthy_at_path :: "jmap \<Rightarrow> string \<Rightarrow> bool" where
  "truthy_at_path params path =
     (case walk_path (split_on (CHR ''.'') path) (JObj params) of
        Some (JBool b) \<Rightarrow> b
      | Some (JStr s) \<Rightarrow> s = ''true''
      | _ \<Rightarrow> False)"

text \<open>\<open>DeriveElevation\<close> reads the Actuator name and the params of a Step.\<close>

definition derive_elevation :: "(string \<times> jmap) list \<Rightarrow> string list gomap \<Rightarrow> string gomap" where
  "derive_elevation steps elevated_by =
     (if list_ex (\<lambda>(actuator, params). list_ex (truthy_at_path params)
           (case map_of elevated_by actuator of None \<Rightarrow> [] | Some ps \<Rightarrow> ps)) steps
      then [(ChangeLabelPrefix @ ''privileged'', ''true'')] else [])"

section \<open>The most-restrictive lattice\<close>

text \<open>
  What the combination of outcomes promises, whatever computes it: it picks one of its arguments and
  ranks like the higher.  Combining a list then depends on the ranks only.
\<close>

locale outcome_lattice =
  fixes rank :: "'o \<Rightarrow> nat"
    and join :: "'o \<Rightarrow> 'o \<Rightarrow> 'o"
  assumes rank_join: "rank (join a b) = max (rank a) (rank b)"
    and join_picks: "join a b = a \<or> join a b = b"
begin

definition join_all :: "'o \<Rightarrow> 'o list \<Rightarrow> 'o" where
  "join_all a os = fold (\<lambda>x acc. join acc x) os a"

lemma join_all_Nil: "join_all a [] = a"
  by (simp add: join_all_def)

lemma join_all_Cons: "join_all a (x # os) = join_all (join a x) os"
  by (simp add: join_all_def)

lemma join_all_picks: "join_all a os = a \<or> join_all a os \<in> set os"
proof (induction os arbitrary: a)
  case (Cons x os)
  show ?case using Cons [of "join a x"] join_picks [of a x] by (auto simp: join_all_Cons)
qed (simp add: join_all_Nil)

lemma rank_join_all: "rank (join_all a os) = fold max (map rank os) (rank a)"
  by (induction os arbitrary: a) (simp_all add: join_all_Nil join_all_Cons rank_join max.commute)

lemma rank_join_all_Max: "rank (join_all a os) = Max (insert (rank a) (rank ` set os))"
  by (simp add: rank_join_all) (metis Max.set_eq_fold list.set(2) list.set_map)

lemma join_all_upper: "x \<in> set os \<Longrightarrow> rank x \<le> rank (join_all a os)"
  by (simp add: rank_join_all_Max)

lemma join_all_order:
  assumes "set os = set os'" and "inj_on rank (insert a (set os))"
  shows "join_all a os = join_all a os'"
proof -
  have "rank (join_all a os) = rank (join_all a os')" by (simp add: rank_join_all_Max assms(1))
  moreover have "join_all a os \<in> insert a (set os)" "join_all a os' \<in> insert a (set os)"
    using join_all_picks [of a os] join_all_picks [of a os'] assms(1) by auto
  ultimately show ?thesis using assms(2) by (metis inj_onD)
qed

end

lemma rank_simps [simp]:
  "outcome_rank OutcomeAllow = 0" "outcome_rank OutcomeDeny = 3" "outcome_rank OutcomeEscalate = 2"
  "outcome_rank OutcomeRequireApproval = 1"
  by (simp_all add: outcome_rank_def outcome_defs)

lemma rank_zero [simp]: "outcome_rank o' = 0 \<longleftrightarrow> o' = OutcomeAllow"
  by (auto simp: outcome_rank_def)

lemma outcome_rank_le: "outcome_rank o' \<le> 3"
  by (simp add: outcome_rank_def)

lemma known_rank_inj: "known_outcome a \<Longrightarrow> known_outcome b \<Longrightarrow> outcome_rank a = outcome_rank b \<Longrightarrow> a = b"
  by (auto simp: known_outcome_def)

interpretation lattice: outcome_lattice outcome_rank most_restrictive
  by unfold_locales (auto simp: most_restrictive_def max_def)

section \<open>What Evaluate computes\<close>

text \<open>What one control contributes to the outcome, and the reason it leaves.\<close>

definition exempt :: "control list \<Rightarrow> change_context \<Rightarrow> control \<Rightarrow> bool" where
  "exempt cs cc c \<longleftrightarrow> ct_id c \<in> set (waived cs cc) \<or> map_of (bypassed_by cs cc) (ct_id c) \<noteq> None"

definition contribution :: "pdp \<Rightarrow> control list \<Rightarrow> change_context \<Rightarrow> control \<Rightarrow> string option" where
  "contribution p cs cc c =
     (if is_modifier c then None
      else case control_fires p cc c of
          Fails code m \<Rightarrow> Some OutcomeDeny
        | Judged b \<Rightarrow> if b \<and> \<not> exempt cs cc c then Some (ct_outcome c) else None)"

definition leaves :: "pdp \<Rightarrow> control list \<Rightarrow> change_context \<Rightarrow> control \<Rightarrow> reason option" where
  "leaves p cs cc c =
     (if is_modifier c then None
      else case control_fires p cc c of
          Fails code m \<Rightarrow> Some \<lparr>rs_code = code, rs_message = Txt m, rs_control = ct_id c\<rparr>
        | Judged b \<Rightarrow>
            if \<not> b then None
            else if ct_id c \<in> set (waived cs cc)
              then Some \<lparr>rs_code = ''waived'', rs_message = MatchedWaived (ct_id c) (ct_type c), rs_control = ct_id c\<rparr>
            else if map_of (bypassed_by cs cc) (ct_id c) \<noteq> None
              then Some \<lparr>rs_code = ''break-glass'', rs_message = MatchedBypassed (ct_id c) (ct_type c), rs_control = ct_id c\<rparr>
            else Some \<lparr>rs_code = ''fired'', rs_message = fired_message c, rs_control = ct_id c\<rparr>)"

definition bypasser :: "pdp \<Rightarrow> control list \<Rightarrow> change_context \<Rightarrow> control \<Rightarrow> string option" where
  "bypasser p cs cc c =
     (if \<not> is_modifier c \<and> control_fires p cc c = Judged True \<and> ct_id c \<notin> set (waived cs cc)
      then map_of (bypassed_by cs cc) (ct_id c) else None)"

definition opt_list :: "'a option \<Rightarrow> 'a list" where
  "opt_list x = (case x of None \<Rightarrow> [] | Some v \<Rightarrow> [v])"

lemma opt_list_simps [simp]: "opt_list None = []" "opt_list (Some v) = [v]"
  by (simp_all add: opt_list_def)

lemma map_filter_Cons: "List.map_filter f (x # xs) = opt_list (f x) @ List.map_filter f xs"
  by (simp split: option.split)

lemma join_all_opt: "lattice.join_all a (opt_list x @ xs) =
    lattice.join_all (case x of None \<Rightarrow> a | Some v \<Rightarrow> most_restrictive a v) xs"
  by (simp add: lattice.join_all_Cons split: option.split)

definition applies :: "pdp \<Rightarrow> control list \<Rightarrow> change_context \<Rightarrow> control \<Rightarrow> bool" where
  "applies p cs cc c \<longleftrightarrow> \<not> is_modifier c \<and> control_fires p cc c = Judged True \<and> \<not> exempt cs cc c"

lemma eval_control_step:
  "eval_control p cc (waived cs cc) (bypassed_by cs cc) c st =
     \<lparr>ev_outcome = (case contribution p cs cc c of None \<Rightarrow> ev_outcome st | Some v \<Rightarrow> most_restrictive (ev_outcome st) v),
      ev_reasons = ev_reasons st @ opt_list (leaves p cs cc c),
      ev_bg_used = opt_list (bypasser p cs cc c) @ ev_bg_used st,
      ev_fired = ev_fired st @ (if applies p cs cc c then [c] else [])\<rparr>"
proof -
  note ds = eval_control_def contribution_def leaves_def bypasser_def add_reason_def exempt_def applies_def
  show ?thesis
  proof (cases "is_modifier c")
    case nm: False
    show ?thesis
    proof (cases "control_fires p cc c")
      case (Judged b)
      then show ?thesis using nm
        by (cases b; cases "ct_id c \<in> set (waived cs cc)"; cases "map_of (bypassed_by cs cc) (ct_id c)")
          (simp_all add: ds)
    qed (use nm in \<open>simp add: ds\<close>)
  qed (simp add: ds)
qed

lemma fold_eval:
  "fold (eval_control p cc (waived cs cc) (bypassed_by cs cc)) xs st =
     \<lparr>ev_outcome = lattice.join_all (ev_outcome st) (List.map_filter (contribution p cs cc) xs),
      ev_reasons = ev_reasons st @ List.map_filter (leaves p cs cc) xs,
      ev_bg_used = rev (List.map_filter (bypasser p cs cc) xs) @ ev_bg_used st,
      ev_fired = ev_fired st @ filter (applies p cs cc) xs\<rparr>"
proof (induction xs arbitrary: st)
  case (Cons c xs)
  have rev1: "rev (opt_list x) = opt_list x" for x :: "'z option" by (cases x) simp_all
  show ?case
    by (simp add: Cons.IH eval_control_step [of p cc cs c st] map_filter_Cons join_all_opt rev1
        del: map_filter_simps)
qed (simp add: lattice.join_all_Nil)

definition used_glass :: "pdp \<Rightarrow> control list \<Rightarrow> change_context \<Rightarrow> control list" where
  "used_glass p cs cc = filter (\<lambda>c. ct_break_glass c \<noteq> None \<and> ct_id c \<in> set (List.map_filter (bypasser p cs cc) cs)) cs"

lemma evaluate_fields:
  assumes "env_error p = None"
  shows "d_outcome (evaluate p cs cc) = lattice.join_all OutcomeAllow (List.map_filter (contribution p cs cc) cs)"
    and "d_reasons (evaluate p cs cc) = List.map_filter (leaves p cs cc) cs @
       map (\<lambda>c. \<lparr>rs_code = ''break-glass-used'', rs_message = Txt ''emergency bypass - mandatory post-review'',
         rs_control = ct_id c\<rparr>) (used_glass p cs cc)"
    and "set (map (\<lambda>c. post_review cc (the (ct_break_glass c))) (used_glass p cs cc)) \<subseteq> set (d_obligations (evaluate p cs cc))"
  using assms by (simp_all add: evaluate_def fold_eval Let_def used_glass_def del: set_map)

text \<open>
  C1. The decision is the most restrictive outcome of the controls that apply: no contributing control
  ranks above it, and it is allow only when every contribution is, otherwise the outcome of some control.
\<close>

theorem evaluate_most_restrictive:
  assumes "env_error p = None"
  shows "(\<forall>c \<in> set cs. \<forall>o'. contribution p cs cc c = Some o' \<longrightarrow> outcome_rank o' \<le> outcome_rank (d_outcome (evaluate p cs cc))) \<and>
    (d_outcome (evaluate p cs cc) = OutcomeAllow \<or>
     (\<exists>c \<in> set cs. contribution p cs cc c = Some (d_outcome (evaluate p cs cc))))"
proof
  show "\<forall>c \<in> set cs. \<forall>o'. contribution p cs cc c = Some o' \<longrightarrow> outcome_rank o' \<le> outcome_rank (d_outcome (evaluate p cs cc))"
    unfolding evaluate_fields(1) [OF assms]
    by (auto intro!: lattice.join_all_upper simp: in_map_filter)
  show "d_outcome (evaluate p cs cc) = OutcomeAllow \<or>
     (\<exists>c \<in> set cs. contribution p cs cc c = Some (d_outcome (evaluate p cs cc)))"
    using lattice.join_all_picks [of OutcomeAllow "List.map_filter (contribution p cs cc) cs"]
    unfolding evaluate_fields(1) [OF assms] by (auto simp: in_map_filter)
qed

text \<open>A small engine for the witnesses: the predicate is the literal \<open>true\<close>, \<open>false\<close> or an error.\<close>

definition toy_pdp :: pdp where
  "toy_pdp = \<lparr>env_error = None,
     compile = (\<lambda>w. if w = ''true'' then Inr (\<lambda>m. Inr True) else if w = ''false'' then Inr (\<lambda>m. Inr False)
                    else if w = ''ctx.riskScore'' then Inr (\<lambda>m. if map_of m ''riskScore'' = None then Inl ''no such key'' else Inr True)
                    else Inl ''syntax error''),
     time_string = (\<lambda>t. ''t''), now = Some 0\<rparr>"

definition plain_control :: "string \<Rightarrow> string \<Rightarrow> string \<Rightarrow> control" where
  "plain_control i w o' = \<lparr>ct_id = i, ct_type = [], ct_when = w, ct_outcome = o', ct_obligations = [],
     ct_time_window = None, ct_sod = None, ct_waiver = None, ct_break_glass = None\<rparr>"

definition emergency_cc :: change_context where
  "emergency_cc = \<lparr>cc_actor = \<lparr>pr_id = ''alice'', pr_kind = [], pr_roles = [], pr_attr = []\<rparr>, cc_committers = [],
     cc_targets = [], cc_blast_radius = \<lparr>br_entity_count = 1, br_service_count = 0, br_max_criticality = []\<rparr>,
     cc_environment = ''prod'', cc_change_class = ''emergency'', cc_risk_score = None, cc_scheduled_at = Some 1000,
     cc_labels = [(''incident'', ''INC-1''), (''reasonCode'', ''outage'')]\<rparr>"

lemma evaluate_most_restrictive_witness:
  "d_outcome (evaluate toy_pdp [plain_control ''a'' ''true'' OutcomeEscalate, plain_control ''b'' ''false'' OutcomeDeny] emergency_cc)
     = OutcomeEscalate"
proof -
  have e: "env_error toy_pdp = None" by (simp add: toy_pdp_def)
  have "contribution toy_pdp [plain_control ''a'' ''true'' OutcomeEscalate, plain_control ''b'' ''false'' OutcomeDeny] emergency_cc
      (plain_control ''a'' ''true'' OutcomeEscalate) = Some OutcomeEscalate"
    "contribution toy_pdp [plain_control ''a'' ''true'' OutcomeEscalate, plain_control ''b'' ''false'' OutcomeDeny] emergency_cc
      (plain_control ''b'' ''false'' OutcomeDeny) = None"
    by code_simp+
  with evaluate_most_restrictive [OF e, of "[plain_control ''a'' ''true'' OutcomeEscalate, plain_control ''b'' ''false'' OutcomeDeny]" emergency_cc]
  show ?thesis by auto
qed

text \<open>
  C2. A control that cannot be judged (a predicate that does not compile or fails on an absent
  coordinate, a window without a time) leaves its reason and denies: neither a waiver nor a break-glass
  entry can exempt the failure, and no other control can outrank it.
\<close>

theorem evaluate_fails_closed:
  assumes "env_error p = None" and "c \<in> set cs" and "\<not> is_modifier c" and "control_fires p cc c = Fails code m"
  shows "outcome_rank (d_outcome (evaluate p cs cc)) = outcome_rank OutcomeDeny \<and>
    \<lparr>rs_code = code, rs_message = Txt m, rs_control = ct_id c\<rparr> \<in> set (d_reasons (evaluate p cs cc))"
proof
  have "contribution p cs cc c = Some OutcomeDeny" using assms(3,4) by (simp add: contribution_def)
  then have "OutcomeDeny \<in> set (List.map_filter (contribution p cs cc) cs)"
    using assms(2) by (auto simp: in_map_filter)
  then have "outcome_rank OutcomeDeny \<le> outcome_rank (d_outcome (evaluate p cs cc))"
    unfolding evaluate_fields(1) [OF assms(1)] by (rule lattice.join_all_upper)
  then show "outcome_rank (d_outcome (evaluate p cs cc)) = outcome_rank OutcomeDeny"
    using outcome_rank_le [of "d_outcome (evaluate p cs cc)"] by simp
  have "leaves p cs cc c = Some \<lparr>rs_code = code, rs_message = Txt m, rs_control = ct_id c\<rparr>"
    using assms(3,4) by (simp add: leaves_def)
  then show "\<lparr>rs_code = code, rs_message = Txt m, rs_control = ct_id c\<rparr> \<in> set (d_reasons (evaluate p cs cc))"
    using assms(2) unfolding evaluate_fields(2) [OF assms(1)] by (auto simp: in_map_filter)
qed

definition waiver_for :: "string \<Rightarrow> control" where
  "waiver_for i = \<lparr>ct_id = ''w'', ct_type = [], ct_when = [], ct_outcome = [], ct_obligations = [],
     ct_time_window = None, ct_sod = None,
     ct_waiver = Some \<lparr>wv_control_ref = i, wv_expires_at = Some 2000, wv_justification = ''j'', wv_approved_by = ''cab''\<rparr>,
     ct_break_glass = None\<rparr>"

lemma evaluate_fails_closed_witness:
  "outcome_rank (d_outcome (evaluate toy_pdp [waiver_for ''a'', plain_control ''a'' ''ctx.riskScore'' OutcomeAllow] emergency_cc)) = 3"
proof -
  have "control_fires toy_pdp emergency_cc (plain_control ''a'' ''ctx.riskScore'' OutcomeAllow) = Fails ''eval_error'' ''no such key''"
    by code_simp
  then show ?thesis
    using evaluate_fails_closed [of toy_pdp "plain_control ''a'' ''ctx.riskScore'' OutcomeAllow"
      "[waiver_for ''a'', plain_control ''a'' ''ctx.riskScore'' OutcomeAllow]" emergency_cc]
    by (simp add: toy_pdp_def is_modifier_def plain_control_def)
qed

lemma set_waived: "set (waived cs cc) = {wv_control_ref w | c w. c \<in> set cs \<and> ct_waiver c = Some w \<and> waiver_active w (cc_scheduled_at cc)}"
proof -
  have g: "(case ct_waiver c of None \<Rightarrow> None | Some w \<Rightarrow> if waiver_active w (cc_scheduled_at cc) then Some (wv_control_ref w) else None) = Some x
      \<longleftrightarrow> (\<exists>w. ct_waiver c = Some w \<and> waiver_active w (cc_scheduled_at cc) \<and> x = wv_control_ref w)" for c :: control and x
    by (cases "ct_waiver c") auto
  show ?thesis by (simp add: set_eq_iff waived_def in_map_filter g) blast
qed

lemma keys_fold_aput: "set (keys (fold (\<lambda>ref. aput ref v) refs m)) = set refs \<union> set (keys m)"
  by (induction refs arbitrary: m) (auto simp: keys_aput)

definition active_bypass :: "change_context \<Rightarrow> control \<Rightarrow> string list" where
  "active_bypass cc c = (case ct_break_glass c of None \<Rightarrow> []
     | Some bg \<Rightarrow> if break_glass_active bg cc then bg_bypasses bg else [])"

lemma bypassed_by_alt: "bypassed_by cs cc = fold (\<lambda>c. fold (\<lambda>ref. aput ref (ct_id c)) (active_bypass cc c)) cs []"
proof -
  have "(\<lambda>c m. case ct_break_glass c of None \<Rightarrow> m
     | Some bg \<Rightarrow> if break_glass_active bg cc then fold (\<lambda>ref. aput ref (ct_id c)) (bg_bypasses bg) m else m)
    = (\<lambda>c. fold (\<lambda>ref. aput ref (ct_id c)) (active_bypass cc c))"
    by (intro ext) (simp add: active_bypass_def split: option.split)
  then show ?thesis by (simp add: bypassed_by_def)
qed

lemma bypass_keys: "map_of (bypassed_by cs cc) i \<noteq> None \<longleftrightarrow> (\<exists>c \<in> set cs. i \<in> set (active_bypass cc c))"
proof -
  have "set (keys (fold (\<lambda>c. fold (\<lambda>ref. aput ref (ct_id c)) (active_bypass cc c)) cs m))
      = (\<Union>c \<in> set cs. set (active_bypass cc c)) \<union> set (keys m)" for m
    by (induction cs arbitrary: m) (auto simp: keys_fold_aput simp del: set_map)
  from this [of "[]"] show ?thesis by (simp add: bypassed_by_alt map_of_eq_None_iff del: set_map) auto
qed

lemma bypass_from:
  "map_of (bypassed_by cs cc) i = Some b \<Longrightarrow> \<exists>c \<in> set cs. ct_id c = b \<and> i \<in> set (active_bypass cc c)"
proof -
  have inner: "map_of (fold (\<lambda>ref. aput ref v) refs m) i = Some b \<Longrightarrow> i \<in> set refs \<and> b = v \<or> map_of m i = Some b" for refs m v
  proof (induction refs arbitrary: m)
    case (Cons r refs)
    from Cons.prems have "i \<in> set refs \<and> b = v \<or> map_of (aput r v m) i = Some b"
      by (intro Cons.IH) simp
    then show ?case by (auto simp: map_of_aput split: if_splits)
  qed simp
  have "map_of (fold (\<lambda>c. fold (\<lambda>ref. aput ref (ct_id c)) (active_bypass cc c)) cs m) i = Some b \<Longrightarrow>
      (\<exists>c \<in> set cs. ct_id c = b \<and> i \<in> set (active_bypass cc c)) \<or> map_of m i = Some b" for m
    by (induction cs arbitrary: m) (auto dest: inner)
  from this [of "[]"] show "map_of (bypassed_by cs cc) i = Some b \<Longrightarrow> \<exists>c \<in> set cs. ct_id c = b \<and> i \<in> set (active_bypass cc c)"
    by (simp add: bypassed_by_alt)
qed

lemma exempt_set: "set cs = set cs' \<Longrightarrow> exempt cs cc = exempt cs' cc"
  unfolding exempt_def fun_eq_iff bypass_keys set_waived by simp

lemma contribution_set: "set cs = set cs' \<Longrightarrow> contribution p cs cc = contribution p cs' cc"
proof -
  assume s: "set cs = set cs'"
  show ?thesis unfolding contribution_def exempt_set [OF s] by (rule refl)
qed

lemma leaves_set: "set cs = set cs' \<Longrightarrow> leaves p cs cc = leaves p cs' cc"
proof -
  assume s: "set cs = set cs'"
  show ?thesis unfolding leaves_def bypass_keys set_waived s by (rule refl)
qed

lemma mset_map_filter: "mset xs = mset ys \<Longrightarrow> mset (List.map_filter f xs) = mset (List.map_filter f ys)"
  by (simp add: map_filter_def mset_map mset_filter)

lemma contribution_cases:
  "contribution p cs cc c = Some x \<Longrightarrow> \<not> is_modifier c \<and> (x = OutcomeDeny \<or> x = ct_outcome c)"
  by (auto simp: contribution_def split: if_splits firing.splits)

lemma known_simps [simp]: "known_outcome OutcomeDeny" "known_outcome OutcomeAllow"
  by (simp_all add: known_outcome_def)

lemma contribution_known:
  assumes "\<forall>c \<in> set cs. \<not> is_modifier c \<longrightarrow> known_outcome (ct_outcome c)"
    and "x \<in> set (List.map_filter (contribution p cs' cc) cs)"
  shows "known_outcome x"
  using assms contribution_cases by (metis in_map_filter known_simps(1))

lemma leaves_code: "leaves p cs cc c = Some r \<Longrightarrow> rs_code r \<noteq> ''break-glass-used''"
  by (auto simp: leaves_def control_fires_def split: if_splits firing.splits option.splits sum.splits)

text \<open>
  The order in which the controls are declared does not count: for controls with known outcomes the
  decision and the reasons the controls leave (every fired, exempted or failed control leaves one) are
  the same for every permutation of the set.
\<close>

theorem evaluate_order_independent:
  assumes "env_error p = None" and "mset cs = mset cs'"
    and "\<forall>c \<in> set cs. \<not> is_modifier c \<longrightarrow> known_outcome (ct_outcome c)"
  shows "d_outcome (evaluate p cs cc) = d_outcome (evaluate p cs' cc) \<and>
    mset (filter (\<lambda>r. rs_code r \<noteq> ''break-glass-used'') (d_reasons (evaluate p cs cc))) =
    mset (filter (\<lambda>r. rs_code r \<noteq> ''break-glass-used'') (d_reasons (evaluate p cs' cc)))"
proof
  have s: "set cs = set cs'" by (rule mset_eq_setD [OF assms(2)])
  have c: "mset (List.map_filter (contribution p cs cc) cs) = mset (List.map_filter (contribution p cs' cc) cs')"
    unfolding contribution_set [OF s] by (rule mset_map_filter [OF assms(2)])
  have "known_outcome x" if "x \<in> insert OutcomeAllow (set (List.map_filter (contribution p cs cc) cs))" for x
    using that contribution_known [OF assms(3)] by auto
  then have "inj_on outcome_rank (insert OutcomeAllow (set (List.map_filter (contribution p cs cc) cs)))"
    by (auto simp: inj_on_def intro: known_rank_inj)
  then show "d_outcome (evaluate p cs cc) = d_outcome (evaluate p cs' cc)"
    unfolding evaluate_fields(1) [OF assms(1)] by (rule lattice.join_all_order [OF mset_eq_setD [OF c]])
  have own: "filter (\<lambda>r. rs_code r \<noteq> ''break-glass-used'') (d_reasons (evaluate p xs cc)) = List.map_filter (leaves p xs cc) xs" for xs
    unfolding evaluate_fields(2) [OF assms(1)]
    by (auto simp: filter_id_conv filter_empty_conv in_map_filter leaves_code)
  show "mset (filter (\<lambda>r. rs_code r \<noteq> ''break-glass-used'') (d_reasons (evaluate p cs cc))) =
    mset (filter (\<lambda>r. rs_code r \<noteq> ''break-glass-used'') (d_reasons (evaluate p cs' cc)))"
    unfolding own leaves_set [OF s] by (rule mset_map_filter [OF assms(2)])
qed

lemma evaluate_order_independent_witness:
  "d_outcome (evaluate toy_pdp [plain_control ''a'' ''true'' OutcomeDeny, waiver_for ''a'', plain_control ''b'' ''true'' OutcomeEscalate] emergency_cc)
     = d_outcome (evaluate toy_pdp [plain_control ''b'' ''true'' OutcomeEscalate, plain_control ''a'' ''true'' OutcomeDeny, waiver_for ''a''] emergency_cc)"
  using evaluate_order_independent [of toy_pdp
      "[plain_control ''a'' ''true'' OutcomeDeny, waiver_for ''a'', plain_control ''b'' ''true'' OutcomeEscalate]"
      "[plain_control ''b'' ''true'' OutcomeEscalate, plain_control ''a'' ''true'' OutcomeDeny, waiver_for ''a'']" emergency_cc]
  by (simp add: toy_pdp_def known_outcome_def plain_control_def waiver_for_def is_modifier_def)

text \<open>
  A bypass is never silent: when a control fires and a declared emergency suppresses it, the decision
  carries the mandatory post-review obligation of an active break-glass entry that lists that control.
\<close>

theorem bypass_leaves_obligation:
  assumes "env_error p = None" and "c \<in> set cs" and "\<not> is_modifier c" and "control_fires p cc c = Judged True"
    and "ct_id c \<notin> set (waived cs cc)" and "contribution p cs cc c = None"
  shows "\<exists>g \<in> set cs. \<exists>bg. ct_break_glass g = Some bg \<and> break_glass_active bg cc \<and> ct_id c \<in> set (bg_bypasses bg) \<and>
    post_review cc bg \<in> set (d_obligations (evaluate p cs cc))"
proof -
  have "map_of (bypassed_by cs cc) (ct_id c) \<noteq> None"
    using assms(3-6) by (simp add: contribution_def exempt_def split: if_splits)
  then obtain b where b: "map_of (bypassed_by cs cc) (ct_id c) = Some b" by blast
  from bypass_from [OF this] obtain g where g: "g \<in> set cs" "ct_id g = b" "ct_id c \<in> set (active_bypass cc g)" by blast
  then obtain bg where bg: "ct_break_glass g = Some bg" "break_glass_active bg cc" "ct_id c \<in> set (bg_bypasses bg)"
    by (cases "ct_break_glass g") (auto simp: active_bypass_def split: if_splits)
  have "bypasser p cs cc c = Some b" using assms(3-5) b by (simp add: bypasser_def)
  then have "b \<in> set (List.map_filter (bypasser p cs cc) cs)" using assms(2) by (auto simp: in_map_filter)
  then have "g \<in> set (used_glass p cs cc)" using g bg(1) by (simp add: used_glass_def)
  then have "post_review cc bg \<in> set (map (\<lambda>c. post_review cc (the (ct_break_glass c))) (used_glass p cs cc))"
    using bg(1) by force
  then have "post_review cc bg \<in> set (d_obligations (evaluate p cs cc))"
    using evaluate_fields(3) [OF assms(1)] by blast
  with g(1) bg show ?thesis by blast
qed

definition glass_for :: "string \<Rightarrow> string \<Rightarrow> string \<Rightarrow> control" where
  "glass_for i by' target = \<lparr>ct_id = i, ct_type = [], ct_when = [], ct_outcome = [], ct_obligations = [],
     ct_time_window = None, ct_sod = None, ct_waiver = None,
     ct_break_glass = Some \<lparr>bg_bypasses = [target], bg_post_review_by = by'\<rparr>\<rparr>"

lemma bypass_leaves_obligation_witness:
  "\<exists>bg. post_review emergency_cc bg \<in> set (d_obligations
     (evaluate toy_pdp [glass_for ''bg'' ''sre'' ''a'', plain_control ''a'' ''true'' OutcomeDeny] emergency_cc))"
proof -
  let ?cs = "[glass_for ''bg'' ''sre'' ''a'', plain_control ''a'' ''true'' OutcomeDeny]"
  have f: "control_fires toy_pdp emergency_cc (plain_control ''a'' ''true'' OutcomeDeny) = Judged True" by code_simp
  have w: "ct_id (plain_control ''a'' ''true'' OutcomeDeny) \<notin> set (waived ?cs emergency_cc)" by code_simp
  have n: "contribution toy_pdp ?cs emergency_cc (plain_control ''a'' ''true'' OutcomeDeny) = None" by code_simp
  show ?thesis
    using bypass_leaves_obligation [OF _ _ _ f w n] by (auto simp: toy_pdp_def is_modifier_def plain_control_def)
qed

text \<open>
  When two active entries bypass the same control the later one takes it over, so the earlier one's
  reviewer gets no obligation: which reviewer is bound depends on the order of the controls.
\<close>

lemma two_break_glass_one_review:
  "d_obligations (evaluate toy_pdp [glass_for ''g1'' ''sre'' ''a'', glass_for ''g2'' ''cab'' ''a'',
      plain_control ''a'' ''true'' OutcomeDeny] emergency_cc)
     = [post_review emergency_cc \<lparr>bg_bypasses = [''a''], bg_post_review_by = ''cab''\<rparr>] \<and>
   d_obligations (evaluate toy_pdp [glass_for ''g2'' ''cab'' ''a'', glass_for ''g1'' ''sre'' ''a'',
      plain_control ''a'' ''true'' OutcomeDeny] emergency_cc)
     = [post_review emergency_cc \<lparr>bg_bypasses = [''a''], bg_post_review_by = ''sre''\<rparr>]"
  by code_simp

section \<open>Validated declarations\<close>

lemma validate_controls_None:
  "validate_controls p cs = None \<longleftrightarrow> env_error p = None \<and>
     (\<forall>c \<in> set cs. validate_control p (filter (\<lambda>i. i \<noteq> []) (map ct_id cs)) c = None)"
  by (simp add: validate_controls_def split: option.split)

lemma validate_predicate_None:
  assumes "validate_predicate p c = None"
  shows "known_outcome (ct_outcome c)" and "kinds_of c = 1" and "ct_when c \<noteq> [] \<Longrightarrow> \<exists>prg. compile p (ct_when c) = Inr prg"
  using assms by (auto simp: validate_predicate_def split: if_splits option.splits sum.splits)

lemma validated_no_compile_error:
  assumes "validate_predicate p c = None"
  shows "control_fires p cc c \<noteq> Fails ''compile_error'' m"
proof (cases "ct_when c = []")
  case True
  with validate_predicate_None(2) [OF assms] have "ct_time_window c \<noteq> None \<or> ct_sod c \<noteq> None"
    by (auto simp: kinds_of_def split: if_splits)
  then show ?thesis by (auto simp: control_fires_def split: option.splits)
next
  case False
  with validate_predicate_None(3) [OF assms] show ?thesis
    by (auto simp: control_fires_def split: option.splits sum.splits)
qed

lemma validate_modifier_None:
  assumes "validate_modifier c ids = None"
  shows "ct_waiver c = Some w \<Longrightarrow> wv_control_ref w \<in> set ids \<and> wv_control_ref w \<noteq> ct_id c \<and> wv_expires_at w \<noteq> None"
    and "ct_break_glass c = Some bg \<Longrightarrow> bg_post_review_by bg \<noteq> [] \<and> (\<forall>ref \<in> set (bg_bypasses bg). ref \<in> set ids \<and> ref \<noteq> ct_id c)"
proof -
  show "wv_control_ref w \<in> set ids \<and> wv_control_ref w \<noteq> ct_id c \<and> wv_expires_at w \<noteq> None" if "ct_waiver c = Some w"
    using assms that by (auto simp: validate_modifier_def validate_waiver_def split: if_splits option.splits)
  show "bg_post_review_by bg \<noteq> [] \<and> (\<forall>ref \<in> set (bg_bypasses bg). ref \<in> set ids \<and> ref \<noteq> ct_id c)" if "ct_break_glass c = Some bg"
    using assms that by (auto simp: validate_modifier_def validate_break_glass_def split: if_splits option.splits)
qed

text \<open>
  The load-time gate pays off at decision time: a control set that validates yields one of the four
  outcomes, never fails on a predicate that does not compile, and its exemptions are bounded: a waiver
  expires, a break-glass entry names its reviewer, and both reach only other controls of the set.
\<close>

theorem validated_controls_decide:
  assumes "validate_controls p cs = None"
  shows "known_outcome (d_outcome (evaluate p cs cc)) \<and>
    (\<forall>c \<in> set cs. \<not> is_modifier c \<longrightarrow> (\<forall>m. control_fires p cc c \<noteq> Fails ''compile_error'' m)) \<and>
    (\<forall>c \<in> set cs. \<forall>w. ct_waiver c = Some w \<longrightarrow>
       wv_control_ref w \<in> set (map ct_id cs) - {ct_id c} \<and> wv_expires_at w \<noteq> None) \<and>
    (\<forall>c \<in> set cs. \<forall>bg. ct_break_glass c = Some bg \<longrightarrow>
       set (bg_bypasses bg) \<subseteq> set (map ct_id cs) - {ct_id c} \<and> bg_post_review_by bg \<noteq> [])"
proof -
  let ?ids = "filter (\<lambda>i. i \<noteq> []) (map ct_id cs)"
  from assms have env: "env_error p = None" and v: "\<And>c. c \<in> set cs \<Longrightarrow> validate_control p ?ids c = None"
    by (simp_all add: validate_controls_None)
  have pred: "validate_predicate p c = None" if "c \<in> set cs" "\<not> is_modifier c" for c
    using v [OF that(1)] that(2) by (simp add: validate_control_def split: if_splits)
  have modi: "validate_modifier c ?ids = None" if "c \<in> set cs" "is_modifier c" for c
    using v [OF that(1)] that(2) by (simp add: validate_control_def split: if_splits)
  have "\<forall>c \<in> set cs. \<not> is_modifier c \<longrightarrow> known_outcome (ct_outcome c)"
    using validate_predicate_None(1) [OF pred] by blast
  then have "known_outcome x" if "x \<in> set (List.map_filter (contribution p cs cc) cs)" for x
    using contribution_known that by blast
  then have "known_outcome (d_outcome (evaluate p cs cc))"
    using lattice.join_all_picks [of OutcomeAllow "List.map_filter (contribution p cs cc) cs"]
    unfolding evaluate_fields(1) [OF env] by (metis known_simps(2))
  moreover have "\<forall>c \<in> set cs. \<not> is_modifier c \<longrightarrow> (\<forall>m. control_fires p cc c \<noteq> Fails ''compile_error'' m)"
    using validated_no_compile_error [OF pred] by blast
  moreover have "wv_control_ref w \<in> set (map ct_id cs) - {ct_id c} \<and> wv_expires_at w \<noteq> None"
    if "c \<in> set cs" "ct_waiver c = Some w" for c w
    using validate_modifier_None(1) [OF modi [OF that(1)] that(2)] that(2) by (auto simp: is_modifier_def)
  moreover have "set (bg_bypasses bg) \<subseteq> set (map ct_id cs) - {ct_id c} \<and> bg_post_review_by bg \<noteq> []"
    if "c \<in> set cs" "ct_break_glass c = Some bg" for c bg
    using validate_modifier_None(2) [OF modi [OF that(1)] that(2)] that(2) by (auto simp: is_modifier_def)
  ultimately show ?thesis by blast
qed

lemma validated_controls_decide_witness:
  "known_outcome (d_outcome (evaluate toy_pdp [glass_for ''bg'' ''sre'' ''a'', plain_control ''a'' ''true'' OutcomeDeny] emergency_cc))"
proof -
  have "validate_controls toy_pdp [glass_for ''bg'' ''sre'' ''a'', plain_control ''a'' ''true'' OutcomeDeny] = None"
    by code_simp
  from validated_controls_decide [OF this, of emergency_cc] show ?thesis by blast
qed

section \<open>Admission decides, and every provider keeps the port's contract\<close>

definition admission_contribution :: "pdp \<Rightarrow> jmap \<Rightarrow> control \<Rightarrow> string option" where
  "admission_contribution p object c =
     (case compile p (ct_when c) of
        Inl e \<Rightarrow> Some OutcomeDeny
      | Inr prg \<Rightarrow> (case prg object of Inl e \<Rightarrow> Some OutcomeDeny | Inr b \<Rightarrow> if b then Some (ct_outcome c) else None))"

lemma admit_control_outcome:
  "ev_outcome (admit_control p object c st) =
     (case admission_contribution p object c of None \<Rightarrow> ev_outcome st | Some v \<Rightarrow> most_restrictive (ev_outcome st) v)"
  by (simp add: admit_control_def admission_contribution_def add_reason_def split: sum.split)

lemma admit_outcome:
  "env_error p = None \<Longrightarrow>
     d_outcome (admit p cs object) = lattice.join_all OutcomeAllow (List.map_filter (admission_contribution p object) cs)"
proof -
  assume env: "env_error p = None"
  have "ev_outcome (fold (admit_control p object) cs st)
      = lattice.join_all (ev_outcome st) (List.map_filter (admission_contribution p object) cs)" for st
    by (induction cs arbitrary: st)
      (simp_all add: lattice.join_all_Nil map_filter_Cons join_all_opt admit_control_outcome del: map_filter_simps(2))
  with env show ?thesis by (simp add: admit_def Let_def)
qed

lemma validated_admission:
  assumes "validate_admission_control p c = None"
  shows "ct_outcome c \<in> {OutcomeAllow, OutcomeDeny}" and "\<exists>prg. compile p (ct_when c) = Inr prg"
  using assms by (auto simp: validate_admission_control_def split: if_splits sum.splits)

text \<open>
  Admission is a yes or a no: over validated controls a declaration is denied exactly when some control
  with outcome deny matches it or some predicate fails on it, and admitted otherwise; it is never queued.
\<close>

theorem admit_iff:
  assumes "validate_admission_controls p cs = None"
  shows "d_outcome (admit p cs object) = (if \<exists>c \<in> set cs. \<exists>prg. compile p (ct_when c) = Inr prg \<and>
      ((\<exists>e. prg object = Inl e) \<or> prg object = Inr True \<and> ct_outcome c = OutcomeDeny) then OutcomeDeny else OutcomeAllow)"
proof -
  from assms have env: "env_error p = None" and v: "\<And>c. c \<in> set cs \<Longrightarrow> validate_admission_control p c = None"
    by (auto simp: validate_admission_controls_def split: option.splits)
  have con: "admission_contribution p object c = Some x \<Longrightarrow> x \<in> {OutcomeAllow, OutcomeDeny}" if "c \<in> set cs" for c x
    using validated_admission(1) [OF v [OF that]] by (auto simp: admission_contribution_def split: sum.splits if_splits)
  have deny: "admission_contribution p object c = Some OutcomeDeny \<longleftrightarrow> (\<exists>prg. compile p (ct_when c) = Inr prg \<and>
      ((\<exists>e. prg object = Inl e) \<or> prg object = Inr True \<and> ct_outcome c = OutcomeDeny))" if "c \<in> set cs" for c
    using validated_admission(2) [OF v [OF that]] by (auto simp: admission_contribution_def split: sum.splits)
  let ?os = "List.map_filter (admission_contribution p object) cs"
  have os: "set ?os \<subseteq> {OutcomeAllow, OutcomeDeny}" using con by (meson in_map_filter subsetI)
  have "d_outcome (admit p cs object) = OutcomeDeny \<longleftrightarrow> OutcomeDeny \<in> set ?os"
  proof
    assume "d_outcome (admit p cs object) = OutcomeDeny"
    then show "OutcomeDeny \<in> set ?os" using lattice.join_all_picks [of OutcomeAllow ?os]
      by (auto simp: admit_outcome [OF env] outcome_defs)
  next
    assume "OutcomeDeny \<in> set ?os"
    then have "3 \<le> outcome_rank (d_outcome (admit p cs object))"
      unfolding admit_outcome [OF env] using lattice.join_all_upper by fastforce
    then show "d_outcome (admit p cs object) = OutcomeDeny"
      using lattice.join_all_picks [of OutcomeAllow ?os] os by (auto simp: admit_outcome [OF env])
  qed
  moreover have "d_outcome (admit p cs object) \<in> {OutcomeAllow, OutcomeDeny}"
    using lattice.join_all_picks [of OutcomeAllow ?os] os by (auto simp: admit_outcome [OF env])
  moreover have "OutcomeDeny \<in> set ?os \<longleftrightarrow> (\<exists>c \<in> set cs. \<exists>prg. compile p (ct_when c) = Inr prg \<and>
      ((\<exists>e. prg object = Inl e) \<or> prg object = Inr True \<and> ct_outcome c = OutcomeDeny))"
    using deny by (auto simp: in_map_filter)
  ultimately show ?thesis by auto
qed

lemma admit_iff_witness:
  "d_outcome (admit toy_pdp [plain_control ''a'' ''false'' OutcomeDeny, plain_control ''b'' ''ctx.riskScore'' OutcomeAllow] [])
     = OutcomeDeny"
proof -
  have v: "validate_admission_controls toy_pdp
      [plain_control ''a'' ''false'' OutcomeDeny, plain_control ''b'' ''ctx.riskScore'' OutcomeAllow] = None"
    by code_simp
  show ?thesis unfolding admit_iff [OF v] by (simp add: toy_pdp_def plain_control_def)
qed

text \<open>
  The port of \<open>decider.go\<close>: what a provider answers to a valid request is one of the four outcomes.  The
  audit record of \<open>policystep.go\<close> and the checkpoint rest on this law alone.
\<close>

definition audit_outcome :: "decision \<Rightarrow> string" where
  "audit_outcome dec =
     (if d_outcome dec = OutcomeDeny then ''denied''
      else if d_outcome dec = OutcomeRequireApproval \<or> d_outcome dec = OutcomeEscalate then d_outcome dec
      else ''ok'')"

locale decider_port =
  fixes decide :: "'req \<Rightarrow> decision"
    and valid :: "'req \<Rightarrow> bool"
  assumes known: "valid req \<Longrightarrow> known_outcome (d_outcome (decide req))"
begin

lemma audit_ok_iff: "valid req \<Longrightarrow> audit_outcome (decide req) = ''ok'' \<longleftrightarrow> d_outcome (decide req) = OutcomeAllow"
  using known [of req] by (auto simp: audit_outcome_def known_outcome_def outcome_defs)

lemma not_allow_ranks: "valid req \<Longrightarrow> d_outcome (decide req) \<noteq> OutcomeAllow \<Longrightarrow> 1 \<le> outcome_rank (d_outcome (decide req))"
  using rank_zero [of "d_outcome (decide req)"] by (cases "outcome_rank (d_outcome (decide req))") auto

end

interpretation cel: decider_port "\<lambda>(p, cs, cc). evaluate p cs cc" "\<lambda>(p, cs, cc). validate_controls p cs = None"
proof
  fix req :: "pdp \<times> control list \<times> change_context"
  obtain p cs cc where req: "req = (p, cs, cc)" by (cases req) auto
  assume "case req of (p, cs, cc) \<Rightarrow> validate_controls p cs = None"
  then have env: "env_error p = None" and v: "\<forall>c \<in> set cs. validate_control p (filter (\<lambda>i. i \<noteq> []) (map ct_id cs)) c = None"
    by (simp_all add: req validate_controls_None)
  have "\<forall>c \<in> set cs. \<not> is_modifier c \<longrightarrow> known_outcome (ct_outcome c)"
    using v validate_predicate_None(1) by (auto simp: validate_control_def split: if_splits)
  then have "known_outcome x" if "x \<in> set (List.map_filter (contribution p cs cc) cs)" for x
    using contribution_known that by blast
  then show "known_outcome (d_outcome (case req of (p, cs, cc) \<Rightarrow> evaluate p cs cc))"
    using lattice.join_all_picks [of OutcomeAllow "List.map_filter (contribution p cs cc) cs"]
    by (simp add: req evaluate_fields(1) [OF env]) (metis known_simps(2))
qed

interpretation bypass: decider_port "\<lambda>_. bypass_decision" "\<lambda>_. True"
  by unfold_locales (simp add: bypass_decision_def)

interpretation exec: decider_port "\<lambda>(p, name, run, parse, op, encoded). exec_decide p name run parse op encoded" "\<lambda>_. True"
  by unfold_locales (auto simp: exec_decide_def exec_eval_def exec_fail_closed_def split: sum.split)

text \<open>
  The external engine fails closed: the change is allowed only when the request was encoded, the tool
  ran, its output parsed and the outcome it gave is allow; every other run of the tool denies, or hands on
  one of the known outcomes, and the audit record says ok only for an allow.
\<close>

theorem exec_fails_closed:
  "(d_outcome (exec_decide p name run parse op encoded) = OutcomeAllow \<longleftrightarrow>
     (\<exists>input out dec. encoded = Inr input \<and> run op input = Inr out \<and> parse out = Inr dec \<and> d_outcome dec = OutcomeAllow)) \<and>
   known_outcome (d_outcome (exec_decide p name run parse op encoded)) \<and>
   (audit_outcome (exec_decide p name run parse op encoded) = ''ok'' \<longleftrightarrow>
      d_outcome (exec_decide p name run parse op encoded) = OutcomeAllow)"
proof -
  have ne: "OutcomeDeny \<noteq> OutcomeAllow" by (simp add: outcome_defs)
  have "d_outcome (exec_decide p name run parse op encoded) = OutcomeAllow \<longleftrightarrow>
     (\<exists>input out dec. encoded = Inr input \<and> run op input = Inr out \<and> parse out = Inr dec \<and> d_outcome dec = OutcomeAllow)"
    using ne by (auto simp: exec_decide_def exec_eval_def exec_fail_closed_def split: sum.split)
  then show ?thesis
    using exec.known [of "(p, name, run, parse, op, encoded)"] exec.audit_ok_iff [of "(p, name, run, parse, op, encoded)"]
    by simp
qed

end
