(* ===== verification/Transitions.thy ===== *)
theory Transitions
  imports Prelude
begin

text \<open>
  State machines.  A component that reacts to events in an order the code does not control is an initial
  condition and a step relation; \<open>transition_system\<close> gives the reachable states, the invariant rule and
  the measure argument for finite executions once for all of them.
\<close>

locale transition_system =
  fixes init :: "'s \<Rightarrow> bool"
    and step :: "'s \<Rightarrow> 's \<Rightarrow> bool"
begin

inductive reach :: "'s \<Rightarrow> bool" where
  start: "init s \<Longrightarrow> reach s"
| onward: "reach s \<Longrightarrow> step s t \<Longrightarrow> reach t"

lemma invariant:
  assumes "reach s" and "\<And>s. init s \<Longrightarrow> I s" and "\<And>s t. I s \<Longrightarrow> step s t \<Longrightarrow> I t"
  shows "I s"
  using assms(1) by induction (auto intro: assms(2,3))

lemma invariant_with:
  assumes "reach s" and "\<And>s. reach s \<Longrightarrow> J s" and "\<And>s. init s \<Longrightarrow> I s"
    and "\<And>s t. I s \<Longrightarrow> J s \<Longrightarrow> step s t \<Longrightarrow> I t"
  shows "I s"
proof -
  have "I s \<and> J s" using assms(1)
    by (induction) (auto intro: assms reach.intros)
  then show ?thesis ..
qed

lemma steps_bounded:
  fixes f :: "nat \<Rightarrow> 's" and m :: "'s \<Rightarrow> nat"
  assumes "\<And>i. i < n \<Longrightarrow> step (f i) (f (Suc i))" and "\<And>s t. step s t \<Longrightarrow> m t < m s"
  shows "n \<le> m (f 0)"
proof -
  have "i \<le> n \<Longrightarrow> m (f i) + i \<le> m (f 0)" for i
  proof (induction i)
    case (Suc i)
    then have "m (f (Suc i)) < m (f i)" by (intro assms(2) assms(1)) simp
    with Suc show ?case by simp
  qed simp
  from this [of n] show ?thesis by simp
qed

end

end
