(* ===== verification/Dag.thy ===== *)
theory Dag
  imports Json Transitions Policy
begin

text \<open>
  The Workflow walk of \<open>core/internal/orchestrate/workflow.go\<close> over the Steps of \<open>types/workflow.go\<close>.
  \<open>RunDAG\<close> after its launch checks is a state (the per-Step map, the outputs gathered, whether the
  execution is cancelled) and two events: a Step in flight reports its result, and the execution is
  cancelled.  Each result is followed by \<open>schedule\<close>, which runs to its fixpoint.  The results the child
  Runs report are an argument, so the theorems hold for every outcome of every Step and every order in
  which they arrive.
\<close>

section \<open>Steps\<close>

record gate_approvers =
  ga_principals :: "string list"
  ga_teams :: "string list"

record gate_spec =
  gs_approvers :: gate_approvers
  gs_timeout_seconds :: int
  gs_threshold :: int

record facet_address =
  fa_namespace :: string
  fa_path :: string

record group_key =
  gk_label :: string
  gk_facet :: "facet_address option"
  gk_prefix :: string

record wstep =
  ws_name :: string
  ws_needs :: "string list"
  ws_when :: string
  ws_gate :: "gate_spec option"
  ws_policy :: "control list option"
  ws_workflow :: string
  ws_workflow_capability :: string
  ws_for_kind :: string
  ws_inputs :: jmap
  ws_view_name :: string
  ws_actuator :: string
  ws_action :: string
  ws_action_capability :: string
  ws_dry_run :: bool
  ws_params :: jmap
  ws_capability_args :: "jmap gomap"
  ws_slices :: int
  ws_credential_refs :: "string list"
  ws_facet_write_scope :: "string list"
  ws_plan :: bool
  ws_plan_from :: string
  ws_group_by :: "group_key list"

text \<open>\<open>Step.IsActuation\<close>, the predicate of the authorization door.\<close>

definition is_actuation :: "wstep \<Rightarrow> bool" where
  "is_actuation s \<longleftrightarrow> ws_gate s = None \<and> ws_policy s = None \<and> ws_workflow s = [] \<and> ws_action s = [] \<and>
     ws_action_capability s = []"

text \<open>The dispatch of \<open>launch\<close>: which of the five runners a Step's goroutine calls.\<close>

datatype shape = GateShape | PolicyShape | NestedShape | ActionShape | ActuationShape

definition dispatch :: "wstep \<Rightarrow> shape" where
  "dispatch s =
     (if ws_gate s \<noteq> None then GateShape
      else if ws_policy s \<noteq> None then PolicyShape
      else if ws_workflow s \<noteq> [] then NestedShape
      else if ws_action s \<noteq> [] then ActionShape
      else ActuationShape)"

section \<open>Scheduling\<close>

datatype status = Pending | Running | Succeeded | Failed | Skipped | Canceled

definition state_of :: "status gomap \<Rightarrow> string \<Rightarrow> status" where
  "state_of m n = (case map_of m n of None \<Rightarrow> Pending | Some s \<Rightarrow> s)"

definition count_status :: "(string \<Rightarrow> status) \<Rightarrow> status \<Rightarrow> string list \<Rightarrow> nat" where
  "count_status m v ns = length (filter (\<lambda>n. m n = v) ns)"

definition step_eligible :: "wstep \<Rightarrow> (string \<Rightarrow> status) \<Rightarrow> bool \<times> bool" where
  "step_eligible s m =
     (if list_ex (\<lambda>n. m n = Pending \<or> m n = Running) (ws_needs s) then (False, False)
      else if ws_when s = ''always'' then (True, True)
      else if ws_when s = ''failure'' then (True, count_status m Failed (ws_needs s) > 0)
      else (True, count_status m Succeeded (ws_needs s) = length (ws_needs s)))"

text \<open>
  One \<open>for\<close> pass over the Steps: a skipped Step sets \<open>changed\<close>, a launched one only the state.  The third
  component collects the Steps launched, in order.
\<close>

definition visit :: "wstep \<Rightarrow> bool \<times> status gomap \<times> wstep list \<Rightarrow> bool \<times> status gomap \<times> wstep list" where
  "visit s acc = (case acc of (changed, m, launched) \<Rightarrow>
     if state_of m (ws_name s) \<noteq> Pending then acc
     else (case step_eligible s (state_of m) of
         (False, _) \<Rightarrow> acc
       | (True, False) \<Rightarrow> (True, aput (ws_name s) Skipped m, launched)
       | (True, True) \<Rightarrow> (changed, aput (ws_name s) Running m, launched @ [s])))"

definition schedule_pass :: "wstep list \<Rightarrow> status gomap \<Rightarrow> wstep list \<Rightarrow> bool \<times> status gomap \<times> wstep list" where
  "schedule_pass steps m launched = fold visit steps (False, m, launched)"

definition pending_steps :: "wstep list \<Rightarrow> status gomap \<Rightarrow> nat" where
  "pending_steps steps m = length (filter (\<lambda>s. state_of m (ws_name s) = Pending) steps)"

lemma state_of_aput [simp]: "state_of (aput n v m) k = (if k = n then v else state_of m k)"
  by (simp add: state_of_def map_of_aput)

text \<open>What a visit may change: a Pending Step becomes Skipped or Running, everything else stays.\<close>

definition grows :: "status gomap \<Rightarrow> status gomap \<Rightarrow> bool" where
  "grows m m' \<longleftrightarrow> (\<forall>n. state_of m n \<noteq> Pending \<longrightarrow> state_of m' n = state_of m n)"

lemma grows_refl [simp]: "grows m m"
  by (simp add: grows_def)

lemma grows_trans: "grows a b \<Longrightarrow> grows b c \<Longrightarrow> grows a c"
  by (auto simp: grows_def)

lemma visit_grows: "visit s (ch, m, l) = (ch', m', l') \<Longrightarrow> grows m m'"
  by (auto simp: visit_def grows_def split: if_splits prod.splits bool.splits)

lemma visit_changed: "visit s (ch, m, l) = (ch', m', l') \<Longrightarrow> ch' \<longrightarrow> ch \<or> (state_of m (ws_name s) = Pending \<and> state_of m' (ws_name s) \<noteq> Pending)"
  by (auto simp: visit_def split: if_splits prod.splits bool.splits)

lemma pass_grows: "fold visit steps (ch, m, l) = (ch', m', l') \<Longrightarrow> grows m m'"
proof (induction steps arbitrary: ch m l)
  case (Cons s steps)
  obtain ch1 m1 l1 where v: "visit s (ch, m, l) = (ch1, m1, l1)" by (cases "visit s (ch, m, l)") auto
  with Cons show ?case using visit_grows [OF v] by (auto intro: grows_trans)
qed simp

lemma pass_changed: "fold visit steps (ch, m, l) = (ch', m', l') \<Longrightarrow> ch' \<Longrightarrow>
    ch \<or> (\<exists>s \<in> set steps. state_of m (ws_name s) = Pending \<and> state_of m' (ws_name s) \<noteq> Pending)"
proof (induction steps arbitrary: ch m l)
  case (Cons s steps)
  obtain ch1 m1 l1 where v: "visit s (ch, m, l) = (ch1, m1, l1)" by (cases "visit s (ch, m, l)") auto
  with Cons.prems have f: "fold visit steps (ch1, m1, l1) = (ch', m', l')" by simp
  note g = visit_grows [OF v] pass_grows [OF f]
  from Cons.IH [OF f Cons.prems(2)] visit_changed [OF v] g show ?case
    by (auto simp: grows_def)
qed simp

lemma pending_le: "grows m m' \<Longrightarrow> pending_steps steps m' \<le> pending_steps steps m"
  by (auto simp: pending_steps_def grows_def length_filter_conv_card intro!: card_mono)

lemma pending_less:
  assumes "grows m m'" and "s \<in> set steps" and "state_of m (ws_name s) = Pending" and "state_of m' (ws_name s) \<noteq> Pending"
  shows "pending_steps steps m' < pending_steps steps m"
proof -
  obtain i where i: "i < length steps" "steps ! i = s" using assms(2) by (auto simp: in_set_conv_nth)
  show ?thesis unfolding pending_steps_def length_filter_conv_card
    by (rule psubset_card_mono) (use assms i in \<open>auto simp: grows_def\<close>)
qed

lemma pass_less:
  assumes "schedule_pass steps m l = (True, m', l')"
  shows "pending_steps steps m' < pending_steps steps m"
proof -
  have f: "fold visit steps (False, m, l) = (True, m', l')" using assms by (simp add: schedule_pass_def)
  from pass_changed [OF f] obtain s where "s \<in> set steps" "state_of m (ws_name s) = Pending" "state_of m' (ws_name s) \<noteq> Pending"
    by auto
  then show ?thesis by (rule pending_less [OF pass_grows [OF f]])
qed

function schedule :: "wstep list \<Rightarrow> status gomap \<Rightarrow> wstep list \<Rightarrow> status gomap \<times> wstep list" where
  "schedule steps m launched =
     (case schedule_pass steps m launched of
        (changed, m', launched') \<Rightarrow> if changed then schedule steps m' launched' else (m', launched'))"
  by pat_completeness auto
termination
  by (relation "measure (\<lambda>(steps, m, l). pending_steps steps m)") (auto dest: pass_less [OF sym])

declare schedule.simps [simp del]

text \<open>The per-Step facts: what a launch and a skip were justified by.\<close>

definition terminal :: "status \<Rightarrow> bool" where
  "terminal v \<longleftrightarrow> v \<noteq> Pending \<and> v \<noteq> Running"

definition ready :: "wstep \<Rightarrow> (string \<Rightarrow> status) \<Rightarrow> bool" where
  "ready s m \<longleftrightarrow> (\<forall>n \<in> set (ws_needs s). terminal (m n))"

definition met :: "wstep \<Rightarrow> (string \<Rightarrow> status) \<Rightarrow> bool" where
  "met s m \<longleftrightarrow>
     (if ws_when s = ''always'' then True
      else if ws_when s = ''failure'' then (\<exists>n \<in> set (ws_needs s). m n = Failed)
      else (\<forall>n \<in> set (ws_needs s). m n = Succeeded))"

lemma filter_full: "length (filter P xs) = length xs \<longleftrightarrow> (\<forall>x \<in> set xs. P x)"
  by (metis filter_id_conv filter_True length_filter_less nless_le)

lemma step_eligible_iff: "step_eligible s m = (if ready s m then (True, met s m) else (False, False))"
  by (auto simp: step_eligible_def ready_def terminal_def met_def count_status_def list_ex_iff filter_full
      filter_empty_conv)

lemma met_stable:
  assumes "grows m m'" and "ready s (state_of m)"
  shows "ready s (state_of m')" and "met s (state_of m') = met s (state_of m)"
proof -
  have e: "state_of m' n = state_of m n" if "n \<in> set (ws_needs s)" for n
    using that assms by (auto simp: grows_def ready_def terminal_def)
  then show "ready s (state_of m')" and "met s (state_of m') = met s (state_of m)"
    using assms(2) by (auto simp: ready_def met_def)
qed

text \<open>
  The scheduling invariant: a Step that is in flight or has a result was ready and its condition held; a
  skipped Step was ready and its condition did not hold.
\<close>

definition justified :: "wstep list \<Rightarrow> status gomap \<Rightarrow> bool" where
  "justified steps m \<longleftrightarrow> (\<forall>s \<in> set steps.
     (state_of m (ws_name s) \<notin> {Pending, Skipped} \<longrightarrow> ready s (state_of m) \<and> met s (state_of m)) \<and>
     (state_of m (ws_name s) = Skipped \<longrightarrow> ready s (state_of m) \<and> \<not> met s (state_of m)))"

lemma visit_justified:
  assumes "visit s (ch, m, l) = (ch', m', l')" and "justified steps m" and "distinct (map ws_name steps)" and "s \<in> set steps"
  shows "justified steps m'"
proof (cases "state_of m (ws_name s) = Pending \<and> ready s (state_of m)")
  case False
  then have "m' = m" using assms(1) by (auto simp: visit_def step_eligible_iff split: if_splits)
  with assms(2) show ?thesis by simp
next
  case True
  define v where "v = (if met s (state_of m) then Running else Skipped)"
  have m': "m' = aput (ws_name s) v m" using assms(1) True
    by (auto simp: visit_def step_eligible_iff v_def split: if_splits)
  note g = visit_grows [OF assms(1)]
  show ?thesis unfolding justified_def
  proof
    fix t assume t: "t \<in> set steps"
    show "(state_of m' (ws_name t) \<notin> {Pending, Skipped} \<longrightarrow> ready t (state_of m') \<and> met t (state_of m')) \<and>
      (state_of m' (ws_name t) = Skipped \<longrightarrow> ready t (state_of m') \<and> \<not> met t (state_of m'))"
    proof (cases "ws_name t = ws_name s")
      case same: True
      then have "t = s" using assms(3,4) t by (metis distinct_map inj_onD)
      have "state_of m' (ws_name s) = v" by (simp add: m')
      with \<open>t = s\<close> True met_stable [OF g, of s] show ?thesis by (simp add: v_def)
    next
      case False
      then have "state_of m' (ws_name t) = state_of m (ws_name t)" by (simp add: m')
      with assms(2) t met_stable [OF g, of t] show ?thesis by (auto simp: justified_def)
    qed
  qed
qed

lemma pass_justified:
  assumes "distinct (map ws_name all)"
  shows "fold visit steps (ch, m, l) = (ch', m', l') \<Longrightarrow> set steps \<subseteq> set all \<Longrightarrow> justified all m \<Longrightarrow> justified all m'"
proof (induction steps arbitrary: ch m l)
  case (Cons s steps)
  obtain ch1 m1 l1 where v: "visit s (ch, m, l) = (ch1, m1, l1)" by (cases "visit s (ch, m, l)") auto
  with Cons visit_justified [OF v _ assms] show ?case by simp
qed simp

text \<open>A pass without a skip leaves no ready Step pending, because launching makes no Step ready.\<close>

definition settled :: "wstep list \<Rightarrow> status gomap \<Rightarrow> bool" where
  "settled steps m \<longleftrightarrow> (\<forall>s \<in> set steps. state_of m (ws_name s) = Pending \<longrightarrow> \<not> ready s (state_of m))"

lemma pass_settled:
  "fold visit steps (ch, m, l) = (False, m', l') \<Longrightarrow>
     (\<forall>s \<in> set steps. state_of m' (ws_name s) = Pending \<longrightarrow> \<not> ready s (state_of m')) \<and>
     (\<forall>n. terminal (state_of m' n) \<longleftrightarrow> terminal (state_of m n)) \<and> \<not> ch"
proof (induction steps arbitrary: ch m l)
  case (Cons s steps)
  obtain ch1 m1 l1 where v: "visit s (ch, m, l) = (ch1, m1, l1)" by (cases "visit s (ch, m, l)") auto
  with Cons.prems have f: "fold visit steps (ch1, m1, l1) = (False, m', l')" by simp
  from Cons.IH [OF f] have IH: "\<forall>s \<in> set steps. state_of m' (ws_name s) = Pending \<longrightarrow> \<not> ready s (state_of m')"
    "\<And>n. terminal (state_of m' n) \<longleftrightarrow> terminal (state_of m1 n)" and nch: "\<not> ch1" by auto
  from v nch have m1: "\<not> ch" "\<And>n. terminal (state_of m1 n) \<longleftrightarrow> terminal (state_of m n)"
    by (auto simp: visit_def terminal_def split: if_splits prod.splits bool.splits)
  have "\<not> ready s (state_of m')" if p: "state_of m' (ws_name s) = Pending"
  proof
    assume "ready s (state_of m')"
    then have "ready s (state_of m)" using IH(2) m1(2) by (simp add: ready_def)
    moreover have "state_of m (ws_name s) = Pending" "state_of m1 (ws_name s) = Pending"
      using p visit_grows [OF v] pass_grows [OF f] by (metis grows_def)+
    ultimately show False using v nch
      by (cases "met s (state_of m)") (auto simp: visit_def step_eligible_iff)
  qed
  with IH m1 show ?case by auto
qed simp

lemma schedule_facts:
  assumes "distinct (map ws_name steps)" and "schedule steps m l = (m', l')"
  shows "grows m m'" and "settled steps m'" and "justified steps m \<Longrightarrow> justified steps m'"
proof -
  have "grows m m' \<and> settled steps m' \<and> (justified steps m \<longrightarrow> justified steps m')" using assms
  proof (induction steps m l rule: schedule.induct)
    case (1 steps m l)
    obtain ch m1 l1 where p: "schedule_pass steps m l = (ch, m1, l1)" by (cases "schedule_pass steps m l") auto
    then have f: "fold visit steps (False, m, l) = (ch, m1, l1)" by (simp add: schedule_pass_def)
    note g = pass_grows [OF f] and j = pass_justified [OF 1(2) f order_refl]
    show ?case
    proof (cases ch)
      case True
      with 1(3) p have "schedule steps m1 l1 = (m', l')" by (subst (asm) schedule.simps) simp
      with 1(1) [OF p [symmetric] refl True 1(2)] g j show ?thesis by (auto intro: grows_trans)
    next
      case False
      with 1(3) p have "m' = m1" by (subst (asm) schedule.simps) simp
      with pass_settled [of steps False m l m1 l1] f False g j show ?thesis by (auto simp: settled_def)
    qed
  qed
  then show "grows m m'" and "settled steps m'" and "justified steps m \<Longrightarrow> justified steps m'" by auto
qed

section \<open>The walk\<close>

record dag =
  dg_state :: "status gomap"
  dg_outputs :: "string gomap"
  dg_cancelled :: bool

definition is_space :: "char \<Rightarrow> bool" where
  "is_space c \<longleftrightarrow> c \<in> {CHR '' '', CHR 0x09, CHR 0x0A, CHR 0x0B, CHR 0x0C, CHR 0x0D}"

definition trim_space :: "string \<Rightarrow> string" where
  "trim_space s = rev (dropWhile is_space (rev (dropWhile is_space s)))"

definition has_outputs :: "string \<Rightarrow> bool" where
  "has_outputs raw \<longleftrightarrow> length (trim_space raw) > 0 \<and> trim_space raw \<noteq> ''null''"

definition initial_state :: "wstep list \<Rightarrow> status gomap" where
  "initial_state steps = fold (\<lambda>s. aput (ws_name s) Pending) steps []"

text \<open>\<open>schedule\<close> of the code: nothing new starts once the execution is cancelled.\<close>

definition schedule_dag :: "wstep list \<Rightarrow> dag \<Rightarrow> dag" where
  "schedule_dag steps d = (if dg_cancelled d then d else d\<lparr>dg_state := fst (schedule steps (dg_state d) [])\<rparr>)"

definition dag_start :: "wstep list \<Rightarrow> dag" where
  "dag_start steps = schedule_dag steps \<lparr>dg_state = initial_state steps, dg_outputs = [], dg_cancelled = False\<rparr>"

text \<open>The body of the receive loop on one result.\<close>

definition receive :: "wstep list \<Rightarrow> string \<Rightarrow> status \<Rightarrow> string \<Rightarrow> dag \<Rightarrow> dag" where
  "receive steps n v out d = schedule_dag steps
     (d\<lparr>dg_state := aput n v (dg_state d),
        dg_outputs := (if has_outputs out then aput n out (dg_outputs d) else dg_outputs d)\<rparr>)"

definition cancel :: "dag \<Rightarrow> dag" where
  "cancel d = d\<lparr>dg_cancelled := True\<rparr>"

text \<open>The terminal status, and what the deferred handler overwrites it with on a cancelled execution.\<close>

datatype run_status = RunSucceeded | RunFailed | RunCanceled

definition finish_status :: "wstep list \<Rightarrow> dag \<Rightarrow> run_status" where
  "finish_status steps d =
     (if dg_cancelled d then RunCanceled
      else if list_ex (\<lambda>s. state_of (dg_state d) (ws_name s) = Failed) steps then RunFailed
      else RunSucceeded)"

definition finished :: "wstep list \<Rightarrow> dag \<Rightarrow> bool" where
  "finished steps d \<longleftrightarrow> list_all (\<lambda>s. state_of (dg_state d) (ws_name s) \<noteq> Running) steps"

text \<open>
  The step relation.  \<open>res\<close> gives for every Step the status and the outputs its goroutine ends with; a
  goroutine that finds itself on a cancelled context reports \<open>Canceled\<close> instead, unless it had already
  reported.
\<close>

inductive dag_step :: "wstep list \<Rightarrow> (string \<Rightarrow> status \<times> string) \<Rightarrow> dag \<Rightarrow> dag \<Rightarrow> bool"
  for steps :: "wstep list" and res :: "string \<Rightarrow> status \<times> string" where
  complete: "s \<in> set steps \<Longrightarrow> state_of (dg_state d) (ws_name s) = Running \<Longrightarrow>
     v = fst (res (ws_name s)) \<or> dg_cancelled d \<and> v = Canceled \<Longrightarrow> v \<in> {Succeeded, Failed, Canceled} \<Longrightarrow>
     dag_step steps res d (receive steps (ws_name s) v (snd (res (ws_name s))) d)"
| cancelled: "\<not> dg_cancelled d \<Longrightarrow> dag_step steps res d (cancel d)"

inductive_cases dag_stepE: "dag_step steps res d d'"

interpretation dag: transition_system "\<lambda>d. d = dag_start steps" "dag_step steps res" for steps res .

lemma schedule_dag_fields [simp]:
  "dg_cancelled (schedule_dag steps d) = dg_cancelled d" "dg_outputs (schedule_dag steps d) = dg_outputs d"
  by (simp_all add: schedule_dag_def)

lemma schedule_dag_facts:
  assumes "distinct (map ws_name steps)"
  shows "grows (dg_state d) (dg_state (schedule_dag steps d))"
    and "justified steps (dg_state d) \<Longrightarrow> justified steps (dg_state (schedule_dag steps d))"
    and "\<not> dg_cancelled d \<Longrightarrow> settled steps (dg_state (schedule_dag steps d))"
    and "dg_cancelled d \<Longrightarrow> schedule_dag steps d = d"
proof -
  obtain m' l' where s: "schedule steps (dg_state d) [] = (m', l')" by fastforce
  note f = schedule_facts [OF assms s]
  from f s show "grows (dg_state d) (dg_state (schedule_dag steps d))" by (simp add: schedule_dag_def)
  from f s show "justified steps (dg_state d) \<Longrightarrow> justified steps (dg_state (schedule_dag steps d))" by (simp add: schedule_dag_def)
  from f s show "\<not> dg_cancelled d \<Longrightarrow> settled steps (dg_state (schedule_dag steps d))" by (simp add: schedule_dag_def)
  show "dg_cancelled d \<Longrightarrow> schedule_dag steps d = d" by (simp add: schedule_dag_def)
qed

lemma initial_pending: "state_of (initial_state steps) n = Pending"
proof -
  have "\<forall>n. state_of m n = Pending \<Longrightarrow> state_of (fold (\<lambda>s. aput (ws_name s) Pending) steps m) n = Pending" for m
    by (induction steps arbitrary: m) auto
  from this [of "[]"] show ?thesis by (simp add: initial_state_def state_of_def)
qed

lemma result_justified:
  assumes "justified steps m" and "state_of m n = Running" and "v \<in> {Succeeded, Failed, Canceled}"
    and "\<And>s. s \<in> set steps \<Longrightarrow> ready s (state_of m) \<Longrightarrow> n \<notin> set (ws_needs s)"
  shows "justified steps (aput n v m)"
  unfolding justified_def
proof
  fix t assume t: "t \<in> set steps"
  have keep: "ready t (state_of (aput n v m)) \<and> met t (state_of (aput n v m)) = met t (state_of m)"
    if r: "ready t (state_of m)"
  proof -
    have "n \<notin> set (ws_needs t)" using assms(4) t r .
    with r show ?thesis by (auto simp: ready_def met_def)
  qed
  from assms(1) t have j: "state_of m (ws_name t) \<notin> {Pending, Skipped} \<longrightarrow> ready t (state_of m) \<and> met t (state_of m)"
    "state_of m (ws_name t) = Skipped \<longrightarrow> ready t (state_of m) \<and> \<not> met t (state_of m)"
    by (auto simp: justified_def)
  show "(state_of (aput n v m) (ws_name t) \<notin> {Pending, Skipped} \<longrightarrow> ready t (state_of (aput n v m)) \<and> met t (state_of (aput n v m))) \<and>
      (state_of (aput n v m) (ws_name t) = Skipped \<longrightarrow> ready t (state_of (aput n v m)) \<and> \<not> met t (state_of (aput n v m)))"
  proof (cases "ws_name t = n")
    case True
    with assms(2) j have "ready t (state_of m)" "met t (state_of m)" by auto
    with keep True assms(3) show ?thesis by auto
  next
    case False
    then have "state_of (aput n v m) (ws_name t) = state_of m (ws_name t)" by simp
    with j keep show ?thesis by metis
  qed
qed

lemma receive_justified:
  assumes "distinct (map ws_name steps)" and "justified steps (dg_state d)" and "state_of (dg_state d) n = Running"
    and "v \<in> {Succeeded, Failed, Canceled}"
  shows "justified steps (dg_state (receive steps n v out d))"
proof -
  have "n \<notin> set (ws_needs s)" if "ready s (state_of (dg_state d))" for s
    using that assms(3) by (auto simp: ready_def terminal_def)
  then have "justified steps (aput n v (dg_state d))" using result_justified [OF assms(2,3,4)] by blast
  then show ?thesis unfolding receive_def by (intro schedule_dag_facts(2) [OF assms(1)]) simp
qed

lemma reach_justified:
  assumes "distinct (map ws_name steps)" and "dag.reach steps res d"
  shows "justified steps (dg_state d) \<and> (\<not> dg_cancelled d \<longrightarrow> settled steps (dg_state d))"
  using assms(2)
proof (rule dag.invariant)
  fix d :: dag
  assume "d = dag_start steps"
  moreover have "justified steps (initial_state steps)" by (simp add: justified_def initial_pending)
  ultimately show "justified steps (dg_state d) \<and> (\<not> dg_cancelled d \<longrightarrow> settled steps (dg_state d))"
    unfolding dag_start_def by (auto intro!: schedule_dag_facts(2,3) [OF assms(1)])
next
  fix d d' :: dag
  assume I: "justified steps (dg_state d) \<and> (\<not> dg_cancelled d \<longrightarrow> settled steps (dg_state d))" and "dag_step steps res d d'"
  from this(2) show "justified steps (dg_state d') \<and> (\<not> dg_cancelled d' \<longrightarrow> settled steps (dg_state d'))"
  proof cases
    case (complete s v)
    with I receive_justified [OF assms(1), of d "ws_name s" v] show ?thesis
      unfolding receive_def by (auto intro!: schedule_dag_facts(3) [OF assms(1)])
  next
    case cancelled
    with I show ?thesis by (simp add: cancel_def)
  qed
qed

text \<open>
  C3. No Step runs early and none is skipped by mistake: whatever the Steps report and in whatever order,
  in every state the walk can reach a Step that is in flight or has run had every need terminal and its
  when-condition met, and a skipped one had every need terminal and its condition not met.
\<close>

theorem dag_steps_justified:
  assumes "distinct (map ws_name steps)" and "dag.reach steps res d" and "s \<in> set steps"
  shows "(state_of (dg_state d) (ws_name s) \<in> {Running, Succeeded, Failed, Canceled} \<longrightarrow>
      ready s (state_of (dg_state d)) \<and> met s (state_of (dg_state d))) \<and>
    (state_of (dg_state d) (ws_name s) = Skipped \<longrightarrow> ready s (state_of (dg_state d)) \<and> \<not> met s (state_of (dg_state d))) \<and>
    (state_of (dg_state d) (ws_name s) = Pending \<and> \<not> dg_cancelled d \<longrightarrow> \<not> ready s (state_of (dg_state d)))"
  using reach_justified [OF assms(1,2)] assms(3) by (auto simp: justified_def settled_def)

definition blank_step :: "string \<Rightarrow> string list \<Rightarrow> string \<Rightarrow> wstep" where
  "blank_step n needs w = \<lparr>ws_name = n, ws_needs = needs, ws_when = w, ws_gate = None, ws_policy = None, ws_workflow = [],
     ws_workflow_capability = [], ws_for_kind = [], ws_inputs = [], ws_view_name = ''web'', ws_actuator = ''ansible'',
     ws_action = [], ws_action_capability = [], ws_dry_run = False, ws_params = [], ws_capability_args = [], ws_slices = 0,
     ws_credential_refs = [], ws_facet_write_scope = [], ws_plan = False, ws_plan_from = [], ws_group_by = []\<rparr>"

definition converge_cleanup :: "wstep list" where
  "converge_cleanup = [blank_step ''notify'' [''cleanup''] ''always'', blank_step ''converge'' [] [],
     blank_step ''verify'' [''converge''] [], blank_step ''cleanup'' [''converge''] ''failure'']"

definition converge_fails :: "string \<Rightarrow> status \<times> string" where
  "converge_fails n = (if n = ''converge'' then Failed else Succeeded, ''null'')"

lemma converge_cleanup_names: "distinct (map ws_name converge_cleanup)"
  by (simp add: converge_cleanup_def blank_step_def)

lemma dag_steps_justified_witness:
  "state_of (dg_state (receive converge_cleanup ''converge'' Failed ''null'' (dag_start converge_cleanup))) ''verify'' = Skipped \<and>
   \<not> met (blank_step ''verify'' [''converge''] [])
     (state_of (dg_state (receive converge_cleanup ''converge'' Failed ''null'' (dag_start converge_cleanup))))"
proof -
  let ?d = "receive converge_cleanup ''converge'' Failed ''null'' (dag_start converge_cleanup)"
  let ?s = "blank_step ''converge'' [] []"
  have "?s \<in> set converge_cleanup" by (simp add: converge_cleanup_def)
  moreover have "state_of (dg_state (dag_start converge_cleanup)) (ws_name ?s) = Running" by code_simp
  ultimately have "dag_step converge_cleanup converge_fails (dag_start converge_cleanup)
      (receive converge_cleanup (ws_name ?s) Failed (snd (converge_fails (ws_name ?s))) (dag_start converge_cleanup))"
    by (rule dag_step.complete) (simp_all add: converge_fails_def blank_step_def)
  then have r: "dag.reach converge_cleanup converge_fails ?d"
    by (intro dag.reach.onward [OF dag.reach.start [OF refl]]) (simp add: converge_fails_def blank_step_def)
  have "state_of (dg_state ?d) ''verify'' = Skipped" by code_simp
  moreover have "blank_step ''verify'' [''converge''] [] \<in> set converge_cleanup" by (simp add: converge_cleanup_def)
  ultimately show ?thesis
    using dag_steps_justified [OF converge_cleanup_names r, of "blank_step ''verify'' [''converge''] []"]
    by (simp add: blank_step_def)
qed

section \<open>The walk ends, and where\<close>

text \<open>The needs are declared Steps and acyclic, as the declaration check of the loader requires.\<close>

definition acyclic_needs :: "wstep list \<Rightarrow> (string \<Rightarrow> nat) \<Rightarrow> bool" where
  "acyclic_needs steps rank \<longleftrightarrow> (\<forall>s \<in> set steps. \<forall>n \<in> set (ws_needs s).
     n \<in> set (map ws_name steps) \<and> rank n < rank (ws_name s))"

lemma dag_end:
  assumes "distinct (map ws_name steps)" and "acyclic_needs steps rank" and "dag.reach steps res d"
    and "\<not> dg_cancelled d" and "finished steps d"
  shows "\<forall>s \<in> set steps. terminal (state_of (dg_state d) (ws_name s))"
proof -
  let ?m = "state_of (dg_state d)"
  have st: "settled steps (dg_state d)" using reach_justified [OF assms(1,3)] assms(4) by simp
  have "s \<in> set steps \<Longrightarrow> terminal (?m (ws_name s))" for s
  proof (induction "rank (ws_name s)" arbitrary: s rule: less_induct)
    case less
    have "terminal (?m n)" if "n \<in> set (ws_needs s)" for n
    proof -
      from that less.prems assms(2) have "n \<in> set (map ws_name steps)" and lt: "rank n < rank (ws_name s)"
        by (auto simp: acyclic_needs_def)
      then obtain t where "t \<in> set steps" "ws_name t = n" by auto
      with less.hyps [of t] lt show ?thesis by simp
    qed
    then have "ready s ?m" by (simp add: ready_def)
    with st less.prems have "?m (ws_name s) \<noteq> Pending" by (auto simp: settled_def)
    moreover have "?m (ws_name s) \<noteq> Running" using assms(5) less.prems by (simp add: finished_def list_all_iff)
    ultimately show ?case by (simp add: terminal_def)
  qed
  then show ?thesis by blast
qed

text \<open>
  No Step is left behind: when nothing is in flight in an execution that was not cancelled, every Step
  has ended, so the terminal status is taken over the whole DAG; it is failed exactly when some Step failed,
  and otherwise every Step succeeded or was skipped.
\<close>

theorem dag_runs_to_completion:
  assumes "distinct (map ws_name steps)" and "acyclic_needs steps rank" and "dag.reach steps res d"
    and "\<not> dg_cancelled d" and "finished steps d"
  shows "(\<forall>s \<in> set steps. terminal (state_of (dg_state d) (ws_name s))) \<and>
    finish_status steps d = (if \<exists>s \<in> set steps. state_of (dg_state d) (ws_name s) = Failed then RunFailed else RunSucceeded)"
  using dag_end [OF assms] assms(4) by (simp add: finish_status_def list_ex_iff)

definition cc_rank :: "string \<Rightarrow> nat" where
  "cc_rank n = (if n = ''converge'' then 0 else if n = ''notify'' then 2 else 1)"

lemma cc_acyclic: "acyclic_needs converge_cleanup cc_rank"
  by (simp add: acyclic_needs_def converge_cleanup_def blank_step_def cc_rank_def)

text \<open>One step of the walk on a Step in flight, for the witnesses.\<close>

lemma reach_complete:
  assumes "dag.reach steps res d" and "s \<in> set steps" and "ws_name s = n" and "state_of (dg_state d) n = Running"
    and "res n = (v, out)" and "v \<in> {Succeeded, Failed}"
  shows "dag.reach steps res (receive steps n v out d)"
proof -
  have "dag_step steps res d (receive steps (ws_name s) v (snd (res (ws_name s))) d)"
    using assms by (intro dag_step.complete) auto
  from dag.reach.onward [OF assms(1) this] show ?thesis by (simp add: assms(3,5))
qed

definition cc_end :: dag where
  "cc_end = receive converge_cleanup ''notify'' Succeeded ''null'' (receive converge_cleanup ''cleanup'' Succeeded ''null''
     (receive converge_cleanup ''converge'' Failed ''null'' (dag_start converge_cleanup)))"

lemma cc_steps:
  "blank_step ''converge'' [] [] \<in> set converge_cleanup" "blank_step ''cleanup'' [''converge''] ''failure'' \<in> set converge_cleanup"
  "blank_step ''notify'' [''cleanup''] ''always'' \<in> set converge_cleanup"
  by (simp_all add: converge_cleanup_def)

lemma cc_end_reach: "dag.reach converge_cleanup converge_fails cc_end"
proof -
  have r0: "dag.reach converge_cleanup converge_fails (dag_start converge_cleanup)" by (rule dag.reach.start) simp
  have s1: "state_of (dg_state (dag_start converge_cleanup)) ''converge'' = Running" by code_simp
  have r1: "dag.reach converge_cleanup converge_fails (receive converge_cleanup ''converge'' Failed ''null'' (dag_start converge_cleanup))"
    by (rule reach_complete [OF r0 cc_steps(1) _ s1]) (simp_all add: blank_step_def converge_fails_def)
  have s2: "state_of (dg_state (receive converge_cleanup ''converge'' Failed ''null'' (dag_start converge_cleanup))) ''cleanup'' = Running"
    by code_simp
  have r2: "dag.reach converge_cleanup converge_fails (receive converge_cleanup ''cleanup'' Succeeded ''null''
      (receive converge_cleanup ''converge'' Failed ''null'' (dag_start converge_cleanup)))"
    by (rule reach_complete [OF r1 cc_steps(2) _ s2]) (simp_all add: blank_step_def converge_fails_def)
  have s3: "state_of (dg_state (receive converge_cleanup ''cleanup'' Succeeded ''null''
      (receive converge_cleanup ''converge'' Failed ''null'' (dag_start converge_cleanup)))) ''notify'' = Running"
    by code_simp
  show ?thesis unfolding cc_end_def
    by (rule reach_complete [OF r2 cc_steps(3) _ s3]) (simp_all add: blank_step_def converge_fails_def)
qed

lemma dag_runs_to_completion_witness:
  "finish_status converge_cleanup cc_end = RunFailed \<and> state_of (dg_state cc_end) ''verify'' = Skipped"
proof -
  have n: "\<not> dg_cancelled cc_end" and f: "finished converge_cleanup cc_end" by code_simp+
  note cc_steps(1)
  moreover have "state_of (dg_state cc_end) (ws_name (blank_step ''converge'' [] [])) = Failed" by code_simp
  moreover have "state_of (dg_state cc_end) ''verify'' = Skipped" by code_simp
  ultimately show ?thesis
    using dag_runs_to_completion [OF converge_cleanup_names cc_acyclic cc_end_reach n f] by auto
qed

text \<open>A schedule turns only Pending Steps into running or skipped ones.\<close>

definition moves :: "status gomap \<Rightarrow> status gomap \<Rightarrow> bool" where
  "moves m m' \<longleftrightarrow> (\<forall>n. state_of m' n = state_of m n \<or> state_of m n = Pending \<and> state_of m' n \<in> {Running, Skipped})"

lemma moves_trans: "moves a b \<Longrightarrow> moves b c \<Longrightarrow> moves a c"
proof -
  assume ab: "moves a b" and bc: "moves b c"
  show ?thesis unfolding moves_def
  proof
    fix n
    have "state_of b n = state_of a n \<or> state_of a n = Pending \<and> state_of b n \<in> {Running, Skipped}"
      and "state_of c n = state_of b n \<or> state_of b n = Pending \<and> state_of c n \<in> {Running, Skipped}"
      using ab bc by (simp_all add: moves_def)
    then show "state_of c n = state_of a n \<or> state_of a n = Pending \<and> state_of c n \<in> {Running, Skipped}" by auto
  qed
qed

lemma visit_moves: "visit s (ch, m, l) = (ch', m', l') \<Longrightarrow> moves m m'"
  by (auto simp: visit_def moves_def split: if_splits prod.splits bool.splits)

lemma pass_moves: "fold visit steps (ch, m, l) = (ch', m', l') \<Longrightarrow> moves m m'"
proof (induction steps arbitrary: ch m l)
  case (Cons s steps)
  obtain ch1 m1 l1 where v: "visit s (ch, m, l) = (ch1, m1, l1)" by (cases "visit s (ch, m, l)") auto
  with Cons show ?case using visit_moves [OF v] by (auto intro: moves_trans)
qed (simp add: moves_def)

lemma schedule_moves: "schedule steps m l = (m', l') \<Longrightarrow> moves m m'"
proof (induction steps m l rule: schedule.induct)
  case (1 steps m l)
  obtain ch m1 l1 where p: "schedule_pass steps m l = (ch, m1, l1)" by (cases "schedule_pass steps m l") auto
  then have g: "moves m m1" by (auto simp: schedule_pass_def intro: pass_moves)
  show ?case
  proof (cases ch)
    case True
    with 1(2) p have "schedule steps m1 l1 = (m', l')" by (subst (asm) schedule.simps) simp
    from 1(1) [OF p [symmetric] refl True this] g show ?thesis by (blast intro: moves_trans)
  next
    case False
    with 1(2) p have "m' = m1" by (subst (asm) schedule.simps) simp
    with g show ?thesis by simp
  qed
qed

lemma schedule_dag_moves: "moves (dg_state d) (dg_state (schedule_dag steps d))"
proof (cases "schedule steps (dg_state d) []")
  case (Pair m' l')
  with schedule_moves [OF Pair] show ?thesis by (simp add: schedule_dag_def moves_def)
qed

text \<open>In an execution that was not cancelled an ended Step shows the result it reported.\<close>

definition reported :: "wstep list \<Rightarrow> (string \<Rightarrow> status \<times> string) \<Rightarrow> dag \<Rightarrow> bool" where
  "reported steps res d \<longleftrightarrow> (\<not> dg_cancelled d \<longrightarrow> (\<forall>n. state_of (dg_state d) n \<notin> {Pending, Running, Skipped} \<longrightarrow>
     state_of (dg_state d) n = fst (res n)))"

lemma schedule_reported: "reported steps res d \<Longrightarrow> reported steps res (schedule_dag steps d)"
  using schedule_dag_moves [of d steps] by (auto simp: reported_def moves_def) metis

lemma reach_reported: "dag.reach steps res d \<Longrightarrow> reported steps res d"
proof (rule dag.invariant)
  fix d :: dag
  assume "d = dag_start steps"
  moreover have "reported steps res \<lparr>dg_state = initial_state steps, dg_outputs = [], dg_cancelled = False\<rparr>"
    by (simp add: reported_def initial_pending)
  ultimately show "reported steps res d" unfolding dag_start_def by (simp add: schedule_reported)
next
  fix d d' :: dag
  assume I: "reported steps res d" and "dag_step steps res d d'"
  from this(2) show "reported steps res d'"
  proof cases
    case (complete s v)
    with I show ?thesis unfolding complete(1) receive_def
      by (intro schedule_reported) (auto simp: reported_def)
  next
    case cancelled
    with I show ?thesis by (simp add: cancel_def reported_def)
  qed
qed

lemma ended_state:
  assumes "distinct (map ws_name steps)" and "acyclic_needs steps rank"
    and "dag.reach steps res d" and "\<not> dg_cancelled d" and "finished steps d" and "s \<in> set steps"
  shows "state_of (dg_state d) (ws_name s) =
    (if met s (state_of (dg_state d)) then fst (res (ws_name s)) else Skipped)"
proof -
  have t: "terminal (state_of (dg_state d) (ws_name s))"
    using dag_end [OF assms(1-5)] assms(6) by blast
  have "justified steps (dg_state d)" using reach_justified [OF assms(1,3)] by simp
  with assms(6) have j: "state_of (dg_state d) (ws_name s) \<notin> {Pending, Skipped} \<longrightarrow> met s (state_of (dg_state d))"
    "state_of (dg_state d) (ws_name s) = Skipped \<longrightarrow> \<not> met s (state_of (dg_state d))"
    by (auto simp: justified_def)
  have r: "state_of (dg_state d) (ws_name s) \<notin> {Pending, Running, Skipped} \<longrightarrow>
      state_of (dg_state d) (ws_name s) = fst (res (ws_name s))"
    using reach_reported [OF assms(3)] assms(4) by (simp add: reported_def)
  show ?thesis using t j r by (cases "state_of (dg_state d) (ws_name s)") (auto simp: terminal_def)
qed

text \<open>
  The walk is deterministic in the results: two executions of one DAG that were not cancelled and have
  ended agree on every Step, whatever the order in which the Steps reported, when each Step reports the same
  result in both.
\<close>

theorem dag_confluent:
  assumes "distinct (map ws_name steps)" and "acyclic_needs steps rank"
    and "dag.reach steps res d" and "\<not> dg_cancelled d" and "finished steps d"
    and "dag.reach steps res d'" and "\<not> dg_cancelled d'" and "finished steps d'"
  shows "(\<forall>s \<in> set steps. state_of (dg_state d) (ws_name s) = state_of (dg_state d') (ws_name s)) \<and>
    finish_status steps d = finish_status steps d'"
proof -
  let ?m = "state_of (dg_state d)" and ?m' = "state_of (dg_state d')"
  note e = ended_state [OF assms(1-5)] and e' = ended_state [OF assms(1,2,6-8)]
  have "s \<in> set steps \<Longrightarrow> ?m (ws_name s) = ?m' (ws_name s)" for s
  proof (induction "rank (ws_name s)" arbitrary: s rule: less_induct)
    case less
    have "?m n = ?m' n" if "n \<in> set (ws_needs s)" for n
    proof -
      from that less.prems assms(2) have "n \<in> set (map ws_name steps)" and lt: "rank n < rank (ws_name s)"
        by (auto simp: acyclic_needs_def)
      then obtain t where "t \<in> set steps" "ws_name t = n" by auto
      with less.hyps [of t] lt show ?thesis by simp
    qed
    then have "met s ?m = met s ?m'" by (auto simp: met_def)
    with e [OF less.prems] e' [OF less.prems] show ?case by simp
  qed
  then have all: "\<forall>s \<in> set steps. ?m (ws_name s) = ?m' (ws_name s)" by blast
  then have "list_ex (\<lambda>s. ?m (ws_name s) = Failed) steps = list_ex (\<lambda>s. ?m' (ws_name s) = Failed) steps"
    by (auto simp: list_ex_iff)
  with all assms(4,7) show ?thesis by (simp add: finish_status_def)
qed

lemma dag_confluent_witness:
  "finish_status converge_cleanup cc_end = finish_status converge_cleanup cc_end"
proof -
  have n: "\<not> dg_cancelled cc_end" and f: "finished converge_cleanup cc_end" by code_simp+
  show ?thesis
    using dag_confluent [OF converge_cleanup_names cc_acyclic cc_end_reach n f cc_end_reach n f] by blast
qed

definition weight :: "status \<Rightarrow> nat" where
  "weight v = (case v of Pending \<Rightarrow> 2 | Running \<Rightarrow> 1 | _ \<Rightarrow> 0)"

definition work_left :: "wstep list \<Rightarrow> dag \<Rightarrow> nat" where
  "work_left steps d = sum_list (map (\<lambda>s. weight (state_of (dg_state d) (ws_name s))) steps) + (if dg_cancelled d then 0 else 1)"

lemma weight_mono: "moves m m' \<Longrightarrow> weight (state_of m' n) \<le> weight (state_of m n)"
proof -
  assume "moves m m'"
  then have "state_of m' n = state_of m n \<or> state_of m n = Pending \<and> state_of m' n \<in> {Running, Skipped}"
    by (simp add: moves_def)
  then show ?thesis by (auto simp: weight_def)
qed

lemma work_schedule: "work_left steps (schedule_dag steps d) \<le> work_left steps d"
  by (auto simp: work_left_def intro!: sum_list_mono weight_mono [OF schedule_dag_moves])

lemma sum_list_less:
  fixes f g :: "'a \<Rightarrow> nat"
  shows "(\<And>x. x \<in> set xs \<Longrightarrow> f x \<le> g x) \<Longrightarrow> y \<in> set xs \<Longrightarrow> f y < g y \<Longrightarrow> sum_list (map f xs) < sum_list (map g xs)"
proof (induction xs)
  case (Cons x xs)
  have le: "sum_list (map f xs) \<le> sum_list (map g xs)" by (rule sum_list_mono) (use Cons.prems in auto)
  show ?case
  proof (cases "y = x")
    case True
    with Cons.prems le show ?thesis by (simp add: add_less_le_mono)
  next
    case False
    with Cons have "sum_list (map f xs) < sum_list (map g xs)" by simp
    with Cons.prems(1) [of x] show ?thesis by (simp add: add_le_less_mono)
  qed
qed simp

lemma work_step: "dag_step steps res d d' \<Longrightarrow> work_left steps d' < work_left steps d"
proof (induction rule: dag_step.cases)
  case (complete s d v)
  let ?e = "d\<lparr>dg_state := aput (ws_name s) v (dg_state d),
        dg_outputs := (if has_outputs (snd (res (ws_name s))) then aput (ws_name s) (snd (res (ws_name s))) (dg_outputs d) else dg_outputs d)\<rparr>"
  have v: "weight v = 0" using complete(6) by (auto simp: weight_def)
  have "sum_list (map (\<lambda>t. weight (state_of (dg_state ?e) (ws_name t))) steps)
      < sum_list (map (\<lambda>t. weight (state_of (dg_state d) (ws_name t))) steps)"
    by (rule sum_list_less [OF _ complete(3)]) (use v complete(4) in \<open>auto simp: weight_def\<close>)
  then have "work_left steps ?e < work_left steps d" by (simp add: work_left_def)
  moreover have "work_left steps (receive steps (ws_name s) v (snd (res (ws_name s))) d) \<le> work_left steps ?e"
    unfolding receive_def by (rule work_schedule)
  ultimately show ?case unfolding complete(1,2) by simp
next
  case (cancelled d)
  then show ?case by (simp add: work_left_def cancel_def)
qed

text \<open>
  C36. Every execution is finite: from any state at most two events per Step not yet started, one per Step in
  flight and one cancellation can follow, so the receive loop always ends.
\<close>

theorem dag_terminates:
  assumes "\<And>i. i < n \<Longrightarrow> dag_step steps res (f i) (f (Suc i))"
  shows "n \<le> work_left steps (f 0) \<and> work_left steps (f 0) \<le> 2 * length steps + 1"
proof
  show "n \<le> work_left steps (f 0)" by (rule dag.steps_bounded [where m = "work_left steps" and f = f, OF assms work_step])
  have "sum_list (map (\<lambda>s. weight (state_of (dg_state (f 0)) (ws_name s))) xs) \<le> 2 * length xs" for xs
    by (induction xs) (auto simp: weight_def split: status.split)
  from this [of steps] show "work_left steps (f 0) \<le> 2 * length steps + 1" by (auto simp: work_left_def)
qed

lemma dag_terminates_witness:
  "dag_step converge_cleanup converge_fails (dag_start converge_cleanup) (cancel (dag_start converge_cleanup)) \<and>
   work_left converge_cleanup (dag_start converge_cleanup) \<ge> 1"
proof
  have "\<not> dg_cancelled (dag_start converge_cleanup)" by code_simp
  then show s: "dag_step converge_cleanup converge_fails (dag_start converge_cleanup) (cancel (dag_start converge_cleanup))"
    by (rule dag_step.cancelled)
  show "work_left converge_cleanup (dag_start converge_cleanup) \<ge> 1"
    using dag_terminates [of 1 converge_cleanup converge_fails
      "\<lambda>i. if i = 0 then dag_start converge_cleanup else cancel (dag_start converge_cleanup)"] s by simp
qed

text \<open>
  After a cancellation nothing new starts and the record says so: a Step that had not started stays
  pending, one that had ended keeps its status, and the execution ends canceled whatever its Steps report.
\<close>

theorem cancelled_dag_starts_nothing:
  assumes "dg_cancelled d" and "(dag_step steps res)\<^sup>*\<^sup>* d d'"
  shows "dg_cancelled d' \<and> finish_status steps d' = RunCanceled \<and>
    (\<forall>n. state_of (dg_state d) n \<noteq> Running \<longrightarrow> state_of (dg_state d') n = state_of (dg_state d) n)"
proof -
  from assms(2,1) have "dg_cancelled d' \<and> (\<forall>n. state_of (dg_state d) n \<noteq> Running \<longrightarrow> state_of (dg_state d') n = state_of (dg_state d) n)"
  proof (induction rule: rtranclp_induct)
    case (step y z)
    from step(2) show ?case
    proof cases
      case (complete s v)
      with step.IH step.prems show ?thesis by (auto simp: receive_def schedule_dag_def)
    next
      case cancelled
      with step.IH step.prems show ?thesis by simp
    qed
  qed simp
  then show ?thesis by (simp add: finish_status_def)
qed

lemma cancelled_dag_starts_nothing_witness:
  "state_of (dg_state (cancel (dag_start converge_cleanup))) ''verify'' = Pending \<and>
   finish_status converge_cleanup (cancel (dag_start converge_cleanup)) = RunCanceled"
proof -
  have "dg_cancelled (cancel (dag_start converge_cleanup))" by code_simp
  from cancelled_dag_starts_nothing [where steps = converge_cleanup and res = converge_fails, OF this rtranclp.rtrancl_refl]
  have "finish_status converge_cleanup (cancel (dag_start converge_cleanup)) = RunCanceled" by blast
  moreover have "state_of (dg_state (cancel (dag_start converge_cleanup))) ''verify'' = Pending" by code_simp
  ultimately show ?thesis by simp
qed

text \<open>
  A Step that names a capability class and no concrete Action or Workflow is dispatched as an actuation,
  while the authorization door does not take it for one when it names an Action class.
\<close>

lemma class_step_dispatch:
  "dispatch ((blank_step ''ipam'' [] [])\<lparr>ws_actuator := [], ws_action_capability := ''ipam''\<rparr>) = ActuationShape \<and>
   \<not> is_actuation ((blank_step ''ipam'' [] [])\<lparr>ws_actuator := [], ws_action_capability := ''ipam''\<rparr>) \<and>
   dispatch ((blank_step ''build'' [] [])\<lparr>ws_actuator := [], ws_workflow_capability := ''provisioning''\<rparr>) = ActuationShape"
  by code_simp

end
