(* ===== verification/Gate.thy ===== *)
theory Gate
  imports Dag
begin

text \<open>
  The human Gate of \<open>core/internal/orchestrate/workflow.go\<close>: \<open>awaitGate\<close> as a loop over the events its
  selector can see (a decision signal, the timer, the cancellation of the execution), and the sweep of the
  pending Gates of a cancelled execution.  A loop that has consumed its events and still waits is a value
  of the result, so the theorem says exactly which event sequences approve.
\<close>

datatype gate_event =
    Decision bool string string  \<comment> \<open>approved, principal, note\<close>
  | TimerFired
  | CancelRequested

record gate_state =
  gt_approved_by :: "string list"
  gt_denied :: bool
  gt_timed_out :: bool
  gt_last :: string
  gt_note :: string
  gt_cancelled :: bool

definition gate_init :: gate_state where
  "gate_init = \<lparr>gt_approved_by = [], gt_denied = False, gt_timed_out = False, gt_last = [], gt_note = [], gt_cancelled = False\<rparr>"

definition add_approver :: "string \<Rightarrow> string list \<Rightarrow> string list" where
  "add_approver p ps = (if p \<in> set ps then ps else ps @ [p])"

text \<open>One \<open>Select\<close>: the branch of the event runs; without a timer its branch does not exist.\<close>

definition gate_select :: "bool \<Rightarrow> gate_event \<Rightarrow> gate_state \<Rightarrow> gate_state" where
  "gate_select timer ev st =
     (case ev of
        Decision approved p note \<Rightarrow>
          (if approved then st\<lparr>gt_approved_by := add_approver p (gt_approved_by st), gt_last := p, gt_note := note\<rparr>
           else st\<lparr>gt_denied := True, gt_last := p, gt_note := note\<rparr>)
      | TimerFired \<Rightarrow> if timer then st\<lparr>gt_timed_out := True\<rparr> else st
      | CancelRequested \<Rightarrow> st\<lparr>gt_cancelled := True\<rparr>)"

definition gate_open :: "int \<Rightarrow> gate_state \<Rightarrow> bool" where
  "gate_open threshold st \<longleftrightarrow> int (length (gt_approved_by st)) < threshold \<and> \<not> gt_denied st \<and> \<not> gt_timed_out st"

fun gate_loop :: "int \<Rightarrow> bool \<Rightarrow> gate_event list \<Rightarrow> gate_state \<Rightarrow> gate_state option" where
  "gate_loop threshold timer evs st =
     (if \<not> gate_open threshold st \<or> gt_cancelled st then Some st
      else case evs of
          [] \<Rightarrow> None
        | ev # rest \<Rightarrow> gate_loop threshold timer rest (gate_select timer ev st))"

declare gate_loop.simps [simp del]

datatype gate_verdict =
    StillWaiting
  | CancelledUnrecorded
  | Recorded string string string  \<comment> \<open>status, decided by, note\<close>

definition gate_result :: "int \<Rightarrow> gate_state option \<Rightarrow> gate_verdict" where
  "gate_result threshold st =
     (case st of
        None \<Rightarrow> StillWaiting
      | Some g \<Rightarrow>
          if gt_cancelled g then CancelledUnrecorded
          else Recorded (if gt_denied g then ''denied''
                         else if int (length (gt_approved_by g)) \<ge> threshold then ''approved'' else ''expired'')
                 (gt_last g) (gt_note g))"

definition effective_threshold :: "int \<Rightarrow> int" where
  "effective_threshold threshold = (if threshold < 1 then 1 else threshold)"

definition run_gate :: "int \<Rightarrow> int \<Rightarrow> gate_event list \<Rightarrow> gate_verdict" where
  "run_gate timeout_seconds threshold evs =
     gate_result (effective_threshold threshold)
       (gate_loop (effective_threshold threshold) (timeout_seconds > 0) evs gate_init)"

text \<open>
  \<open>awaitGate\<close>: \<open>created\<close> and \<open>recorded\<close> say whether the two activities that write the Gate record succeed.
  \<open>None\<close> is the Step that still waits.
\<close>

definition await_gate :: "bool \<Rightarrow> bool \<Rightarrow> int \<Rightarrow> int \<Rightarrow> gate_event list \<Rightarrow> status option" where
  "await_gate created recorded timeout_seconds threshold evs =
     (if \<not> created then Some Failed
      else case run_gate timeout_seconds threshold evs of
          StillWaiting \<Rightarrow> None
        | CancelledUnrecorded \<Rightarrow> Some Failed
        | Recorded gs by' note \<Rightarrow>
            if \<not> recorded then Some Failed
            else if gs = ''approved'' then Some Succeeded else Some Failed)"

section \<open>When a Gate approves\<close>

text \<open>The distinct principals that approved in a sequence of events, and an event that lets it go on.\<close>

definition approvers_in :: "gate_event list \<Rightarrow> string set" where
  "approvers_in evs = {p. \<exists>note. Decision True p note \<in> set evs}"

definition harmless :: "bool \<Rightarrow> gate_event \<Rightarrow> bool" where
  "harmless timer ev \<longleftrightarrow> (case ev of Decision approved p note \<Rightarrow> approved | TimerFired \<Rightarrow> \<not> timer | CancelRequested \<Rightarrow> False)"

definition gate_ok :: "gate_state \<Rightarrow> bool" where
  "gate_ok st \<longleftrightarrow> distinct (gt_approved_by st) \<and> \<not> gt_denied st \<and> \<not> gt_timed_out st \<and> \<not> gt_cancelled st"

lemma approvers_simps [simp]:
  "approvers_in [] = {}" "approvers_in (Decision True p note # evs) = insert p (approvers_in evs)"
  "approvers_in (Decision False p note # evs) = approvers_in evs"
  "approvers_in (TimerFired # evs) = approvers_in evs" "approvers_in (CancelRequested # evs) = approvers_in evs"
  by (auto simp: approvers_in_def)

lemma finite_approvers [simp]: "finite (approvers_in evs)"
proof (induction evs)
  case (Cons e evs)
  then show ?case by (cases e; cases "case e of Decision a _ _ \<Rightarrow> a | _ \<Rightarrow> False") (auto split: gate_event.splits)
qed simp

lemma select_ok:
  assumes "gate_ok st" and "harmless timer ev"
  shows "gate_ok (gate_select timer ev st)"
    and "set (gt_approved_by (gate_select timer ev st)) \<union> approvers_in evs = set (gt_approved_by st) \<union> approvers_in (ev # evs)"
  using assms by (cases ev; auto simp: gate_ok_def harmless_def gate_select_def add_approver_def)+

lemma select_harmful:
  assumes "gate_ok st" and "\<not> harmless timer ev"
  shows "gt_denied (gate_select timer ev st) \<or> gt_cancelled (gate_select timer ev st) \<or>
    gt_timed_out (gate_select timer ev st)" and "gt_approved_by (gate_select timer ev st) = gt_approved_by st"
  using assms by (cases ev; auto simp: gate_ok_def harmless_def gate_select_def)+

definition approves :: "int \<Rightarrow> gate_state option \<Rightarrow> bool" where
  "approves threshold st \<longleftrightarrow> (\<exists>g. st = Some g \<and> \<not> gt_cancelled g \<and> \<not> gt_denied g \<and> int (length (gt_approved_by g)) \<ge> threshold)"

lemma gate_loop_approves:
  "gate_ok st \<Longrightarrow> approves threshold (gate_loop threshold timer evs st) \<longleftrightarrow>
     (\<exists>k \<le> length evs. (\<forall>ev \<in> set (take k evs). harmless timer ev) \<and>
        int (card (set (gt_approved_by st) \<union> approvers_in (take k evs))) \<ge> threshold)"
proof (induction evs arbitrary: st)
  case Nil
  then have "card (set (gt_approved_by st)) = length (gt_approved_by st)" by (simp add: gate_ok_def distinct_card)
  with Nil show ?case by (auto simp: gate_loop.simps approves_def gate_open_def gate_ok_def)
next
  case (Cons ev evs)
  have card0: "card (set (gt_approved_by st)) = length (gt_approved_by st)"
    using Cons.prems by (simp add: gate_ok_def distinct_card)
  show ?case
  proof (cases "gate_open threshold st")
    case False
    then have thr: "int (length (gt_approved_by st)) \<ge> threshold" using Cons.prems by (auto simp: gate_open_def gate_ok_def)
    have "approves threshold (gate_loop threshold timer (ev # evs) st)"
      using False Cons.prems thr by (subst gate_loop.simps) (simp add: approves_def gate_ok_def)
    moreover have "\<exists>k \<le> length (ev # evs). (\<forall>e \<in> set (take k (ev # evs)). harmless timer e) \<and>
        int (card (set (gt_approved_by st) \<union> approvers_in (take k (ev # evs)))) \<ge> threshold"
      by (rule exI [of _ 0]) (simp add: card0 thr)
    ultimately show ?thesis by blast
  next
    case True
    then have step: "gate_loop threshold timer (ev # evs) st = gate_loop threshold timer evs (gate_select timer ev st)"
      using Cons.prems by (subst gate_loop.simps) (simp add: gate_ok_def)
    have less: "int (length (gt_approved_by st)) < threshold" using True by (simp add: gate_open_def)
    show ?thesis
    proof (cases "harmless timer ev")
      case h: True
      note s = select_ok [OF Cons.prems h]
      have "approves threshold (gate_loop threshold timer (ev # evs) st) \<longleftrightarrow>
        (\<exists>k \<le> length evs. (\<forall>e \<in> set (take k evs). harmless timer e) \<and>
          int (card (set (gt_approved_by st) \<union> approvers_in (ev # take k evs))) \<ge> threshold)"
        unfolding step Cons.IH [OF s(1)] s(2) ..
      also have "\<dots> \<longleftrightarrow> (\<exists>k \<le> length (ev # evs). (\<forall>e \<in> set (take k (ev # evs)). harmless timer e) \<and>
          int (card (set (gt_approved_by st) \<union> approvers_in (take k (ev # evs)))) \<ge> threshold)" (is "?L \<longleftrightarrow> ?R")
      proof
        assume ?L
        then obtain k where "k \<le> length evs" "\<forall>e \<in> set (take k evs). harmless timer e"
          "int (card (set (gt_approved_by st) \<union> approvers_in (ev # take k evs))) \<ge> threshold" by blast
        then show ?R using h by (intro exI [of _ "Suc k"]) simp
      next
        assume ?R
        then obtain k where k: "k \<le> length (ev # evs)" "\<forall>e \<in> set (take k (ev # evs)). harmless timer e"
          "int (card (set (gt_approved_by st) \<union> approvers_in (take k (ev # evs)))) \<ge> threshold" by blast
        with less card0 have "k \<noteq> 0" by (cases k) auto
        then obtain j where "k = Suc j" by (cases k) auto
        with k show ?L by (intro exI [of _ j]) simp
      qed
      finally show ?thesis .
    next
      case h: False
      note s = select_harmful [OF Cons.prems h]
      have "gate_loop threshold timer evs (gate_select timer ev st) = Some (gate_select timer ev st)"
        using s(1) by (subst gate_loop.simps) (auto simp: gate_open_def)
      then have "\<not> approves threshold (gate_loop threshold timer (ev # evs) st)"
        using s(2) less unfolding step by (simp add: approves_def)
      moreover have "\<not> (\<exists>k \<le> length (ev # evs). (\<forall>e \<in> set (take k (ev # evs)). harmless timer e) \<and>
          int (card (set (gt_approved_by st) \<union> approvers_in (take k (ev # evs)))) \<ge> threshold)"
      proof
        assume "\<exists>k \<le> length (ev # evs). (\<forall>e \<in> set (take k (ev # evs)). harmless timer e) \<and>
          int (card (set (gt_approved_by st) \<union> approvers_in (take k (ev # evs)))) \<ge> threshold"
        then obtain k where k: "\<forall>e \<in> set (take k (ev # evs)). harmless timer e"
          "int (card (set (gt_approved_by st) \<union> approvers_in (take k (ev # evs)))) \<ge> threshold" by blast
        with h have "k = 0" by (cases k) auto
        with k(2) less card0 show False by simp
      qed
      ultimately show ?thesis by blast
    qed
  qed
qed

lemma gate_quorum:
  "await_gate created recorded timeout_seconds threshold evs = Some Succeeded \<longleftrightarrow>
     created \<and> recorded \<and>
     (\<exists>k \<le> length evs. (\<forall>ev \<in> set (take k evs). harmless (timeout_seconds > 0) ev) \<and>
        int (card (approvers_in (take k evs))) \<ge> max 1 threshold)"
proof -
  let ?thr = "effective_threshold threshold" and ?timer = "timeout_seconds > 0"
  have ok: "gate_ok gate_init" by (simp add: gate_ok_def gate_init_def)
  have thr: "?thr = max 1 threshold" by (simp add: effective_threshold_def)
  have "await_gate created recorded timeout_seconds threshold evs = Some Succeeded \<longleftrightarrow>
      created \<and> recorded \<and> approves ?thr (gate_loop ?thr ?timer evs gate_init)"
    by (cases "gate_loop ?thr ?timer evs gate_init")
      (auto simp: await_gate_def run_gate_def gate_result_def approves_def)
  also have "\<dots> \<longleftrightarrow> created \<and> recorded \<and> (\<exists>k \<le> length evs. (\<forall>ev \<in> set (take k evs). harmless ?timer ev) \<and>
        int (card (approvers_in (take k evs))) \<ge> max 1 threshold)"
    unfolding gate_loop_approves [OF ok] thr by (simp add: gate_init_def)
  finally show ?thesis .
qed

text \<open>
  C11. A Gate Step succeeds exactly when, before any denial, timeout or cancellation, the quorum of distinct
  principals has approved (at least one), and both Gate records could be written: one principal approving
  again counts once, and nothing that arrives after the quorum or after a denial changes the answer.
\<close>

theorem gate_succeeds_iff:
  "await_gate created recorded timeout_seconds threshold evs = Some Succeeded \<longleftrightarrow>
     created \<and> recorded \<and>
     (\<exists>k \<le> length evs. (\<forall>ev \<in> set (take k evs). harmless (timeout_seconds > 0) ev) \<and>
        int (card (approvers_in (take k evs))) \<ge> max 1 threshold)"
  by (rule gate_quorum)

lemma gate_succeeds_iff_witness:
  "await_gate True True 60 2 [Decision True ''ann'' [], Decision True ''ann'' [], Decision False ''eve'' [], Decision True ''bob'' []]
     \<noteq> Some Succeeded \<and>
   await_gate True True 60 2 [Decision True ''ann'' [], Decision True ''bob'' [], Decision False ''eve'' []] = Some Succeeded"
proof
  show "await_gate True True 60 2 [Decision True ''ann'' [], Decision True ''ann'' [], Decision False ''eve'' [], Decision True ''bob'' []]
     \<noteq> Some Succeeded" by code_simp
  show "await_gate True True 60 2 [Decision True ''ann'' [], Decision True ''bob'' [], Decision False ''eve'' []] = Some Succeeded"
    unfolding gate_succeeds_iff by (intro conjI exI [of _ 2]) (simp_all add: harmless_def)
qed

lemma gate_quorum_example:
  "await_gate True True 60 2 [Decision True ''ann'' [], Decision True ''ann'' [], Decision True ''bob'' [], Decision False ''eve'' []]
     = Some Succeeded \<and>
   await_gate True True 60 2 [Decision True ''ann'' [], Decision True ''ann'' [], TimerFired, Decision True ''bob'' []] = Some Failed \<and>
   await_gate True True 0 2 [Decision True ''ann'' [], Decision True ''ann'' [], TimerFired] = None"
  by code_simp

section \<open>The sweep of a cancelled execution\<close>

record gate_row =
  gr_id :: string
  gr_status :: string
  gr_decided_by :: string

text \<open>\<open>DecideGate\<close> of the store is a parameter that may refuse; the sweep stops at its first error.\<close>

definition cancel_pending_gates :: "(gate_row \<Rightarrow> bool) \<Rightarrow> gate_row list \<Rightarrow> bool \<times> gate_row list" where
  "cancel_pending_gates decide rows =
     fold (\<lambda>g acc. case acc of (ok, out) \<Rightarrow>
        if \<not> ok \<or> gr_status g \<noteq> ''pending'' then (ok, out @ [g])
        else if decide g then (True, out @ [g\<lparr>gr_status := ''canceled'', gr_decided_by := []\<rparr>])
        else (False, out @ [g])) rows (True, [])"

lemma sweep_all:
  "\<forall>g \<in> set rows. decide g \<Longrightarrow>
     fold (\<lambda>g acc. case acc of (ok, out) \<Rightarrow>
        if \<not> ok \<or> gr_status g \<noteq> ''pending'' then (ok, out @ [g])
        else if decide g then (True, out @ [g\<lparr>gr_status := ''canceled'', gr_decided_by := []\<rparr>])
        else (False, out @ [g])) rows (True, acc)
     = (True, acc @ map (\<lambda>g. if gr_status g = ''pending'' then g\<lparr>gr_status := ''canceled'', gr_decided_by := []\<rparr> else g) rows)"
  by (induction rows arbitrary: acc) auto

lemma sweep_leaves_none_pending:
  assumes "\<forall>g \<in> set rows. decide g"
  shows "fst (cancel_pending_gates decide rows) \<and>
    (\<forall>g \<in> set (snd (cancel_pending_gates decide rows)). gr_status g \<noteq> ''pending'') \<and>
    (\<forall>g \<in> set rows. gr_status g \<noteq> ''pending'' \<longrightarrow> g \<in> set (snd (cancel_pending_gates decide rows)))"
  unfolding cancel_pending_gates_def sweep_all [OF assms] by force

end
