(* ===== verification/Runners.thy ===== *)
theory Runners
  imports Gate Template
begin

text \<open>
  What the goroutine of a Step does: the five runners of \<open>core/internal/orchestrate/workflow.go\<close>
  (actuation, Action, nested Workflow, Gate, policy checkpoint), the policy Step of
  \<open>core/internal/orchestrate/policystep.go\<close> and the admission of the change context.  Activities and child
  workflows that reach another process are parameters of the record \<open>acts\<close>: what a contract check, a plan,
  a child Run or a capability lookup answers (\<open>None\<close> is an error).
\<close>

section \<open>Inputs\<close>

record resolved_capability =
  rc_capability :: string
  rc_for_kind :: string
  rc_provider :: string
  rc_workflow :: string

record dag_input =
  di_workflow_run_id :: string
  di_workflow_name :: string
  di_principal :: string
  di_trigger :: string
  di_event :: jmap
  di_launch_params :: jmap
  di_view_name :: string
  di_entity_scope :: string
  di_environment :: string
  di_context :: jmap
  di_parent_workflow_run_id :: string
  di_parent_step_name :: string
  di_image :: string
  di_credential_refs :: "string list"
  di_resolved_capability :: resolved_capability

record run_input =
  ri_view_name :: string
  ri_actuator :: string
  ri_action :: string
  ri_action_capability :: string
  ri_dry_run :: bool
  ri_params :: string
  ri_capability_args :: "jmap gomap"
  ri_slices :: int
  ri_credential_refs :: "string list"
  ri_principal :: string
  ri_workflow_run_id :: string
  ri_step_name :: string
  ri_plan :: bool
  ri_plan_from :: string
  ri_plan_digest :: string
  ri_facet_write_scope :: "string list"
  ri_entity_scope :: string
  ri_image :: string
  ri_group_by :: "group_key list"

record acts =
  actuator_params :: "string \<Rightarrow> jmap \<Rightarrow> namespaces \<Rightarrow> string option"
  action_params :: "string \<Rightarrow> jmap \<Rightarrow> namespaces \<Rightarrow> string option"
  capability_params :: "string \<Rightarrow> jmap \<Rightarrow> namespaces \<Rightarrow> string option"
  capability_action :: "string \<Rightarrow> string option"
  build_workflow :: "string \<Rightarrow> string \<Rightarrow> (string \<times> string) option"
  plan_step :: "run_input \<Rightarrow> string option"
  run_against_view :: "run_input \<Rightarrow> string option"
  run_action :: "run_input \<Rightarrow> string option"
  run_nested :: "dag_input \<Rightarrow> bool"
  decode :: "string \<Rightarrow> json option"
  encode :: "json \<Rightarrow> string"
  print_float :: "rat \<Rightarrow> string"

definition no_capability :: resolved_capability where
  "no_capability = \<lparr>rc_capability = [], rc_for_kind = [], rc_provider = [], rc_workflow = []\<rparr>"

definition empty_run :: run_input where
  "empty_run = \<lparr>ri_view_name = [], ri_actuator = [], ri_action = [], ri_action_capability = [], ri_dry_run = False,
     ri_params = [], ri_capability_args = [], ri_slices = 0, ri_credential_refs = [], ri_principal = [],
     ri_workflow_run_id = [], ri_step_name = [], ri_plan = False, ri_plan_from = [], ri_plan_digest = [],
     ri_facet_write_scope = [], ri_entity_scope = [], ri_image = [], ri_group_by = []\<rparr>"

definition child_run_id :: "string \<Rightarrow> string \<Rightarrow> string" where
  "child_run_id run step = ''wfrun-'' @ run @ ''-'' @ step"

definition child_workflow_run_id :: "string \<Rightarrow> string \<Rightarrow> string" where
  "child_workflow_run_id run step = ''wfnest-'' @ run @ ''-'' @ step"

definition gate_signal_name :: "string \<Rightarrow> string" where
  "gate_signal_name step = ''gate:'' @ step"

section \<open>Bindings of a Step\<close>

definition steps_namespace :: "(string \<Rightarrow> json option) \<Rightarrow> string gomap \<Rightarrow> jmap" where
  "steps_namespace dec steps = List.map_filter
     (\<lambda>(name, raw). map_option (\<lambda>out. (name, JObj [(''outputs'', out)])) (dec raw)) steps"

definition step_namespaces :: "acts \<Rightarrow> dag_input \<Rightarrow> string gomap \<Rightarrow> namespaces" where
  "step_namespaces a i steps =
     [(''event'', di_event i), (''steps'', steps_namespace (decode a) steps), (''launch'', di_launch_params i)]"

definition resolve_step_params :: "acts \<Rightarrow> string \<Rightarrow> jmap \<Rightarrow> namespaces \<Rightarrow> string option" where
  "resolve_step_params a actuator params ns = (if actuator = [] then None else actuator_params a actuator params ns)"

definition resolve_action_step_params :: "acts \<Rightarrow> string \<Rightarrow> string \<Rightarrow> jmap \<Rightarrow> namespaces \<Rightarrow> string option" where
  "resolve_action_step_params a action cap params ns =
     (if cap \<noteq> [] then capability_params a cap params ns else action_params a action params ns)"

definition resolve_nested_inputs :: "acts \<Rightarrow> jmap \<Rightarrow> namespaces \<Rightarrow> jmap option" where
  "resolve_nested_inputs a inputs ns =
     (if inputs = [] then Some []
      else case substitute_params (print_float a) (Some inputs) ns of
          Inl e \<Rightarrow> None
        | Inr None \<Rightarrow> Some []
        | Inr (Some m) \<Rightarrow> Some m)"

definition resolve_capability_args :: "acts \<Rightarrow> jmap gomap \<Rightarrow> namespaces \<Rightarrow> jmap gomap option" where
  "resolve_capability_args a args ns =
     (case map_err (\<lambda>(cls, req). case substitute_params (print_float a) (Some req) ns of
          Inl e \<Rightarrow> Inl e
        | Inr None \<Rightarrow> Inr (cls, [])
        | Inr (Some m) \<Rightarrow> Inr (cls, m)) args of
        Inl e \<Rightarrow> None
      | Inr out \<Rightarrow> Some out)"

text \<open>\<open>digestFromStep\<close>: a decoding error or another shape leaves the empty digest.\<close>

definition digest_from_step :: "acts \<Rightarrow> string gomap \<Rightarrow> string \<Rightarrow> string" where
  "digest_from_step a steps plan_step_name =
     (case map_of steps plan_step_name of
        None \<Rightarrow> []
      | Some raw \<Rightarrow> (case decode a raw of
            Some (JObj m) \<Rightarrow> (case map_of m ''planDigest'' of Some (JStr s) \<Rightarrow> s | _ \<Rightarrow> [])
          | _ \<Rightarrow> []))"

definition narrow_credential_refs :: "string list \<Rightarrow> string list \<Rightarrow> string list" where
  "narrow_credential_refs declared selected =
     (if selected = [] then declared else filter (\<lambda>r. r \<in> set selected) declared)"

section \<open>The runners\<close>

definition apply_input :: "dag_input \<Rightarrow> wstep \<Rightarrow> string \<Rightarrow> string \<Rightarrow> run_input" where
  "apply_input i s params digest = empty_run\<lparr>
     ri_view_name := (if ws_view_name s = [] then di_view_name i else ws_view_name s),
     ri_actuator := ws_actuator s, ri_params := params, ri_slices := ws_slices s,
     ri_credential_refs := narrow_credential_refs (ws_credential_refs s) (di_credential_refs i),
     ri_principal := di_principal i, ri_workflow_run_id := di_workflow_run_id i, ri_step_name := ws_name s,
     ri_plan_from := ws_plan_from s, ri_plan_digest := digest,
     ri_facet_write_scope := ws_facet_write_scope s, ri_entity_scope := di_entity_scope i, ri_image := di_image i, ri_group_by := ws_group_by s\<rparr>"

definition plan_input :: "dag_input \<Rightarrow> wstep \<Rightarrow> string \<Rightarrow> run_input" where
  "plan_input i s params = empty_run\<lparr>
     ri_actuator := ws_actuator s, ri_params := params, ri_credential_refs := ws_credential_refs s,
     ri_principal := di_principal i, ri_workflow_run_id := di_workflow_run_id i, ri_step_name := ws_name s,
     ri_plan := True\<rparr>"

definition run_actuation_step :: "acts \<Rightarrow> dag_input \<Rightarrow> wstep \<Rightarrow> string gomap \<Rightarrow> status \<times> string" where
  "run_actuation_step a i s steps =
     (case resolve_step_params a (ws_actuator s) (ws_params s) (step_namespaces a i steps) of
        None \<Rightarrow> (Failed, [])
      | Some params \<Rightarrow>
          if ws_plan s then
            (case plan_step a (plan_input i s params) of
               None \<Rightarrow> (Failed, [])
             | Some digest \<Rightarrow> (Succeeded, encode a (JObj [(''planDigest'', JStr digest)])))
          else
            (let digest = (if ws_plan_from s \<noteq> [] then digest_from_step a steps (ws_plan_from s) else [])
             in case run_against_view a (apply_input i s params digest) of
                  None \<Rightarrow> (Failed, [])
                | Some out \<Rightarrow> (Succeeded, out)))"

definition action_input :: "dag_input \<Rightarrow> wstep \<Rightarrow> string \<Rightarrow> string \<Rightarrow> jmap gomap \<Rightarrow> run_input" where
  "action_input i s action params args = empty_run\<lparr>
     ri_action := action, ri_action_capability := ws_action_capability s, ri_dry_run := ws_dry_run s,
     ri_params := params, ri_capability_args := args, ri_credential_refs := ws_credential_refs s,
     ri_principal := di_principal i, ri_workflow_run_id := di_workflow_run_id i, ri_step_name := ws_name s\<rparr>"

definition run_action_step :: "acts \<Rightarrow> dag_input \<Rightarrow> wstep \<Rightarrow> string gomap \<Rightarrow> status \<times> string" where
  "run_action_step a i s steps =
     (case (if ws_action_capability s \<noteq> [] then capability_action a (ws_action_capability s) else Some (ws_action s)) of
        None \<Rightarrow> (Failed, [])
      | Some action \<Rightarrow>
          (case resolve_action_step_params a action (ws_action_capability s) (ws_params s) (step_namespaces a i steps) of
             None \<Rightarrow> (Failed, [])
           | Some params \<Rightarrow>
               (case resolve_capability_args a (ws_capability_args s) (step_namespaces a i steps) of
                  None \<Rightarrow> (Failed, [])
                | Some args \<Rightarrow>
                    (case run_action a (action_input i s action params args) of
                       None \<Rightarrow> (Failed, [])
                     | Some out \<Rightarrow> (Succeeded, out)))))"

definition nested_input :: "dag_input \<Rightarrow> wstep \<Rightarrow> string \<Rightarrow> resolved_capability \<Rightarrow> jmap \<Rightarrow> dag_input" where
  "nested_input i s name rc inputs = \<lparr>di_workflow_run_id = [], di_workflow_name = name, di_principal = di_principal i,
     di_trigger = [], di_event = [], di_launch_params = inputs, di_view_name = [], di_entity_scope = [],
     di_environment = di_environment i, di_context = di_context i, di_parent_workflow_run_id = di_workflow_run_id i,
     di_parent_step_name = ws_name s, di_image = [], di_credential_refs = [], di_resolved_capability = rc\<rparr>"

definition resolve_workflow_capability :: "acts \<Rightarrow> string \<Rightarrow> string \<Rightarrow> resolved_capability option" where
  "resolve_workflow_capability a cls for_kind =
     map_option (\<lambda>(provider, w). \<lparr>rc_capability = cls, rc_for_kind = for_kind, rc_provider = provider, rc_workflow = w\<rparr>)
       (build_workflow a cls for_kind)"

definition run_nested_workflow_step :: "acts \<Rightarrow> dag_input \<Rightarrow> wstep \<Rightarrow> string gomap \<Rightarrow> status" where
  "run_nested_workflow_step a i s steps =
     (case (if ws_workflow_capability s \<noteq> []
            then map_option (\<lambda>rc. (rc_workflow rc, rc)) (resolve_workflow_capability a (ws_workflow_capability s) (ws_for_kind s))
            else Some (ws_workflow s, no_capability)) of
        None \<Rightarrow> Failed
      | Some (name, rc) \<Rightarrow>
          (case resolve_nested_inputs a (ws_inputs s) (step_namespaces a i steps) of
             None \<Rightarrow> Failed
           | Some inputs \<Rightarrow> if run_nested a (nested_input i s name rc inputs) then Succeeded else Failed))"

section \<open>The policy Step\<close>

fun param_strings :: "jmap \<Rightarrow> string \<Rightarrow> string list" where
  "param_strings params key =
     (case map_of params key of
        Some (JArr xs) \<Rightarrow> List.map_filter (\<lambda>v. case v of JStr s \<Rightarrow> Some s | _ \<Rightarrow> None) xs
      | _ \<Rightarrow> [])"

text \<open>\<open>int(v)\<close> of a \<open>float64\<close> truncates.\<close>

definition trunc :: "rat \<Rightarrow> int" where
  "trunc f = (if f \<ge> 0 then \<lfloor>f\<rfloor> else \<lceil>f\<rceil>)"

definition param_int :: "jmap \<Rightarrow> string \<Rightarrow> int option" where
  "param_int params key =
     (case map_of params key of
        Some (JFloat f) \<Rightarrow> Some (trunc f)
      | Some (JInt n) \<Rightarrow> Some n
      | _ \<Rightarrow> None)"

definition assemble_change_context :: "dag_input \<Rightarrow> change_context" where
  "assemble_change_context i =
     (let labels = List.map_filter (\<lambda>(k, v). case v of JStr s \<Rightarrow> Some (k, s) | _ \<Rightarrow> None) (di_context i);
          person = (\<lambda>p. \<lparr>pr_id = p, pr_kind = [], pr_roles = [], pr_attr = []\<rparr>)
      in \<lparr>cc_actor = person (di_principal i), cc_committers = map person (param_strings (di_context i) ''committers''),
          cc_targets = [], cc_blast_radius = \<lparr>br_entity_count = 0, br_service_count = 0, br_max_criticality = []\<rparr>,
          cc_environment = di_environment i,
          cc_change_class = (case map_of labels ''changeClass'' of Some cls \<Rightarrow> cls | None \<Rightarrow> []),
          cc_risk_score = None, cc_scheduled_at = None, cc_labels = labels\<rparr>)"

text \<open>\<open>ResolveChangeContext\<close>: admission, then the labels core derives over what the launcher sent.\<close>

definition resolve_change_context :: "wstep list \<Rightarrow> string list gomap \<Rightarrow> jmap \<Rightarrow> cerror + jmap" where
  "resolve_change_context steps elevated_by supplied =
     (case validate_change_context supplied of
        Some e \<Rightarrow> Inl e
      | None \<Rightarrow> Inr (fold (\<lambda>(k, v). aput k (JStr v))
          (derive_elevation (map (\<lambda>s. (ws_actuator s, ws_params s)) steps) elevated_by) supplied))"

definition approvers_from_decision :: "decision \<Rightarrow> (gate_approvers \<times> int \<times> int) option" where
  "approvers_from_decision dec =
     (case fold (\<lambda>ob (teams, principals, timeout, threshold).
          if ob_type ob \<noteq> ''require_approval'' then (teams, principals, timeout, threshold)
          else (teams @ param_strings (ob_params ob) ''teams'',
                principals @ param_strings (ob_params ob) ''principals'',
                (case param_int (ob_params ob) ''timeoutSeconds'' of Some t \<Rightarrow> t | None \<Rightarrow> timeout),
                (case param_int (ob_params ob) ''count'' of
                   Some n \<Rightarrow> if n > threshold then n else threshold | None \<Rightarrow> threshold)))
        (d_obligations dec) ([], [], 0, 0) of
        (teams, principals, timeout, threshold) \<Rightarrow>
          if teams \<noteq> [] \<or> principals \<noteq> []
          then Some (\<lparr>ga_principals = principals, ga_teams = teams\<rparr>, timeout, threshold) else None)"

definition policy_step_status :: "string \<Rightarrow> status" where
  "policy_step_status o' = (if o' = OutcomeAllow then Succeeded else Failed)"

text \<open>
  \<open>runPolicyStep\<close>.  \<open>decide\<close> is the evaluation activity (\<open>None\<close> when it fails), \<open>gate\<close> what \<open>awaitGate\<close>
  answers on the approvers, timeout and threshold it is opened with.
\<close>

definition run_policy_step ::
  "(control list \<Rightarrow> change_context \<Rightarrow> decision option) \<Rightarrow> (gate_approvers \<Rightarrow> int \<Rightarrow> int \<Rightarrow> status option) \<Rightarrow>
     int option \<Rightarrow> dag_input \<Rightarrow> control list \<Rightarrow> status option" where
  "run_policy_step decide gate time i controls =
     (case decide controls ((assemble_change_context i)\<lparr>cc_scheduled_at := time\<rparr>) of
        None \<Rightarrow> Some Failed
      | Some dec \<Rightarrow>
          if d_outcome dec = OutcomeRequireApproval \<or> d_outcome dec = OutcomeEscalate
          then (case approvers_from_decision dec of
              None \<Rightarrow> Some Failed
            | Some (ap, timeout, threshold) \<Rightarrow> gate ap timeout threshold)
          else Some (policy_step_status (d_outcome dec)))"

record audit_event =
  ae_principal :: string
  ae_action :: string
  ae_object :: string
  ae_outcome :: string
  ae_step :: string
  ae_reasons :: "reason list"
  ae_obligations :: "obligation list"

definition policy_audit_event :: "string \<Rightarrow> string \<Rightarrow> change_context \<Rightarrow> decision \<Rightarrow> audit_event" where
  "policy_audit_event run step cc dec = \<lparr>ae_principal = pr_id (cc_actor cc), ae_action = ''policy.decision'',
     ae_object = run, ae_outcome = audit_outcome dec, ae_step = step, ae_reasons = d_reasons dec,
     ae_obligations = d_obligations dec\<rparr>"

text \<open>The governance Findings a decision leaves: kind and target of each write.\<close>

definition enforce_obligations :: "string \<Rightarrow> string \<Rightarrow> decision \<Rightarrow> (string \<times> string \<times> obligation) list" where
  "enforce_obligations run step dec =
     map (\<lambda>ob. (''governance/post-review'', run @ ''/'' @ step, ob))
       (filter (\<lambda>ob. ob_type ob = ''post_review'') (d_obligations dec))"

definition run_step ::
  "acts \<Rightarrow> (control list \<Rightarrow> change_context \<Rightarrow> decision option) \<Rightarrow> (gate_approvers \<Rightarrow> int \<Rightarrow> int \<Rightarrow> string \<Rightarrow> status option) \<Rightarrow>
     int option \<Rightarrow> dag_input \<Rightarrow> wstep \<Rightarrow> string gomap \<Rightarrow> (status \<times> string) option" where
  "run_step a decide gate time i s steps =
     (case dispatch s of
        GateShape \<Rightarrow> map_option (\<lambda>st. (st, []))
          (gate (gs_approvers (the (ws_gate s))) (gs_timeout_seconds (the (ws_gate s))) (gs_threshold (the (ws_gate s)))
             (if ws_plan_from s \<noteq> [] then digest_from_step a steps (ws_plan_from s) else []))
      | PolicyShape \<Rightarrow> map_option (\<lambda>st. (st, []))
          (run_policy_step decide (\<lambda>ap t n. gate ap t n []) time i (the (ws_policy s)))
      | NestedShape \<Rightarrow> Some (run_nested_workflow_step a i s steps, [])
      | ActionShape \<Rightarrow> Some (run_action_step a i s steps)
      | ActuationShape \<Rightarrow> Some (run_actuation_step a i s steps))"

section \<open>The change context\<close>

lemma fold_aput_one: "fold (\<lambda>(k, v). aput k (JStr v)) (derive_elevation xs el) m =
    (if derive_elevation xs el = [] then m else aput (ChangeLabelPrefix @ ''privileged'') (JStr ''true'') m)"
  by (simp add: derive_elevation_def)

lemma map_of_string_labels:
  "distinct (keys m) \<Longrightarrow>
     map_of (List.map_filter (\<lambda>(k, v). case v of JStr s \<Rightarrow> Some (k, s) | _ \<Rightarrow> None) m) k
       = (case map_of m k of Some (JStr s) \<Rightarrow> Some s | _ \<Rightarrow> None)"
proof (induction m)
  case (Cons e m)
  obtain k0 v0 where e: "e = (k0, v0)" by fastforce
  from Cons.prems e have "map_of m k0 = None" by (simp add: map_of_eq_None_iff)
  with Cons e show ?case by (cases v0) (auto split: option.splits)
qed simp

lemma assemble_fields:
  "cc_environment (assemble_change_context i) = di_environment i"
  "cc_labels (assemble_change_context i) = List.map_filter (\<lambda>(k, v). case v of JStr s \<Rightarrow> Some (k, s) | _ \<Rightarrow> None) (di_context i)"
  "cc_change_class (assemble_change_context i) = label_of (assemble_change_context i) ''changeClass''"
  by (simp_all add: assemble_change_context_def Let_def label_of_def split: option.split)

lemma validated_key:
  "validate_change_context supplied = None \<Longrightarrow> k \<in> set (keys supplied) \<Longrightarrow> validate_context_key supplied k = None"
  by (auto simp: validate_change_context_def sorted_keys_def)

text \<open>
  A launcher cannot assert its way around a Control: in the context a policy Step evaluates the
  environment is the floor's, the change class is one of the closed set or unstated, and the labels under
  the core namespace are exactly the derived ones, so the privileged label is there when the Workflow's own
  Steps elevate and only then.
\<close>

theorem change_context_not_spoofable:
  assumes "distinct (keys supplied)" and "resolve_change_context steps elevated_by supplied = Inr ctx"
    and "di_context i = ctx"
  shows "cc_environment (assemble_change_context i) = di_environment i \<and>
    valid_change_class (cc_change_class (assemble_change_context i)) \<and>
    (\<forall>k. has_prefix ChangeLabelPrefix k \<longrightarrow> map_of (cc_labels (assemble_change_context i)) k =
       (if k = ChangeLabelPrefix @ ''privileged'' \<and> derive_elevation (map (\<lambda>s. (ws_actuator s, ws_params s)) steps) elevated_by \<noteq> []
        then Some ''true'' else None))"
proof -
  let ?el = "derive_elevation (map (\<lambda>s. (ws_actuator s, ws_params s)) steps) elevated_by"
  from assms(2) have v: "validate_change_context supplied = None"
    and ctx: "ctx = (if ?el = [] then supplied else aput (ChangeLabelPrefix @ ''privileged'') (JStr ''true'') supplied)"
    by (auto simp: resolve_change_context_def fold_aput_one split: option.splits)
  have d: "distinct (keys ctx)" using assms(1) by (simp add: ctx distinct_aput)
  note lab = map_of_string_labels [OF d]
  have none: "map_of supplied k = None" if "has_prefix ChangeLabelPrefix k" for k
  proof (rule ccontr)
    assume "map_of supplied k \<noteq> None"
    then have "k \<in> set (keys supplied)" by (metis map_of_eq_None_iff set_map)
    from validated_key [OF v this] that show False
      by (simp add: validate_context_key_def split: if_splits)
  qed
  have labels: "map_of (cc_labels (assemble_change_context i)) k =
       (if k = ChangeLabelPrefix @ ''privileged'' \<and> ?el \<noteq> [] then Some ''true'' else None)"
    if "has_prefix ChangeLabelPrefix k" for k
    unfolding assemble_fields assms(3) lab using none [OF that] by (auto simp: ctx map_of_aput)
  have other: "map_of ctx ''changeClass'' = map_of supplied ''changeClass''"
    by (simp add: ctx map_of_aput ChangeLabelPrefix_def)
  have "valid_change_class (cc_change_class (assemble_change_context i))"
  proof (cases "map_of supplied ''changeClass''")
    case None
    then show ?thesis unfolding assemble_fields(2,3) label_of_def assms(3) lab other
      by (simp add: valid_change_class_def)
  next
    case (Some w)
    then have "''changeClass'' \<in> set (keys supplied)" by (rule map_of_Some_key)
    from validated_key [OF v this] have "validate_context_key supplied ''changeClass'' = None" .
    moreover have "\<not> has_prefix ChangeLabelPrefix ''changeClass''" by (simp add: has_prefix_iff ChangeLabelPrefix_def)
    ultimately obtain cls where "w = JStr cls" "valid_change_class cls"
      using Some by (cases w) (auto simp: validate_context_key_def split: if_splits)
    then show ?thesis using Some unfolding assemble_fields(2,3) label_of_def assms(3) lab other by simp
  qed
  with labels show ?thesis by (simp add: assemble_fields(1))
qed

definition blank_input :: dag_input where
  "blank_input = \<lparr>di_workflow_run_id = ''r1'', di_workflow_name = ''converge'', di_principal = ''ann'', di_trigger = [],
     di_event = [], di_launch_params = [], di_view_name = [], di_entity_scope = [], di_environment = ''prod'',
     di_context = [], di_parent_workflow_run_id = [], di_parent_step_name = [], di_image = [], di_credential_refs = [],
     di_resolved_capability = no_capability\<rparr>"

lemma change_context_not_spoofable_witness:
  "map_of (cc_labels (assemble_change_context (blank_input\<lparr>di_context := projr (resolve_change_context
     [(blank_step ''a'' [] [])\<lparr>ws_params := [(''become'', JBool True)]\<rparr>] [(''ansible'', [''become''])]
     [(''changeClass'', JStr ''emergency'')])\<rparr>))) ''stratt.change/privileged'' = Some ''true''"
proof -
  let ?steps = "[(blank_step ''a'' [] [])\<lparr>ws_params := [(''become'', JBool True)]\<rparr>]"
  let ?r = "resolve_change_context ?steps [(''ansible'', [''become''])] [(''changeClass'', JStr ''emergency'')]"
  have "\<not> isl ?r" by code_simp
  then have r: "?r = Inr (projr ?r)" by simp
  have e: "derive_elevation (map (\<lambda>s. (ws_actuator s, ws_params s)) ?steps) [(''ansible'', [''become''])] \<noteq> []" by code_simp
  have p: "has_prefix ChangeLabelPrefix ''stratt.change/privileged''"
    by (simp add: has_prefix_iff ChangeLabelPrefix_def)
  have n: "ChangeLabelPrefix @ ''privileged'' = ''stratt.change/privileged''" by (simp add: ChangeLabelPrefix_def)
  show ?thesis
    using change_context_not_spoofable [OF _ r, of "blank_input\<lparr>di_context := projr ?r\<rparr>"] e p unfolding n by simp
qed

section \<open>The policy checkpoint\<close>

text \<open>
  A policy Step never passes silently: it succeeds exactly when the decision could be made and is allow,
  or asks for approval, names an approver, and the Gate it opens is approved by a quorum before any denial
  or timeout; a failed evaluation, a deny, an unknown outcome and an approval nobody can give all fail it.
\<close>

theorem policy_step_succeeds_iff:
  "run_policy_step decide (\<lambda>ap t n. await_gate created recorded t n evs) time i controls = Some Succeeded \<longleftrightarrow>
   (\<exists>dec. decide controls ((assemble_change_context i)\<lparr>cc_scheduled_at := time\<rparr>) = Some dec \<and>
     (d_outcome dec = OutcomeAllow \<or>
      d_outcome dec \<in> {OutcomeRequireApproval, OutcomeEscalate} \<and>
      (\<exists>ap t n. approvers_from_decision dec = Some (ap, t, n) \<and> (ga_teams ap \<noteq> [] \<or> ga_principals ap \<noteq> []) \<and>
         created \<and> recorded \<and>
         (\<exists>k \<le> length evs. (\<forall>ev \<in> set (take k evs). harmless (t > 0) ev) \<and>
            int (card (approvers_in (take k evs))) \<ge> max 1 n))))"
proof -
  have named: "ga_teams ap \<noteq> [] \<or> ga_principals ap \<noteq> []" if "approvers_from_decision dec = Some (ap, t, n)" for dec ap t n
    using that by (auto simp: approvers_from_decision_def split: prod.splits if_splits)
  have ne: "OutcomeAllow \<noteq> OutcomeRequireApproval" "OutcomeAllow \<noteq> OutcomeEscalate" by (simp_all add: outcome_defs)
  show ?thesis
  proof (cases "decide controls ((assemble_change_context i)\<lparr>cc_scheduled_at := time\<rparr>)")
    case None
    then show ?thesis by (simp add: run_policy_step_def)
  next
    case (Some dec)
    show ?thesis
    proof (cases "d_outcome dec \<in> {OutcomeRequireApproval, OutcomeEscalate}")
      case True
      then have "d_outcome dec \<noteq> OutcomeAllow" using ne by auto
      show ?thesis
      proof (cases "approvers_from_decision dec")
        case None
        then show ?thesis using True Some \<open>d_outcome dec \<noteq> OutcomeAllow\<close> by (auto simp: run_policy_step_def)
      next
        case (Some x)
        obtain ap t n where x: "x = (ap, t, n)" by (cases x) auto
        have "run_policy_step decide (\<lambda>ap t n. await_gate created recorded t n evs) time i controls = Some Succeeded \<longleftrightarrow>
            await_gate created recorded t n evs = Some Succeeded"
          using True Some x \<open>decide _ _ = Some dec\<close> by (auto simp: run_policy_step_def)
        then show ?thesis
          using True Some x \<open>decide _ _ = Some dec\<close> \<open>d_outcome dec \<noteq> OutcomeAllow\<close> named [of dec ap t n]
          unfolding gate_quorum by auto
      qed
    next
      case False
      then show ?thesis using Some by (auto simp: run_policy_step_def policy_step_status_def)
    qed
  qed
qed

definition needs_two :: decision where
  "needs_two = \<lparr>d_outcome = OutcomeRequireApproval, d_reasons = [],
     d_obligations = [\<lparr>ob_type = ''require_approval'', ob_params = [(''teams'', JArr [JStr ''sre'']), (''count'', JFloat 2)]\<rparr>],
     d_engine = [], d_evaluated_at = None\<rparr>"

lemma policy_step_succeeds_iff_witness:
  "run_policy_step (\<lambda>cs cc. Some needs_two) (\<lambda>ap t n. await_gate True True t n [Decision True ''ann'' [], Decision True ''bob'' []])
     None blank_input [] = Some Succeeded"
proof -
  have a: "approvers_from_decision needs_two = Some (\<lparr>ga_principals = [], ga_teams = [''sre'']\<rparr>, 0, 2)" by code_simp
  have "int (card (approvers_in (take 2 [Decision True ''ann'' [], Decision True ''bob'' []]))) \<ge> max 1 2" by simp
  moreover have "\<forall>ev \<in> set (take 2 [Decision True ''ann'' [], Decision True ''bob'' []]). harmless ((0::int) > 0) ev"
    by (simp add: harmless_def)
  moreover have "d_outcome needs_two \<in> {OutcomeRequireApproval, OutcomeEscalate}" by (simp add: needs_two_def)
  ultimately show ?thesis
    unfolding policy_step_succeeds_iff using a by (intro exI [of _ needs_two]) (auto intro!: exI [of _ 2])
qed

text \<open>A library that plans to \<open>sha256:7\<close>, applies only that digest, and writes a JSON string as itself.\<close>

definition pinned_acts :: acts where
  "pinned_acts = \<lparr>actuator_params = (\<lambda>_ _ _. Some []), action_params = (\<lambda>_ _ _. None), capability_params = (\<lambda>_ _ _. None),
     capability_action = (\<lambda>_. None), build_workflow = (\<lambda>_ _. None), plan_step = (\<lambda>_. Some ''sha256:7''),
     run_against_view = (\<lambda>r. if ri_plan_digest r = ''sha256:7'' then Some ''applied'' else None),
     run_action = (\<lambda>_. None), run_nested = (\<lambda>_. False),
     decode = (\<lambda>s. Some (JObj [(''planDigest'', JStr s)])),
     encode = (\<lambda>v. case v of JObj ((_, JStr s) # _) \<Rightarrow> s | _ \<Rightarrow> []), print_float = (\<lambda>_. [])\<rparr>"

definition any_gate :: gate_spec where
  "any_gate = \<lparr>gs_approvers = \<lparr>ga_principals = [], ga_teams = [''sre'']\<rparr>, gs_timeout_seconds = 0, gs_threshold = 1\<rparr>"

section \<open>Approve what you see, apply what you approved\<close>

text \<open>
  The digest a Plan Step froze is the one the Gate pinned to it records on its approval, and the one the
  Apply Step pinned to it hands to the actuation, which then runs with exactly that digest or not at all.
\<close>

theorem approved_plan_is_applied:
  assumes codec: "\<And>d. decode a (encode a (JObj [(''planDigest'', JStr d)])) = Some (JObj [(''planDigest'', JStr d)])"
    and "ws_plan p" "run_actuation_step a i p before = (Succeeded, out)" "map_of steps (ws_name p) = Some out"
    and "ws_name p \<noteq> []" "dispatch g = GateShape" "ws_plan_from g = ws_name p"
    and "\<not> ws_plan s" "dispatch s = ActuationShape" "ws_plan_from s = ws_name p"
  shows "\<exists>params digest. plan_step a (plan_input i p params) = Some digest \<and>
     run_step a decide gate time i g steps = map_option (\<lambda>st. (st, []))
       (gate (gs_approvers (the (ws_gate g))) (gs_timeout_seconds (the (ws_gate g))) (gs_threshold (the (ws_gate g))) digest) \<and>
     (\<forall>ran. run_step a decide gate time i s steps = Some (Succeeded, ran) \<longrightarrow>
        (\<exists>applied. run_against_view a (apply_input i s applied digest) = Some ran))"
proof -
  from assms(2,3) obtain params digest where d: "plan_step a (plan_input i p params) = Some digest"
      "out = encode a (JObj [(''planDigest'', JStr digest)])"
    by (auto simp: run_actuation_step_def split: option.splits)
  from d(2) assms(4) have dig: "digest_from_step a steps (ws_name p) = digest"
    by (simp add: digest_from_step_def codec)
  show ?thesis
    by (rule exI [of _ params], rule exI [of _ digest])
       (use d(1) assms(5-10) dig in \<open>auto simp: run_step_def run_actuation_step_def Let_def split: option.splits\<close>)
qed

lemma approved_plan_is_applied_witness:
  "\<exists>digest. digest = ''sha256:7'' \<and>
     run_step pinned_acts (\<lambda>cs cc. None) (\<lambda>ap t n d. if d = ''sha256:7'' then Some Succeeded else None) None blank_input
       ((blank_step ''g'' [] [])\<lparr>ws_gate := Some any_gate, ws_plan_from := ''p''\<rparr>)
       [(''p'', ''sha256:7'')] = Some (Succeeded, [])"
proof -
  let ?gate = "\<lambda>ap t n d. if d = ''sha256:7'' then Some Succeeded else None"
  let ?p = "(blank_step ''p'' [] [])\<lparr>ws_plan := True\<rparr>"
  let ?g = "(blank_step ''g'' [] [])\<lparr>ws_gate := Some any_gate, ws_plan_from := ''p''\<rparr>"
  let ?s = "(blank_step ''a'' [] [])\<lparr>ws_plan_from := ''p''\<rparr>"
  have c: "\<And>d. decode pinned_acts (encode pinned_acts (JObj [(''planDigest'', JStr d)])) = Some (JObj [(''planDigest'', JStr d)])"
    by (simp add: pinned_acts_def)
  have "ws_plan ?p" "ws_name ?p \<noteq> []" "ws_plan_from ?g = ws_name ?p" "\<not> ws_plan ?s" "ws_plan_from ?s = ws_name ?p"
      "dispatch ?g = GateShape" "dispatch ?s = ActuationShape"
      "map_of [(''p'', ''sha256:7'')] (ws_name ?p) = Some ''sha256:7''"
    by (simp_all add: blank_step_def dispatch_def)
  moreover have "run_actuation_step pinned_acts blank_input ?p [] = (Succeeded, ''sha256:7'')"
    by (simp add: run_actuation_step_def resolve_step_params_def pinned_acts_def blank_step_def)
  ultimately obtain params digest where "plan_step pinned_acts (plan_input blank_input ?p params) = Some digest"
      "run_step pinned_acts (\<lambda>cs cc. None) ?gate None blank_input ?g [(''p'', ''sha256:7'')]
         = map_option (\<lambda>st. (st, [])) (?gate (gs_approvers (the (ws_gate ?g))) (gs_timeout_seconds (the (ws_gate ?g))) (gs_threshold (the (ws_gate ?g))) digest)"
    using approved_plan_is_applied [OF c, of ?p blank_input "[]" "''sha256:7''" "[(''p'', ''sha256:7'')]" ?g ?s "\<lambda>cs cc. None" ?gate None]
    by blast
  then show ?thesis by (simp add: pinned_acts_def)
qed

section \<open>What the runners leave out\<close>

text \<open>
  A Step that names only a capability class never reaches the resolver of that class: the goroutine it gets
  asks for the parameters of an Actuator with no name, and the Step fails.
\<close>

lemma class_only_step_fails:
  assumes "ws_gate s = None" "ws_policy s = None" "ws_workflow s = []" "ws_action s = []" "ws_actuator s = []"
  shows "run_step a decide gate time i s steps = Some (Failed, [])"
  using assms by (simp add: run_step_def dispatch_def run_actuation_step_def resolve_step_params_def)

text \<open>The credential narrowing of an execution reaches the Apply verb and neither the Plan verb, nor an Action, nor a child.\<close>

lemma narrowing_reaches_apply_only:
  "ri_credential_refs (apply_input i s params digest) = narrow_credential_refs (ws_credential_refs s) (di_credential_refs i) \<and>
   ri_credential_refs (plan_input i s params) = ws_credential_refs s \<and>
   ri_credential_refs (action_input i s action params args) = ws_credential_refs s \<and>
   di_credential_refs (nested_input i s name rc inputs) = []"
  by (simp add: apply_input_def plan_input_def action_input_def nested_input_def empty_run_def)

end
