(* ===== verification/Inputs.thy ===== *)
theory Inputs
  imports Json
begin

text \<open>
  The launch boundary, \<open>core/internal/contract/workflowinputs.go\<close>: a Workflow declares what it takes as a
  closed JSON Schema object; a launch applies the declared defaults and validates the result.  The schema
  compiler (a third-party library) is a parameter that yields the validator of a document; schemas are read
  after decoding, so a \<open>json.RawMessage\<close> inside one is the value it decodes to.
\<close>

record schema_lib = codec +
  compile_ad_hoc :: "string \<Rightarrow> string \<Rightarrow> (json \<Rightarrow> bool) option"
  reparse :: "string \<Rightarrow> json option"

datatype input_error =
    NotASchemaObject
  | NotTypeObject
  | NotClosed
  | NotASchema
  | PropertyNotAnObject string
  | PropertyNotASchema string
  | LyingDefault string
  | NoInputsDeclared "string list"
  | BadProperties
  | CannotCanonicalize
  | Violates

definition schema_id :: "string \<Rightarrow> string" where
  "schema_id workflow = ''stratt:workflow:'' @ workflow @ ''/inputs''"

section \<open>The schema at declaration\<close>

text \<open>One property of \<open>checkDefaults\<close>: a default must satisfy the subschema it is declared under, a \<open>$ref\<close> is skipped.\<close>

definition check_default :: "'a schema_lib_scheme \<Rightarrow> string \<Rightarrow> string \<times> json \<Rightarrow> input_error option" where
  "check_default L workflow = (\<lambda>(name, v). case v of
       JObj sub \<Rightarrow>
         (case map_of sub ''default'' of
            None \<Rightarrow> None
          | Some def \<Rightarrow>
              if map_of sub ''$ref'' \<noteq> None then None
              else (case marshal L (JObj (filter (\<lambda>(k, v). k \<noteq> ''default'') sub)) of
                  Inl e \<Rightarrow> Some (PropertyNotASchema name)
                | Inr raw \<Rightarrow> (case compile_ad_hoc L (schema_id workflow @ ''/'' @ name) raw of
                      None \<Rightarrow> Some (PropertyNotASchema name)
                    | Some ok \<Rightarrow> if ok def then None else Some (LyingDefault name))))
     | _ \<Rightarrow> Some (PropertyNotAnObject name))"

definition properties_of :: "jmap \<Rightarrow> jmap" where
  "properties_of shape = (case map_of shape ''properties'' of Some (JObj props) \<Rightarrow> props | _ \<Rightarrow> [])"

definition check_defaults :: "'a schema_lib_scheme \<Rightarrow> string \<Rightarrow> jmap \<Rightarrow> input_error option" where
  "check_defaults L workflow shape = first_err (check_default L workflow) (sorted_entries (properties_of shape))"

text \<open>\<open>CompileInputSchema\<close>; the left \<open>Inr None\<close> is the Workflow that declares no inputs.\<close>

definition compile_input_schema :: "'a schema_lib_scheme \<Rightarrow> string \<Rightarrow> string \<Rightarrow> input_error + (json \<Rightarrow> bool) option" where
  "compile_input_schema L workflow doc =
     (if doc = [] then Inr None
      else case unmarshal L doc of
          Some (JObj shape) \<Rightarrow>
            (if map_of shape ''type'' \<noteq> Some (JStr ''object'') then Inl NotTypeObject
             else if map_of shape ''additionalProperties'' \<noteq> Some (JBool False) then Inl NotClosed
             else (case compile_ad_hoc L (schema_id workflow) doc of
                 None \<Rightarrow> Inl NotASchema
               | Some sch \<Rightarrow> (case check_defaults L workflow shape of
                     Some e \<Rightarrow> Inl e
                   | None \<Rightarrow> Inr (Some sch))))
        | Some JNull \<Rightarrow> Inl NotTypeObject
        | _ \<Rightarrow> Inl NotASchemaObject)"

definition input_names :: "'a schema_lib_scheme \<Rightarrow> string \<Rightarrow> input_error + string list" where
  "input_names L doc =
     (if doc = [] then Inr []
      else case unmarshal L doc of
          Some (JObj shape) \<Rightarrow>
            (case map_of shape ''properties'' of
               None \<Rightarrow> Inr [] | Some JNull \<Rightarrow> Inr [] | Some (JObj props) \<Rightarrow> Inr (keys props) | _ \<Rightarrow> Inl BadProperties)
        | Some JNull \<Rightarrow> Inr []
        | _ \<Rightarrow> Inl NotASchemaObject)"

section \<open>The launch\<close>

text \<open>\<open>withDefaults\<close>: a supplied value is never replaced.\<close>

definition add_default :: "string \<times> json \<Rightarrow> jmap \<Rightarrow> input_error + jmap" where
  "add_default = (\<lambda>(name, prop) out. case prop of
       JObj sub \<Rightarrow>
         (case map_of sub ''default'' of
            None \<Rightarrow> Inr out
          | Some def \<Rightarrow> if name \<in> set (keys out) then Inr out else Inr (aput name def out))
     | JNull \<Rightarrow> Inr out
     | _ \<Rightarrow> Inl BadProperties)"

definition with_defaults :: "'a schema_lib_scheme \<Rightarrow> string \<Rightarrow> jmap \<Rightarrow> input_error + jmap" where
  "with_defaults L doc supplied =
     (case unmarshal L doc of
        Some (JObj shape) \<Rightarrow>
          (case map_of shape ''properties'' of
             None \<Rightarrow> Inr supplied
           | Some JNull \<Rightarrow> Inr supplied
           | Some (JObj props) \<Rightarrow> fold_err add_default props supplied
           | _ \<Rightarrow> Inl BadProperties)
      | Some JNull \<Rightarrow> Inr supplied
      | _ \<Rightarrow> Inl NotASchemaObject)"

definition canonicalize :: "'a schema_lib_scheme \<Rightarrow> jmap \<Rightarrow> input_error + json" where
  "canonicalize L m =
     (case marshal L (JObj m) of
        Inl e \<Rightarrow> Inl CannotCanonicalize
      | Inr raw \<Rightarrow> (case reparse L raw of None \<Rightarrow> Inl CannotCanonicalize | Some v \<Rightarrow> Inr v))"

definition resolve_launch_inputs :: "'a schema_lib_scheme \<Rightarrow> string \<Rightarrow> string \<Rightarrow> jmap \<Rightarrow> input_error + jmap" where
  "resolve_launch_inputs L workflow doc supplied =
     (if doc = [] then (if supplied = [] then Inr [] else Inl (NoInputsDeclared (sort (keys supplied))))
      else case compile_input_schema L workflow doc of
          Inl e \<Rightarrow> Inl e
        | Inr None \<Rightarrow> Inl NotASchema
        | Inr (Some sch) \<Rightarrow>
            (case with_defaults L doc supplied of
               Inl e \<Rightarrow> Inl e
             | Inr merged \<Rightarrow>
                 (case canonicalize L merged of
                    Inl e \<Rightarrow> Inl e
                  | Inr inst \<Rightarrow>
                      if sch inst then Inr (case inst of JObj m \<Rightarrow> m | _ \<Rightarrow> []) else Inl Violates)))"

section \<open>What a launch receives\<close>

text \<open>The default a schema declares for a name.\<close>

definition declared_default :: "jmap \<Rightarrow> string \<Rightarrow> json option" where
  "declared_default props name =
     (case map_of props name of Some (JObj sub) \<Rightarrow> map_of sub ''default'' | _ \<Rightarrow> None)"

lemma in_keys_iff: "k \<in> set (keys m) \<longleftrightarrow> map_of m k \<noteq> None"
  by (simp add: map_of_eq_None_iff)

lemma add_default_map_of:
  "add_default (n, p) out = Inr out' \<Longrightarrow>
     map_of out' k = (case map_of out k of Some v \<Rightarrow> Some v
                      | None \<Rightarrow> if k = n then (case p of JObj sub \<Rightarrow> map_of sub ''default'' | _ \<Rightarrow> None) else None)"
  unfolding add_default_def in_keys_iff
  by (cases p) (auto simp: map_of_aput split: option.splits if_splits)

lemma fold_defaults:
  "distinct (keys props) \<Longrightarrow> fold_err add_default props supplied = Inr out \<Longrightarrow>
     map_of out k = (case map_of supplied k of Some v \<Rightarrow> Some v | None \<Rightarrow> declared_default props k)"
proof (induction props arbitrary: supplied)
  case Nil
  then show ?case by (simp add: declared_default_def split: option.split)
next
  case (Cons e props)
  obtain n p where e: "e = (n, p)" by fastforce
  from Cons.prems e obtain mid where mid: "add_default (n, p) supplied = Inr mid"
      "fold_err add_default props mid = Inr out" by (auto split: sum.splits)
  have "map_of props n = None" using Cons.prems e by (simp add: map_of_eq_None_iff)
  with Cons.IH [OF _ mid(2)] Cons.prems(1) add_default_map_of [OF mid(1), of k] e
  show ?case by (auto simp: declared_default_def split: option.splits)
qed

text \<open>
  C39. A launch that is accepted runs on validated inputs: the Workflow either declares none and got none,
  or its schema is a closed object whose every default satisfies its own subschema, and what runs is the
  canonical form, accepted by that schema, of the supplied values with the declared default for each name
  that was not supplied; no supplied value is ever replaced.
\<close>

theorem launch_inputs_validated:
  assumes "resolve_launch_inputs L workflow doc supplied = Inr out"
    and "\<And>shape. unmarshal L doc = Some (JObj shape) \<Longrightarrow> distinct (keys (properties_of shape))"
  shows "if doc = [] then supplied = [] \<and> out = []
    else \<exists>shape sch merged inst.
      unmarshal L doc = Some (JObj shape) \<and> compile_ad_hoc L (schema_id workflow) doc = Some sch \<and>
      map_of shape ''type'' = Some (JStr ''object'') \<and> map_of shape ''additionalProperties'' = Some (JBool False) \<and>
      (\<forall>p \<in> set (properties_of shape). check_default L workflow p = None) \<and>
      (\<forall>k. map_of merged k = (case map_of supplied k of Some v \<Rightarrow> Some v | None \<Rightarrow> declared_default (properties_of shape) k)) \<and>
      canonicalize L merged = Inr inst \<and> sch inst \<and> out = (case inst of JObj m \<Rightarrow> m | _ \<Rightarrow> [])"
proof (cases "doc = []")
  case True
  then show ?thesis using assms(1) by (simp add: resolve_launch_inputs_def split: if_splits)
next
  case False
  with assms(1) obtain sch merged inst where c: "compile_input_schema L workflow doc = Inr (Some sch)"
      and m: "with_defaults L doc supplied = Inr merged" and i: "canonicalize L merged = Inr inst" "sch inst"
      "out = (case inst of JObj m \<Rightarrow> m | _ \<Rightarrow> [])"
    by (auto simp: resolve_launch_inputs_def split: sum.splits option.splits if_splits)
  from c False obtain shape where s: "unmarshal L doc = Some (JObj shape)" "map_of shape ''type'' = Some (JStr ''object'')"
      "map_of shape ''additionalProperties'' = Some (JBool False)" "compile_ad_hoc L (schema_id workflow) doc = Some sch"
      "check_defaults L workflow shape = None"
    by (auto simp: compile_input_schema_def split: option.splits json.splits if_splits)
  have "map_of merged k = (case map_of supplied k of Some v \<Rightarrow> Some v | None \<Rightarrow> declared_default (properties_of shape) k)" for k
    using m s(1) fold_defaults [OF assms(2) [OF s(1)], of supplied merged k]
    by (auto simp: with_defaults_def properties_of_def declared_default_def split: option.splits json.splits)
  moreover have "\<forall>p \<in> set (properties_of shape). check_default L workflow p = None"
    using s(5) by (simp add: check_defaults_def)
  ultimately show ?thesis using s i False by auto
qed

text \<open>A library that reads one document, the schema of a Workflow with one defaulted input.\<close>

definition port_shape :: jmap where
  "port_shape = [(''type'', JStr ''object''), (''additionalProperties'', JBool False),
     (''properties'', JObj [(''port'', JObj [(''default'', JInt 443)])])]"

definition port_lib :: schema_lib where
  "port_lib = \<lparr>unmarshal = (\<lambda>d. Some (JObj port_shape)), marshal = (\<lambda>v. Inr (case v of JObj ((_, JInt _) # _) \<Rightarrow> ''p'' | _ \<Rightarrow> ''q'')),
     fmt_float = (\<lambda>_. []), compile_ad_hoc = (\<lambda>_ _. Some (\<lambda>_. True)),
     reparse = (\<lambda>raw. Some (JObj (if raw = ''p'' then [(''port'', JInt 443)] else [])))\<rparr>"

lemma launch_inputs_validated_witness:
  "\<exists>merged. map_of merged ''port'' = Some (JInt 443) \<and> canonicalize port_lib merged = Inr (JObj [(''port'', JInt 443)])"
proof -
  have r: "resolve_launch_inputs port_lib ''w'' ''doc'' [] = Inr [(''port'', JInt 443)]" by code_simp
  have u: "unmarshal port_lib ''doc'' = Some (JObj port_shape)" by (simp add: port_lib_def)
  have d: "declared_default (properties_of port_shape) ''port'' = Some (JInt 443)" by code_simp
  have "distinct (keys (properties_of shape))" if "unmarshal port_lib ''doc'' = Some (JObj shape)" for shape
    using that by (auto simp: port_lib_def port_shape_def properties_of_def)
  from launch_inputs_validated [OF r this] obtain shape merged inst where
      s: "unmarshal port_lib ''doc'' = Some (JObj shape)"
      and m: "\<forall>k. map_of merged k = (case map_of ([] :: jmap) k of Some v \<Rightarrow> Some v | None \<Rightarrow> declared_default (properties_of shape) k)"
      and i: "canonicalize port_lib merged = Inr inst" "[(''port'', JInt 443)] = (case inst of JObj m \<Rightarrow> m | _ \<Rightarrow> [])"
    by (auto simp del: map_of.simps)
  from s u have "shape = port_shape" by simp
  with m d have m: "map_of merged ''port'' = Some (JInt 443)" by simp
  from i(2) have "inst = JObj [(''port'', JInt 443)]" by (cases inst) simp_all
  with m i(1) show ?thesis by auto
qed

end
