(* ===== verification/Compiler.thy ===== *)
theory Compiler
  imports Inputs Overlay Template Capability Float64
begin

text \<open>
  The Intent compiler, \<open>core/internal/compiler/compiler.go\<close> and \<open>apply.go\<close>: declared Assignments, their
  Intents and versioned Blueprints and the live View membership compile to facet-observation Baselines; a
  plan is computed read-only over the store and then applied.  \<open>cstore\<close> is the read surface \<open>Store\<close>
  (\<open>None\<close> is an error), \<open>clib\<close> the JSON and schema libraries, the remediation resolver an argument.  A record
  carries the fields the compiler reads or writes; every other field of the Go struct is its zero value.
\<close>

section \<open>Documents\<close>

record facet_predicate =
  fp_namespace :: string
  fp_path :: string
  fp_equals :: string

record relation_predicate =
  rp_type :: string
  rp_target_kind :: string
  rp_target_labels :: "string gomap"

record view_selector =
  sel_kinds :: "string list"
  sel_labels :: "string gomap"
  sel_facets :: "facet_predicate list"
  sel_relations :: "relation_predicate list"

record view =
  vw_name :: string
  vw_selector :: view_selector
  vw_declared_by :: string

record entity =
  en_id :: string
  en_kind :: string
  en_labels :: "string gomap"

record facet_expectation =
  fe_namespace :: string
  fe_qualifier :: string
  fe_path :: string
  fe_equals :: string
  fe_contains :: string
  fe_not_before :: string

record blueprint_route =
  br_match :: "facet_predicate list"
  br_observe :: facet_expectation
  br_claim :: string
  br_remediation_workflow :: string
  br_remediation_capability :: string
  br_remediation_params :: jmap

record blueprint =
  bp_name :: string
  bp_version :: int
  bp_for :: string
  bp_defaults :: jmap
  bp_routes :: "blueprint_route list"
  bp_severity :: string
  bp_damping :: int
  bp_remove_workflow :: string
  bp_remove_params :: jmap

record intent_doc =
  it_name :: string
  it_version :: int
  it_kind :: string
  it_spec :: jmap
  it_on_remove :: string

record assignment =
  as_name :: string
  as_intent :: string
  as_intent_version :: int
  as_view :: string
  as_blueprint :: string
  as_blueprint_version :: int
  as_environments :: "string list"
  as_values :: jmap
  as_max_delta :: "rat option"
  as_ack_delta :: int

record workflow_doc =
  wd_name :: string
  wd_inputs :: string

record compiled_origin =
  co_assignment :: string
  co_intent :: string
  co_intent_version :: int
  co_blueprint :: string
  co_blueprint_version :: int
  co_route :: nat
  co_spec_layers :: provenance

record baseline =
  bl_name :: string
  bl_mode :: string
  bl_view_name :: string
  bl_selector :: "view_selector option"
  bl_expected :: "facet_expectation list"
  bl_claim :: string
  bl_environments :: "string list"
  bl_cron :: string
  bl_severity :: string
  bl_damping :: int
  bl_remediation_workflow :: string
  bl_remediation_params :: "jmap option"
  bl_remove_params :: "jmap option"
  bl_framework :: string
  bl_compiled_from :: "compiled_origin option"

record facet_owner =
  fo_namespace :: string
  fo_owner_kind :: string
  fo_owner_ref :: string

record membership =
  am_assignment :: string
  am_entity_ids :: "string list"
  am_member_count :: int
  am_acked_delta :: int

definition ClaimExclusive :: string where "ClaimExclusive = ''exclusive''"
definition FacetObservation :: string where "FacetObservation = ''facet-observation''"
definition DeclaredByCaC :: string where "DeclaredByCaC = ''cac''"
definition blueprint_owner_kind :: string where "blueprint_owner_kind = ''blueprint''"
definition OnRemoveRemove :: string where "OnRemoveRemove = ''remove''"
definition OnRemoveRevert :: string where "OnRemoveRevert = ''revert''"
definition default_max_delta :: rat where "default_max_delta = 1 / 2"

record cstore =
  list_assignments :: "assignment list option"
  list_baselines :: "baseline list option"
  get_intent :: "string \<Rightarrow> int \<Rightarrow> intent_doc option"
  get_view :: "string \<Rightarrow> view option"
  resolve_selector :: "view_selector \<Rightarrow> entity list option"
  get_blueprint :: "string \<Rightarrow> int \<Rightarrow> blueprint option"
  get_workflow :: "string \<Rightarrow> workflow_doc option"
  get_membership :: "string \<Rightarrow> (membership \<times> bool) option"
  get_facet_owner :: "string \<Rightarrow> (facet_owner \<times> bool) option"

text \<open>\<open>validate_intent_spec\<close> is the registry of pinned kind schemas: an error, or whether the kind is covered.\<close>

record clib = schema_lib +
  validate_intent_spec :: "string \<Rightarrow> string \<Rightarrow> bool option"

type_synonym resolver = "string \<Rightarrow> string \<Rightarrow> cap_result option"

section \<open>Errors\<close>

datatype refs_error =
    ViewNotFound string
  | ViewNotCaC string
  | ViewParametrized string
  | IntentNotFound string int
  | BlueprintNotFound string int
  | WrongKind string string
  | NoResolver nat string
  | ResolverFailed nat string
  | Unresolved nat string Capability.reason
  | RemediationNotFound nat string
  | RemoveNotFound string

datatype route_error =
    NoNamespace
  | Substitution terror
  | CannotMarshal string
  | EmptyQualifier string
  | NothingAsserted
  | ParamsWithoutWorkflow
  | ParamsSubstitution terror
  | WorkflowUnread string
  | ParamsViolate string input_error

datatype comp_error =
    BadRefs refs_error
  | BadMerge string oerror
  | SpecUnmarshalable string
  | SpecViolates string
  | SpecUncovered string
  | BadRemoveParams route_error
  | BadRoute nat route_error
  | ClaimConflict string string string "string list" \<comment> \<open>namespace, qualifier, Entity, Assignments\<close>

datatype comp_note =
    NoNote
  | ErrorNote comp_error
  | MembershipHeld int int rat
  | ExpectationsHeld int int rat

section \<open>The plan\<close>

record expectation_change =
  ec_baseline :: string
  ec_namespace :: string
  ec_path :: string
  ec_from :: string
  ec_to :: string

record assignment_delta =
  ad_assignment :: string
  ad_member_count :: int
  ad_joins :: "string list"
  ad_leaves :: "string list"
  ad_unrouted :: "string list"
  ad_expectation_changes :: "expectation_change list"
  ad_paused :: bool
  ad_note :: comp_note

text \<open>The \<open>detail\<close> blob of an orphan before it is encoded: the reason is retain, or the withdrawal semantics.\<close>

record orphan_detail =
  od_on_remove :: "string option"
  od_remove_workflow :: string
  od_remove_params :: "jmap option"

record orphan =
  or_baseline :: string
  or_target :: string
  or_severity :: string
  or_detail :: orphan_detail
  or_launch_workflow :: string
  or_launch_params :: "jmap option"

record plan_out =
  pl_upserts :: "baseline list"
  pl_prunes :: "string list"
  pl_orphans :: "orphan list"
  pl_ownership :: "facet_owner list"
  pl_memberships :: "membership list"
  pl_deltas :: "assignment_delta list"
  pl_errors :: "(string \<times> comp_error) list"

record claim_record =
  cl_namespace :: string
  cl_qualifier :: string
  cl_entity_id :: string
  cl_claim :: string
  cl_assignment :: string

record own_claim =
  oc_namespace :: string
  oc_blueprint :: string
  oc_assignment :: string

section \<open>References\<close>

definition selector_parametrized :: "view_selector \<Rightarrow> bool" where
  "selector_parametrized sel \<longleftrightarrow>
     list_ex (\<lambda>(k, v). contains ''{{'' v) (sel_labels sel) \<or> list_ex (\<lambda>f. contains ''{{'' (fp_equals f)) (sel_facets sel)"

definition short_intent_kind :: "string \<Rightarrow> string" where
  "short_intent_kind kind = (case cut_prefix ''Intent/'' kind of Some r \<Rightarrow> r | None \<Rightarrow> kind)"

text \<open>The route as the rest of the compile sees it: its capability replaced by a concrete Workflow.\<close>

definition bind_route :: "resolver option \<Rightarrow> string \<Rightarrow> nat \<times> blueprint_route \<Rightarrow> refs_error + blueprint_route" where
  "bind_route resolver kind = (\<lambda>(i, r).
     if br_remediation_capability r = [] then Inr r
     else case resolver of
         None \<Rightarrow> Inl (NoResolver i (br_remediation_capability r))
       | Some f \<Rightarrow>
           (case f (br_remediation_capability r) (short_intent_kind kind) of
              None \<Rightarrow> Inl (ResolverFailed i (br_remediation_capability r))
            | Some res \<Rightarrow>
                if cr_status res \<noteq> StatusResolved
                then Inl (Unresolved i (br_remediation_capability r) (cr_reason res))
                else Inr (r\<lparr>br_remediation_workflow := cr_workflow res\<rparr>)))"

definition check_route_workflow :: "cstore \<Rightarrow> nat \<times> blueprint_route \<Rightarrow> refs_error option" where
  "check_route_workflow s = (\<lambda>(i, r).
     if br_remediation_workflow r \<noteq> [] \<and> get_workflow s (br_remediation_workflow r) = None
     then Some (RemediationNotFound i (br_remediation_workflow r)) else None)"

definition bind_routes :: "cstore \<Rightarrow> resolver option \<Rightarrow> string \<Rightarrow> blueprint \<Rightarrow> refs_error + blueprint" where
  "bind_routes s resolver kind bp =
     (case map_err (bind_route resolver kind) (List.enumerate 0 (bp_routes bp)) of
        Inl e \<Rightarrow> Inl e
      | Inr routes \<Rightarrow>
          (case first_err (check_route_workflow s) (List.enumerate 0 routes) of
             Some e \<Rightarrow> Inl e
           | None \<Rightarrow>
               if bp_remove_workflow bp \<noteq> [] \<and> get_workflow s (bp_remove_workflow bp) = None
               then Inl (RemoveNotFound (bp_remove_workflow bp))
               else Inr (bp\<lparr>bp_routes := routes\<rparr>)))"

definition validate_refs :: "cstore \<Rightarrow> assignment \<Rightarrow> resolver option \<Rightarrow> refs_error + (blueprint \<times> intent_doc)" where
  "validate_refs s a resolver =
     (case get_view s (as_view a) of
        None \<Rightarrow> Inl (ViewNotFound (as_view a))
      | Some view \<Rightarrow>
          if vw_declared_by view \<noteq> DeclaredByCaC then Inl (ViewNotCaC (as_view a))
          else if selector_parametrized (vw_selector view) then Inl (ViewParametrized (as_view a))
          else (case get_intent s (as_intent a) (as_intent_version a) of
              None \<Rightarrow> Inl (IntentNotFound (as_intent a) (as_intent_version a))
            | Some intent \<Rightarrow>
                (case get_blueprint s (as_blueprint a) (as_blueprint_version a) of
                   None \<Rightarrow> Inl (BlueprintNotFound (as_blueprint a) (as_blueprint_version a))
                 | Some bp \<Rightarrow>
                     if bp_for bp \<noteq> it_kind intent then Inl (WrongKind (bp_for bp) (it_kind intent))
                     else (case bind_routes s resolver (it_kind intent) bp of
                         Inl e \<Rightarrow> Inl e
                       | Inr bp' \<Rightarrow> Inr (bp', intent)))))"

section \<open>Membership\<close>

definition resolve_ids :: "cstore \<Rightarrow> view_selector \<Rightarrow> string list option" where
  "resolve_ids s sel = map_option (\<lambda>ents. sort (map en_id ents)) (resolve_selector s sel)"

text \<open>\<open>routeMatch\<close> rebuilds the selector from three of its four clauses.\<close>

definition route_selector :: "view_selector \<Rightarrow> blueprint_route \<Rightarrow> view_selector" where
  "route_selector sel route = \<lparr>sel_kinds = sel_kinds sel, sel_labels = sel_labels sel,
     sel_facets = sel_facets sel @ br_match route, sel_relations = []\<rparr>"

definition route_match :: "cstore \<Rightarrow> view_selector \<Rightarrow> blueprint_route \<Rightarrow> string list option" where
  "route_match s sel route = resolve_ids s (route_selector sel route)"

definition diff_ids :: "string list \<Rightarrow> string list \<Rightarrow> string list \<times> string list" where
  "diff_ids prev cur = (sort (filter (\<lambda>x. x \<notin> set prev) cur), sort (filter (\<lambda>x. x \<notin> set cur) prev))"

definition exceeds_delta :: "int \<Rightarrow> int \<Rightarrow> rat \<Rightarrow> bool" where
  "exceeds_delta prev_count changed max_delta \<longleftrightarrow>
     prev_count \<noteq> 0 \<and> f64 (f64 (of_int changed) / f64 (of_int prev_count)) > max_delta"

section \<open>Routes\<close>

definition substitute_raw :: "'a schema_lib_scheme \<Rightarrow> string \<Rightarrow> namespaces \<Rightarrow> route_error + string" where
  "substitute_raw L raw ns =
     (if raw = [] then Inr raw
      else case unmarshal L raw of
          None \<Rightarrow> Inr raw
        | Some v \<Rightarrow>
            if \<not> has v then Inr raw
            else (case substitute (fmt_float L) v ns of
                Inl e \<Rightarrow> Inl (Substitution e)
              | Inr out \<Rightarrow> (case marshal L out of Inl e \<Rightarrow> Inl (CannotMarshal e) | Inr nb \<Rightarrow> Inr nb)))"

text \<open>A string field that is substituted and asserted back to a string.\<close>

definition substitute_field :: "'a schema_lib_scheme \<Rightarrow> string \<Rightarrow> namespaces \<Rightarrow> route_error + string" where
  "substitute_field L s ns =
     (case substitute (fmt_float L) (JStr s) ns of
        Inl e \<Rightarrow> Inl (Substitution e)
      | Inr (JStr r) \<Rightarrow> Inr r
      | Inr _ \<Rightarrow> Inr [])"

definition resolve_qualifier :: "'a schema_lib_scheme \<Rightarrow> string \<Rightarrow> namespaces \<Rightarrow> route_error + string" where
  "resolve_qualifier L q ns =
     (if q = [] then Inr []
      else case substitute_field L q ns of
          Inl e \<Rightarrow> Inl e
        | Inr r \<Rightarrow> if r = [] then Inl (EmptyQualifier q) else Inr r)"

definition substitute_expectation :: "'a schema_lib_scheme \<Rightarrow> facet_expectation \<Rightarrow> jmap \<Rightarrow> route_error + facet_expectation" where
  "substitute_expectation L e spec =
     (let ns = [(''spec'', spec)] in
      if fe_namespace e = [] then Inl NoNamespace
      else case substitute_field L (fe_path e) ns of
          Inl x \<Rightarrow> Inl x
        | Inr path \<Rightarrow> (case substitute_raw L (fe_equals e) ns of
            Inl x \<Rightarrow> Inl x
          | Inr eq \<Rightarrow> (case substitute_raw L (fe_contains e) ns of
              Inl x \<Rightarrow> Inl x
            | Inr con \<Rightarrow> (case (if fe_not_before e = [] then Inr [] else substitute_field L (fe_not_before e) ns) of
                Inl x \<Rightarrow> Inl x
              | Inr nb \<Rightarrow> (case resolve_qualifier L (fe_qualifier e) ns of
                  Inl x \<Rightarrow> Inl x
                | Inr q \<Rightarrow>
                    if eq = [] \<and> con = [] \<and> nb = [] then Inl NothingAsserted
                    else Inr (e\<lparr>fe_path := path, fe_equals := eq, fe_contains := con, fe_not_before := nb,
                                fe_qualifier := q\<rparr>))))))"

text \<open>The check both kinds of params get against the Workflow they are passed to.\<close>

definition check_params :: "clib \<Rightarrow> cstore \<Rightarrow> string \<Rightarrow> terror + jmap option \<Rightarrow> route_error + jmap option" where
  "check_params L s workflow bound =
     (case bound of
        Inl e \<Rightarrow> Inl (ParamsSubstitution e)
      | Inr ps \<Rightarrow>
          (case get_workflow s workflow of
             None \<Rightarrow> Inl (WorkflowUnread workflow)
           | Some w \<Rightarrow>
               (case resolve_launch_inputs L (wd_name w) (wd_inputs w) (case ps of None \<Rightarrow> [] | Some m \<Rightarrow> m) of
                  Inl e \<Rightarrow> Inl (ParamsViolate (wd_name w) e)
                | Inr _ \<Rightarrow> Inr ps)))"

definition resolve_remediation_params :: "clib \<Rightarrow> cstore \<Rightarrow> blueprint_route \<Rightarrow> jmap \<Rightarrow> route_error + jmap option" where
  "resolve_remediation_params L s route spec =
     (if br_remediation_workflow route = []
      then (if br_remediation_params route \<noteq> [] then Inl ParamsWithoutWorkflow else Inr None)
      else if br_remediation_params route = [] then Inr None
      else check_params L s (br_remediation_workflow route)
        (substitute_params_deferring (fmt_float L) (Some (br_remediation_params route)) [(''spec'', spec)] defer_entity))"

definition resolve_remove_params :: "clib \<Rightarrow> cstore \<Rightarrow> blueprint \<Rightarrow> jmap \<Rightarrow> route_error + jmap option" where
  "resolve_remove_params L s bp spec =
     (if bp_remove_workflow bp = []
      then (if bp_remove_params bp \<noteq> [] then Inl ParamsWithoutWorkflow else Inr None)
      else if bp_remove_params bp = [] then Inr None
      else check_params L s (bp_remove_workflow bp)
        (substitute_params (fmt_float L) (Some (bp_remove_params bp)) [(''spec'', spec)]))"

definition validate_resolved_spec :: "clib \<Rightarrow> string \<Rightarrow> jmap \<Rightarrow> comp_error option" where
  "validate_resolved_spec L kind spec =
     (case marshal L (JObj spec) of
        Inl e \<Rightarrow> Some (SpecUnmarshalable e)
      | Inr raw \<Rightarrow>
          (case validate_intent_spec L kind raw of
             None \<Rightarrow> Some (SpecViolates kind)
           | Some covered \<Rightarrow> if covered then None else Some (SpecUncovered kind)))"

definition CompiledName :: "string \<Rightarrow> string \<Rightarrow> int \<Rightarrow> nat \<Rightarrow> string" where
  "CompiledName assignment blueprint version route =
     ''compiled-'' @ assignment @ ''-'' @ blueprint @ ''-v'' @ show_int version @ ''-r'' @ show_nat route"

definition severity_or :: "string \<Rightarrow> string" where
  "severity_or s = (if s = [] then ''warning'' else s)"

definition compiled_baseline ::
  "assignment \<Rightarrow> blueprint \<Rightarrow> intent_doc \<Rightarrow> nat \<Rightarrow> view \<Rightarrow> blueprint_route \<Rightarrow> facet_expectation \<Rightarrow> provenance \<Rightarrow>
     jmap option \<Rightarrow> jmap option \<Rightarrow> baseline" where
  "compiled_baseline a bp intent i view route e layers rem remv = \<lparr>
     bl_name = CompiledName (as_name a) (bp_name bp) (bp_version bp) i, bl_mode = FacetObservation,
     bl_view_name = as_view a, bl_selector = Some (route_selector (vw_selector view) route), bl_expected = [e],
     bl_claim = br_claim route, bl_environments = as_environments a, bl_cron = ''@every 1m'',
     bl_severity = severity_or (bp_severity bp), bl_damping = bp_damping bp,
     bl_remediation_workflow = br_remediation_workflow route, bl_remediation_params = rem, bl_remove_params = remv,
     bl_framework = ''intent'',
     bl_compiled_from = Some \<lparr>co_assignment = as_name a, co_intent = it_name intent, co_intent_version = it_version intent,
       co_blueprint = bp_name bp, co_blueprint_version = bp_version bp, co_route = i, co_spec_layers = layers\<rparr>\<rparr>"

section \<open>The expectation diff\<close>

definition expectation_value :: "facet_expectation \<Rightarrow> string" where
  "expectation_value e =
     (if fe_equals e \<noteq> [] then ''equals '' @ fe_equals e
      else if fe_contains e \<noteq> [] then ''contains '' @ fe_contains e
      else if fe_not_before e \<noteq> [] then ''notBefore '' @ fe_not_before e
      else [])"

definition expectation_change_of :: "baseline \<Rightarrow> baseline option \<Rightarrow> nat \<times> facet_expectation \<Rightarrow> expectation_change option" where
  "expectation_change_of b prior = (\<lambda>(i, e).
     case prior of
       None \<Rightarrow> None
     | Some pb \<Rightarrow>
         if i \<ge> length (bl_expected pb) then None
         else (let from = expectation_value (bl_expected pb ! i); to = expectation_value e
               in if from = to then None
                  else Some \<lparr>ec_baseline = bl_name b, ec_namespace = fe_namespace e, ec_path = fe_path e,
                             ec_from = from, ec_to = to\<rparr>))"

definition expectation_changes :: "baseline list \<Rightarrow> baseline gomap \<Rightarrow> expectation_change list \<times> int" where
  "expectation_changes compiled prior =
     (concat (map (\<lambda>b. List.map_filter (expectation_change_of b (map_of prior (bl_name b)))
                         (List.enumerate 0 (bl_expected b))) compiled),
      int (sum_list (map (\<lambda>b. length (bl_expected b)) compiled)))"

section \<open>One Assignment\<close>

text \<open>
  \<open>cs_skipped\<close> is the set of names the pass keeps out.  The second read of the View in the loop repeats the
  one \<open>validateRefs\<close> made, so its failure branch is not reached.
\<close>

record cstate =
  cs_skipped :: "string list"
  cs_candidates :: "baseline list gomap"
  cs_claims :: "claim_record list"
  cs_own_claims :: "own_claim list"
  cs_memberships :: "membership list"
  cs_deltas :: "assignment_delta list"
  cs_errors :: "(string \<times> comp_error) list"

definition start_state :: cstate where
  "start_state = \<lparr>cs_skipped = [], cs_candidates = [], cs_claims = [], cs_own_claims = [], cs_memberships = [],
     cs_deltas = [], cs_errors = []\<rparr>"

definition candidates_of :: "cstate \<Rightarrow> string \<Rightarrow> baseline list" where
  "candidates_of st name = (case map_of (cs_candidates st) name of None \<Rightarrow> [] | Some bs \<Rightarrow> bs)"

definition new_delta :: "string \<Rightarrow> assignment_delta" where
  "new_delta name = \<lparr>ad_assignment = name, ad_member_count = 0, ad_joins = [], ad_leaves = [], ad_unrouted = [],
     ad_expectation_changes = [], ad_paused = False, ad_note = NoNote\<rparr>"

definition skip_error :: "assignment \<Rightarrow> comp_error \<Rightarrow> assignment_delta \<Rightarrow> cstate \<Rightarrow> cstate" where
  "skip_error a e d st = st\<lparr>cs_skipped := as_name a # cs_skipped st, cs_errors := cs_errors st @ [(as_name a, e)],
     cs_deltas := cs_deltas st @ [d\<lparr>ad_note := ErrorNote e\<rparr>]\<rparr>"

definition skip_paused :: "assignment \<Rightarrow> comp_note \<Rightarrow> assignment_delta \<Rightarrow> cstate \<Rightarrow> cstate" where
  "skip_paused a note d st = st\<lparr>cs_skipped := as_name a # cs_skipped st,
     cs_deltas := cs_deltas st @ [d\<lparr>ad_paused := True, ad_note := note\<rparr>]\<rparr>"

definition effective_max_delta :: "rat \<Rightarrow> assignment \<Rightarrow> rat" where
  "effective_max_delta max_delta a = (case as_max_delta a of Some m \<Rightarrow> m | None \<Rightarrow> max_delta)"

definition membership_held :: "rat \<Rightarrow> assignment \<Rightarrow> membership \<Rightarrow> bool \<Rightarrow> int \<Rightarrow> bool" where
  "membership_held eff a prev had_prev changed \<longleftrightarrow>
     had_prev \<and> am_member_count prev > 0 \<and> exceeds_delta (am_member_count prev) changed eff \<and>
     as_ack_delta a \<le> am_acked_delta prev"

definition effective_spec :: "blueprint \<Rightarrow> intent_doc \<Rightarrow> assignment \<Rightarrow> (string \<times> oerror) + (jmap \<times> provenance)" where
  "effective_spec bp intent a = merge
     [\<lparr>layer_name = ''blueprint:'' @ bp_name bp @ ''/defaults'', layer_values = bp_defaults bp, yielding = True\<rparr>,
      \<lparr>layer_name = ''intent:'' @ it_name intent, layer_values = it_spec intent, yielding = False\<rparr>,
      \<lparr>layer_name = ''assignment:'' @ as_name a, layer_values = as_values a, yielding = False\<rparr>]"

definition prepare :: "clib \<Rightarrow> cstore \<Rightarrow> blueprint \<Rightarrow> intent_doc \<Rightarrow> assignment \<Rightarrow>
    comp_error + (jmap \<times> provenance \<times> jmap option)" where
  "prepare L s bp intent a =
     (case effective_spec bp intent a of
        Inl (l, e) \<Rightarrow> Inl (BadMerge l e)
      | Inr (spec, layers) \<Rightarrow>
          (case validate_resolved_spec L (it_kind intent) spec of
             Some e \<Rightarrow> Inl e
           | None \<Rightarrow>
               (case resolve_remove_params L s bp spec of
                  Inl e \<Rightarrow> Inl (BadRemoveParams e)
                | Inr remv \<Rightarrow> Inr (spec, layers, remv))))"

text \<open>What the routes of one Assignment have produced so far; a set error is the \<open>break\<close> of the loop.\<close>

record rstate =
  rs_baselines :: "baseline list"
  rs_claims :: "claim_record list"
  rs_own :: "own_claim list"
  rs_routed :: "string list"
  rs_error :: "comp_error option"

definition no_routes :: rstate where
  "no_routes = \<lparr>rs_baselines = [], rs_claims = [], rs_own = [], rs_routed = [], rs_error = None\<rparr>"

definition run_route ::
  "clib \<Rightarrow> cstore \<Rightarrow> assignment \<Rightarrow> blueprint \<Rightarrow> intent_doc \<Rightarrow> view \<Rightarrow> jmap \<Rightarrow> provenance \<Rightarrow> jmap option \<Rightarrow>
     nat \<Rightarrow> blueprint_route \<Rightarrow> rstate \<Rightarrow> rstate option" where
  "run_route L s a bp intent view spec layers remv i route rs =
     (case route_match s (vw_selector view) route of
        None \<Rightarrow> None
      | Some hits \<Rightarrow>
          if hits = [] then Some rs
          else let rs = rs\<lparr>rs_routed := rs_routed rs @ hits\<rparr> in
            (case substitute_expectation L (br_observe route) spec of
               Inl e \<Rightarrow> Some (rs\<lparr>rs_error := Some (BadRoute i e)\<rparr>)
             | Inr e \<Rightarrow>
                 (case resolve_remediation_params L s route spec of
                    Inl x \<Rightarrow> Some (rs\<lparr>rs_error := Some (BadRoute i x)\<rparr>)
                  | Inr rem \<Rightarrow> Some (rs\<lparr>
                      rs_baselines := rs_baselines rs @ [compiled_baseline a bp intent i view route e layers rem remv],
                      rs_claims := rs_claims rs @ map (\<lambda>x. \<lparr>cl_namespace = fe_namespace e, cl_qualifier = fe_qualifier e,
                          cl_entity_id = x, cl_claim = br_claim route, cl_assignment = as_name a\<rparr>) hits,
                      rs_own := rs_own rs @ (if br_remediation_workflow route \<noteq> []
                          then [\<lparr>oc_namespace = fe_namespace e, oc_blueprint = bp_name bp, oc_assignment = as_name a\<rparr>]
                          else [])\<rparr>))))"

fun run_routes ::
  "clib \<Rightarrow> cstore \<Rightarrow> assignment \<Rightarrow> blueprint \<Rightarrow> intent_doc \<Rightarrow> view \<Rightarrow> jmap \<Rightarrow> provenance \<Rightarrow> jmap option \<Rightarrow>
     (nat \<times> blueprint_route) list \<Rightarrow> rstate \<Rightarrow> rstate option" where
  "run_routes L s a bp intent view spec layers remv [] rs = Some rs"
| "run_routes L s a bp intent view spec layers remv ((i, route) # rest) rs =
     (if rs_error rs \<noteq> None then Some rs
      else case run_route L s a bp intent view spec layers remv i route rs of
          None \<Rightarrow> None
        | Some rs' \<Rightarrow> run_routes L s a bp intent view spec layers remv rest rs')"

definition add_routes :: "assignment \<Rightarrow> rstate \<Rightarrow> cstate \<Rightarrow> cstate" where
  "add_routes a rs st = st\<lparr>
     cs_candidates := (if rs_baselines rs = [] then cs_candidates st
        else aput (as_name a) (candidates_of st (as_name a) @ rs_baselines rs) (cs_candidates st)),
     cs_claims := cs_claims st @ rs_claims rs, cs_own_claims := cs_own_claims st @ rs_own rs\<rparr>"

text \<open>After the routes: the unrouted members, the expectation gate, the membership to persist.\<close>

definition settle ::
  "rat \<Rightarrow> baseline gomap \<Rightarrow> assignment \<Rightarrow> string list \<Rightarrow> membership \<Rightarrow> rstate \<Rightarrow> assignment_delta \<Rightarrow> cstate \<Rightarrow> cstate" where
  "settle eff prior a members prev rs d st =
     (case expectation_changes (candidates_of st (as_name a)) prior of (changes, examined) \<Rightarrow>
        let d = d\<lparr>ad_unrouted := filter (\<lambda>x. x \<notin> set (rs_routed rs)) members, ad_expectation_changes := changes\<rparr> in
        if examined > 0 \<and> changes \<noteq> [] \<and> exceeds_delta examined (int (length changes)) eff \<and>
           as_ack_delta a \<le> am_acked_delta prev
        then skip_paused a (ExpectationsHeld (int (length changes)) examined eff) d st
        else st\<lparr>cs_memberships := cs_memberships st @ [\<lparr>am_assignment = as_name a, am_entity_ids = members,
                    am_member_count = int (length members), am_acked_delta = max (am_acked_delta prev) (as_ack_delta a)\<rparr>],
                cs_deltas := cs_deltas st @ [d]\<rparr>)"

definition compile_routes ::
  "clib \<Rightarrow> cstore \<Rightarrow> rat \<Rightarrow> baseline gomap \<Rightarrow> assignment \<Rightarrow> blueprint \<Rightarrow> intent_doc \<Rightarrow> view \<Rightarrow> string list \<Rightarrow>
     membership \<Rightarrow> assignment_delta \<Rightarrow> cstate \<Rightarrow> cstate option" where
  "compile_routes L s eff prior a bp intent view members prev d st =
     (if as_name a \<in> set (cs_skipped st)
      then Some (case effective_spec bp intent a of
          Inl (l, e) \<Rightarrow> skip_error a (BadMerge l e) d st
        | Inr _ \<Rightarrow> st\<lparr>cs_deltas := cs_deltas st @ [d]\<rparr>)
      else case prepare L s bp intent a of
          Inl e \<Rightarrow> Some (skip_error a e d st)
        | Inr (spec, layers, remv) \<Rightarrow>
            (case run_routes L s a bp intent view spec layers remv (List.enumerate 0 (bp_routes bp)) no_routes of
               None \<Rightarrow> None
             | Some rs \<Rightarrow>
                 (case rs_error rs of
                    Some e \<Rightarrow> Some (skip_error a e d (add_routes a rs st))
                  | None \<Rightarrow> Some (settle eff prior a members prev rs d (add_routes a rs st)))))"

definition compile_assignment ::
  "clib \<Rightarrow> cstore \<Rightarrow> rat \<Rightarrow> baseline gomap \<Rightarrow> resolver option \<Rightarrow> assignment \<Rightarrow> cstate \<Rightarrow> cstate option" where
  "compile_assignment L s max_delta prior resolver a st =
     (case validate_refs s a resolver of
        Inl e \<Rightarrow> Some (skip_error a (BadRefs e) (new_delta (as_name a)) st)
      | Inr (bp, intent) \<Rightarrow>
          (case get_view s (as_view a) of
             None \<Rightarrow> None
           | Some view \<Rightarrow>
               (case resolve_ids s (vw_selector view) of
                  None \<Rightarrow> None
                | Some members \<Rightarrow>
                    (case get_membership s (as_name a) of
                       None \<Rightarrow> None
                     | Some (prev, had_prev) \<Rightarrow>
                         (case diff_ids (am_entity_ids prev) members of
                            (joins, leaves) \<Rightarrow>
                              let d = (new_delta (as_name a))\<lparr>ad_member_count := int (length members),
                                        ad_joins := joins, ad_leaves := leaves\<rparr>;
                                  eff = effective_max_delta max_delta a;
                                  changed = int (length joins + length leaves)
                              in if membership_held eff a prev had_prev changed
                                 then Some (skip_paused a (MembershipHeld changed (am_member_count prev) eff) d st)
                                 else compile_routes L s eff prior a bp intent view members prev d st)))))"

section \<open>The plan of a pass\<close>

fun fold_opt :: "('a \<Rightarrow> 's \<Rightarrow> 's option) \<Rightarrow> 'a list \<Rightarrow> 's \<Rightarrow> 's option" where
  "fold_opt f [] st = Some st"
| "fold_opt f (x # xs) st = (case f x st of None \<Rightarrow> None | Some st' \<Rightarrow> fold_opt f xs st')"

type_synonym claim_key = "string \<times> string \<times> string"

definition claim_key_of :: "claim_record \<Rightarrow> claim_key" where
  "claim_key_of c = (cl_namespace c, cl_qualifier c, cl_entity_id c)"

definition add_claim :: "string list \<Rightarrow> claim_record \<Rightarrow> (claim_key \<times> string list) list \<Rightarrow> (claim_key \<times> string list) list" where
  "add_claim skipped c m =
     (if cl_assignment c \<in> set skipped \<or> cl_claim c \<noteq> ClaimExclusive then m
      else let held = (case map_of m (claim_key_of c) of None \<Rightarrow> [] | Some ns \<Rightarrow> ns)
           in aput (claim_key_of c) (if cl_assignment c \<in> set held then held else held @ [cl_assignment c]) m)"

definition poison_key :: "claim_key \<times> string list \<Rightarrow> comp_error gomap \<Rightarrow> comp_error gomap" where
  "poison_key = (\<lambda>((ns, q, ent), asgs) msgs.
     if length asgs < 2 then msgs
     else fold (\<lambda>a m. if a \<in> set (keys m) then m else aput a (ClaimConflict ns q ent (sort asgs)) m) (sort asgs) msgs)"

definition detect_claim_conflicts :: "claim_record list \<Rightarrow> string list \<Rightarrow> (string \<times> comp_error) list" where
  "detect_claim_conflicts claims skipped =
     sorted_entries (fold poison_key (fold (add_claim skipped) claims []) [])"

definition claimants :: "own_claim list \<Rightarrow> string list \<Rightarrow> string \<Rightarrow> string list" where
  "claimants claims skipped ns = sort (remdups (map oc_blueprint
     (filter (\<lambda>c. oc_assignment c \<notin> set skipped \<and> oc_namespace c = ns) claims)))"

definition claimed_namespaces :: "own_claim list \<Rightarrow> string list \<Rightarrow> string list" where
  "claimed_namespaces claims skipped = sort (remdups (map oc_namespace
     (filter (\<lambda>c. oc_assignment c \<notin> set skipped) claims)))"

definition resolve_ownership :: "cstore \<Rightarrow> own_claim list \<Rightarrow> string list \<Rightarrow> facet_owner list option" where
  "resolve_ownership s claims skipped =
     fold_opt (\<lambda>ns out. case get_facet_owner s ns of
         None \<Rightarrow> None
       | Some (owner, owned) \<Rightarrow>
           if owned \<and> fo_owner_kind owner \<noteq> blueprint_owner_kind then Some out
           else Some (out @ map (\<lambda>bp. \<lparr>fo_namespace = ns, fo_owner_kind = blueprint_owner_kind, fo_owner_ref = bp\<rparr>)
                               (claimants claims skipped ns)))
       (claimed_namespaces claims skipped) []"

definition filter_memberships :: "membership list \<Rightarrow> string list \<Rightarrow> membership list" where
  "filter_memberships ms skipped = filter (\<lambda>m. am_assignment m \<notin> set skipped) ms"

text \<open>The orphan Finding of a pruned Baseline whose Assignment is withdrawn.\<close>

definition orphan_of :: "cstore \<Rightarrow> baseline \<Rightarrow> compiled_origin \<Rightarrow> orphan" where
  "orphan_of s eb co =
     (let retained = \<lparr>or_baseline = bl_name eb, or_target = ''assignment:'' @ co_assignment co, or_severity = bl_severity eb,
            or_detail = \<lparr>od_on_remove = None, od_remove_workflow = [], od_remove_params = None\<rparr>,
            or_launch_workflow = [], or_launch_params = None\<rparr>
      in case get_intent s (co_intent co) (co_intent_version co) of
          None \<Rightarrow> retained
        | Some i \<Rightarrow>
            if it_on_remove i \<noteq> OnRemoveRemove \<and> it_on_remove i \<noteq> OnRemoveRevert then retained
            else (case get_blueprint s (co_blueprint co) (co_blueprint_version co) of
                None \<Rightarrow> retained
              | Some bp \<Rightarrow>
                  if bp_remove_workflow bp = [] then retained
                  else retained\<lparr>or_detail := \<lparr>od_on_remove = Some (it_on_remove i), od_remove_workflow = bp_remove_workflow bp,
                                  od_remove_params = (case bl_remove_params eb of Some (x # m) \<Rightarrow> Some (x # m) | _ \<Rightarrow> None)\<rparr>,
                                or_launch_workflow := bp_remove_workflow bp, or_launch_params := bl_remove_params eb\<rparr>))"

definition orphan_finding :: "cstore \<Rightarrow> assignment list \<Rightarrow> baseline \<Rightarrow> orphan option" where
  "orphan_finding s assignments eb =
     (case bl_compiled_from eb of
        None \<Rightarrow> None
      | Some co \<Rightarrow> if co_assignment co \<in> set (map as_name assignments) then None else Some (orphan_of s eb co))"

definition stale :: "string list \<Rightarrow> string list \<Rightarrow> baseline \<Rightarrow> bool" where
  "stale desired skipped eb =
     (case bl_compiled_from eb of None \<Rightarrow> False
      | Some co \<Rightarrow> bl_name eb \<notin> set desired \<and> co_assignment co \<notin> set skipped)"

definition assemble_plan :: "cstore \<Rightarrow> assignment list \<Rightarrow> baseline list \<Rightarrow> cstate \<Rightarrow> plan_out option" where
  "assemble_plan s assignments existing st =
     (let poisoned = detect_claim_conflicts (cs_claims st) (cs_skipped st);
          skipped = map fst poisoned @ cs_skipped st;
          candidates = filter (\<lambda>(n, bs). n \<notin> set skipped) (cs_candidates st);
          upserts = concat (map snd candidates);
          gone = filter (stale (map bl_name upserts) skipped) existing
      in case resolve_ownership s (cs_own_claims st) skipped of
          None \<Rightarrow> None
        | Some owners \<Rightarrow> Some \<lparr>
            pl_upserts = sort_key bl_name upserts,
            pl_prunes = sort (map bl_name gone),
            pl_orphans = List.map_filter (orphan_finding s assignments) gone,
            pl_ownership = owners,
            pl_memberships = filter_memberships (cs_memberships st) skipped,
            pl_deltas = sort_key ad_assignment (cs_deltas st),
            pl_errors = cs_errors st @ poisoned\<rparr>)"

definition prior_by_name :: "baseline list \<Rightarrow> baseline gomap" where
  "prior_by_name existing = fold (\<lambda>b. aput (bl_name b) b) existing []"

definition compile :: "clib \<Rightarrow> cstore \<Rightarrow> rat \<Rightarrow> resolver option \<Rightarrow> plan_out option" where
  "compile L s max_delta resolver =
     (let max_delta = (if max_delta \<le> 0 then default_max_delta else max_delta) in
      case list_assignments s of
        None \<Rightarrow> None
      | Some assignments \<Rightarrow>
          (case list_baselines s of
             None \<Rightarrow> None
           | Some existing \<Rightarrow>
               (case fold_opt (compile_assignment L s max_delta (prior_by_name existing) resolver) assignments start_state of
                  None \<Rightarrow> None
                | Some st \<Rightarrow> assemble_plan s assignments existing st)))"

section \<open>Apply\<close>

datatype store_write =
    RegisterFacetOwner facet_owner
  | UpsertBaseline baseline
  | WriteOrphanFinding orphan
  | DeleteBaseline string
  | PutAssignmentMembership membership
  | DeleteAssignmentMembership string

datatype write_answer = Written | OwnerConflict | NotFound | WriteFailed

datatype apply_error =
    PlanError string comp_error
  | CannotClaim facet_owner
  | WriteError store_write

definition owners_blocked :: "(store_write \<Rightarrow> write_answer) \<Rightarrow> facet_owner list \<Rightarrow> string list" where
  "owners_blocked ans owners = map fo_namespace (filter (\<lambda>o'. ans (RegisterFacetOwner o') = OwnerConflict) owners)"

definition ownership_blocked :: "baseline \<Rightarrow> string list \<Rightarrow> bool" where
  "ownership_blocked b blocked = list_ex (\<lambda>e. fe_namespace e \<in> set blocked) (bl_expected b)"

definition trim_target :: "string \<Rightarrow> string" where
  "trim_target target = (case cut_prefix ''assignment:'' target of Some (c # r) \<Rightarrow> c # r | _ \<Rightarrow> target)"

text \<open>\<open>Plan.Apply\<close>: the writes in their order and the errors; \<open>ans\<close> is what the store answers to each write.\<close>

definition apply_writes :: "(store_write \<Rightarrow> write_answer) \<Rightarrow> plan_out \<Rightarrow> store_write list" where
  "apply_writes ans p =
     map RegisterFacetOwner (pl_ownership p) @
     map UpsertBaseline (filter (\<lambda>b. \<not> ownership_blocked b (owners_blocked ans (pl_ownership p))) (pl_upserts p)) @
     map WriteOrphanFinding (pl_orphans p) @
     map DeleteBaseline (pl_prunes p) @
     map PutAssignmentMembership (pl_memberships p) @
     map (\<lambda>o'. DeleteAssignmentMembership (trim_target (or_target o'))) (pl_orphans p)"

definition write_error :: "(store_write \<Rightarrow> write_answer) \<Rightarrow> store_write \<Rightarrow> apply_error option" where
  "write_error ans w =
     (case w of
        RegisterFacetOwner o' \<Rightarrow>
          (case ans w of Written \<Rightarrow> None | OwnerConflict \<Rightarrow> Some (CannotClaim o') | _ \<Rightarrow> Some (WriteError w))
      | DeleteBaseline n \<Rightarrow> if ans w = Written \<or> ans w = NotFound then None else Some (WriteError w)
      | DeleteAssignmentMembership n \<Rightarrow> None
      | _ \<Rightarrow> if ans w = Written then None else Some (WriteError w))"

definition apply_plan :: "(store_write \<Rightarrow> write_answer) \<Rightarrow> plan_out \<Rightarrow> store_write list \<times> apply_error list" where
  "apply_plan ans p = (apply_writes ans p,
     map (\<lambda>(a, e). PlanError a e) (pl_errors p) @ List.map_filter (write_error ans) (apply_writes ans p))"

end
