(* ===== verification/CompilerPlan.thy ===== *)
theory CompilerPlan
  imports Compiler
begin

text \<open>
  What a compile pass of the theory \<open>Compiler\<close> guarantees.  Two invariants of the loop over the Assignments (every
  candidate row is backed by one claim per Entity its selector resolves to; every name is skipped or has its membership)
  give the anti-GPO axiom, all-or-nothing per Assignment and the orphan Findings; a third, that every settled
  Assignment is within its gates and realises its Blueprint's routes, gives the gates and the refinement.
\<close>

section \<open>What the routes leave\<close>

text \<open>A Baseline and the claims of the pass that back it: one per Entity its own selector resolves to.\<close>

definition claim_on :: "string \<Rightarrow> facet_expectation \<Rightarrow> string \<Rightarrow> string \<Rightarrow> claim_record" where
  "claim_on n e c x = \<lparr>cl_namespace = fe_namespace e, cl_qualifier = fe_qualifier e, cl_entity_id = x, cl_claim = c,
     cl_assignment = n\<rparr>"

definition backed :: "cstore \<Rightarrow> string \<Rightarrow> claim_record list \<Rightarrow> baseline \<Rightarrow> bool" where
  "backed s n claims b \<longleftrightarrow> (\<exists>sel e ids co. bl_selector b = Some sel \<and> bl_expected b = [e] \<and>
     resolve_ids s sel = Some ids \<and> bl_compiled_from b = Some co \<and> co_assignment co = n \<and>
     (\<forall>x \<in> set ids. claim_on n e (bl_claim b) x \<in> set claims))"

lemma backed_mono: "backed s n claims b \<Longrightarrow> set claims \<subseteq> set claims' \<Longrightarrow> backed s n claims' b"
  unfolding backed_def by blast

lemma compiled_baseline_fields [simp]:
  "bl_selector (compiled_baseline a bp intent i view route e layers rem remv) = Some (route_selector (vw_selector view) route)"
  "bl_expected (compiled_baseline a bp intent i view route e layers rem remv) = [e]"
  "bl_claim (compiled_baseline a bp intent i view route e layers rem remv) = br_claim route"
  "bl_name (compiled_baseline a bp intent i view route e layers rem remv) = CompiledName (as_name a) (bp_name bp) (bp_version bp) i"
  by (simp_all add: compiled_baseline_def)

lemma compiled_baseline_origin [simp]:
  "\<exists>co. bl_compiled_from (compiled_baseline a bp intent i view route e layers rem remv) = Some co \<and> co_assignment co = as_name a"
  by (simp add: compiled_baseline_def)

lemma run_route_backed:
  assumes "run_route L s a bp intent view spec layers remv i route rs = Some rs'"
    and "\<forall>b \<in> set (rs_baselines rs). backed s (as_name a) (rs_claims rs) b"
  shows "\<forall>b \<in> set (rs_baselines rs'). backed s (as_name a) (rs_claims rs') b"
proof -
  consider "rs_baselines rs' = rs_baselines rs" "rs_claims rs' = rs_claims rs"
    | e rem hits where "resolve_ids s (route_selector (vw_selector view) route) = Some hits"
      "rs_baselines rs' = rs_baselines rs @ [compiled_baseline a bp intent i view route e layers rem remv]"
      "rs_claims rs' = rs_claims rs @ map (claim_on (as_name a) e (br_claim route)) hits"
    using assms(1) by (auto simp: run_route_def route_match_def Let_def claim_on_def [abs_def]
        split: option.splits sum.splits if_splits)
  then show ?thesis
  proof cases
    case 1
    with assms(2) show ?thesis by simp
  next
    case 2
    obtain co where co: "bl_compiled_from (compiled_baseline a bp intent i view route e layers rem remv) = Some co"
        "co_assignment co = as_name a" using compiled_baseline_origin by blast
    have "backed s (as_name a) (rs_claims rs') (compiled_baseline a bp intent i view route e layers rem remv)"
      unfolding backed_def using 2 co by auto
    moreover have "backed s (as_name a) (rs_claims rs') b" if "b \<in> set (rs_baselines rs)" for b
      using assms(2) that 2(3) by (auto intro: backed_mono)
    ultimately show ?thesis using 2(2) by auto
  qed
qed

lemma run_routes_backed:
  "run_routes L s a bp intent view spec layers remv rts rs = Some rs' \<Longrightarrow>
     \<forall>b \<in> set (rs_baselines rs). backed s (as_name a) (rs_claims rs) b \<Longrightarrow>
     \<forall>b \<in> set (rs_baselines rs'). backed s (as_name a) (rs_claims rs') b"
proof (induction L s a bp intent view spec layers remv rts rs rule: run_routes.induct)
  case (2 L s a bp intent view spec layers remv i route rest rs)
  then show ?case by (auto split: if_splits option.splits dest: run_route_backed)
qed simp

section \<open>The pass over the Assignments\<close>

lemma fold_opt_induct:
  assumes "fold_opt f xs st = Some st'" and "P [] st"
    and "\<And>ys x zs st st'. xs = ys @ x # zs \<Longrightarrow> P ys st \<Longrightarrow> f x st = Some st' \<Longrightarrow> P (ys @ [x]) st'"
  shows "P xs st'"
proof -
  have *: "fold_opt f zs st = Some st' \<Longrightarrow> xs = ys @ zs \<Longrightarrow> P ys st \<Longrightarrow> P xs st'" for ys zs st
  proof (induction zs arbitrary: ys st)
    case (Cons z zs)
    then obtain mid where "f z st = Some mid" "fold_opt f zs mid = Some st'" by (auto split: option.splits)
    with Cons.IH [of mid "ys @ [z]"] Cons.prems assms(3) show ?case by simp
  qed simp
  show ?thesis by (rule * [OF assms(1) _ assms(2)]) simp
qed

lemma candidates_of_aput:
  "candidates_of (st\<lparr>cs_candidates := aput n bs (cs_candidates st)\<rparr>) m = (if m = n then bs else candidates_of st m)"
  by (simp add: candidates_of_def map_of_aput)

lemma candidates_add_routes:
  "candidates_of (add_routes a rs st) n = (if n = as_name a then candidates_of st n @ rs_baselines rs else candidates_of st n)"
  by (auto simp: add_routes_def candidates_of_def map_of_aput)

lemma skip_fields [simp]:
  "cs_candidates (skip_error a e d st) = cs_candidates st" "cs_claims (skip_error a e d st) = cs_claims st"
  "cs_memberships (skip_error a e d st) = cs_memberships st" "cs_skipped (skip_error a e d st) = as_name a # cs_skipped st"
  "cs_candidates (skip_paused a c d st) = cs_candidates st" "cs_claims (skip_paused a c d st) = cs_claims st"
  "cs_memberships (skip_paused a c d st) = cs_memberships st" "cs_skipped (skip_paused a c d st) = as_name a # cs_skipped st"
  "candidates_of (skip_error a e d st) = candidates_of st" "candidates_of (skip_paused a c d st) = candidates_of st"
  by (simp_all add: skip_error_def skip_paused_def candidates_of_def [abs_def])

lemma settle_fields [simp]:
  "cs_candidates (settle eff prior a members prev rs d st) = cs_candidates st"
  "cs_claims (settle eff prior a members prev rs d st) = cs_claims st"
  by (simp_all add: settle_def Let_def split: prod.split)

lemma add_routes_fields [simp]:
  "cs_skipped (add_routes a rs st) = cs_skipped st" "cs_memberships (add_routes a rs st) = cs_memberships st"
  "cs_claims (add_routes a rs st) = cs_claims st @ rs_claims rs"
  by (simp_all add: add_routes_def)

text \<open>Every step of the pass is one of three: a skip, a delta only, or the routes and then a skip or the settlement.\<close>

lemma compile_assignment_cases:
  assumes "compile_assignment L s md prior resolver a st = Some st'"
  obtains (skip) e d where "st' = skip_error a e d st"
    | (pause) c d where "st' = skip_paused a c d st"
    | (again) d where "as_name a \<in> set (cs_skipped st)" "st' = st\<lparr>cs_deltas := cs_deltas st @ [d]\<rparr>"
    | (broken) bp intent view spec layers remv rs e d where
        "run_routes L s a bp intent view spec layers remv (List.enumerate 0 (bp_routes bp)) no_routes = Some rs"
        "st' = skip_error a e d (add_routes a rs st)"
    | (settled) bp intent view spec layers remv rs prev had members d where
        "validate_refs s a resolver = Inr (bp, intent)" "get_view s (as_view a) = Some view"
        "resolve_ids s (vw_selector view) = Some members" "get_membership s (as_name a) = Some (prev, had)"
        "\<not> membership_held (effective_max_delta md a) a prev had
           (int (length (fst (diff_ids (am_entity_ids prev) members)) + length (snd (diff_ids (am_entity_ids prev) members))))"
        "as_name a \<notin> set (cs_skipped st)" "prepare L s bp intent a = Inr (spec, layers, remv)"
        "run_routes L s a bp intent view spec layers remv (List.enumerate 0 (bp_routes bp)) no_routes = Some rs"
        "rs_error rs = None"
        "st' = settle (effective_max_delta md a) prior a members prev rs d (add_routes a rs st)"
  using assms
  by (auto simp: compile_assignment_def compile_routes_def Let_def split: sum.splits option.splits prod.splits if_splits)

text \<open>The two invariants of the pass over the Assignments done so far: candidates are backed by claims, names are accounted for.\<close>

definition all_backed :: "cstore \<Rightarrow> cstate \<Rightarrow> bool" where
  "all_backed s st \<longleftrightarrow> (\<forall>n bs. map_of (cs_candidates st) n = Some bs \<longrightarrow> (\<forall>b \<in> set bs. backed s n (cs_claims st) b))"

definition accounted :: "string set \<Rightarrow> cstate \<Rightarrow> bool" where
  "accounted N st \<longleftrightarrow> distinct (keys (cs_candidates st)) \<and> set (keys (cs_candidates st)) \<subseteq> N \<and>
     set (cs_skipped st) \<subseteq> N \<and> N \<subseteq> set (cs_skipped st) \<union> am_assignment ` set (cs_memberships st)"

definition claims_named :: "string set \<Rightarrow> cstate \<Rightarrow> bool" where
  "claims_named N st \<longleftrightarrow> cl_assignment ` set (cs_claims st) \<subseteq> N"

lemma all_backed_cong:
  "all_backed s st \<Longrightarrow> cs_candidates st' = cs_candidates st \<Longrightarrow> cs_claims st' = cs_claims st \<Longrightarrow> all_backed s st'"
  by (simp add: all_backed_def)

lemma grow_sets:
  "K \<subseteq> N \<Longrightarrow> S \<subseteq> N \<Longrightarrow> N \<subseteq> S \<union> M \<Longrightarrow> K' \<subseteq> insert a K \<Longrightarrow> S \<subseteq> S' \<Longrightarrow> S' \<subseteq> insert a S \<Longrightarrow> M \<subseteq> M' \<Longrightarrow>
     a \<in> S' \<union> M' \<Longrightarrow> K' \<subseteq> insert a N \<and> S' \<subseteq> insert a N \<and> insert a N \<subseteq> S' \<union> M'"
  by blast

lemma accounted_grow:
  assumes "accounted N st" "distinct (keys (cs_candidates st'))"
    and "set (keys (cs_candidates st')) \<subseteq> insert n (set (keys (cs_candidates st)))"
    and "set (cs_skipped st) \<subseteq> set (cs_skipped st')" "set (cs_skipped st') \<subseteq> insert n (set (cs_skipped st))"
    and "set (cs_memberships st) \<subseteq> set (cs_memberships st')"
    and "n \<in> set (cs_skipped st') \<union> am_assignment ` set (cs_memberships st')"
  shows "accounted (insert n N) st'"
  using assms(2) grow_sets [OF _ _ _ assms(3-5) image_mono [OF assms(6)] assms(7), of N] assms(1)
  unfolding accounted_def by blast

lemma add_routes_keys:
  "set (keys (cs_candidates (add_routes a rs st))) \<subseteq> insert (as_name a) (set (keys (cs_candidates st)))"
  "distinct (keys (cs_candidates st)) \<Longrightarrow> distinct (keys (cs_candidates (add_routes a rs st)))"
  by (auto simp: add_routes_def distinct_aput)

lemma add_routes_backed:
  assumes "all_backed s st"
    and "run_routes L s a bp intent view spec layers remv rts no_routes = Some rs"
  shows "all_backed s (add_routes a rs st)"
proof -
  have new: "\<forall>b \<in> set (rs_baselines rs). backed s (as_name a) (cs_claims st @ rs_claims rs) b"
    using run_routes_backed [OF assms(2)] by (auto simp: no_routes_def intro: backed_mono)
  have old: "\<forall>b \<in> set bs. backed s n (cs_claims st @ rs_claims rs) b" if "map_of (cs_candidates st) n = Some bs" for n bs
  proof
    fix b assume "b \<in> set bs"
    with assms(1) that have "backed s n (cs_claims st) b" unfolding all_backed_def by simp
    then show "backed s n (cs_claims st @ rs_claims rs) b" by (rule backed_mono) simp
  qed
  have cand: "\<forall>b \<in> set (candidates_of st (as_name a)). backed s (as_name a) (cs_claims st @ rs_claims rs) b"
    using old [of "as_name a"] by (cases "map_of (cs_candidates st) (as_name a)") (simp_all add: candidates_of_def)
  have "\<forall>b \<in> set bs. backed s n (cs_claims st @ rs_claims rs) b"
    if "map_of (cs_candidates (add_routes a rs st)) n = Some bs" for n bs
  proof (cases "n = as_name a \<and> rs_baselines rs \<noteq> []")
    case True
    with that have "bs = candidates_of st (as_name a) @ rs_baselines rs" by (simp add: add_routes_def map_of_aput)
    with True new cand show ?thesis by auto
  next
    case False
    with that have "map_of (cs_candidates st) n = Some bs" by (auto simp: add_routes_def map_of_aput split: if_splits)
    then show ?thesis by (rule old)
  qed
  then show ?thesis by (simp add: all_backed_def)
qed

lemma settle_shape:
  "set (cs_skipped st) \<subseteq> set (cs_skipped (settle eff prior a members prev rs d st))"
  "set (cs_skipped (settle eff prior a members prev rs d st)) \<subseteq> insert (as_name a) (set (cs_skipped st))"
  "set (cs_memberships st) \<subseteq> set (cs_memberships (settle eff prior a members prev rs d st))"
  "as_name a \<in> set (cs_skipped (settle eff prior a members prev rs d st)) \<union>
     am_assignment ` set (cs_memberships (settle eff prior a members prev rs d st))"
  by (auto simp: settle_def Let_def skip_paused_def split: prod.splits)

lemma backed_step:
  assumes inv: "all_backed s st" and step: "compile_assignment L s md prior resolver a st = Some st'"
  shows "all_backed s st'"
  using step
proof (cases rule: compile_assignment_cases)
  case (broken bp intent view spec layers remv rs e d)
  show ?thesis by (rule all_backed_cong [OF add_routes_backed [OF inv broken(1)]]) (simp_all add: broken(2))
next
  case (settled bp intent view spec layers remv rs prev had members d)
  show ?thesis by (rule all_backed_cong [OF add_routes_backed [OF inv settled(8)]]) (simp_all add: settled(10))
qed (auto intro: all_backed_cong [OF inv])

lemma accounted_step:
  assumes inv: "accounted N st" and step: "compile_assignment L s md prior resolver a st = Some st'"
  shows "accounted (insert (as_name a) N) st'"
proof -
  have d: "distinct (keys (cs_candidates st))" using inv by (simp add: accounted_def)
  show ?thesis using step
  proof (cases rule: compile_assignment_cases)
    case (broken bp intent view spec layers remv rs e d)
    show ?thesis unfolding broken(2)
      by (rule accounted_grow [OF inv]) (use add_routes_keys d in \<open>auto simp del: set_map\<close>)
  next
    case (settled bp intent view spec layers remv rs prev had members d)
    show ?thesis unfolding settled(10)
      by (rule accounted_grow [OF inv])
        (use add_routes_keys d settle_shape [where st = "add_routes a rs st"] in \<open>simp_all del: set_map\<close>)
  qed (auto intro!: accounted_grow [OF inv] d)
qed

lemma run_routes_named:
  "run_routes L s a bp intent view spec layers remv rts rs = Some rs' \<Longrightarrow>
     \<forall>c \<in> set (rs_claims rs). cl_assignment c = as_name a \<Longrightarrow> \<forall>c \<in> set (rs_claims rs'). cl_assignment c = as_name a"
proof (induction L s a bp intent view spec layers remv rts rs rule: run_routes.induct)
  case (2 L s a bp intent view spec layers remv i route rest rs)
  have "\<forall>c \<in> set (rs_claims rs1). cl_assignment c = as_name a"
    if "run_route L s a bp intent view spec layers remv i route rs = Some rs1" for rs1
    using that 2(3) by (auto simp: run_route_def Let_def split: option.splits sum.splits if_splits)
  with 2 show ?case by (auto split: if_splits option.splits)
qed simp

lemma claims_named_step:
  assumes inv: "claims_named N st" and step: "compile_assignment L s md prior resolver a st = Some st'"
  shows "claims_named (insert (as_name a) N) st'"
  using step
proof (cases rule: compile_assignment_cases)
  case (broken bp intent view spec layers remv rs e d)
  with run_routes_named [OF broken(1)] inv show ?thesis by (auto simp: claims_named_def no_routes_def)
next
  case (settled bp intent view spec layers remv rs prev had members d)
  with run_routes_named [OF settled(8)] inv show ?thesis by (auto simp: claims_named_def no_routes_def)
qed (use inv in \<open>auto simp: claims_named_def\<close>)

lemma pass_claims_named:
  "fold_opt (compile_assignment L s md prior resolver) assignments start_state = Some st \<Longrightarrow>
     claims_named (as_name ` set assignments) st"
proof (rule fold_opt_induct [where P = "\<lambda>done st. claims_named (as_name ` set done) st"])
  show "claims_named (as_name ` set []) start_state" by (simp add: claims_named_def start_state_def)
next
  fix ys zs :: "assignment list" and x st st'
  assume "claims_named (as_name ` set ys) st" "compile_assignment L s md prior resolver x st = Some st'"
  from claims_named_step [OF this] show "claims_named (as_name ` set (ys @ [x])) st'" by simp
qed

lemma pass_invariant:
  "fold_opt (compile_assignment L s md prior resolver) assignments start_state = Some st \<Longrightarrow>
     all_backed s st \<and> accounted (as_name ` set assignments) st"
proof (rule fold_opt_induct [where P = "\<lambda>done st. all_backed s st \<and> accounted (as_name ` set done) st"])
  show "all_backed s start_state \<and> accounted (as_name ` set []) start_state"
    by (simp add: all_backed_def accounted_def start_state_def)
next
  fix ys zs :: "assignment list" and x st st'
  assume inv: "all_backed s st \<and> accounted (as_name ` set ys) st"
    and step: "compile_assignment L s md prior resolver x st = Some st'"
  show "all_backed s st' \<and> accounted (as_name ` set (ys @ [x])) st'"
    using backed_step [OF conjunct1 [OF inv] step] accounted_step [OF conjunct2 [OF inv] step] by simp
qed

section \<open>Conflicts\<close>

definition live :: "string list \<Rightarrow> claim_record list \<Rightarrow> claim_key \<Rightarrow> string set" where
  "live skipped claims k = {cl_assignment c | c. c \<in> set claims \<and> cl_assignment c \<notin> set skipped \<and>
     cl_claim c = ClaimExclusive \<and> claim_key_of c = k}"

definition held_by :: "(claim_key \<times> string list) list \<Rightarrow> claim_key \<Rightarrow> string list" where
  "held_by m k = (case map_of m k of None \<Rightarrow> [] | Some ns \<Rightarrow> ns)"

lemma held_empty [simp]: "held_by [] k = []"
  by (simp add: held_by_def)

lemma held_by_add_claim:
  "held_by (add_claim skipped c m) k =
     (if cl_assignment c \<notin> set skipped \<and> cl_claim c = ClaimExclusive \<and> claim_key_of c = k \<and> cl_assignment c \<notin> set (held_by m k)
      then held_by m k @ [cl_assignment c] else held_by m k)"
  by (auto simp: held_by_def add_claim_def Let_def map_of_aput split: option.splits)

lemma add_claims:
  "distinct (keys m) \<Longrightarrow> (\<And>k. distinct (held_by m k)) \<Longrightarrow>
    distinct (keys (fold (add_claim skipped) claims m)) \<and>
    distinct (held_by (fold (add_claim skipped) claims m) k) \<and>
    set (held_by (fold (add_claim skipped) claims m) k) = set (held_by m k) \<union> live skipped claims k"
proof (induction claims arbitrary: m)
  case Nil
  then show ?case by (simp add: live_def)
next
  case (Cons c claims)
  have d: "distinct (keys (add_claim skipped c m))"
    using Cons.prems(1) by (simp add: add_claim_def Let_def distinct_aput)
  have h: "distinct (held_by (add_claim skipped c m) k)" for k
    using Cons.prems(2) [of k] by (simp add: held_by_add_claim)
  have "live skipped (c # claims) k = live skipped claims k \<union>
      (if cl_assignment c \<notin> set skipped \<and> cl_claim c = ClaimExclusive \<and> claim_key_of c = k then {cl_assignment c} else {})"
    by (auto simp: live_def)
  with Cons.IH [OF d h] show ?case by (auto simp: held_by_add_claim)
qed

lemma poison_names:
  "set (keys (fold (\<lambda>a m. if a \<in> set (keys m) then m else aput a e m) ns msgs)) = set ns \<union> set (keys msgs)"
proof (induction ns arbitrary: msgs)
  case (Cons n ns)
  have "set (keys (if n \<in> set (keys msgs) then msgs else aput n e msgs)) = insert n (set (keys msgs))" by auto
  with Cons show ?case by simp
qed simp

lemma poison_key_keys:
  "set (keys (poison_key (k, asgs) msgs)) = (if length asgs < 2 then {} else set asgs) \<union> set (keys msgs)"
  by (cases k) (simp add: poison_key_def poison_names del: set_map)

lemma poison_keys:
  "set (keys (fold poison_key m msgs)) = (\<Union>(k, asgs) \<in> set m. if length asgs < 2 then {} else set asgs) \<union> set (keys msgs)"
proof (induction m arbitrary: msgs)
  case (Cons e m)
  obtain k asgs where "e = (k, asgs)" by fastforce
  with Cons poison_key_keys [of k asgs msgs] show ?case by (auto simp del: set_map)
qed simp

lemma two_in_distinct: "distinct xs \<Longrightarrow> \<not> length xs < 2 \<longleftrightarrow> (\<exists>a b. a \<in> set xs \<and> b \<in> set xs \<and> a \<noteq> b)"
  by (cases xs; cases "tl xs") auto

lemma poisoned_iff:
  "a \<in> fst ` set (detect_claim_conflicts claims skipped) \<longleftrightarrow>
     (\<exists>k b. a \<in> live skipped claims k \<and> b \<in> live skipped claims k \<and> a \<noteq> b)"
proof -
  let ?m = "fold (add_claim skipped) claims []"
  have m: "distinct (keys ?m) \<and> distinct (held_by ?m k) \<and> set (held_by ?m k) = live skipped claims k" for k
    using add_claims [of "[]" skipped claims k] by (simp add: held_empty)
  have e: "(k, asgs) \<in> set ?m \<Longrightarrow> held_by ?m k = asgs" for k asgs
    using m [of k] map_of_is_SomeI [of ?m k asgs] by (simp only: held_by_def option.case)
  have "fst ` set (detect_claim_conflicts claims skipped) = (\<Union>(k, asgs) \<in> set ?m. if length asgs < 2 then {} else set asgs)"
    using poison_keys [of ?m "[]"] by (simp add: detect_claim_conflicts_def)
  also have "\<dots> = {a. \<exists>k b. a \<in> live skipped claims k \<and> b \<in> live skipped claims k \<and> a \<noteq> b}"
  proof (intro set_eqI iffI)
    fix x assume "x \<in> (\<Union>(k, asgs) \<in> set ?m. if length asgs < 2 then {} else set asgs)"
    then obtain k asgs where k: "(k, asgs) \<in> set ?m" "\<not> length asgs < 2" "x \<in> set asgs" by (auto split: if_splits)
    with m [of k] e [OF k(1)] have "distinct asgs" "set asgs = live skipped claims k" by auto
    moreover from two_in_distinct [OF this(1)] k(2) obtain b where "b \<in> set asgs" "b \<noteq> x" by metis
    ultimately show "x \<in> {a. \<exists>k b. a \<in> live skipped claims k \<and> b \<in> live skipped claims k \<and> a \<noteq> b}"
      using k(3) by blast
  next
    fix x assume "x \<in> {a. \<exists>k b. a \<in> live skipped claims k \<and> b \<in> live skipped claims k \<and> a \<noteq> b}"
    then obtain k b where k: "x \<in> live skipped claims k" "b \<in> live skipped claims k" "x \<noteq> b" by blast
    then have h: "x \<in> set (held_by ?m k)" "b \<in> set (held_by ?m k)" using m by auto
    then obtain asgs where "map_of ?m k = Some asgs" by (cases "map_of ?m k") (simp_all add: held_by_def)
    with h have "(k, asgs) \<in> set ?m" "x \<in> set asgs" "b \<in> set asgs" by (auto simp: held_by_def dest: map_of_SomeD)
    moreover have "\<not> length asgs < 2"
      using two_in_distinct [of asgs] m [of k] e [OF calculation(1)] calculation(2,3) k(3) by blast
    ultimately show "x \<in> (\<Union>(k, asgs) \<in> set ?m. if length asgs < 2 then {} else set asgs)"
      by (intro UN_I [of "(k, asgs)"]) simp_all
  qed
  finally show ?thesis by auto
qed

section \<open>The assembled plan\<close>

text \<open>The names kept out of the plan, and the Baselines that go into it.\<close>

definition kept_out :: "cstate \<Rightarrow> string list" where
  "kept_out st = map fst (detect_claim_conflicts (cs_claims st) (cs_skipped st)) @ cs_skipped st"

definition upserts_of :: "cstate \<Rightarrow> baseline list" where
  "upserts_of st = concat (map snd (filter (\<lambda>(n, bs). n \<notin> set (kept_out st)) (cs_candidates st)))"

definition from_assignment :: "string \<Rightarrow> baseline \<Rightarrow> bool" where
  "from_assignment n b \<longleftrightarrow> (case bl_compiled_from b of None \<Rightarrow> False | Some co \<Rightarrow> co_assignment co = n)"

lemma compile_parts:
  assumes "compile L s md resolver = Some p"
  obtains assignments existing st owners where
    "list_assignments s = Some assignments" "list_baselines s = Some existing"
    "fold_opt (compile_assignment L s (if md \<le> 0 then default_max_delta else md) (prior_by_name existing) resolver)
       assignments start_state = Some st"
    "pl_upserts p = sort_key bl_name (upserts_of st)"
    "pl_prunes p = sort (map bl_name (filter (stale (map bl_name (upserts_of st)) (kept_out st)) existing))"
    "pl_orphans p = List.map_filter (orphan_finding s assignments)
       (filter (stale (map bl_name (upserts_of st)) (kept_out st)) existing)"
    "pl_memberships p = filter_memberships (cs_memberships st) (kept_out st)"
  using assms
  by (auto simp: compile_def assemble_plan_def Let_def kept_out_def upserts_of_def split: option.splits)

lemma upsert_backed:
  assumes "all_backed s st" "distinct (keys (cs_candidates st))" "b \<in> set (upserts_of st)"
  obtains n where "n \<notin> set (kept_out st)" "n \<in> set (keys (cs_candidates st))" "backed s n (cs_claims st) b"
proof -
  from assms(3) obtain n bs where n: "(n, bs) \<in> set (cs_candidates st)" "n \<notin> set (kept_out st)" "b \<in> set bs"
    by (auto simp: upserts_of_def)
  with assms(2) have "map_of (cs_candidates st) n = Some bs" by simp
  with assms(1) n have "backed s n (cs_claims st) b" unfolding all_backed_def by blast
  moreover have "n \<in> set (keys (cs_candidates st))" using n(1) by force
  ultimately show thesis using n(2) that by blast
qed

lemma backed_origin: "backed s n claims b \<Longrightarrow> from_assignment m b \<longleftrightarrow> m = n"
  by (auto simp: backed_def from_assignment_def)

lemma in_pl_upserts: "pl_upserts p = sort_key bl_name (upserts_of st) \<Longrightarrow> b \<in> set (pl_upserts p) \<longleftrightarrow> b \<in> set (upserts_of st)"
  by simp

lemma backed_live:
  assumes "backed s n claims b" "bl_claim b = ClaimExclusive" "bl_expected b = [e]" "bl_selector b = Some sel"
    and "resolve_ids s sel = Some ids" "x \<in> set ids" "n \<notin> set skipped"
  shows "n \<in> live skipped claims (fe_namespace e, fe_qualifier e, x)"
proof -
  have "claim_on n e ClaimExclusive x \<in> set claims"
    using assms(1-6) unfolding backed_def by fastforce
  then show ?thesis using assms(7)
    by (auto simp: live_def claim_on_def claim_key_of_def intro!: exI [of _ "claim_on n e ClaimExclusive x"])
qed

text \<open>
  No implicit precedence: of two Baselines a plan writes for different Assignments, both claiming the same
  namespace and qualifier exclusively, the selectors resolve to disjoint sets of Entities.
\<close>

theorem compile_exclusive_claims:
  assumes "compile L s md resolver = Some p"
    and "b \<in> set (pl_upserts p)" "b' \<in> set (pl_upserts p)"
    and "from_assignment n b" "from_assignment n' b'" "n \<noteq> n'"
    and "bl_claim b = ClaimExclusive" "bl_claim b' = ClaimExclusive"
    and "bl_expected b = [e]" "bl_expected b' = [e']" "fe_namespace e = fe_namespace e'" "fe_qualifier e = fe_qualifier e'"
  shows "\<exists>sel sel' ids ids'. bl_selector b = Some sel \<and> bl_selector b' = Some sel' \<and>
     resolve_ids s sel = Some ids \<and> resolve_ids s sel' = Some ids' \<and> set ids \<inter> set ids' = {}"
proof -
  from assms(1) obtain st assignments existing where
      run: "fold_opt (compile_assignment L s (if md \<le> 0 then default_max_delta else md) (prior_by_name existing) resolver)
        assignments start_state = Some st" and up: "pl_upserts p = sort_key bl_name (upserts_of st)"
    by (rule compile_parts)
  from pass_invariant [OF run] have inv: "all_backed s st" "distinct (keys (cs_candidates st))"
    by (simp_all add: accounted_def)
  from assms(2) in_pl_upserts [OF up] upsert_backed [OF inv, of b] obtain m where
    m: "m \<notin> set (kept_out st)" "backed s m (cs_claims st) b" by metis
  from assms(3) in_pl_upserts [OF up] upsert_backed [OF inv, of b'] obtain m' where
    m': "m' \<notin> set (kept_out st)" "backed s m' (cs_claims st) b'" by metis
  have mn: "m = n" "m' = n'" using backed_origin [OF m(2), of n] backed_origin [OF m'(2), of n'] assms(4,5) by auto
  from m(2) obtain sel ids where s: "bl_selector b = Some sel" "resolve_ids s sel = Some ids" by (auto simp: backed_def)
  from m'(2) obtain sel' ids' where s': "bl_selector b' = Some sel'" "resolve_ids s sel' = Some ids'" by (auto simp: backed_def)
  have "x \<notin> set ids'" if "x \<in> set ids" for x
  proof
    assume "x \<in> set ids'"
    have sk: "m \<notin> set (cs_skipped st)" "m' \<notin> set (cs_skipped st)" using m(1) m'(1) by (auto simp: kept_out_def)
    have "m \<in> live (cs_skipped st) (cs_claims st) (fe_namespace e, fe_qualifier e, x)"
      by (rule backed_live [OF m(2) assms(7,9) s that sk(1)])
    moreover have "m' \<in> live (cs_skipped st) (cs_claims st) (fe_namespace e, fe_qualifier e, x)"
      using backed_live [OF m'(2) assms(8,10) s' \<open>x \<in> set ids'\<close> sk(2)] assms(11,12) by simp
    ultimately have "m \<in> fst ` set (detect_claim_conflicts (cs_claims st) (cs_skipped st))"
      using mn assms(6) by (subst poisoned_iff) blast
    then show False using m(1) by (simp add: kept_out_def)
  qed
  then have "set ids \<inter> set ids' = {}" by blast
  with s s' show ?thesis by blast
qed

lemma unsettled_kept_out:
  assumes "accounted N st" "n \<in> N" "n \<notin> am_assignment ` set (filter_memberships (cs_memberships st) (kept_out st))"
  shows "n \<in> set (kept_out st)"
proof (rule ccontr)
  assume out: "n \<notin> set (kept_out st)"
  then have "n \<notin> set (cs_skipped st)" by (simp add: kept_out_def)
  with assms(1,2) obtain m where "m \<in> set (cs_memberships st)" "am_assignment m = n" by (auto simp: accounted_def)
  with out assms(3) show False by (auto simp: filter_memberships_def)
qed

lemma named_once: "distinct (map bl_name bs) \<Longrightarrow> b \<in> set bs \<Longrightarrow> b' \<in> set bs \<Longrightarrow> bl_name b = bl_name b' \<Longrightarrow> b = b'"
  by (simp add: distinct_map inj_on_def)

text \<open>
  Never a partial apply: an Assignment whose compile failed, was paused by a gate or lost a claim (the plan
  persists no membership for it) has nothing written for it, and not one of its live Baselines is pruned.
\<close>

theorem compile_all_or_nothing:
  assumes "compile L s md resolver = Some p" "list_assignments s = Some assignments" "list_baselines s = Some existing"
    and "distinct (map bl_name existing)" "a \<in> set assignments"
    and "as_name a \<notin> am_assignment ` set (pl_memberships p)"
  shows "(\<forall>b \<in> set (pl_upserts p). \<not> from_assignment (as_name a) b) \<and>
     (\<forall>eb \<in> set existing. from_assignment (as_name a) eb \<longrightarrow> bl_name eb \<notin> set (pl_prunes p))"
proof -
  from assms(1-3) obtain st where
      run: "fold_opt (compile_assignment L s (if md \<le> 0 then default_max_delta else md) (prior_by_name existing) resolver)
        assignments start_state = Some st" and up: "pl_upserts p = sort_key bl_name (upserts_of st)"
      and pr: "pl_prunes p = sort (map bl_name (filter (stale (map bl_name (upserts_of st)) (kept_out st)) existing))"
      and ms: "pl_memberships p = filter_memberships (cs_memberships st) (kept_out st)"
    by (elim compile_parts) simp
  from pass_invariant [OF run] have inv: "all_backed s st" "distinct (keys (cs_candidates st))"
      and acc: "accounted (as_name ` set assignments) st"
    by (simp_all add: accounted_def)
  have out: "as_name a \<in> set (kept_out st)"
    by (rule unsettled_kept_out [OF acc]) (use assms(5,6) ms in simp_all)
  have "\<not> from_assignment (as_name a) b" if b: "b \<in> set (pl_upserts p)" for b
  proof -
    from b in_pl_upserts [OF up] upsert_backed [OF inv, of b] obtain m where
      "m \<notin> set (kept_out st)" "backed s m (cs_claims st) b" by metis
    with out backed_origin [of s m "cs_claims st" b "as_name a"] show ?thesis by auto
  qed
  moreover have "bl_name eb \<notin> set (pl_prunes p)" if eb: "eb \<in> set existing" "from_assignment (as_name a) eb" for eb
  proof
    assume "bl_name eb \<in> set (pl_prunes p)"
    then obtain eb' where "eb' \<in> set existing" "bl_name eb' = bl_name eb" "stale (map bl_name (upserts_of st)) (kept_out st) eb'"
      by (auto simp: pr)
    moreover from this named_once [OF assms(4)] eb(1) have "eb' = eb" by blast
    ultimately show False using eb(2) out by (auto simp: stale_def from_assignment_def split: option.splits)
  qed
  ultimately show ?thesis by blast
qed

lemma kept_out_named:
  assumes "accounted N st" "claims_named N st"
  shows "set (kept_out st) \<subseteq> N"
proof
  fix n assume n: "n \<in> set (kept_out st)"
  show "n \<in> N"
  proof (cases "n \<in> set (cs_skipped st)")
    case True
    then show ?thesis using assms(1) by (auto simp: accounted_def)
  next
    case False
    with n have "n \<in> fst ` set (detect_claim_conflicts (cs_claims st) (cs_skipped st))" by (simp add: kept_out_def)
    then obtain k where "n \<in> live (cs_skipped st) (cs_claims st) k" unfolding poisoned_iff by blast
    then show ?thesis using assms(2) by (auto simp: live_def claims_named_def)
  qed
qed

text \<open>
  Abandoned state is never silent, and only the compiler's own rows are touched: a hand-written Baseline is
  never pruned, and a live Baseline of an Assignment that is no longer declared is pruned together with an orphan
  Finding for it, which carries the withdrawal Workflow and the parameters stamped on that Baseline when the
  Intent and the Blueprint it was compiled from ask for one.
\<close>

theorem withdrawn_leaves_orphan:
  assumes "compile L s md resolver = Some p" "list_assignments s = Some assignments" "list_baselines s = Some existing"
    and "distinct (map bl_name existing)" "eb \<in> set existing" "bl_name eb \<notin> set (map bl_name (pl_upserts p))"
  shows "(bl_compiled_from eb = None \<longrightarrow> bl_name eb \<notin> set (pl_prunes p)) \<and>
     (\<forall>co. bl_compiled_from eb = Some co \<and> co_assignment co \<notin> set (map as_name assignments) \<longrightarrow>
        bl_name eb \<in> set (pl_prunes p) \<and> orphan_of s eb co \<in> set (pl_orphans p))"
proof -
  from assms(1-3) obtain st where
      run: "fold_opt (compile_assignment L s (if md \<le> 0 then default_max_delta else md) (prior_by_name existing) resolver)
        assignments start_state = Some st" and up: "pl_upserts p = sort_key bl_name (upserts_of st)"
      and pr: "pl_prunes p = sort (map bl_name (filter (stale (map bl_name (upserts_of st)) (kept_out st)) existing))"
      and orp: "pl_orphans p = List.map_filter (orphan_finding s assignments)
        (filter (stale (map bl_name (upserts_of st)) (kept_out st)) existing)"
    by (elim compile_parts) simp
  from pass_invariant [OF run] have acc: "accounted (as_name ` set assignments) st" ..
  have kept: "set (kept_out st) \<subseteq> as_name ` set assignments"
    by (rule kept_out_named [OF acc pass_claims_named [OF run]])
  have "bl_name eb \<notin> set (pl_prunes p)" if "bl_compiled_from eb = None"
  proof
    assume "bl_name eb \<in> set (pl_prunes p)"
    then obtain eb' where "eb' \<in> set existing" "bl_name eb' = bl_name eb" "stale (map bl_name (upserts_of st)) (kept_out st) eb'"
      by (auto simp: pr)
    moreover from this named_once [OF assms(4)] assms(5) have "eb' = eb" by blast
    ultimately show False using that by (auto simp: stale_def)
  qed
  moreover have "bl_name eb \<in> set (pl_prunes p) \<and> orphan_of s eb co \<in> set (pl_orphans p)"
    if "bl_compiled_from eb = Some co" "co_assignment co \<notin> set (map as_name assignments)" for co
  proof -
    have "stale (map bl_name (upserts_of st)) (kept_out st) eb"
      using that kept assms(6) by (auto simp: stale_def up)
    moreover have "orphan_finding s assignments eb = Some (orphan_of s eb co)"
      using that by (simp add: orphan_finding_def)
    ultimately show ?thesis unfolding pr orp using assms(5) by (auto simp: in_map_filter)
  qed
  ultimately show ?thesis by blast
qed

section \<open>The gates\<close>

definition change_count :: "baseline gomap \<Rightarrow> baseline list \<Rightarrow> int" where
  "change_count prior bs = int (length (fst (expectation_changes bs prior)))"

definition expectation_count :: "baseline list \<Rightarrow> int" where
  "expectation_count bs = int (sum_list (map (\<lambda>b. length (bl_expected b)) bs))"

lemma sum_list_mset: "mset xs = mset ys \<Longrightarrow> sum_list (map f xs) = (sum_list (map f ys) :: nat)"
  by (metis mset_map sum_mset_sum_list)

lemma change_count_sum:
  "change_count prior bs = int (sum_list (map (\<lambda>b. length (List.map_filter
     (expectation_change_of b (map_of prior (bl_name b))) (List.enumerate 0 (bl_expected b)))) bs))"
  by (simp add: change_count_def expectation_changes_def length_concat comp_def)

lemma change_count_mset: "mset bs = mset bs' \<Longrightarrow> change_count prior bs = change_count prior bs'"
  unfolding change_count_sum by (subst sum_list_mset, assumption, rule refl)

lemma expectation_count_mset: "mset bs = mset bs' \<Longrightarrow> expectation_count bs = expectation_count bs'"
  unfolding expectation_count_def by (subst sum_list_mset, assumption, rule refl)

text \<open>An unacknowledged Assignment stays within its fraction on both axes.\<close>

definition within_gates :: "cstore \<Rightarrow> rat \<Rightarrow> baseline gomap \<Rightarrow> assignment \<Rightarrow> membership \<Rightarrow> baseline list \<Rightarrow> bool" where
  "within_gates s md prior a m bs \<longleftrightarrow>
     (\<exists>prev had. get_membership s (as_name a) = Some (prev, had) \<and>
        am_acked_delta m = max (am_acked_delta prev) (as_ack_delta a) \<and>
        (as_ack_delta a \<le> am_acked_delta prev \<longrightarrow>
           (had \<and> am_member_count prev > 0 \<longrightarrow>
              \<not> exceeds_delta (am_member_count prev)
                 (int (length (fst (diff_ids (am_entity_ids prev) (am_entity_ids m))) +
                       length (snd (diff_ids (am_entity_ids prev) (am_entity_ids m))))) (effective_max_delta md a)) \<and>
           (change_count prior bs > 0 \<longrightarrow>
              \<not> exceeds_delta (expectation_count bs) (change_count prior bs) (effective_max_delta md a))))"

lemma within_gates_mset: "mset bs = mset bs' \<Longrightarrow> within_gates s md prior a m bs = within_gates s md prior a m bs'"
  unfolding within_gates_def by (simp only: change_count_mset [of bs bs'] expectation_count_mset [of bs bs'])

section \<open>The rows of an Assignment, read off its Blueprint\<close>

text \<open>
  What the rows of an Assignment should be, without the loop: one Baseline for each route whose selector resolves
  to some Entity, on the substituted expectation and params.
\<close>

definition route_row ::
  "clib \<Rightarrow> cstore \<Rightarrow> assignment \<Rightarrow> blueprint \<Rightarrow> intent_doc \<Rightarrow> view \<Rightarrow> jmap \<Rightarrow> provenance \<Rightarrow> jmap option \<Rightarrow>
     nat \<times> blueprint_route \<Rightarrow> baseline option" where
  "route_row L s a bp intent view spec layers remv = (\<lambda>(i, route).
     case route_match s (vw_selector view) route of
       None \<Rightarrow> None
     | Some hits \<Rightarrow>
         if hits = [] then None
         else (case (substitute_expectation L (br_observe route) spec, resolve_remediation_params L s route spec) of
             (Inr e, Inr rem) \<Rightarrow> Some (compiled_baseline a bp intent i view route e layers rem remv)
           | _ \<Rightarrow> None))"

definition realises :: "clib \<Rightarrow> cstore \<Rightarrow> resolver option \<Rightarrow> assignment \<Rightarrow> membership \<Rightarrow> baseline list \<Rightarrow> bool" where
  "realises L s resolver a m bs \<longleftrightarrow> (\<exists>bp intent view spec layers remv.
     validate_refs s a resolver = Inr (bp, intent) \<and> get_view s (as_view a) = Some view \<and>
     resolve_ids s (vw_selector view) = Some (am_entity_ids m) \<and> prepare L s bp intent a = Inr (spec, layers, remv) \<and>
     mset bs = mset (List.map_filter (route_row L s a bp intent view spec layers remv) (List.enumerate 0 (bp_routes bp))))"

lemma run_route_row:
  assumes "run_route L s a bp intent view spec layers remv i route rs = Some rs'" "rs_error rs' = None"
  shows "rs_error rs = None \<and> rs_baselines rs' = rs_baselines rs @
     (case route_row L s a bp intent view spec layers remv (i, route) of None \<Rightarrow> [] | Some b \<Rightarrow> [b])"
  using assms by (auto simp: run_route_def route_row_def Let_def split: option.splits sum.splits if_splits)

lemma run_routes_stop:
  "rs_error rs = Some e \<Longrightarrow> run_routes L s a bp intent view spec layers remv rts rs = Some rs' \<Longrightarrow> rs_error rs' = Some e"
  by (cases rts) auto

lemma run_routes_rows:
  "run_routes L s a bp intent view spec layers remv rts rs = Some rs' \<Longrightarrow> rs_error rs' = None \<Longrightarrow>
     rs_baselines rs' = rs_baselines rs @ List.map_filter (route_row L s a bp intent view spec layers remv) rts"
proof (induction L s a bp intent view spec layers remv rts rs rule: run_routes.induct)
  case (2 L s a bp intent view spec layers remv i route rest rs)
  have ok: "rs_error rs = None"
    using run_routes_stop [where rs = rs, OF _ 2(2)] 2(3) by (cases "rs_error rs") auto
  with 2(2) obtain mid where mid: "run_route L s a bp intent view spec layers remv i route rs = Some mid"
      "run_routes L s a bp intent view spec layers remv rest mid = Some rs'" by (auto split: option.splits)
  have "rs_error mid = None"
    using run_routes_stop [where rs = mid, OF _ mid(2)] 2(3) by (cases "rs_error mid") auto
  from run_route_row [OF mid(1) this] 2(1) [OF _ mid(1) mid(2) 2(3)] ok
  show ?case by (auto simp: map_filter_simps split: option.split)
qed (simp add: map_filter_simps)

section \<open>What every settled Assignment satisfies\<close>

definition settled_ok :: "clib \<Rightarrow> cstore \<Rightarrow> rat \<Rightarrow> baseline gomap \<Rightarrow> resolver option \<Rightarrow> assignment \<Rightarrow> membership \<Rightarrow> baseline list \<Rightarrow> bool" where
  "settled_ok L s md prior resolver a m bs \<longleftrightarrow> within_gates s md prior a m bs \<and> realises L s resolver a m bs"

lemma settled_ok_mset:
  "mset bs = mset bs' \<Longrightarrow> settled_ok L s md prior resolver a m bs = settled_ok L s md prior resolver a m bs'"
  unfolding settled_ok_def realises_def using within_gates_mset [of bs bs'] by simp

definition gated :: "(assignment \<Rightarrow> membership \<Rightarrow> baseline list \<Rightarrow> bool) \<Rightarrow> assignment list \<Rightarrow> cstate \<Rightarrow> bool" where
  "gated Q done st \<longleftrightarrow>
     (\<forall>m \<in> set (cs_memberships st). \<exists>a \<in> set done. am_assignment m = as_name a \<and> Q a m (candidates_of st (as_name a)))"

lemma gated_mono:
  assumes "gated Q done st" "set (cs_memberships st') = set (cs_memberships st)"
    and "\<And>x. x \<in> set done \<Longrightarrow> candidates_of st' (as_name x) = candidates_of st (as_name x)"
  shows "gated Q (done @ [a]) st'"
  unfolding gated_def
proof
  fix m assume "m \<in> set (cs_memberships st')"
  with assms(1,2) obtain x where "x \<in> set done" "am_assignment m = as_name x" "Q x m (candidates_of st (as_name x))"
    unfolding gated_def by blast
  with assms(3) show "\<exists>x \<in> set (done @ [a]). am_assignment m = as_name x \<and> Q x m (candidates_of st' (as_name x))" by auto
qed

lemma settle_gates:
  assumes "get_membership s (as_name a) = Some (prev, had)"
    and "\<not> membership_held (effective_max_delta md a) a prev had
           (int (length (fst (diff_ids (am_entity_ids prev) members)) + length (snd (diff_ids (am_entity_ids prev) members))))"
    and "m \<in> set (cs_memberships (settle (effective_max_delta md a) prior a members prev rs d st))"
  shows "m \<in> set (cs_memberships st) \<or>
    am_assignment m = as_name a \<and> am_entity_ids m = members \<and> within_gates s md prior a m (candidates_of st (as_name a))"
proof -
  obtain changes examined where c: "expectation_changes (candidates_of st (as_name a)) prior = (changes, examined)" by fastforce
  then have n: "change_count prior (candidates_of st (as_name a)) = int (length changes)"
      "expectation_count (candidates_of st (as_name a)) = examined"
    by (auto simp: change_count_def expectation_count_def expectation_changes_def)
  let ?m = "\<lparr>am_assignment = as_name a, am_entity_ids = members, am_member_count = int (length members),
    am_acked_delta = max (am_acked_delta prev) (as_ack_delta a)\<rparr>"
  from assms(3) c consider "m \<in> set (cs_memberships st)" | "m = ?m"
      "\<not> (examined > 0 \<and> changes \<noteq> [] \<and> exceeds_delta examined (int (length changes)) (effective_max_delta md a) \<and>
          as_ack_delta a \<le> am_acked_delta prev)"
    by (auto simp: settle_def Let_def skip_paused_def split: if_splits)
  then show ?thesis
  proof cases
    case 2
    have "examined \<ge> 0" using n(2) by (auto simp: expectation_count_def)
    then have "changes \<noteq> [] \<Longrightarrow> exceeds_delta examined (int (length changes)) (effective_max_delta md a) \<Longrightarrow> examined > 0"
      by (auto simp: exceeds_delta_def)
    with 2(2) have g: "as_ack_delta a \<le> am_acked_delta prev \<Longrightarrow> changes \<noteq> [] \<Longrightarrow>
        \<not> exceeds_delta examined (int (length changes)) (effective_max_delta md a)" by blast
    have "within_gates s md prior a m (candidates_of st (as_name a))"
      unfolding within_gates_def n using assms(1,2) g by (auto simp: 2(1) membership_held_def)
    then show ?thesis by (simp add: 2(1))
  qed simp
qed

lemma gated_step:
  assumes inv: "gated (settled_ok L s md prior resolver) done st" and acc: "accounted (as_name ` set done) st"
    and fresh: "as_name a \<notin> as_name ` set done"
    and step: "compile_assignment L s md prior resolver a st = Some st'"
  shows "gated (settled_ok L s md prior resolver) (done @ [a]) st'"
proof -
  have other: "candidates_of (add_routes a rs st) (as_name x) = candidates_of st (as_name x)" if "x \<in> set done" for x rs
  proof -
    have "as_name x \<noteq> as_name a" using fresh imageI [OF that, of as_name] by metis
    then show ?thesis by (simp add: candidates_add_routes)
  qed
  have "as_name a \<notin> set (keys (cs_candidates st))" using acc fresh by (auto simp: accounted_def)
  then have "map_of (cs_candidates st) (as_name a) = None" by (simp add: map_of_eq_None_iff)
  then have none: "candidates_of st (as_name a) = []" by (simp add: candidates_of_def)
  show ?thesis using step
  proof (cases rule: compile_assignment_cases)
    case (again d)
    then show ?thesis by (intro gated_mono [OF inv]) (simp_all add: candidates_of_def)
  next
    case (broken bp intent view spec layers remv rs e d)
    then show ?thesis by (intro gated_mono [OF inv]) (simp_all add: other)
  next
    case (settled bp intent view spec layers remv rs prev had members d)
    have c: "candidates_of st' = candidates_of (add_routes a rs st)"
      by (rule ext) (simp add: settled(10) candidates_of_def)
    have rows: "candidates_of (add_routes a rs st) (as_name a) =
        List.map_filter (route_row L s a bp intent view spec layers remv) (List.enumerate 0 (bp_routes bp))"
      using run_routes_rows [OF settled(8,9)] none by (simp add: candidates_add_routes no_routes_def)
    show ?thesis unfolding gated_def
    proof
      fix m assume m: "m \<in> set (cs_memberships st')"
      from settle_gates [OF settled(4,5) m [unfolded settled(10)]]
      show "\<exists>x \<in> set (done @ [a]). am_assignment m = as_name x \<and>
          settled_ok L s md prior resolver x m (candidates_of st' (as_name x))"
      proof
        assume "m \<in> set (cs_memberships (add_routes a rs st))"
        then have "m \<in> set (cs_memberships st)" by simp
        with inv obtain x where "x \<in> set done" "am_assignment m = as_name x"
            "settled_ok L s md prior resolver x m (candidates_of st (as_name x))" unfolding gated_def by blast
        then show ?thesis using other [of x rs] unfolding c by auto
      next
        assume w: "am_assignment m = as_name a \<and> am_entity_ids m = members \<and>
            within_gates s md prior a m (candidates_of (add_routes a rs st) (as_name a))"
        then have "realises L s resolver a m (candidates_of (add_routes a rs st) (as_name a))"
          unfolding realises_def rows using settled(1-3,7) by blast
        with w show ?thesis unfolding c settled_ok_def by auto
      qed
    qed
  qed (auto intro: gated_mono [OF inv])
qed

lemma pass_gated:
  assumes "fold_opt (compile_assignment L s md prior resolver) assignments start_state = Some st"
    and "distinct (map as_name assignments)"
  shows "gated (settled_ok L s md prior resolver) assignments st"
proof -
  have "gated (settled_ok L s md prior resolver) assignments st \<and> accounted (as_name ` set assignments) st"
    using assms(1)
  proof (rule fold_opt_induct)
    show "gated (settled_ok L s md prior resolver) [] start_state \<and> accounted (as_name ` set []) start_state"
      by (simp add: gated_def accounted_def start_state_def)
  next
    fix ys zs :: "assignment list" and x st st'
    assume split: "assignments = ys @ x # zs"
      and inv: "gated (settled_ok L s md prior resolver) ys st \<and> accounted (as_name ` set ys) st"
      and step: "compile_assignment L s md prior resolver x st = Some st'"
    have fresh: "as_name x \<notin> as_name ` set ys" using assms(2) split by auto
    show "gated (settled_ok L s md prior resolver) (ys @ [x]) st' \<and> accounted (as_name ` set (ys @ [x])) st'"
      using gated_step [OF conjunct1 [OF inv] conjunct2 [OF inv] fresh step] accounted_step [OF conjunct2 [OF inv] step] by simp
  qed
  then show ?thesis ..
qed

lemma filter_candidates:
  "distinct (keys C) \<Longrightarrow> (\<And>n' bs b. (n', bs) \<in> set C \<Longrightarrow> b \<in> set bs \<Longrightarrow> from_assignment n b \<longleftrightarrow> n = n') \<Longrightarrow> n \<notin> K \<Longrightarrow>
    filter (from_assignment n) (concat (map snd (filter (\<lambda>(n', bs). n' \<notin> K) C))) =
      (case map_of C n of None \<Rightarrow> [] | Some bs \<Rightarrow> bs)"
proof (induction C)
  case (Cons c C)
  obtain n' bs where c: "c = (n', bs)" by fastforce
  have IH: "filter (from_assignment n) (concat (map snd (filter (\<lambda>(n', bs). n' \<notin> K) C))) =
      (case map_of C n of None \<Rightarrow> [] | Some bs \<Rightarrow> bs)"
    by (rule Cons.IH) (use Cons.prems in auto)
  have b: "b \<in> set bs \<Longrightarrow> from_assignment n b \<longleftrightarrow> n = n'" for b using Cons.prems(2) c by auto
  show ?case
  proof (cases "n = n'")
    case True
    then have "filter (from_assignment n) bs = bs" using b by simp
    moreover have "map_of C n = None" using Cons.prems(1) c True by (simp add: map_of_eq_None_iff)
    ultimately show ?thesis using True IH Cons.prems(3) c by simp
  next
    case False
    then have "filter (from_assignment n) bs = []" using b by (simp add: filter_empty_conv)
    then show ?thesis using False IH c by simp
  qed
qed simp

lemma upserts_from:
  assumes "all_backed s st" "distinct (keys (cs_candidates st))" "n \<notin> set (kept_out st)"
  shows "filter (from_assignment n) (upserts_of st) = candidates_of st n"
  unfolding upserts_of_def candidates_of_def
proof (rule filter_candidates [OF assms(2) _ assms(3)])
  fix n' bs b assume "(n', bs) \<in> set (cs_candidates st)" "b \<in> set bs"
  with assms(1,2) have "backed s n' (cs_claims st) b" unfolding all_backed_def by fastforce
  then show "from_assignment n b \<longleftrightarrow> n = n'" by (rule backed_origin)
qed

lemma settled_in_plan:
  assumes "compile L s md resolver = Some p" "list_assignments s = Some assignments" "list_baselines s = Some existing"
    and "distinct (map as_name assignments)" "m \<in> set (pl_memberships p)"
  shows "\<exists>a \<in> set assignments. am_assignment m = as_name a \<and>
     settled_ok L s (if md \<le> 0 then default_max_delta else md) (prior_by_name existing) resolver a m
       (filter (from_assignment (as_name a)) (pl_upserts p))"
proof -
  let ?md = "if md \<le> 0 then default_max_delta else md"
  from assms(1-3) obtain st where
      run: "fold_opt (compile_assignment L s ?md (prior_by_name existing) resolver) assignments start_state = Some st"
      and up: "pl_upserts p = sort_key bl_name (upserts_of st)"
      and ms: "pl_memberships p = filter_memberships (cs_memberships st) (kept_out st)"
    by (elim compile_parts) simp
  from pass_invariant [OF run] have inv: "all_backed s st" "distinct (keys (cs_candidates st))"
    by (simp_all add: accounted_def)
  from assms(5) ms have m: "m \<in> set (cs_memberships st)" "am_assignment m \<notin> set (kept_out st)"
    by (auto simp: filter_memberships_def)
  from pass_gated [OF run assms(4)] m(1) obtain a where a: "a \<in> set assignments" "am_assignment m = as_name a"
      "settled_ok L s ?md (prior_by_name existing) resolver a m (candidates_of st (as_name a))" unfolding gated_def by blast
  have "mset (filter (from_assignment (as_name a)) (pl_upserts p)) = mset (candidates_of st (as_name a))"
    using m(2) a(2) by (simp add: up upserts_from [OF inv, symmetric])
  from settled_ok_mset [OF this] a show ?thesis by blast
qed

text \<open>
  No unacknowledged mass change: when a plan settles an Assignment whose acknowledgement counter was not
  bumped, its members joined and left by no more than its fraction of the previous set, and no more than that
  fraction of the expectations written for it have a changed value.
\<close>

theorem compile_respects_gates:
  assumes "compile L s md resolver = Some p" "list_assignments s = Some assignments" "list_baselines s = Some existing"
    and "distinct (map as_name assignments)" "m \<in> set (pl_memberships p)"
  shows "\<exists>a \<in> set assignments. am_assignment m = as_name a \<and>
     within_gates s (if md \<le> 0 then default_max_delta else md) (prior_by_name existing) a m
       (filter (from_assignment (as_name a)) (pl_upserts p))"
  using settled_in_plan [OF assms] unfolding settled_ok_def by blast


section \<open>Expectations\<close>

text \<open>
  A declared qualifier never slides back to the unqualified claim grain, and what is compiled always asserts
  something: when the substitution of a route's expectation succeeds it keeps the namespace, a qualifier is present
  exactly when one was declared, and at least one of equals, contains and notBefore is left.
\<close>

theorem substitute_expectation_keeps_grain:
  assumes "substitute_expectation L e spec = Inr e'"
  shows "fe_namespace e' = fe_namespace e \<and> fe_namespace e \<noteq> [] \<and> (fe_qualifier e' = [] \<longleftrightarrow> fe_qualifier e = []) \<and>
     (fe_equals e' \<noteq> [] \<or> fe_contains e' \<noteq> [] \<or> fe_not_before e' \<noteq> [])"
  using assms
  by (auto simp: substitute_expectation_def Let_def resolve_qualifier_def split: sum.splits if_splits)

section \<open>Apply\<close>

lemma blocked_iff:
  "ownership_blocked b (owners_blocked ans owners) \<longleftrightarrow>
     (\<exists>e \<in> set (bl_expected b). \<exists>o' \<in> set owners. fo_namespace o' = fe_namespace e \<and> ans (RegisterFacetOwner o') = OwnerConflict)"
proof -
  have "x \<in> set (owners_blocked ans owners) \<longleftrightarrow> (\<exists>o' \<in> set owners. fo_namespace o' = x \<and> ans (RegisterFacetOwner o') = OwnerConflict)" for x
    by (auto simp: owners_blocked_def)
  then show ?thesis by (simp add: ownership_blocked_def list_ex_iff)
qed

text \<open>
  The order of an apply: a Baseline is written exactly when the plan holds it and none of its namespaces was
  refused at registration, every orphan Finding is attempted before the first row is pruned, and rows are
  deleted by the names the plan prunes only.
\<close>

theorem apply_withholds_contested:
  "(UpsertBaseline b \<in> set (fst (apply_plan ans p)) \<longleftrightarrow> b \<in> set (pl_upserts p) \<and>
      (\<forall>e \<in> set (bl_expected b). \<forall>o' \<in> set (pl_ownership p).
         fo_namespace o' = fe_namespace e \<longrightarrow> ans (RegisterFacetOwner o') \<noteq> OwnerConflict)) \<and>
   (DeleteBaseline n \<in> set (fst (apply_plan ans p)) \<longleftrightarrow> n \<in> set (pl_prunes p)) \<and>
   (\<exists>pre post. fst (apply_plan ans p) = pre @ post \<and> WriteOrphanFinding ` set (pl_orphans p) \<subseteq> set pre \<and>
      (\<forall>x. DeleteBaseline x \<notin> set pre))"
proof -
  have up: "UpsertBaseline b \<in> set (apply_writes ans p) \<longleftrightarrow> b \<in> set (pl_upserts p) \<and>
      (\<forall>e \<in> set (bl_expected b). \<forall>o' \<in> set (pl_ownership p).
         fo_namespace o' = fe_namespace e \<longrightarrow> ans (RegisterFacetOwner o') \<noteq> OwnerConflict)"
    by (auto simp: apply_writes_def blocked_iff)
  have del: "DeleteBaseline n \<in> set (apply_writes ans p) \<longleftrightarrow> n \<in> set (pl_prunes p)"
    by (auto simp: apply_writes_def)
  let ?pre = "map RegisterFacetOwner (pl_ownership p) @
     map UpsertBaseline (filter (\<lambda>b. \<not> ownership_blocked b (owners_blocked ans (pl_ownership p))) (pl_upserts p)) @
     map WriteOrphanFinding (pl_orphans p)"
  let ?post = "map DeleteBaseline (pl_prunes p) @ map PutAssignmentMembership (pl_memberships p) @
     map (\<lambda>o'. DeleteAssignmentMembership (trim_target (or_target o'))) (pl_orphans p)"
  have "apply_writes ans p = ?pre @ ?post" by (simp add: apply_writes_def)
  moreover have "WriteOrphanFinding ` set (pl_orphans p) \<subseteq> set ?pre" by auto
  moreover have "\<forall>x. DeleteBaseline x \<notin> set ?pre" by auto
  ultimately have "\<exists>pre post. apply_writes ans p = pre @ post \<and> WriteOrphanFinding ` set (pl_orphans p) \<subseteq> set pre \<and>
      (\<forall>x. DeleteBaseline x \<notin> set pre)" by blast
  with up del show ?thesis by (simp add: apply_plan_def)
qed

section \<open>What the compiler leaves open\<close>

text \<open>
  The Finding of an orphan is the only record of its withdrawal parameters; when its write fails the row it
  came from is deleted all the same, and the next pass no longer sees it.
\<close>

lemma prune_despite_failed_orphan:
  assumes "ans (WriteOrphanFinding o') = WriteFailed" "o' \<in> set (pl_orphans p)" "n \<in> set (pl_prunes p)"
  shows "DeleteBaseline n \<in> set (fst (apply_plan ans p)) \<and> WriteError (WriteOrphanFinding o') \<in> set (snd (apply_plan ans p))"
  using assms by (auto simp: apply_plan_def apply_writes_def in_map_filter write_error_def intro!: bexI [of _ "WriteOrphanFinding o'"])

text \<open>The topology clause of a View is dropped on the way to a compiled selector.\<close>

lemma compiled_selector_drops_relations:
  "bl_selector (compiled_baseline a bp intent i view route e layers rem remv) = Some sel \<Longrightarrow> sel_relations sel = []"
  by (auto simp: route_selector_def)

text \<open>
  The expectation gate compares rows by name, and the name holds the version of the Blueprint: pinning another
  version rewrites every expectation and counts no change.
\<close>

lemma compiled_name_version:
  "0 \<le> v \<Longrightarrow> 0 \<le> v' \<Longrightarrow> CompiledName a b v i = CompiledName a b v' i \<Longrightarrow> v = v'"
  by (auto simp: CompiledName_def show_int_def dest: show_nat_inj)

lemma blueprint_bump_is_ungated:
  assumes "0 \<le> bp_version bp" "0 \<le> bp_version bp'" "bp_version bp' \<noteq> bp_version bp" "bp_name bp' = bp_name bp"
  shows "expectation_changes [compiled_baseline a bp' intent i view route e' layers rem remv]
     (prior_by_name [compiled_baseline a bp intent i view route e layers rem remv]) = ([], 1)"
proof -
  have "CompiledName (as_name a) (bp_name bp) (bp_version bp') i \<noteq> CompiledName (as_name a) (bp_name bp) (bp_version bp) i"
    using compiled_name_version [OF assms(2,1)] assms(3) by blast
  then show ?thesis using assms(4)
    by (simp add: expectation_changes_def prior_by_name_def expectation_change_of_def enumerate_eq_zip map_filter_def)
qed

section \<open>A small estate\<close>

text \<open>Two Assignments over disjoint Views, a third whose View is missing, and three live rows.\<close>

definition ex_lib :: clib where
  "ex_lib = \<lparr>unmarshal = (\<lambda>_. None), marshal = (\<lambda>_. Inr []), fmt_float = (\<lambda>_. []),
     compile_ad_hoc = (\<lambda>_ _. None), reparse = (\<lambda>_. None), validate_intent_spec = (\<lambda>_ _. Some True)\<rparr>"

definition ex_expectation :: facet_expectation where
  "ex_expectation = \<lparr>fe_namespace = ''app.config'', fe_qualifier = [], fe_path = ''port'', fe_equals = ''443'',
     fe_contains = [], fe_not_before = []\<rparr>"

definition ex_blueprint :: blueprint where
  "ex_blueprint = \<lparr>bp_name = ''web'', bp_version = 1, bp_for = ''Intent/Application'', bp_defaults = [],
     bp_routes = [\<lparr>br_match = [], br_observe = ex_expectation, br_claim = ClaimExclusive, br_remediation_workflow = [],
       br_remediation_capability = [], br_remediation_params = []\<rparr>],
     bp_severity = [], bp_damping = 0, bp_remove_workflow = [], bp_remove_params = []\<rparr>"

definition ex_assignment :: "string \<Rightarrow> string \<Rightarrow> assignment" where
  "ex_assignment n v = \<lparr>as_name = n, as_intent = ''app'', as_intent_version = 1, as_view = v, as_blueprint = ''web'',
     as_blueprint_version = 1, as_environments = [], as_values = [], as_max_delta = None, as_ack_delta = 0\<rparr>"

definition ex_intent :: intent_doc where
  "ex_intent = \<lparr>it_name = ''app'', it_version = 1, it_kind = ''Intent/Application'', it_spec = [], it_on_remove = []\<rparr>"

definition ex_selector :: "string \<Rightarrow> view_selector" where
  "ex_selector k = \<lparr>sel_kinds = [k], sel_labels = [], sel_facets = [], sel_relations = []\<rparr>"

definition ex_row :: "string \<Rightarrow> string \<Rightarrow> bool \<Rightarrow> baseline" where
  "ex_row n asg own = \<lparr>bl_name = n, bl_mode = FacetObservation, bl_view_name = [], bl_selector = None, bl_expected = [],
     bl_claim = [], bl_environments = [], bl_cron = [], bl_severity = ''warning'', bl_damping = 0, bl_remediation_workflow = [],
     bl_remediation_params = None, bl_remove_params = None, bl_framework = ''intent'',
     bl_compiled_from = (if own then Some \<lparr>co_assignment = asg, co_intent = ''gone'', co_intent_version = 1,
       co_blueprint = ''web'', co_blueprint_version = 1, co_route = 0, co_spec_layers = []\<rparr> else None)\<rparr>"

definition ex_assignments :: "assignment list" where
  "ex_assignments = [ex_assignment ''a1'' ''a'', ex_assignment ''b1'' ''b'', ex_assignment ''c1'' ''c'']"

definition ex_rows :: "baseline list" where
  "ex_rows = [ex_row ''manual'' [] False, ex_row ''old'' ''withdrawn'' True, ex_row ''held'' ''c1'' True]"

definition ex_store :: cstore where
  "ex_store = \<lparr>list_assignments = Some ex_assignments, list_baselines = Some ex_rows,
     get_intent = (\<lambda>n v. if n = ''app'' then Some ex_intent else None),
     get_view = (\<lambda>v. if v = ''c'' then None else Some \<lparr>vw_name = v, vw_selector = ex_selector v, vw_declared_by = DeclaredByCaC\<rparr>),
     resolve_selector = (\<lambda>sel. Some (map (\<lambda>k. \<lparr>en_id = ''host-'' @ k, en_kind = k, en_labels = []\<rparr>) (sel_kinds sel))),
     get_blueprint = (\<lambda>n v. Some ex_blueprint), get_workflow = (\<lambda>_. None),
     get_membership = (\<lambda>_. Some (\<lparr>am_assignment = [], am_entity_ids = [], am_member_count = 0, am_acked_delta = 0\<rparr>, False)),
     get_facet_owner = (\<lambda>_. None)\<rparr>"

definition ex_plan :: plan_out where
  "ex_plan = the (compile ex_lib ex_store 0 None)"

definition ex_baseline :: "string \<Rightarrow> string \<Rightarrow> baseline" where
  "ex_baseline n v = compiled_baseline (ex_assignment n v) ex_blueprint ex_intent 0
     \<lparr>vw_name = v, vw_selector = ex_selector v, vw_declared_by = DeclaredByCaC\<rparr> (hd (bp_routes ex_blueprint)) ex_expectation [] None None"

lemma ex_compiles: "compile ex_lib ex_store 0 None = Some ex_plan"
proof -
  have "compile ex_lib ex_store 0 None \<noteq> None" by code_simp
  then show ?thesis by (auto simp: ex_plan_def)
qed

lemma ex_plan_upserts: "pl_upserts ex_plan = [ex_baseline ''a1'' ''a'', ex_baseline ''b1'' ''b'']"
  by code_simp

lemma ex_plan_memberships: "map am_assignment (pl_memberships ex_plan) = [''a1'', ''b1'']"
  by code_simp

lemma ex_names: "distinct (map bl_name ex_rows)" "distinct (map as_name ex_assignments)"
  by code_simp+

lemma ex_reads: "list_assignments ex_store = Some ex_assignments" "list_baselines ex_store = Some ex_rows"
  by (simp_all add: ex_store_def)

lemma compile_exclusive_claims_witness:
  "\<exists>sel sel' ids ids'. bl_selector (ex_baseline ''a1'' ''a'') = Some sel \<and> bl_selector (ex_baseline ''b1'' ''b'') = Some sel' \<and>
     resolve_ids ex_store sel = Some ids \<and> resolve_ids ex_store sel' = Some ids' \<and> set ids \<inter> set ids' = {}"
proof (rule compile_exclusive_claims [OF ex_compiles])
  show "from_assignment ''a1'' (ex_baseline ''a1'' ''a'')" "from_assignment ''b1'' (ex_baseline ''b1'' ''b'')"
      "bl_claim (ex_baseline ''a1'' ''a'') = ClaimExclusive" "bl_claim (ex_baseline ''b1'' ''b'') = ClaimExclusive"
      "bl_expected (ex_baseline ''a1'' ''a'') = [ex_expectation]" "bl_expected (ex_baseline ''b1'' ''b'') = [ex_expectation]"
    by code_simp+
qed (simp_all add: ex_plan_upserts)

lemma compile_all_or_nothing_witness: "''held'' \<notin> set (pl_prunes ex_plan)"
proof -
  have n: "as_name (ex_assignment ''c1'' ''c'') = ''c1''" by (simp add: ex_assignment_def)
  have "as_name (ex_assignment ''c1'' ''c'') \<notin> am_assignment ` set (pl_memberships ex_plan)"
    using arg_cong [OF ex_plan_memberships, of set] by (simp add: n)
  moreover have "ex_assignment ''c1'' ''c'' \<in> set ex_assignments" by (simp add: ex_assignments_def)
  moreover have "ex_row ''held'' ''c1'' True \<in> set ex_rows" "from_assignment ''c1'' (ex_row ''held'' ''c1'' True)"
      "bl_name (ex_row ''held'' ''c1'' True) = ''held''"
    by (simp_all add: ex_rows_def ex_row_def from_assignment_def)
  ultimately show ?thesis
    using compile_all_or_nothing [OF ex_compiles ex_reads ex_names(1), of "ex_assignment ''c1'' ''c''"] n by metis
qed

lemma withdrawn_leaves_orphan_witness: "''old'' \<in> set (pl_prunes ex_plan) \<and> pl_orphans ex_plan \<noteq> []"
proof -
  let ?r = "ex_row ''old'' ''withdrawn'' True"
  have r: "?r \<in> set ex_rows" by (simp add: ex_rows_def)
  have "bl_name ?r \<notin> set (map bl_name (pl_upserts ex_plan))" unfolding ex_plan_upserts by code_simp
  from withdrawn_leaves_orphan [OF ex_compiles ex_reads ex_names(1) r this]
  show ?thesis by (force simp: ex_row_def ex_assignments_def ex_assignment_def)
qed

lemma compile_respects_gates_witness:
  "\<exists>a \<in> set ex_assignments. as_name a = ''a1'' \<and>
     within_gates ex_store default_max_delta (prior_by_name ex_rows) a (hd (pl_memberships ex_plan))
       (filter (from_assignment (as_name a)) (pl_upserts ex_plan))"
proof -
  have ne: "pl_memberships ex_plan \<noteq> []" and h: "am_assignment (hd (pl_memberships ex_plan)) = ''a1''"
    using ex_plan_memberships by (cases "pl_memberships ex_plan"; simp)+
  then have m: "hd (pl_memberships ex_plan) \<in> set (pl_memberships ex_plan)" by simp
  show ?thesis using compile_respects_gates [OF ex_compiles ex_reads ex_names(2) m] h by auto
qed

lemma substitute_expectation_keeps_grain_witness:
  "fe_qualifier (projr (substitute_expectation ex_lib (ex_expectation\<lparr>fe_qualifier := ''{{.spec.package}}''\<rparr>)
     [(''package'', JStr ''apache'')])) \<noteq> []"
proof -
  let ?e = "ex_expectation\<lparr>fe_qualifier := ''{{.spec.package}}''\<rparr>"
  let ?r = "substitute_expectation ex_lib ?e [(''package'', JStr ''apache'')]"
  have "\<not> isl ?r" by code_simp
  then have "?r = Inr (projr ?r)" by simp
  from substitute_expectation_keeps_grain [OF this] show ?thesis by simp
qed

lemma apply_withholds_contested_witness:
  "UpsertBaseline (ex_baseline ''a1'' ''a'') \<notin> set (fst (apply_plan
     (\<lambda>w. case w of RegisterFacetOwner o' \<Rightarrow> OwnerConflict | _ \<Rightarrow> Written)
     (ex_plan\<lparr>pl_ownership := [\<lparr>fo_namespace = ''app.config'', fo_owner_kind = ''blueprint'', fo_owner_ref = ''web''\<rparr>]\<rparr>)))"
proof -
  have "ex_expectation \<in> set (bl_expected (ex_baseline ''a1'' ''a''))" "fe_namespace ex_expectation = ''app.config''"
    by (simp_all add: ex_baseline_def ex_expectation_def)
  then show ?thesis by (subst apply_withholds_contested [THEN conjunct1]) (auto intro!: bexI [of _ ex_expectation])
qed


end
