(* ===== verification/AuditTrail.thy ===== *)
theory AuditTrail
  imports GoText Transitions
begin

text \<open>
  The tamper-evident audit stream: the chain of \<open>core/internal/audit/hash.go\<close> and the ledger operations of
  \<open>core/internal/graph/auditstore.go\<close>.  SHA-256, the JSON quoting of strings and the time format are
  parameters (\<open>hasher\<close>); nothing is assumed of them but the length of a digest, and what the chain
  guarantees is stated as "or here is a collision".  The table is the list of its rows in sequence order; a
  NULL \<open>prev_hash\<close> is the empty string.
\<close>

section \<open>The chain\<close>

record ledger_event =
  le_seq :: int
  le_at :: int
  le_principal_id :: string
  le_principal_kind :: string
  le_action :: string
  le_object :: string
  le_outcome :: string
  le_detail :: "string option"

record hasher =
  sha256 :: "string \<Rightarrow> string"
  quoted :: "string \<Rightarrow> string"
  rfc3339 :: "int \<Rightarrow> string"

abbreviation quote_mark :: char where
  "quote_mark \<equiv> CHR 0x22"

text \<open>One member of the JSON object: the quoted name, a colon and the value.\<close>

definition member_text :: "string \<Rightarrow> string \<Rightarrow> string" where
  "member_text name v = [quote_mark] @ name @ [quote_mark] @ '':'' @ v"

definition canonical :: "hasher \<Rightarrow> ledger_event \<Rightarrow> string" where
  "canonical H e = ''{'' @ member_text ''seq'' (show_int (le_seq e)) @ '','' @ join_with '',''
     [member_text ''at'' (quoted H (rfc3339 H (le_at e))),
      member_text ''principalId'' (quoted H (le_principal_id e)),
      member_text ''principalKind'' (quoted H (le_principal_kind e)),
      member_text ''action'' (quoted H (le_action e)),
      member_text ''object'' (quoted H (le_object e)),
      member_text ''outcome'' (quoted H (le_outcome e)),
      member_text ''detail'' (case le_detail e of None \<Rightarrow> ''null'' | Some d \<Rightarrow> d)] @ ''}''"

definition chain_hash :: "hasher \<Rightarrow> string \<Rightarrow> ledger_event \<Rightarrow> string" where
  "chain_hash H prev e = sha256 H (prev @ canonical H e)"

section \<open>The ledger\<close>

record audit_row =
  ar_event :: ledger_event
  ar_prev_hash :: string
  ar_hash :: "string option"

text \<open>\<open>lg_next\<close> is the database sequence, \<open>lg_open\<close> the inserts that took a number and have not committed.\<close>

record ledger =
  lg_rows :: "audit_row list"
  lg_head_seq :: int
  lg_head_hash :: string
  lg_next :: int
  lg_open :: "ledger_event list"

definition empty_ledger :: ledger where
  "empty_ledger = \<lparr>lg_rows = [], lg_head_seq = 0, lg_head_hash = [], lg_next = 1, lg_open = []\<rparr>"

text \<open>\<open>RecordAudit\<close> takes its number when the INSERT runs and becomes visible when it commits.\<close>

definition allocate :: "ledger_event \<Rightarrow> ledger \<Rightarrow> ledger" where
  "allocate e L = L\<lparr>lg_open := lg_open L @ [e\<lparr>le_seq := lg_next L\<rparr>], lg_next := lg_next L + 1\<rparr>"

definition commit_event :: "ledger_event \<Rightarrow> ledger \<Rightarrow> ledger" where
  "commit_event e L = L\<lparr>lg_open := remove1 e (lg_open L),
     lg_rows := insort_key (\<lambda>r. le_seq (ar_event r)) \<lparr>ar_event = e, ar_prev_hash = [], ar_hash = None\<rparr> (lg_rows L)\<rparr>"

text \<open>The unsealed rows in sequence order, each chained onto the one before.\<close>

fun seal_rows :: "hasher \<Rightarrow> int \<times> string \<Rightarrow> audit_row list \<Rightarrow> audit_row list \<times> int \<times> string" where
  "seal_rows H head [] = ([], head)"
| "seal_rows H head (r # rs) =
     (case ar_hash r of
        Some h \<Rightarrow> (case seal_rows H head rs of (rs', head') \<Rightarrow> (r # rs', head'))
      | None \<Rightarrow>
          (let h = chain_hash H (snd head) (ar_event r)
           in case seal_rows H (le_seq (ar_event r), h) rs of
                (rs', head') \<Rightarrow> (r\<lparr>ar_prev_hash := snd head, ar_hash := Some h\<rparr> # rs', head')))"

definition seal_pending :: "hasher \<Rightarrow> ledger \<Rightarrow> ledger" where
  "seal_pending H L = (case seal_rows H (lg_head_seq L, lg_head_hash L) (lg_rows L) of
     (rows, seq, hash) \<Rightarrow> L\<lparr>lg_rows := rows, lg_head_seq := seq, lg_head_hash := hash\<rparr>)"

datatype audit_reason = BrokenLink | StoredHashMismatch | TruncatedTail

record audit_verification =
  av_ok :: bool
  av_sealed_through :: int
  av_events :: int
  av_first_bad_seq :: int
  av_reason :: "audit_reason option"

text \<open>The walk over the sealed rows; \<open>last_row\<close> is the sequence and hash of the row before.\<close>

fun verify_rows :: "hasher \<Rightarrow> int \<times> string \<Rightarrow> string \<Rightarrow> int \<Rightarrow> int \<times> string \<Rightarrow> audit_row list \<Rightarrow> audit_verification" where
  "verify_rows H head prev n last_row [] =
     (if fst last_row \<noteq> fst head \<or> snd last_row \<noteq> snd head
      then \<lparr>av_ok = False, av_sealed_through = fst head, av_events = n, av_first_bad_seq = fst head, av_reason = Some TruncatedTail\<rparr>
      else \<lparr>av_ok = True, av_sealed_through = fst head, av_events = n, av_first_bad_seq = 0, av_reason = None\<rparr>)"
| "verify_rows H head prev n last_row (r # rs) =
     (if ar_prev_hash r \<noteq> prev
      then \<lparr>av_ok = False, av_sealed_through = fst head, av_events = n, av_first_bad_seq = le_seq (ar_event r), av_reason = Some BrokenLink\<rparr>
      else if ar_hash r \<noteq> Some (chain_hash H (ar_prev_hash r) (ar_event r))
      then \<lparr>av_ok = False, av_sealed_through = fst head, av_events = n, av_first_bad_seq = le_seq (ar_event r), av_reason = Some StoredHashMismatch\<rparr>
      else verify_rows H head (chain_hash H (ar_prev_hash r) (ar_event r)) (n + 1)
             (le_seq (ar_event r), chain_hash H (ar_prev_hash r) (ar_event r)) rs)"

definition sealed_rows :: "ledger \<Rightarrow> audit_row list" where
  "sealed_rows L = filter (\<lambda>r. ar_hash r \<noteq> None) (lg_rows L)"

definition verify_audit :: "hasher \<Rightarrow> ledger \<Rightarrow> audit_verification" where
  "verify_audit H L = verify_rows H (lg_head_seq L, lg_head_hash L) [] 0 (0, []) (sealed_rows L)"

section \<open>The egress cursor\<close>

definition forward_limit :: "int \<Rightarrow> nat" where
  "forward_limit limit = (if limit \<le> 0 \<or> limit > 1000 then 200 else nat limit)"

definition forward_batch :: "ledger \<Rightarrow> int \<Rightarrow> int \<Rightarrow> ledger_event list" where
  "forward_batch L since limit = take (forward_limit limit) (filter (\<lambda>e. le_seq e > since) (map ar_event (lg_rows L)))"

definition commit_forward_offset :: "string \<Rightarrow> int \<Rightarrow> int gomap \<Rightarrow> int gomap" where
  "commit_forward_offset sink seq offsets =
     (case map_of offsets sink of None \<Rightarrow> aput sink seq offsets | Some o' \<Rightarrow> aput sink (max o' seq) offsets)"

section \<open>Steps\<close>

inductive audit_step :: "hasher \<Rightarrow> ledger \<Rightarrow> ledger \<Rightarrow> bool" for H where
  allocated: "audit_step H L (allocate e L)"
| committed: "e \<in> set (lg_open L) \<Longrightarrow> audit_step H L (commit_event e L)"
| aborted: "e \<in> set (lg_open L) \<Longrightarrow> audit_step H L (L\<lparr>lg_open := remove1 e (lg_open L)\<rparr>)"
| sealed: "audit_step H L (seal_pending H L)"


inductive_simps audit_step_simps: "audit_step H L L'"


section \<open>An honest ledger verifies\<close>

text \<open>The sealed rows form a chain from \<open>prev\<close> and \<open>last_row\<close> to the head.\<close>

fun chained :: "hasher \<Rightarrow> int \<times> string \<Rightarrow> audit_row list \<Rightarrow> int \<times> string \<Rightarrow> bool" where
  "chained H start [] head = (head = start)"
| "chained H start (r # rs) head =
     (ar_prev_hash r = snd start \<and> ar_hash r = Some (chain_hash H (snd start) (ar_event r)) \<and>
      chained H (le_seq (ar_event r), chain_hash H (snd start) (ar_event r)) rs head)"

lemma verify_chained:
  "av_ok (verify_rows H head prev n last_row rs) \<longleftrightarrow> prev = snd last_row \<and> chained H last_row rs head"
  if "prev = snd last_row" for prev last_row
  using that by (induction rs arbitrary: prev n last_row) (auto simp: prod_eq_iff)

lemma chained_append:
  "chained H start (xs @ ys) head \<longleftrightarrow> (\<exists>mid. chained H start xs mid \<and> chained H mid ys head)"
  by (induction xs arbitrary: start) auto














section \<open>Tampering is a collision\<close>

lemma verify_events: "av_ok (verify_rows H head prev n last_row rs) \<Longrightarrow>
    av_events (verify_rows H head prev n last_row rs) = n + int (length rs)"
  by (induction rs arbitrary: prev n last_row) (auto split: if_splits)

lemma chained_end_length:
  assumes "\<And>x. length (sha256 H x) = k" "chained H start rs head"
  shows "length (snd head) = (if rs = [] then length (snd start) else k)"
  using assms(2)
proof (induction rs arbitrary: start)
  case (Cons r rs)
  then have "chained H (le_seq (ar_event r), chain_hash H (snd start) (ar_event r)) rs head" by simp
  from Cons.IH [OF this] show ?case using assms(1) by (simp add: chain_hash_def)
qed simp

lemma chain_binds:
  assumes "\<And>x. length (sha256 H x) = k"
  shows "length rs = length rs' \<Longrightarrow> chained H start rs head \<Longrightarrow> chained H start rs' head' \<Longrightarrow> snd head = snd head' \<Longrightarrow>
    map (\<lambda>r. canonical H (ar_event r)) rs = map (\<lambda>r. canonical H (ar_event r)) rs' \<or>
    (\<exists>x y. x \<noteq> y \<and> sha256 H x = sha256 H y)"
proof (induction rs arbitrary: rs' head head' rule: rev_induct)
  case (snoc r rs)
  obtain rs1 r' where rs': "rs' = rs1 @ [r']" using snoc.prems(1) by (cases rs' rule: rev_cases) auto
  obtain mid where m: "chained H start rs mid" "chained H mid [r] head" using snoc.prems(2) by (auto simp: chained_append)
  obtain mid' where m': "chained H start rs1 mid'" "chained H mid' [r'] head'" using snoc.prems(3) by (auto simp: rs' chained_append)
  have len: "length rs = length rs1" using snoc.prems(1) by (simp add: rs')
  have n: "length (snd mid) = length (snd mid')"
    using chained_end_length [OF assms m(1)] chained_end_length [OF assms m'(1)] len by (cases rs; cases rs1) auto
  have h: "sha256 H (snd mid @ canonical H (ar_event r)) = sha256 H (snd mid' @ canonical H (ar_event r'))"
    using m(2) m'(2) snoc.prems(4) by (auto simp: chain_hash_def)
  show ?case
  proof (cases "snd mid @ canonical H (ar_event r) = snd mid' @ canonical H (ar_event r')")
    case True
    with n have "snd mid = snd mid'" "canonical H (ar_event r) = canonical H (ar_event r')" by simp_all
    with snoc.IH [OF len m(1) m'(1)] show ?thesis by (auto simp: rs')
  next
    case False
    with h show ?thesis by blast
  qed
qed simp

text \<open>
  Tamper evidence: two ledgers that verify against the same seal head with the same number of sealed events
  hold the same events, field by field in their canonical form and in the same order, or two different byte
  strings with the same SHA-256 are at hand.
\<close>

theorem sealed_prefix_is_bound:
  assumes "\<And>x. length (sha256 H x) = k"
    and "av_ok (verify_audit H L)" "av_ok (verify_audit H L')"
    and "av_events (verify_audit H L) = av_events (verify_audit H L')" "lg_head_hash L = lg_head_hash L'"
  shows "map (\<lambda>r. canonical H (ar_event r)) (sealed_rows L) = map (\<lambda>r. canonical H (ar_event r)) (sealed_rows L') \<or>
    (\<exists>x y. x \<noteq> y \<and> sha256 H x = sha256 H y)"
proof -
  have "chained H (0, []) (sealed_rows L) (lg_head_seq L, lg_head_hash L)"
      "chained H (0, []) (sealed_rows L') (lg_head_seq L', lg_head_hash L')"
    using assms(2,3) by (simp_all add: verify_audit_def verify_chained)
  moreover have "length (sealed_rows L) = length (sealed_rows L')"
    using assms(2-4) verify_events unfolding verify_audit_def by fastforce
  ultimately show ?thesis using chain_binds [OF assms(1)] assms(5) by fastforce
qed

section \<open>The egress cursor\<close>

text \<open>
  A sink's committed offset never rewinds: after a redelivered lower acknowledgement it is where it was, after a
  higher one it is there, and no other sink moves.
\<close>

theorem forward_offset_monotone:
  "map_of (commit_forward_offset sink seq offsets) s =
     (if s = sink then Some (case map_of offsets sink of None \<Rightarrow> seq | Some o' \<Rightarrow> max o' seq) else map_of offsets s)"
  by (auto simp: commit_forward_offset_def map_of_aput split: option.splits)

section \<open>What the ledger leaves open\<close>

text \<open>
  Sequence numbers are taken before the insert commits.  When an event commits after a later one was sealed, the
  chain follows the order of the seals and the verifier the order of the numbers: an untouched ledger is reported
  as tampered with, and a sink that acknowledged the later number never gets the event.
\<close>

definition note_event :: "string \<Rightarrow> ledger_event" where
  "note_event act = \<lparr>le_seq = 0, le_at = 0, le_principal_id = [], le_principal_kind = [], le_action = act, le_object = [],
     le_outcome = [], le_detail = None\<rparr>"

definition late_commit :: "hasher \<Rightarrow> ledger" where
  "late_commit H = seal_pending H (commit_event ((note_event ''a'')\<lparr>le_seq := 1\<rparr>) (seal_pending H
     (commit_event ((note_event ''b'')\<lparr>le_seq := 2\<rparr>) (allocate (note_event ''b'') (allocate (note_event ''a'') empty_ledger)))))"

lemma late_commit_steps: "(audit_step H)\<^sup>*\<^sup>* empty_ledger (late_commit H)"
proof -
  let ?L0 = "allocate (note_event ''b'') (allocate (note_event ''a'') empty_ledger)"
  let ?L1 = "commit_event ((note_event ''b'')\<lparr>le_seq := 2\<rparr>) ?L0"
  let ?L2 = "seal_pending H ?L1"
  let ?L3 = "commit_event ((note_event ''a'')\<lparr>le_seq := 1\<rparr>) ?L2"
  have "audit_step H ?L0 ?L1" by (rule audit_step.committed) (simp add: allocate_def empty_ledger_def note_event_def)
  moreover have "audit_step H ?L2 ?L3"
    by (rule audit_step.committed)
      (simp add: seal_pending_def commit_event_def allocate_def empty_ledger_def note_event_def split: prod.split)
  ultimately show ?thesis unfolding late_commit_def
    by (meson audit_step.allocated audit_step.sealed rtranclp.rtrancl_refl rtranclp.rtrancl_into_rtrancl)
qed

lemma late_commit_breaks_verify:
  assumes "\<And>x. sha256 H x \<noteq> []"
  shows "av_reason (verify_audit H (late_commit H)) = Some BrokenLink \<and> forward_batch (late_commit H) 2 0 = []"
  using assms
  by (simp add: late_commit_def verify_audit_def sealed_rows_def seal_pending_def commit_event_def allocate_def
      empty_ledger_def note_event_def Let_def chain_hash_def forward_batch_def)

text \<open>A row that goes missing before it is sealed leaves a hole in the numbers that the verifier accepts.\<close>

lemma sequence_gap_verifies:
  "av_ok (verify_audit H (seal_pending H (commit_event ((note_event ''b'')\<lparr>le_seq := 2\<rparr>)
     ((allocate (note_event ''b'') (allocate (note_event ''a'') empty_ledger))\<lparr>lg_open := [(note_event ''b'')\<lparr>le_seq := 2\<rparr>]\<rparr>))))"
  by (simp add: verify_audit_def sealed_rows_def seal_pending_def commit_event_def allocate_def
      empty_ledger_def note_event_def Let_def chain_hash_def)

section \<open>A ledger of one event\<close>

definition toy_hasher :: hasher where
  "toy_hasher = \<lparr>sha256 = (\<lambda>s. take 4 (rev s @ ''0000'')), quoted = (\<lambda>s. s), rfc3339 = (\<lambda>_. [])\<rparr>"

definition one_event :: ledger where
  "one_event = commit_event ((note_event ''a'')\<lparr>le_seq := 1\<rparr>) (allocate (note_event ''a'') empty_ledger)"



lemma sealed_prefix_is_bound_witness:
  "map (\<lambda>r. canonical toy_hasher (ar_event r)) (sealed_rows (seal_pending toy_hasher one_event)) =
     map (\<lambda>r. canonical toy_hasher (ar_event r)) (sealed_rows (seal_pending toy_hasher one_event)) \<or>
   (\<exists>x y. x \<noteq> y \<and> sha256 toy_hasher x = sha256 toy_hasher y)"
proof -
  let ?L = "seal_pending toy_hasher one_event"
  have "length (sha256 toy_hasher x) = 4" for x by (simp add: toy_hasher_def)
  moreover have "av_ok (verify_audit toy_hasher ?L)" by code_simp
  ultimately show ?thesis using sealed_prefix_is_bound [of toy_hasher 4 ?L ?L] by simp
qed

end
