(* ===== verification/StateBackend.thy ===== *)
theory StateBackend
  imports Json
begin

text \<open>
  The OpenTofu state backend: the HTTP handler of \<open>core/internal/statebackend/statebackend.go\<close> over the rows of
  \<open>core/internal/graph/statestore.go\<close>.  The cryptography (the keyed MAC, the custodian's envelope and the legacy
  AES-GCM) and the decoding of a lock document are parameters.  A NULL lock is \<open>None\<close>; no row reads as no data
  and no lock.
\<close>

section \<open>Rows\<close>

record tofu_row =
  tr_data :: string
  tr_lock :: "string option"

type_synonym tofu_table = "tofu_row gomap"

definition get_state :: "tofu_table \<Rightarrow> string \<Rightarrow> string \<times> string option" where
  "get_state T ws = (case map_of T ws of None \<Rightarrow> ([], None) | Some r \<Rightarrow> (tr_data r, tr_lock r))"

definition put_state :: "string \<Rightarrow> string \<Rightarrow> tofu_table \<Rightarrow> tofu_table" where
  "put_state ws data T = aput ws (case map_of T ws of None \<Rightarrow> \<lparr>tr_data = data, tr_lock = None\<rparr>
     | Some r \<Rightarrow> r\<lparr>tr_data := data\<rparr>) T"

text \<open>\<open>LockOpenTofuState\<close>: stores the document where the column is NULL, else the holder's document.\<close>

definition lock_state :: "string \<Rightarrow> string \<Rightarrow> tofu_table \<Rightarrow> string option \<times> tofu_table" where
  "lock_state ws doc T =
     (case map_of T ws of
        None \<Rightarrow> (None, aput ws \<lparr>tr_data = [], tr_lock = Some doc\<rparr> T)
      | Some r \<Rightarrow> (case tr_lock r of
            None \<Rightarrow> (None, aput ws (r\<lparr>tr_lock := Some doc\<rparr>) T)
          | Some holder \<Rightarrow> (Some holder, T)))"

definition unlock_state :: "string \<Rightarrow> tofu_table \<Rightarrow> tofu_table" where
  "unlock_state ws T = (case map_of T ws of None \<Rightarrow> T | Some r \<Rightarrow> aput ws (r\<lparr>tr_lock := None\<rparr>) T)"

section \<open>The backend\<close>

record backend =
  workspace_mac :: "string \<Rightarrow> string"
  custody_seal :: "string \<Rightarrow> string option"
  custody_open :: "string \<Rightarrow> (string \<times> bool) option"
  aead_open :: "string \<Rightarrow> string \<Rightarrow> string option"
  nonce_size :: nat
  decode_doc :: "string \<Rightarrow> json option"

definition decrypt :: "backend \<Rightarrow> string \<Rightarrow> string option" where
  "decrypt B blob =
     (case custody_open B blob of
        None \<Rightarrow> None
      | Some (pt, enveloped) \<Rightarrow>
          if enveloped then Some pt
          else if length blob < nonce_size B then None
          else aead_open B (take (nonce_size B) blob) (drop (nonce_size B) blob))"


text \<open>
  The \<open>ID\<close> field of a lock document as \<open>json.Unmarshal\<close> reads it: a member's name matches in any case, the last one
  that does wins, a null leaves the field as it was and any other type fails the decoding.
\<close>

lemma lower_ID [simp]: "lower_char CHR ''I'' = CHR ''i''" "lower_char CHR ''D'' = CHR ''d''"
  by code_simp+

fun scan_id :: "string \<Rightarrow> jmap \<Rightarrow> string option" where
  "scan_id ident [] = Some ident"
| "scan_id ident ((k, v) # m) =
     (if map lower_char k = ''id''
      then (case v of JStr s \<Rightarrow> scan_id s m | JNull \<Rightarrow> scan_id ident m | _ \<Rightarrow> None)
      else scan_id ident m)"

definition lock_id :: "backend \<Rightarrow> string \<Rightarrow> string option" where
  "lock_id B doc =
     (case decode_doc B doc of
        Some (JObj m) \<Rightarrow> scan_id [] m
      | Some JNull \<Rightarrow> Some []
      | _ \<Rightarrow> None)"

text \<open>\<open>lockCheck\<close>: the write may proceed, or the holder's document.\<close>

definition lock_check :: "backend \<Rightarrow> tofu_table \<Rightarrow> string \<Rightarrow> string \<Rightarrow> string option" where
  "lock_check B T ws ident =
     (case snd (get_state T ws) of
        None \<Rightarrow> None
      | Some lock \<Rightarrow>
          if lock = [] then None
          else if lock_id B lock = Some ident \<and> ident \<noteq> [] then None else Some lock)"



datatype tofu_method = MGet | MPost string string \<comment> \<open>lock id, body\<close> | MLock string | MUnlock | MOther


datatype tofu_response = BadRequest | Unauthorized | NoState | Locked string | InternalError | MethodNotAllowed | Ok string

definition handle_method :: "backend \<Rightarrow> string \<Rightarrow> tofu_method \<Rightarrow> tofu_table \<Rightarrow> tofu_response \<times> tofu_table" where
  "handle_method B ws meth T =
     (case meth of
        MGet \<Rightarrow>
          (let data = fst (get_state T ws)
           in if data = [] then (NoState, T)
              else (case decrypt B data of None \<Rightarrow> (InternalError, T) | Some plain \<Rightarrow> (Ok plain, T)))
      | MPost ident body \<Rightarrow>
          (case lock_check B T ws ident of
             Some holder \<Rightarrow> (Locked holder, T)
           | None \<Rightarrow> (case custody_seal B body of
                 None \<Rightarrow> (InternalError, T)
               | Some enc \<Rightarrow> (Ok [], put_state ws enc T)))
      | MLock doc \<Rightarrow>
          (case lock_state ws doc T of
             (Some holder, T') \<Rightarrow> (Locked holder, T')
           | (None, T') \<Rightarrow> (Ok [], T'))
      | MUnlock \<Rightarrow> (Ok [], unlock_state ws T)
      | MOther \<Rightarrow> (MethodNotAllowed, T))"



section \<open>The lock\<close>

lemma map_of_put: "map_of (put_state ws d T) w = (if w = ws then Some (case map_of T ws of None \<Rightarrow> \<lparr>tr_data = d, tr_lock = None\<rparr>
    | Some r \<Rightarrow> r\<lparr>tr_data := d\<rparr>) else map_of T w)"
  by (simp add: put_state_def map_of_aput)








section \<open>What the lock leaves open\<close>

text \<open>
  A write is a read of the lock and, later, an upsert that does not look at it again.  Between the two another
  client can take the lock, and the write lands under it.
\<close>

lemma write_under_foreign_lock:
  assumes "map_of T ws = Some \<lparr>tr_data = old, tr_lock = None\<rparr>" "doc \<noteq> []" "custody_seal B body = Some enc" "enc \<noteq> old"
  shows "lock_check B T ws ident = None \<and> fst (handle_method B ws (MLock doc) T) = Ok [] \<and>
     map_of (put_state ws enc (snd (handle_method B ws (MLock doc) T))) ws = Some \<lparr>tr_data = enc, tr_lock = Some doc\<rparr>"
  using assms by (simp add: lock_check_def get_state_def handle_method_def lock_state_def map_of_put map_of_aput)

text \<open>A lock taken with an empty document refuses other locks and no write.\<close>

lemma empty_lock_document:
  "fst (handle_method B ws (MLock []) []) = Ok [] \<and>
   fst (handle_method B ws (MLock doc) (snd (handle_method B ws (MLock []) []))) = Locked [] \<and>
   lock_check B (snd (handle_method B ws (MLock []) [])) ws ident = None"
  by (simp add: handle_method_def lock_state_def lock_check_def get_state_def map_of_aput)

section \<open>A workspace\<close>




end
