(* ===== verification/Home.thy ===== *)
theory Home
  imports Prelude
begin

text \<open>
  Where a Source lives in a fleet of Cells: the registry rows of one Cell
  (\<open>core/internal/graph/registry.go\<close>, \<open>rehome.go\<close>, \<open>homegate_store.go\<close> and the write gate of migration 00032), the
  resolver, the supervisor of a Connector and the collision sweep (\<open>core/internal/homegate\<close>), and the answer a
  peer gives to the home probe (\<open>core/internal/api/server_sources.go\<close>).  A Source is identified by its name,
  which is unique in \<open>graph.source\<close>; a NULL column is \<open>None\<close>.  Each call of a store or a peer that can fail
  does so where its parameter says so.
\<close>

section \<open>The registry of a Cell\<close>

record source_spec =
  ss_kind :: string
  ss_name :: string
  ss_endpoint :: string
  ss_credential_ref :: string

record source_row = source_spec +
  sr_cell :: "string option"
  sr_rehoming_to :: "string option"
  sr_home_epoch :: int

datatype open_key = RehomeStuck string | HomeCollision string | HomeStandby string

datatype open_finding =
    StuckSeal string string int \<comment> \<open>severity, destination, epoch\<close>
  | CollidingCells "string list"
  | StandbyReason string

record cell_db =
  db_cell :: string
  db_sources :: "source_row gomap"
  db_presence :: "(string \<times> string) list" \<comment> \<open>Entity, Source\<close>
  db_live :: "string list" \<comment> \<open>Entities whose \<open>deleted_at\<close> is NULL\<close>
  db_drift :: "string list" \<comment> \<open>Entities with an unresolved drift Finding\<close>
  db_findings :: "(open_key \<times> open_finding) list"

definition local_cell :: string where
  "local_cell = ''local''"

text \<open>The row \<open>INSERT .. VALUES (kind, name, endpoint, credential_ref, cell)\<close> creates: settled, epoch 0.\<close>

definition new_source_row :: "source_spec \<Rightarrow> string \<Rightarrow> source_row" where
  "new_source_row s cell = \<lparr>ss_kind = ss_kind s, ss_name = ss_name s, ss_endpoint = ss_endpoint s,
     ss_credential_ref = ss_credential_ref s, sr_cell = Some cell, sr_rehoming_to = None, sr_home_epoch = 0\<rparr>"

definition set_source_row :: "source_spec \<Rightarrow> string \<Rightarrow> source_row \<Rightarrow> source_row" where
  "set_source_row s cell r = r\<lparr>ss_kind := ss_kind s, ss_endpoint := ss_endpoint s,
     ss_credential_ref := ss_credential_ref s, sr_cell := Some cell\<rparr>"

definition register_source :: "source_spec \<Rightarrow> string \<Rightarrow> cell_db \<Rightarrow> cell_db" where
  "register_source s explicit_cell db =
     (let cell = (if explicit_cell = [] then db_cell db else explicit_cell)
      in case map_of (db_sources db) (ss_name s) of
           None \<Rightarrow> db\<lparr>db_sources := aput (ss_name s) (new_source_row s cell) (db_sources db)\<rparr>
         | Some r \<Rightarrow> (case sr_rehoming_to r of
               None \<Rightarrow> db\<lparr>db_sources := aput (ss_name s) (set_source_row s cell r) (db_sources db)\<rparr>
             | Some _ \<Rightarrow> db))"

datatype home_read = ReadFailed | NoRow | HomeRow string string \<comment> \<open>cell, rehoming to\<close>

abbreviation text_of :: "string option \<Rightarrow> string" where
  "text_of c \<equiv> case_option [] (\<lambda>s. s) c"

definition get_source_home :: "cell_db \<Rightarrow> string \<Rightarrow> home_read" where
  "get_source_home db name =
     (case map_of (db_sources db) name of
        None \<Rightarrow> NoRow
      | Some r \<Rightarrow> HomeRow (text_of (sr_cell r)) (text_of (sr_rehoming_to r)))"

definition local_homed_sources :: "cell_db \<Rightarrow> string \<Rightarrow> string list" where
  "local_homed_sources db cell =
     sort (map fst (filter (\<lambda>(n, r). sr_cell r = Some cell \<and> sr_rehoming_to r = None) (db_sources db)))"

text \<open>\<open>graph.enforce_write_path\<close> for a Normalizer write: the seal fence, then the home gate.\<close>

definition may_project :: "source_row \<Rightarrow> string \<Rightarrow> bool" where
  "may_project r daemon_cell \<longleftrightarrow>
     sr_rehoming_to r = None \<and>
     \<not> (daemon_cell \<noteq> [] \<and> daemon_cell \<noteq> local_cell \<and>
        (case sr_cell r of None \<Rightarrow> False | Some c \<Rightarrow> c \<noteq> [] \<and> c \<noteq> local_cell \<and> c \<noteq> daemon_cell))"

definition projects :: "cell_db \<Rightarrow> string \<Rightarrow> bool" where
  "projects db name = (case map_of (db_sources db) name of None \<Rightarrow> False | Some r \<Rightarrow> may_project r (db_cell db))"

section \<open>The home probe\<close>

text \<open>\<open>GET /sources/{name}\<close> on a peer, and what the prober of \<open>strattd\<close> makes of the answer.\<close>

definition homes_source :: "source_row \<Rightarrow> string \<Rightarrow> bool" where
  "homes_source r lc \<longleftrightarrow> text_of (sr_cell r) = lc \<or>
     (lc = local_cell \<and> (text_of (sr_cell r) = [] \<or> text_of (sr_cell r) = local_cell))"

record probe_answer =
  pa_home :: string
  pa_homed :: bool
  pa_sealed :: bool

definition answer_probe :: "cell_db \<Rightarrow> string \<Rightarrow> probe_answer" where
  "answer_probe db name =
     (case map_of (db_sources db) name of
        None \<Rightarrow> \<lparr>pa_home = [], pa_homed = False, pa_sealed = False\<rparr>
      | Some r \<Rightarrow>
          if homes_source r (db_cell db)
          then \<lparr>pa_home = text_of (sr_cell r), pa_homed = True, pa_sealed = text_of (sr_rehoming_to r) \<noteq> []\<rparr>
          else \<lparr>pa_home = [], pa_homed = False, pa_sealed = False\<rparr>)"

section \<open>The resolver\<close>

datatype home_state = Active | Standby | Sealed | Greenfield | Uncertain | Degraded

record home =
  hm_state :: home_state
  hm_cell :: string

definition projectable :: "home \<Rightarrow> bool" where
  "projectable h \<longleftrightarrow> hm_state h = Active \<or> hm_state h = Greenfield"

record peer_cell =
  pc_name :: string
  pc_endpoint :: string

type_synonym prober = "string \<Rightarrow> string \<Rightarrow> probe_answer option"

record resolver =
  rv_cell :: string
  rv_home :: "string \<Rightarrow> home_read"
  rv_peers :: "peer_cell list option"
  rv_probe :: prober

definition answered_cell :: "peer_cell \<Rightarrow> probe_answer \<Rightarrow> string" where
  "answered_cell p a = (if pa_home a = [] then pc_name p else pa_home a)"

fun ask_peers :: "prober \<Rightarrow> string \<Rightarrow> bool \<Rightarrow> peer_cell list \<Rightarrow> home" where
  "ask_peers probe name unreachable [] =
     (if unreachable then \<lparr>hm_state = Uncertain, hm_cell = []\<rparr> else \<lparr>hm_state = Greenfield, hm_cell = []\<rparr>)"
| "ask_peers probe name unreachable (p # ps) =
     (case probe (pc_endpoint p) name of
        None \<Rightarrow> ask_peers probe name True ps
      | Some a \<Rightarrow>
          if pa_homed a then \<lparr>hm_state = Standby, hm_cell = answered_cell p a\<rparr>
          else ask_peers probe name unreachable ps)"

definition resolve_peers :: "resolver \<Rightarrow> string \<Rightarrow> home" where
  "resolve_peers R name =
     (case rv_peers R of
        None \<Rightarrow> \<lparr>hm_state = Uncertain, hm_cell = []\<rparr>
      | Some ps \<Rightarrow> ask_peers (rv_probe R) name False ps)"

definition resolve_home :: "resolver \<Rightarrow> string \<Rightarrow> home" where
  "resolve_home R name =
     (case rv_home R name of
        HomeRow cell rehoming \<Rightarrow>
          if rehoming \<noteq> [] then \<lparr>hm_state = Sealed, hm_cell = rv_cell R\<rparr>
          else if cell = rv_cell R \<or> cell = [] \<or> cell = local_cell then \<lparr>hm_state = Active, hm_cell = rv_cell R\<rparr>
          else \<lparr>hm_state = Standby, hm_cell = cell\<rparr>
      | _ \<Rightarrow> resolve_peers R name)"

section \<open>The supervisor\<close>

text \<open>
  One turn of \<open>Supervise\<close>: what the home resolves to, whether the claim fails, whether the Finding store answers,
  and what the turn leaves in the status map and on the Findings surface.  \<open>supervise\<close> is the loop over the turns
  it makes before its context ends.
\<close>

record turn =
  tn_resolver :: resolver
  tn_register :: "string option" \<comment> \<open>the error of the claim\<close>
  tn_findings_ok :: bool

datatype supervisor_call = SetStatus home | Register | RunSyncer | OpenStandby string | ResolveStandby | Sleep

definition unresolved_reason :: string where
  "unresolved_reason = ''fleet home unresolved (a peer Cell is unreachable); standing by rather than risk a double-writer''"

definition supervise_turn :: "string \<Rightarrow> turn \<Rightarrow> supervisor_call list" where
  "supervise_turn name t =
     (let home = resolve_home (tn_resolver t) name
      in SetStatus home #
         (if projectable home
          then Register #
            (case tn_register t of
               Some err \<Rightarrow> [SetStatus \<lparr>hm_state = Degraded, hm_cell = hm_cell home\<rparr>, OpenStandby (''claim failed: '' @ err), Sleep]
             | None \<Rightarrow> [ResolveStandby, RunSyncer])
          else [if hm_state home = Uncertain then OpenStandby unresolved_reason else ResolveStandby, Sleep]))"

record supervised =
  sv_status :: "home gomap"
  sv_findings :: "(open_key \<times> open_finding) list"

definition resolve_finding :: "open_key \<Rightarrow> (open_key \<times> open_finding) list \<Rightarrow> (open_key \<times> open_finding) list" where
  "resolve_finding k fs = filter (\<lambda>(k', _). k' \<noteq> k) fs"

fun perform :: "string \<Rightarrow> bool \<Rightarrow> supervisor_call \<Rightarrow> supervised \<Rightarrow> supervised" where
  "perform name ok (SetStatus h) s = s\<lparr>sv_status := aput name h (sv_status s)\<rparr>"
| "perform name ok (OpenStandby reason) s =
     (if ok then s\<lparr>sv_findings := aput (HomeStandby name) (StandbyReason reason) (sv_findings s)\<rparr> else s)"
| "perform name ok ResolveStandby s =
     (if ok then s\<lparr>sv_findings := resolve_finding (HomeStandby name) (sv_findings s)\<rparr> else s)"
| "perform name ok _ s = s"

definition run_turn :: "string \<Rightarrow> turn \<Rightarrow> supervised \<Rightarrow> supervised" where
  "run_turn name t s = fold (perform name (tn_findings_ok t)) (supervise_turn name t) s"

definition supervise :: "string \<Rightarrow> turn list \<Rightarrow> supervised \<Rightarrow> supervised" where
  "supervise name = fold (run_turn name)"

section \<open>The collision sweep\<close>

definition colliding :: "prober \<Rightarrow> string \<Rightarrow> peer_cell list \<Rightarrow> string list" where
  "colliding probe name ps =
     List.map_filter (\<lambda>p. case probe (pc_endpoint p) name of
         None \<Rightarrow> None
       | Some a \<Rightarrow> if pa_homed a \<and> \<not> pa_sealed a then Some (answered_cell p a) else None) ps"

definition sweep_source :: "string \<Rightarrow> prober \<Rightarrow> peer_cell list \<Rightarrow> (string \<Rightarrow> bool) \<Rightarrow> string \<Rightarrow>
    (open_key \<times> open_finding) list \<Rightarrow> (open_key \<times> open_finding) list" where
  "sweep_source cell probe ps store_ok name fs =
     (let cs = colliding probe name ps
      in if \<not> store_ok name then fs
         else if cs \<noteq> [] then aput (HomeCollision name) (CollidingCells (sort (cell # cs))) fs
         else resolve_finding (HomeCollision name) fs)"

definition sweep :: "string \<Rightarrow> string list option \<Rightarrow> peer_cell list option \<Rightarrow> prober \<Rightarrow> (string \<Rightarrow> bool) \<Rightarrow>
    (open_key \<times> open_finding) list \<Rightarrow> (open_key \<times> open_finding) list" where
  "sweep cell homed peers probe store_ok fs =
     (case homed of
        None \<Rightarrow> fs
      | Some names \<Rightarrow> (case peers of
            None \<Rightarrow> fs
          | Some ps \<Rightarrow> if ps = [] then fs else fold (sweep_source cell probe ps store_ok) names fs))"

section \<open>A fleet\<close>

text \<open>
  The environment of one Cell: the other Cells, each with its own database, answering the probe or not.  A Cell is
  declared with its name for an endpoint.
\<close>

record fleet =
  fl_cells :: "string list"
  fl_db :: "string \<Rightarrow> cell_db"

definition fleet_peers :: "fleet \<Rightarrow> string \<Rightarrow> peer_cell list" where
  "fleet_peers F c = map (\<lambda>n. \<lparr>pc_name = n, pc_endpoint = n\<rparr>) (filter (\<lambda>n. n \<noteq> c) (fl_cells F))"

definition fleet_probe :: "fleet \<Rightarrow> (string \<Rightarrow> bool) \<Rightarrow> prober" where
  "fleet_probe F up e name = (if up e then Some (answer_probe (fl_db F e) name) else None)"

definition fleet_resolver :: "fleet \<Rightarrow> (string \<Rightarrow> bool) \<Rightarrow> string \<Rightarrow> resolver" where
  "fleet_resolver F up c = \<lparr>rv_cell = c, rv_home = get_source_home (fl_db F c),
     rv_peers = Some (fleet_peers F c), rv_probe = fleet_probe F up\<rparr>"

section \<open>Placement\<close>

lemma projectable_home [simp]: "projectable \<lparr>hm_state = st, hm_cell = c\<rparr> \<longleftrightarrow> st \<in> {Active, Greenfield}"
  by (simp add: projectable_def)

lemma ask_peers_projectable:
  "projectable (ask_peers probe name u ps) \<longleftrightarrow>
     \<not> u \<and> (\<forall>p \<in> set ps. \<exists>a. probe (pc_endpoint p) name = Some a \<and> \<not> pa_homed a)"
  by (induction probe name u ps rule: ask_peers.induct) (auto split: option.splits)

text \<open>
  A daemon projects a Source exactly when its own row says the Source is settled here, or it has no row of it
  and every peer answered that it does not home it.  One silent peer is enough to stand by.
\<close>

theorem projectable_iff:
  "projectable (resolve_home R name) \<longleftrightarrow>
     (case rv_home R name of
        HomeRow cell rehoming \<Rightarrow> rehoming = [] \<and> cell \<in> {rv_cell R, [], local_cell}
      | _ \<Rightarrow> (\<exists>ps. rv_peers R = Some ps \<and>
               (\<forall>p \<in> set ps. \<exists>a. rv_probe R (pc_endpoint p) name = Some a \<and> \<not> pa_homed a)))"
  by (auto simp: resolve_home_def resolve_peers_def ask_peers_projectable split: home_read.splits option.splits)

lemma projectable_homeless:
  assumes "map_of (db_sources (fl_db F c)) name = None" and "projectable (resolve_home (fleet_resolver F up c) name)"
    and "d \<in> set (fl_cells F)" "d \<noteq> c"
  shows "\<not> pa_homed (answer_probe (fl_db F d) name)"
proof -
  from assms(1,2) have "projectable (ask_peers (fleet_probe F up) name False (fleet_peers F c))"
    by (simp add: resolve_home_def resolve_peers_def fleet_resolver_def get_source_home_def)
  then have "\<forall>p \<in> set (fleet_peers F c). \<exists>a. fleet_probe F up (pc_endpoint p) name = Some a \<and> \<not> pa_homed a"
    by (simp add: ask_peers_projectable)
  moreover have "\<lparr>pc_name = d, pc_endpoint = d\<rparr> \<in> set (fleet_peers F c)"
    using assms(3,4) by (simp add: fleet_peers_def)
  ultimately have "\<exists>a. fleet_probe F up d name = Some a \<and> \<not> pa_homed a" by fastforce
  then show ?thesis by (auto simp: fleet_probe_def split: if_splits)
qed

lemma answer_probe_homed:
  "map_of (db_sources db) name = Some r \<Longrightarrow> sr_cell r = Some (db_cell db) \<Longrightarrow>
   answer_probe db name = \<lparr>pa_home = db_cell db, pa_homed = True, pa_sealed = text_of (sr_rehoming_to r) \<noteq> []\<rparr>"
  by (simp add: answer_probe_def homes_source_def)

section \<open>The supervisor tells the truth\<close>

lemma map_of_resolve: "map_of (resolve_finding k fs) k' = (if k' = k then None else map_of fs k')"
  by (simp add: resolve_finding_def map_of_without)

lemma ask_peers_state: "hm_state (ask_peers probe name u ps) \<in> {Standby, Uncertain, Greenfield}"
  by (induction probe name u ps rule: ask_peers.induct) (auto split: option.splits)

lemma resolve_never_degraded [simp]: "hm_state (resolve_home R name) \<noteq> Degraded"
  using ask_peers_state [of "rv_probe R" name False]
  by (auto simp: resolve_home_def resolve_peers_def split: home_read.splits option.splits) (metis home_state.distinct)+

definition turn_state :: "string \<Rightarrow> turn \<Rightarrow> home_state" where
  "turn_state name t = (let h = resolve_home (tn_resolver t) name
     in if projectable h \<and> tn_register t \<noteq> None then Degraded else hm_state h)"

lemma run_turn_status: "map_option hm_state (map_of (sv_status (run_turn name t s)) name) = Some (turn_state name t)"
  by (simp add: run_turn_def supervise_turn_def turn_state_def Let_def map_of_aput split: option.split)

lemma run_turn_finding:
  "tn_findings_ok t \<Longrightarrow>
   (map_of (sv_findings (run_turn name t s)) (HomeStandby name) \<noteq> None) = (turn_state name t \<in> {Uncertain, Degraded})"
  by (auto simp: run_turn_def supervise_turn_def turn_state_def Let_def map_of_aput map_of_resolve projectable_def
      split: option.split)

text \<open>
  Whatever a supervisor has been through, its status is that of its last turn, and a daemon that cannot claim or
  cannot place its Source is on the Findings surface and nowhere reported active: the Finding is open exactly when
  the status is uncertain or degraded, and the syncer ran in that turn exactly when the status is active or
  greenfield.
\<close>

theorem supervise_reports_last_turn:
  assumes "tn_findings_ok t"
  shows "\<exists>st. map_option hm_state (map_of (sv_status (supervise name (ts @ [t]) s)) name) = Some st \<and>
     (map_of (sv_findings (supervise name (ts @ [t]) s)) (HomeStandby name) \<noteq> None) = (st \<in> {Uncertain, Degraded}) \<and>
     (RunSyncer \<in> set (supervise_turn name t)) = (st \<in> {Active, Greenfield})"
proof -
  have "(RunSyncer \<in> set (supervise_turn name t)) = (turn_state name t \<in> {Active, Greenfield})"
    by (auto simp: supervise_turn_def turn_state_def Let_def projectable_def split: option.split)
  then show ?thesis using run_turn_finding [OF assms] run_turn_status
    by (intro exI [of _ "turn_state name t"]) (simp add: supervise_def)
qed

section \<open>The sweep names every second writer\<close>

lemma colliding_set:
  "c \<in> set (colliding probe name ps) \<longleftrightarrow>
   (\<exists>p \<in> set ps. \<exists>a. probe (pc_endpoint p) name = Some a \<and> pa_homed a \<and> \<not> pa_sealed a \<and> c = answered_cell p a)"
  by (auto simp: colliding_def in_map_filter split: option.splits if_splits)

lemma sweep_source_other:
  "name' \<noteq> name \<Longrightarrow> map_of (sweep_source cell probe ps ok name fs) (HomeCollision name') = map_of fs (HomeCollision name')"
  by (simp add: sweep_source_def Let_def map_of_aput map_of_resolve)

lemma sweep_source_same:
  "ok name \<Longrightarrow> map_of (sweep_source cell probe ps ok name fs) (HomeCollision name) =
     (if colliding probe name ps = [] then None else Some (CollidingCells (sort (cell # colliding probe name ps))))"
  by (simp add: sweep_source_def Let_def map_of_aput map_of_resolve)

lemma fold_sweep_other:
  "name \<notin> set names \<Longrightarrow>
   map_of (fold (sweep_source cell probe ps ok) names fs) (HomeCollision name) = map_of fs (HomeCollision name)"
  by (induction names arbitrary: fs) (auto simp: sweep_source_other)

lemma fold_sweep:
  "name \<in> set names \<Longrightarrow> ok name \<Longrightarrow>
   map_of (fold (sweep_source cell probe ps ok) names fs) (HomeCollision name) =
     (if colliding probe name ps = [] then None else Some (CollidingCells (sort (cell # colliding probe name ps))))"
proof (induction names rule: rev_induct)
  case (snoc n names)
  then show ?case by (cases "n = name") (auto simp: sweep_source_same sweep_source_other)
qed simp

text \<open>
  When two Cells of a fleet both home a Source unsealed and one is reachable from the other, the sweep of the
  other leaves a critical Finding that names them both; it picks no winner.
\<close>

theorem sweep_reports_double_home:
  assumes "c \<noteq> d" "d \<in> set (fl_cells F)" "up d" "store_ok name"
    and "db_cell (fl_db F d) = d"
    and "map_of (db_sources (fl_db F c)) name = Some r" "sr_cell r = Some c" "sr_rehoming_to r = None"
    and "map_of (db_sources (fl_db F d)) name = Some r'" "sr_cell r' = Some d" "sr_rehoming_to r' = None"
  shows "\<exists>cs. map_of (sweep c (Some (local_homed_sources (fl_db F c) c)) (Some (fleet_peers F c)) (fleet_probe F up) store_ok fs)
       (HomeCollision name) = Some (CollidingCells cs) \<and> {c, d} \<subseteq> set cs"
proof -
  let ?p = "\<lparr>pc_name = d, pc_endpoint = d\<rparr>"
  have p: "?p \<in> set (fleet_peers F c)" using assms(1,2) by (auto simp: fleet_peers_def)
  have a: "answer_probe (fl_db F d) name = \<lparr>pa_home = d, pa_homed = True, pa_sealed = False\<rparr>"
    using answer_probe_homed [of "fl_db F d" name r'] assms(5,9-11) by simp
  have d: "d \<in> set (colliding (fleet_probe F up) name (fleet_peers F c))"
    using p a assms(3) unfolding colliding_set
    by (intro bexI [of _ ?p]) (auto simp: fleet_probe_def answered_cell_def)
  then have "colliding (fleet_probe F up) name (fleet_peers F c) \<noteq> []" by auto
  moreover have "name \<in> set (local_homed_sources (fl_db F c) c)"
    using map_of_SomeD [OF assms(6)] assms(7,8) by (force simp: local_homed_sources_def)
  moreover have "fleet_peers F c \<noteq> []" using p by auto
  ultimately show ?thesis using d assms(4) by (simp add: sweep_def fold_sweep set_insort_key)
qed

section \<open>What the resolver and the sweep leave open\<close>

text \<open>A failed read of this Cell's own row is taken for no row: the Source resolves as nobody's.\<close>

lemma failed_read_is_greenfield:
  "hm_state (resolve_home \<lparr>rv_cell = c, rv_home = \<lambda>_. ReadFailed, rv_peers = Some [], rv_probe = probe\<rparr> name) = Greenfield"
  by (simp add: resolve_home_def resolve_peers_def)

text \<open>
  A named Cell takes an unclaimed row for its own, but does not say so to a peer's probe: the peer claims the Source
  too, and the sweep, which lists the rows stamped with the Cell's name, does not see either.
\<close>

lemma unclaimed_row_has_two_projectors:
  assumes "c \<noteq> local_cell" "c \<noteq> []" "db_cell (fl_db F c) = c" "fl_cells F = [c, d]" "c \<noteq> d" "up c"
    and "map_of (db_sources (fl_db F c)) name = Some r" "sr_cell r = None" "sr_rehoming_to r = None"
    and "map_of (db_sources (fl_db F d)) name = None" "distinct (map fst (db_sources (fl_db F c)))"
  shows "projectable (resolve_home (fleet_resolver F up c) name)"
    and "projectable (resolve_home (fleet_resolver F up d) name)"
    and "name \<notin> set (local_homed_sources (fl_db F c) c)"
proof -
  show "projectable (resolve_home (fleet_resolver F up c) name)"
    using assms(7-9) by (simp add: projectable_iff fleet_resolver_def get_source_home_def)
  have "\<not> pa_homed (answer_probe (fl_db F c) name)"
    using assms(1,2,3,7,8) by (simp add: answer_probe_def homes_source_def)
  then show "projectable (resolve_home (fleet_resolver F up d) name)"
    using assms(4,5,6,10) by (simp add: projectable_iff fleet_resolver_def get_source_home_def fleet_peers_def fleet_probe_def)
  show "name \<notin> set (local_homed_sources (fl_db F c) c)"
    using assms(7,8,11) by (auto simp: local_homed_sources_def dest: eq_key_imp_eq_value)
qed

text \<open>A peer that does not answer is no evidence of a collision, and the sweep resolves the open Finding on it.\<close>

lemma silence_resolves_collision:
  "map_of (sweep c (Some [name]) (Some [p]) (\<lambda>_ _. None) (\<lambda>_. True) [(HomeCollision name, CollidingCells cs)])
     (HomeCollision name) = None"
  by (simp add: sweep_def sweep_source_def colliding_def map_filter_simps map_of_resolve)

section \<open>A fleet of two\<close>

definition vc :: source_spec where
  "vc = \<lparr>ss_kind = ''vcenter'', ss_name = ''vc'', ss_endpoint = ''https://vc'', ss_credential_ref = []\<rparr>"

definition empty_cell :: "string \<Rightarrow> cell_db" where
  "empty_cell c = \<lparr>db_cell = c, db_sources = [], db_presence = [], db_live = [], db_drift = [], db_findings = []\<rparr>"

definition two_homes :: fleet where
  "two_homes = \<lparr>fl_cells = [''eu'', ''us''], fl_db = (\<lambda>c. register_source vc [] (empty_cell c))\<rparr>"

lemma projectable_iff_witness:
  "\<not> projectable (resolve_home (fleet_resolver (two_homes\<lparr>fl_cells := [''eu'', ''us'', ''ap'']\<rparr>) (\<lambda>e. e \<noteq> ''us'') ''ap'') ''x'')"
  unfolding projectable_iff
  by (simp add: fleet_resolver_def get_source_home_def two_homes_def register_source_def empty_cell_def vc_def
      fleet_peers_def fleet_probe_def)

lemma supervise_reports_last_turn_witness:
  "\<exists>st. map_option hm_state (map_of (sv_status (supervise ''vc'' ([] @ [\<lparr>tn_resolver = fleet_resolver two_homes (\<lambda>_. True) ''eu'',
        tn_register = Some ''owner conflict'', tn_findings_ok = True\<rparr>]) \<lparr>sv_status = [], sv_findings = []\<rparr>)) ''vc'') = Some st \<and>
     (map_of (sv_findings (supervise ''vc'' ([] @ [\<lparr>tn_resolver = fleet_resolver two_homes (\<lambda>_. True) ''eu'',
        tn_register = Some ''owner conflict'', tn_findings_ok = True\<rparr>]) \<lparr>sv_status = [], sv_findings = []\<rparr>)) (HomeStandby ''vc'') \<noteq> None)
       = (st \<in> {Uncertain, Degraded}) \<and>
     (RunSyncer \<in> set (supervise_turn ''vc'' \<lparr>tn_resolver = fleet_resolver two_homes (\<lambda>_. True) ''eu'',
        tn_register = Some ''owner conflict'', tn_findings_ok = True\<rparr>)) = (st \<in> {Active, Greenfield})"
  by (rule supervise_reports_last_turn) simp

lemma sweep_reports_double_home_witness:
  "\<exists>cs. map_of (sweep ''eu'' (Some (local_homed_sources (fl_db two_homes ''eu'') ''eu'')) (Some (fleet_peers two_homes ''eu''))
       (fleet_probe two_homes (\<lambda>_. True)) (\<lambda>_. True) []) (HomeCollision ''vc'') = Some (CollidingCells cs) \<and> {''eu'', ''us''} \<subseteq> set cs"
  by (rule sweep_reports_double_home)
    (auto simp: two_homes_def register_source_def new_source_row_def empty_cell_def vc_def)

end
