(* ===== verification/Rehome.thy ===== *)
theory Rehome
  imports Home Transitions
begin

text \<open>
  The fenced move of a Source to another Cell: the store operations of \<open>core/internal/graph/rehome.go\<close>, the
  activities and the durable driver of \<open>core/internal/orchestrate/rehome.go\<close>, and their interleaving with the
  supervisors of the fleet.  What can go wrong with an attempt is its \<open>fault\<close>; what can go wrong with a request
  between two Cells is its \<open>delivery\<close>.
\<close>

section \<open>The store operations\<close>

datatype rehome_error =
    SourceNotFound | AlreadySealed string | ScanFailed | NotSealed
  | StoreFailed | FindingFailed | AnswerMissing
  | PrincipalMissing | NoDestination | UnknownDestination | AuthzFailed | RehomeDenied
  | AdoptRejected | TransportFailed

text \<open>The UPDATE has taken effect when its RETURNING row is scanned: a NULL \<open>cell\<close> does not scan into a string.\<close>

definition seal_source_for_rehome :: "string \<Rightarrow> string \<Rightarrow> cell_db \<Rightarrow> (rehome_error + source_row) \<times> cell_db" where
  "seal_source_for_rehome name dest db =
     (case map_of (db_sources db) name of
        None \<Rightarrow> (Inl SourceNotFound, db)
      | Some r \<Rightarrow>
          if sr_rehoming_to r = None \<or> sr_rehoming_to r = Some dest
          then (let r' = r\<lparr>sr_rehoming_to := Some dest, sr_home_epoch := sr_home_epoch r + 1\<rparr>
                in (if sr_cell r = None then Inl ScanFailed else Inr r', db\<lparr>db_sources := aput name r' (db_sources db)\<rparr>))
          else (Inl (AlreadySealed (text_of (sr_rehoming_to r))), db))"

definition adopt_source :: "source_spec \<Rightarrow> int \<Rightarrow> cell_db \<Rightarrow> cell_db" where
  "adopt_source s epoch db =
     (case map_of (db_sources db) (ss_name s) of
        None \<Rightarrow> db\<lparr>db_sources := aput (ss_name s) ((new_source_row s (db_cell db))\<lparr>sr_home_epoch := epoch\<rparr>) (db_sources db)\<rparr>
      | Some r \<Rightarrow>
          if sr_home_epoch r < epoch
          then db\<lparr>db_sources := aput (ss_name s)
            ((set_source_row s (db_cell db) r)\<lparr>sr_rehoming_to := None, sr_home_epoch := epoch\<rparr>) (db_sources db)\<rparr>
          else db)"

definition retracted :: "string \<Rightarrow> cell_db \<Rightarrow> string list" where
  "retracted name db = map fst (filter (\<lambda>(e, s). s = name) (db_presence db))"

definition complete_rehome :: "string \<Rightarrow> cell_db \<Rightarrow> (rehome_error + nat) \<times> cell_db" where
  "complete_rehome name db =
     (case map_of (db_sources db) name of
        None \<Rightarrow> (Inl SourceNotFound, db)
      | Some r \<Rightarrow>
          if sr_rehoming_to r = None then (Inl NotSealed, db)
          else (let gone = retracted name db;
                    presence = filter (\<lambda>(e, s). s \<noteq> name) (db_presence db);
                    dead = filter (\<lambda>e. e \<in> set gone \<and> e \<notin> fst ` set presence) (db_live db);
                    live = filter (\<lambda>e. e \<notin> set dead) (db_live db)
                in (Inr (length dead),
                    db\<lparr>db_presence := presence, db_live := live,
                       db_drift := filter (\<lambda>e. \<not> (e \<in> set gone \<and> e \<notin> set live)) (db_drift db),
                       db_sources := filter (\<lambda>(n, _). n \<noteq> name) (db_sources db)\<rparr>)))"

definition abort_rehome :: "string \<Rightarrow> cell_db \<Rightarrow> cell_db" where
  "abort_rehome name db =
     (case map_of (db_sources db) name of
        None \<Rightarrow> db
      | Some r \<Rightarrow>
          if sr_rehoming_to r = None then db
          else db\<lparr>db_sources := aput name (r\<lparr>sr_rehoming_to := None, sr_home_epoch := sr_home_epoch r + 1\<rparr>) (db_sources db)\<rparr>)"

definition write_rehome_stuck :: "string \<Rightarrow> string \<Rightarrow> string \<Rightarrow> int \<Rightarrow> cell_db \<Rightarrow> cell_db" where
  "write_rehome_stuck name dest severity epoch db =
     db\<lparr>db_findings := aput (RehomeStuck name) (StuckSeal severity dest epoch) (db_findings db)\<rparr>"

definition resolve_rehome_finding :: "string \<Rightarrow> cell_db \<Rightarrow> cell_db" where
  "resolve_rehome_finding name db = db\<lparr>db_findings := resolve_finding (RehomeStuck name) (db_findings db)\<rparr>"

section \<open>The activities\<close>

record rehome_input =
  rh_source :: string
  rh_dest :: string
  rh_principal :: string

datatype fault = NoFault | StoreDown | FindingDown | AnswerLost

text \<open>An activity answers or fails; a failure can be final (\<open>NewNonRetryableApplicationError\<close>).\<close>

record failure =
  fa_error :: rehome_error
  fa_retryable :: bool

abbreviation final :: "rehome_error \<Rightarrow> failure" where
  "final e \<equiv> \<lparr>fa_error = e, fa_retryable = False\<rparr>"

abbreviation retryable :: "rehome_error \<Rightarrow> failure" where
  "retryable e \<equiv> \<lparr>fa_error = e, fa_retryable = True\<rparr>"

definition check_rehome_grant :: "rehome_input \<Rightarrow> peer_cell list option \<Rightarrow> bool option \<Rightarrow> failure option" where
  "check_rehome_grant I peers allowed =
     (if rh_principal I = [] then Some (final PrincipalMissing)
      else if rh_dest I = [] \<or> rh_dest I = local_cell then Some (final NoDestination)
      else case peers of
          None \<Rightarrow> Some (retryable StoreFailed)
        | Some ps \<Rightarrow>
            if \<not> list_ex (\<lambda>p. pc_name p = rh_dest I) ps then Some (final UnknownDestination)
            else (case allowed of
                None \<Rightarrow> Some (retryable AuthzFailed)
              | Some False \<Rightarrow> Some (final RehomeDenied)
              | Some True \<Rightarrow> None))"

definition seal_source :: "rehome_input \<Rightarrow> fault \<Rightarrow> cell_db \<Rightarrow> (failure + source_row) \<times> cell_db" where
  "seal_source I f db =
     (if f = StoreDown then (Inl (final StoreFailed), db)
      else case seal_source_for_rehome (rh_source I) (rh_dest I) db of
          (Inl e, db') \<Rightarrow> (Inl (final e), db')
        | (Inr r, db') \<Rightarrow>
            if f = FindingDown then (Inl (retryable FindingFailed), db')
            else (if f = AnswerLost then Inl (retryable AnswerMissing) else Inr r,
                  write_rehome_stuck (rh_source I) (rh_dest I) ''warning'' (sr_home_epoch r) db'))"

definition complete_source_rehome :: "rehome_input \<Rightarrow> fault \<Rightarrow> cell_db \<Rightarrow> (failure + nat) \<times> cell_db" where
  "complete_source_rehome I f db =
     (if f = StoreDown then (Inl (retryable StoreFailed), db)
      else case complete_rehome (rh_source I) db of
          (Inl e, db') \<Rightarrow> (Inl (retryable e), db')
        | (Inr n, db') \<Rightarrow>
            if f = FindingDown then (Inl (retryable FindingFailed), db')
            else (if f = AnswerLost then Inl (retryable AnswerMissing) else Inr n, resolve_rehome_finding (rh_source I) db'))"

definition abort_source_rehome :: "rehome_input \<Rightarrow> fault \<Rightarrow> cell_db \<Rightarrow> (failure + unit) \<times> cell_db" where
  "abort_source_rehome I f db =
     (if f = StoreDown then (Inl (retryable StoreFailed), db)
      else let db' = abort_rehome (rh_source I) db
           in if f = FindingDown then (Inl (retryable FindingFailed), db')
              else (if f = AnswerLost then Inl (retryable AnswerMissing) else Inr (), resolve_rehome_finding (rh_source I) db'))"

text \<open>
  \<open>ForwardAdopt\<close>: the request is answered, refused, never sent, answered with the answer lost, or still on its way
  when the sender gives it up (\<open>Delayed\<close>).
\<close>

datatype delivery = Delivered | Refused | Unsent | Lost | Delayed

definition adopt_answer :: "delivery \<Rightarrow> failure option" where
  "adopt_answer w = (case w of Delivered \<Rightarrow> None | Refused \<Rightarrow> Some (final AdoptRejected) | _ \<Rightarrow> Some (retryable TransportFailed))"

definition adopt_arrives :: "delivery \<Rightarrow> bool" where
  "adopt_arrives w \<longleftrightarrow> w = Delivered \<or> w = Lost"

section \<open>The driver in its fleet\<close>

datatype rehome_result = Moved nat | GrantDenied rehome_error | SealFailed rehome_error | AdoptFailed rehome_error
  | CompleteFailed rehome_error

datatype rehome_phase = Granting nat | Sealing nat | Adopting nat | Aborting nat rehome_error | Completing nat
  | Ended rehome_result

record rehome_state =
  rs_fleet :: fleet
  rs_phase :: rehome_phase
  rs_seal :: "source_spec \<times> int"
  rs_mail :: "(source_spec \<times> int) list"

text \<open>\<open>MaximumAttempts: 3\<close>: the number of attempts made before this one decides whether it is the last.\<close>

definition max_attempts :: nat where
  "max_attempts = 3"

definition again :: "failure \<Rightarrow> nat \<Rightarrow> bool" where
  "again e n \<longleftrightarrow> fa_retryable e \<and> n + 1 < max_attempts"

definition set_db :: "string \<Rightarrow> cell_db \<Rightarrow> rehome_state \<Rightarrow> rehome_state" where
  "set_db c db S = S\<lparr>rs_fleet := (rs_fleet S)\<lparr>fl_db := (fl_db (rs_fleet S))(c := db)\<rparr>\<rparr>"

abbreviation db_of :: "rehome_state \<Rightarrow> string \<Rightarrow> cell_db" where
  "db_of S c \<equiv> fl_db (rs_fleet S) c"

definition after_grant :: "failure option \<Rightarrow> nat \<Rightarrow> rehome_phase" where
  "after_grant r n = (case r of None \<Rightarrow> Sealing 0 | Some e \<Rightarrow> if again e n then Granting (n + 1) else Ended (GrantDenied (fa_error e)))"

definition after_seal :: "(failure + source_row) \<Rightarrow> nat \<Rightarrow> rehome_phase" where
  "after_seal r n = (case r of Inr _ \<Rightarrow> Adopting 0 | Inl e \<Rightarrow> if again e n then Sealing (n + 1) else Ended (SealFailed (fa_error e)))"

definition after_adopt :: "failure option \<Rightarrow> nat \<Rightarrow> rehome_phase" where
  "after_adopt r n = (case r of None \<Rightarrow> Completing 0 | Some e \<Rightarrow> if again e n then Adopting (n + 1) else Aborting 0 (fa_error e))"

text \<open>The result of the compensation is dropped; the driver reports the failed adopt either way.\<close>

definition after_abort :: "(failure + unit) \<Rightarrow> nat \<Rightarrow> rehome_error \<Rightarrow> rehome_phase" where
  "after_abort r n cause = (case r of Inl e \<Rightarrow> if again e n then Aborting (n + 1) cause else Ended (AdoptFailed cause)
     | Inr _ \<Rightarrow> Ended (AdoptFailed cause))"

definition after_complete :: "(failure + nat) \<Rightarrow> nat \<Rightarrow> rehome_phase" where
  "after_complete r n = (case r of Inr k \<Rightarrow> Ended (Moved k)
     | Inl e \<Rightarrow> if again e n then Completing (n + 1) else Ended (CompleteFailed (fa_error e)))"

definition sealed_payload :: "source_row \<Rightarrow> source_spec \<times> int" where
  "sealed_payload r = (source_spec.truncate r, sr_home_epoch r)"

text \<open>One attempt of each activity and what the driver makes of its result.\<close>

definition do_seal :: "rehome_input \<Rightarrow> string \<Rightarrow> fault \<Rightarrow> nat \<Rightarrow> rehome_state \<Rightarrow> rehome_state" where
  "do_seal I src f n S =
     (case seal_source I f (db_of S src) of (r, db) \<Rightarrow>
        (set_db src db S)\<lparr>rs_phase := after_seal r n,
          rs_seal := (case r of Inl _ \<Rightarrow> rs_seal S | Inr row \<Rightarrow> sealed_payload row)\<rparr>)"

definition do_adopt :: "rehome_input \<Rightarrow> delivery \<Rightarrow> nat \<Rightarrow> rehome_state \<Rightarrow> rehome_state" where
  "do_adopt I w n S =
     (if adopt_arrives w then set_db (rh_dest I) (adopt_source (fst (rs_seal S)) (snd (rs_seal S)) (db_of S (rh_dest I))) S else S)
     \<lparr>rs_phase := after_adopt (adopt_answer w) n, rs_mail := (if w = Delayed then rs_seal S # rs_mail S else rs_mail S)\<rparr>"

definition do_abort :: "rehome_input \<Rightarrow> string \<Rightarrow> fault \<Rightarrow> nat \<Rightarrow> rehome_error \<Rightarrow> rehome_state \<Rightarrow> rehome_state" where
  "do_abort I src f n cause S =
     (case abort_source_rehome I f (db_of S src) of (r, db) \<Rightarrow> (set_db src db S)\<lparr>rs_phase := after_abort r n cause\<rparr>)"

definition do_complete :: "rehome_input \<Rightarrow> string \<Rightarrow> fault \<Rightarrow> nat \<Rightarrow> rehome_state \<Rightarrow> rehome_state" where
  "do_complete I src f n S =
     (case complete_source_rehome I f (db_of S src) of (r, db) \<Rightarrow> (set_db src db S)\<lparr>rs_phase := after_complete r n\<rparr>)"

text \<open>
  One step of the world around a move of \<open>rh_source I\<close> from \<open>src\<close>: an attempt of the driver's current activity, a
  late adopt, or a turn of the supervisor of any Cell.  \<open>W\<close> holds the deliveries the network shows.
\<close>

inductive rehome_step :: "rehome_input \<Rightarrow> string \<Rightarrow> delivery set \<Rightarrow> rehome_state \<Rightarrow> rehome_state \<Rightarrow> bool" for I src W where
  grant: "rs_phase S = Granting n \<Longrightarrow> peers \<in> {None, Some (fleet_peers (rs_fleet S) src)} \<Longrightarrow>
    rehome_step I src W S (S\<lparr>rs_phase := after_grant (check_rehome_grant I peers allowed) n\<rparr>)"
| seal: "rs_phase S = Sealing n \<Longrightarrow> rehome_step I src W S (do_seal I src f n S)"
| adopt: "rs_phase S = Adopting n \<Longrightarrow> w \<in> W \<Longrightarrow> rehome_step I src W S (do_adopt I w n S)"
| abort: "rs_phase S = Aborting n cause \<Longrightarrow> rehome_step I src W S (do_abort I src f n cause S)"
| complete: "rs_phase S = Completing n \<Longrightarrow> rehome_step I src W S (do_complete I src f n S)"
| late: "(s, epoch) \<in> set (rs_mail S) \<Longrightarrow>
    rehome_step I src W S (set_db (rh_dest I) (adopt_source s epoch (db_of S (rh_dest I))) S)"
| supervisor: "c \<in> set (fl_cells (rs_fleet S)) \<Longrightarrow> projectable (resolve_home (fleet_resolver (rs_fleet S) up c) (rh_source I)) \<Longrightarrow>
    ss_name spec = rh_source I \<Longrightarrow>
    rehome_step I src W S (set_db c (register_source spec [] (db_of S c)) S)"

text \<open>Before the move \<open>src\<close> alone knows the Source, and homes it.\<close>

definition rehome_init :: "rehome_input \<Rightarrow> string \<Rightarrow> rehome_state \<Rightarrow> bool" where
  "rehome_init I src S \<longleftrightarrow>
     rs_phase S = Granting 0 \<and> rs_mail S = [] \<and> src \<in> set (fl_cells (rs_fleet S)) \<and>
     (\<forall>c. db_cell (db_of S c) = c) \<and>
     (\<forall>c. c \<noteq> src \<longrightarrow> map_of (db_sources (db_of S c)) (rh_source I) = None) \<and>
     (\<exists>r. map_of (db_sources (db_of S src)) (rh_source I) = Some r \<and> ss_name r = rh_source I \<and>
        sr_cell r = Some src \<and> sr_rehoming_to r = None)"

interpretation move: transition_system "rehome_init I src" "rehome_step I src W" for I src W .

section \<open>What each operation does to the row\<close>

abbreviation row_at :: "rehome_input \<Rightarrow> rehome_state \<Rightarrow> string \<Rightarrow> source_row option" where
  "row_at I S c \<equiv> map_of (db_sources (db_of S c)) (rh_source I)"

lemma set_db_simps [simp]:
  "db_of (set_db c db S) c' = (if c' = c then db else db_of S c')"
  "fl_cells (rs_fleet (set_db c db S)) = fl_cells (rs_fleet S)"
  "rs_phase (set_db c db S) = rs_phase S" "rs_mail (set_db c db S) = rs_mail S" "rs_seal (set_db c db S) = rs_seal S"
  by (simp_all add: set_db_def)

lemma truncate_name [simp]: "ss_name (source_spec.truncate r) = ss_name r"
  by (simp add: source_spec.defs)

text \<open>A row that homes at \<open>c\<close>, and an operation that leaves such a row: the identity of the Source is kept.\<close>

definition homed_row :: "rehome_input \<Rightarrow> string \<Rightarrow> source_row \<Rightarrow> bool" where
  "homed_row I c x \<longleftrightarrow> sr_cell x = Some c \<and> ss_name x = rh_source I"

lemma seal_source_effect:
  assumes "seal_source I f db = (r, db')" "map_of (db_sources db) (rh_source I) = Some x" "homed_row I c x"
  shows "db_cell db' = db_cell db \<and>
    (\<exists>y. map_of (db_sources db') (rh_source I) = Some y \<and> homed_row I c y \<and>
      (\<forall>row. r = Inr row \<longrightarrow> y = row \<and> sr_rehoming_to row = Some (rh_dest I)))"
  using assms
  by (auto simp: seal_source_def seal_source_for_rehome_def write_rehome_stuck_def homed_row_def Let_def map_of_aput
      split: if_splits prod.splits sum.splits)

lemma abort_source_effect:
  assumes "abort_source_rehome I f db = (r, db')" "map_of (db_sources db) (rh_source I) = Some x" "homed_row I c x"
  shows "db_cell db' = db_cell db \<and> (\<exists>y. map_of (db_sources db') (rh_source I) = Some y \<and> homed_row I c y)"
  using assms
  by (auto simp: abort_source_rehome_def abort_rehome_def resolve_rehome_finding_def homed_row_def Let_def map_of_aput
      split: if_splits option.splits)

lemma complete_source_effect:
  assumes "complete_source_rehome I f db = (r, db')"
  shows "db_cell db' = db_cell db \<and>
    (case map_of (db_sources db') (rh_source I) of None \<Rightarrow> True | Some y \<Rightarrow> map_of (db_sources db) (rh_source I) = Some y) \<and>
    (\<forall>n. r = Inr n \<longrightarrow> map_of (db_sources db') (rh_source I) = None)"
  using assms
  by (auto simp: complete_source_rehome_def complete_rehome_def resolve_rehome_finding_def Let_def map_of_without
      split: if_splits prod.splits sum.splits option.splits)

lemma adopt_source_effect:
  assumes "ss_name s = rh_source I"
    and "\<forall>x. map_of (db_sources db) (rh_source I) = Some x \<longrightarrow> homed_row I (db_cell db) x \<and> sr_rehoming_to x = None"
  shows "db_cell (adopt_source s e db) = db_cell db \<and>
    (\<exists>y. map_of (db_sources (adopt_source s e db)) (rh_source I) = Some y \<and> homed_row I (db_cell db) y \<and> sr_rehoming_to y = None)"
  using assms
  by (auto simp: adopt_source_def homed_row_def new_source_row_def set_source_row_def map_of_aput split: option.splits)

lemma register_source_effect:
  assumes "ss_name s = rh_source I" "map_of (db_sources db) (rh_source I) = Some x" "homed_row I (db_cell db) x"
  shows "db_cell (register_source s [] db) = db_cell db \<and>
    (\<exists>y. map_of (db_sources (register_source s [] db)) (rh_source I) = Some y \<and> homed_row I (db_cell db) y \<and>
      sr_rehoming_to y = sr_rehoming_to x)"
  using assms
  by (auto simp: register_source_def homed_row_def set_source_row_def Let_def map_of_aput split: option.splits)

section \<open>The invariant\<close>

definition known_dest :: "rehome_input \<Rightarrow> string \<Rightarrow> rehome_state \<Rightarrow> bool" where
  "known_dest I src S \<longleftrightarrow> rh_dest I \<noteq> src \<and> rh_dest I \<in> set (fl_cells (rs_fleet S))"

definition untouched :: "rehome_input \<Rightarrow> string \<Rightarrow> rehome_state \<Rightarrow> bool" where
  "untouched I src S \<longleftrightarrow> row_at I S src \<noteq> None \<and> rs_mail S = [] \<and> (\<forall>c. c \<noteq> src \<longrightarrow> row_at I S c = None)"

definition fenced :: "rehome_input \<Rightarrow> string \<Rightarrow> rehome_state \<Rightarrow> bool" where
  "fenced I src S \<longleftrightarrow> (\<forall>x. row_at I S src = Some x \<longrightarrow> sr_rehoming_to x \<noteq> None)"

definition quiet :: "rehome_input \<Rightarrow> delivery set \<Rightarrow> rehome_state \<Rightarrow> bool" where
  "quiet I W S \<longleftrightarrow> (W \<inter> {Lost, Delayed} = {} \<longrightarrow> rs_mail S = [] \<and> row_at I S (rh_dest I) = None)"

definition phase_ok :: "rehome_input \<Rightarrow> string \<Rightarrow> delivery set \<Rightarrow> rehome_state \<Rightarrow> bool" where
  "phase_ok I src W S \<longleftrightarrow>
     (case rs_phase S of
        Granting _ \<Rightarrow> untouched I src S
      | Sealing _ \<Rightarrow> untouched I src S \<and> known_dest I src S
      | Adopting _ \<Rightarrow> known_dest I src S \<and> row_at I S src \<noteq> None \<and> fenced I src S \<and> ss_name (fst (rs_seal S)) = rh_source I \<and> quiet I W S
      | Aborting _ _ \<Rightarrow> known_dest I src S \<and> row_at I S src \<noteq> None \<and> quiet I W S
      | Completing _ \<Rightarrow> known_dest I src S \<and> row_at I S (rh_dest I) \<noteq> None \<and> fenced I src S
      | Ended (GrantDenied _) \<Rightarrow> untouched I src S
      | Ended (SealFailed _) \<Rightarrow> untouched I src S \<and> known_dest I src S
      | Ended (AdoptFailed _) \<Rightarrow> known_dest I src S \<and> row_at I S src \<noteq> None \<and> quiet I W S
      | Ended (CompleteFailed _) \<Rightarrow> known_dest I src S \<and> row_at I S (rh_dest I) \<noteq> None \<and> fenced I src S
      | Ended (Moved _) \<Rightarrow> known_dest I src S \<and> row_at I S (rh_dest I) \<noteq> None \<and> row_at I S src = None)"

definition one_source :: "rehome_input \<Rightarrow> string \<Rightarrow> rehome_state \<Rightarrow> bool" where
  "one_source I src S \<longleftrightarrow>
     src \<in> set (fl_cells (rs_fleet S)) \<and> (\<forall>c. db_cell (db_of S c) = c) \<and>
     (\<forall>c. c \<noteq> src \<longrightarrow> c \<noteq> rh_dest I \<longrightarrow> row_at I S c = None) \<and>
     (\<forall>c x. row_at I S c = Some x \<longrightarrow> homed_row I c x \<and> (c \<noteq> src \<longrightarrow> sr_rehoming_to x = None)) \<and>
     (\<forall>m \<in> set (rs_mail S). ss_name (fst m) = rh_source I)"

lemmas phase_defs = phase_ok_def untouched_def known_dest_def fenced_def quiet_def

lemma init_good:
  assumes "rehome_init I src S"
  shows "one_source I src S \<and> phase_ok I src W S"
proof -
  from assms obtain r where r: "row_at I S src = Some r" "homed_row I src r"
    by (auto simp: rehome_init_def homed_row_def)
  have rows: "row_at I S c = (if c = src then Some r else None)" for c
    using assms r(1) by (simp add: rehome_init_def)
  have "one_source I src S" using assms r(2) unfolding one_source_def rows by (simp add: rehome_init_def)
  moreover have "untouched I src S" using assms unfolding untouched_def rows by (simp add: rehome_init_def)
  ultimately show ?thesis using assms by (simp add: rehome_init_def phase_ok_def)
qed

text \<open>Some Cell always homes the Source, so no daemon without a row of it ever finds it free.\<close>

lemma phase_home: "phase_ok I src W S \<Longrightarrow> row_at I S src \<noteq> None \<or> (known_dest I src S \<and> row_at I S (rh_dest I) \<noteq> None)"
  by (auto simp: phase_ok_def untouched_def split: rehome_phase.splits rehome_result.splits)

lemma homed_answers: "one_source I src S \<Longrightarrow> row_at I S c \<noteq> None \<Longrightarrow> pa_homed (answer_probe (db_of S c) (rh_source I))"
  by (auto simp: one_source_def homed_row_def answer_probe_homed)

lemma projectable_has_row:
  assumes "one_source I src S" "phase_ok I src W S"
    and "projectable (resolve_home (fleet_resolver (rs_fleet S) up c) (rh_source I))"
  shows "row_at I S c \<noteq> None"
proof (rule notI)
  assume none: "row_at I S c = None"
  note free = projectable_homeless [OF none assms(3)]
  have src: "src \<in> set (fl_cells (rs_fleet S))" using assms(1) by (simp add: one_source_def)
  from phase_home [OF assms(2)] show False
  proof
    assume "row_at I S src \<noteq> None"
    with free [OF src] homed_answers [OF assms(1)] none show False by (cases "src = c") auto
  next
    assume "known_dest I src S \<and> row_at I S (rh_dest I) \<noteq> None"
    with free [of "rh_dest I"] homed_answers [OF assms(1)] none show False
      by (cases "rh_dest I = c") (auto simp: known_dest_def)
  qed
qed

lemma one_source_set_db:
  assumes "one_source I src S" "db_cell db = c" "c = src \<or> c = rh_dest I"
    and "\<And>x. map_of (db_sources db) (rh_source I) = Some x \<Longrightarrow> homed_row I c x \<and> (c \<noteq> src \<longrightarrow> sr_rehoming_to x = None)"
  shows "one_source I src (set_db c db S)"
  using assms by (auto simp: one_source_def)

lemma one_source_cong:
  assumes "one_source I src S" "rs_fleet S' = rs_fleet S" "\<And>m. m \<in> set (rs_mail S') \<Longrightarrow> ss_name (fst m) = rh_source I"
  shows "one_source I src S'"
  using assms by (simp add: one_source_def)

lemma step_seal:
  assumes "one_source I src S" "phase_ok I src W S" "rs_phase S = Sealing n" and S: "S' = do_seal I src f n S"
  shows "one_source I src S' \<and> phase_ok I src W S'"
proof -
  obtain r db where op: "seal_source I f (db_of S src) = (r, db)" by fastforce
  with S have S': "S' = (set_db src db S)\<lparr>rs_phase := after_seal r n,
      rs_seal := (case r of Inl _ \<Rightarrow> rs_seal S | Inr row \<Rightarrow> sealed_payload row)\<rparr>" by (simp add: do_seal_def)
  from assms(2,3) have u: "untouched I src S" and k: "known_dest I src S" by (simp_all add: phase_ok_def)
  from u obtain x where x: "row_at I S src = Some x" by (auto simp: untouched_def)
  with assms(1) have h: "homed_row I src x" and c: "db_cell (db_of S src) = src" by (auto simp: one_source_def)
  from seal_source_effect [OF op x h] c obtain y where y: "db_cell db = src"
    "map_of (db_sources db) (rh_source I) = Some y" "homed_row I src y"
    "\<And>row. r = Inr row \<Longrightarrow> y = row \<and> sr_rehoming_to row = Some (rh_dest I)" by auto
  have "one_source I src (set_db src db S)" using assms(1) y by (intro one_source_set_db) auto
  then have "one_source I src S'" by (rule one_source_cong) (use assms(1) S' in \<open>auto simp: one_source_def\<close>)
  moreover have "phase_ok I src W S'"
    using u k y by (cases r) (auto simp: S' phase_defs after_seal_def sealed_payload_def homed_row_def)
  ultimately show ?thesis ..
qed

lemma step_abort:
  assumes "one_source I src S" "phase_ok I src W S" "rs_phase S = Aborting n cause" and S: "S' = do_abort I src f n cause S"
  shows "one_source I src S' \<and> phase_ok I src W S'"
proof -
  obtain r db where op: "abort_source_rehome I f (db_of S src) = (r, db)" by fastforce
  with S have S': "S' = (set_db src db S)\<lparr>rs_phase := after_abort r n cause\<rparr>" by (simp add: do_abort_def)
  from assms(2,3) have k: "known_dest I src S" "row_at I S src \<noteq> None" "quiet I W S" by (simp_all add: phase_ok_def)
  from k obtain x where x: "row_at I S src = Some x" by auto
  with assms(1) have h: "homed_row I src x" and c: "db_cell (db_of S src) = src" by (auto simp: one_source_def)
  from abort_source_effect [OF op x h] c obtain y where y: "db_cell db = src"
    "map_of (db_sources db) (rh_source I) = Some y" "homed_row I src y" by auto
  have "one_source I src (set_db src db S)" using assms(1) y by (intro one_source_set_db) auto
  then have "one_source I src S'" by (rule one_source_cong) (use assms(1) S' in \<open>auto simp: one_source_def\<close>)
  moreover have "phase_ok I src W S'"
    using k y by (cases r) (auto simp: S' phase_defs after_abort_def)
  ultimately show ?thesis ..
qed

lemma step_complete:
  assumes "one_source I src S" "phase_ok I src W S" "rs_phase S = Completing n" and S: "S' = do_complete I src f n S"
  shows "one_source I src S' \<and> phase_ok I src W S'"
proof -
  obtain r db where op: "complete_source_rehome I f (db_of S src) = (r, db)" by fastforce
  with S have S': "S' = (set_db src db S)\<lparr>rs_phase := after_complete r n\<rparr>" by (simp add: do_complete_def)
  from assms(2,3) have k: "known_dest I src S" "row_at I S (rh_dest I) \<noteq> None" "fenced I src S" by (simp_all add: phase_ok_def)
  from complete_source_effect [OF op] have e: "db_cell db = db_cell (db_of S src)"
    "map_of (db_sources db) (rh_source I) = Some y \<Longrightarrow> row_at I S src = Some y"
    "r = Inr m \<Longrightarrow> map_of (db_sources db) (rh_source I) = None" for y m by (auto split: option.splits)
  have "one_source I src (set_db src db S)"
    using assms(1) e by (intro one_source_set_db) (auto simp: one_source_def)
  then have "one_source I src S'" by (rule one_source_cong) (use assms(1) S' in \<open>auto simp: one_source_def\<close>)
  moreover have "phase_ok I src W S'"
    using k e(2,3) by (cases r) (auto simp: S' phase_defs after_complete_def)
  ultimately show ?thesis ..
qed

lemma adopt_keeps:
  assumes "one_source I src S" "known_dest I src S" "ss_name s = rh_source I"
  shows "one_source I src (set_db (rh_dest I) (adopt_source s e (db_of S (rh_dest I))) S) \<and>
    row_at I (set_db (rh_dest I) (adopt_source s e (db_of S (rh_dest I))) S) (rh_dest I) \<noteq> None"
proof -
  let ?d = "rh_dest I" and ?db = "adopt_source s e (db_of S (rh_dest I))"
  from assms have "\<forall>x. row_at I S ?d = Some x \<longrightarrow> homed_row I (db_cell (db_of S ?d)) x \<and> sr_rehoming_to x = None"
    by (auto simp: one_source_def known_dest_def)
  note effect = adopt_source_effect [OF assms(3) this, of e]
  have "db_cell (db_of S ?d) = ?d" using assms(1) by (simp add: one_source_def)
  with effect obtain y where y: "db_cell ?db = ?d"
    "map_of (db_sources ?db) (rh_source I) = Some y" "homed_row I ?d y" "sr_rehoming_to y = None" by auto
  then have "one_source I src (set_db ?d ?db S)" using assms(1) by (intro one_source_set_db) auto
  with y(2) show ?thesis by simp
qed

lemma step_adopt:
  assumes "one_source I src S" "phase_ok I src W S" "rs_phase S = Adopting n" "w \<in> W"
    and S: "S' = do_adopt I w n S"
  shows "one_source I src S' \<and> phase_ok I src W S'"
proof -
  let ?T = "set_db (rh_dest I) (adopt_source (fst (rs_seal S)) (snd (rs_seal S)) (db_of S (rh_dest I))) S"
  note S' = S [unfolded do_adopt_def]
  from assms(2,3) have k: "known_dest I src S" "row_at I S src \<noteq> None" "fenced I src S"
    "ss_name (fst (rs_seal S)) = rh_source I" "quiet I W S" by (simp_all add: phase_ok_def)
  note t = adopt_keeps [OF assms(1) k(1,4), of "snd (rs_seal S)"]
  have mail: "\<And>m. m \<in> set (rs_mail S') \<Longrightarrow> ss_name (fst m) = rh_source I"
    using assms(1) k(4) by (auto simp: S' one_source_def split: if_splits)
  have "one_source I src (if adopt_arrives w then ?T else S)" using t assms(1) by simp
  then have "one_source I src S'" by (rule one_source_cong) (use mail in \<open>auto simp: S'\<close>)
  moreover have "phase_ok I src W S'"
    using k t assms(4)
    by (cases w) (auto simp: S' phase_defs after_adopt_def adopt_answer_def adopt_arrives_def)
  ultimately show ?thesis ..
qed

lemma step_late:
  assumes "one_source I src S" "phase_ok I src W S" "(s, e) \<in> set (rs_mail S)"
  shows "one_source I src (set_db (rh_dest I) (adopt_source s e (db_of S (rh_dest I))) S) \<and>
    phase_ok I src W (set_db (rh_dest I) (adopt_source s e (db_of S (rh_dest I))) S)"
proof -
  from assms(2,3) have k: "known_dest I src S" by (auto simp: phase_ok_def untouched_def split: rehome_phase.splits rehome_result.splits)
  from assms(1,3) have "ss_name s = rh_source I" by (auto simp: one_source_def)
  note t = adopt_keeps [OF assms(1) k this, of e]
  moreover have "phase_ok I src W (set_db (rh_dest I) (adopt_source s e (db_of S (rh_dest I))) S)"
    using assms(2,3) t k by (auto simp: phase_defs split: rehome_phase.splits rehome_result.splits)
  ultimately show ?thesis by blast
qed

lemma step_supervisor:
  assumes "one_source I src S" "phase_ok I src W S"
    and "projectable (resolve_home (fleet_resolver (rs_fleet S) up c) (rh_source I))" "ss_name spec = rh_source I"
  shows "one_source I src (set_db c (register_source spec [] (db_of S c)) S) \<and>
    phase_ok I src W (set_db c (register_source spec [] (db_of S c)) S)"
proof -
  let ?db = "register_source spec [] (db_of S c)" and ?S = "set_db c (register_source spec [] (db_of S c)) S"
  from projectable_has_row [OF assms(1-3)] obtain x where x: "row_at I S c = Some x" by auto
  with assms(1) have h: "homed_row I (db_cell (db_of S c)) x" "db_cell (db_of S c) = c" by (auto simp: one_source_def)
  from register_source_effect [OF assms(4) x h(1)] h(2) obtain y where y: "db_cell ?db = c"
    "map_of (db_sources ?db) (rh_source I) = Some y" "homed_row I c y" "sr_rehoming_to y = sr_rehoming_to x" by auto
  have "c = src \<or> c = rh_dest I" using x assms(1) by (auto simp: one_source_def)
  with assms(1) x y have "one_source I src ?S" by (intro one_source_set_db) (auto simp: one_source_def)
  moreover have "phase_ok I src W ?S"
    using assms(2) x y(2,4) by (auto simp: phase_defs split: rehome_phase.splits rehome_result.splits)
  ultimately show ?thesis ..
qed

lemma step_good:
  assumes "rehome_step I src W S S'" "one_source I src S \<and> phase_ok I src W S"
  shows "one_source I src S' \<and> phase_ok I src W S'"
  using assms
proof cases
  case (grant n peers allowed)
  have "check_rehome_grant I peers allowed = None \<Longrightarrow> known_dest I src S"
    using grant by (auto simp: check_rehome_grant_def known_dest_def fleet_peers_def list_ex_iff split: if_splits option.splits)
  moreover have "one_source I src S'" using assms(2) grant by (auto simp: one_source_def)
  ultimately show ?thesis using assms(2) grant by (auto simp: phase_defs after_grant_def split: option.splits)
next
  case (seal n f)
  from step_seal [OF _ _ seal(2,1)] assms(2) show ?thesis by blast
next
  case (adopt n w)
  from step_adopt [OF _ _ adopt(2,3,1)] assms(2) show ?thesis by blast
next
  case (abort n cause f)
  from step_abort [OF _ _ abort(2,1)] assms(2) show ?thesis by blast
next
  case (complete n f)
  from step_complete [OF _ _ complete(2,1)] assms(2) show ?thesis by blast
next
  case (late s epoch)
  from step_late [OF _ _ late(2)] assms(2) show ?thesis unfolding late(1) by blast
next
  case (supervisor c up spec)
  from step_supervisor [OF _ _ supervisor(3,4)] assms(2) show ?thesis unfolding supervisor(1) by blast
qed

lemma reach_good: "move.reach I src W S \<Longrightarrow> one_source I src S \<and> phase_ok I src W S"
  by (rule move.invariant [where I = "\<lambda>S. one_source I src S \<and> phase_ok I src W S"]) (auto dest: init_good step_good)

section \<open>At most one writer\<close>

lemma projects_row: "projects (db_of S c) (rh_source I) \<Longrightarrow> \<exists>x. row_at I S c = Some x \<and> sr_rehoming_to x = None"
  by (auto simp: projects_def may_project_def split: option.splits)



text \<open>
  When the driver of a move ends, its report is the state of the fleet: moved, and only the destination knows the
  Source; refused, or not sealed, and only the old home does; the adopt failed, and the old home still has it - alone,
  unless an answer was lost; the completion failed, and the destination has it while the old home cannot write.
\<close>

theorem rehome_outcome:
  assumes "move.reach I src W S" and "rs_phase S = Ended r"
  shows "case r of
       Moved _ \<Rightarrow> row_at I S src = None \<and> projects (db_of S (rh_dest I)) (rh_source I)
     | GrantDenied _ \<Rightarrow> row_at I S src \<noteq> None \<and> (\<forall>c. c \<noteq> src \<longrightarrow> row_at I S c = None)
     | SealFailed _ \<Rightarrow> row_at I S src \<noteq> None \<and> (\<forall>c. c \<noteq> src \<longrightarrow> row_at I S c = None)
     | AdoptFailed _ \<Rightarrow> row_at I S src \<noteq> None \<and> (W \<inter> {Lost, Delayed} = {} \<longrightarrow> row_at I S (rh_dest I) = None)
     | CompleteFailed _ \<Rightarrow> \<not> projects (db_of S src) (rh_source I) \<and> projects (db_of S (rh_dest I)) (rh_source I)"
proof -
  from reach_good [OF assms(1)] have good: "one_source I src S" "phase_ok I src W S" by auto
  have dest: "projects (db_of S (rh_dest I)) (rh_source I)" if "known_dest I src S" "row_at I S (rh_dest I) = Some x" for x
    using good(1) that by (auto simp: one_source_def known_dest_def homed_row_def projects_def may_project_def)
  have src: "\<not> projects (db_of S src) (rh_source I)" if "fenced I src S"
    using that projects_row by (force simp: fenced_def)
  show ?thesis using good(2) assms(2) dest src
    by (auto simp: phase_ok_def untouched_def quiet_def split: rehome_result.splits)
qed

text \<open>
  Retiring a Source on its old Cell tombstones exactly the Entities that no other Source of the Cell observes,
  closes the drift Findings of the tombstoned ones only, forgets what the Source observed and removes its row.
\<close>

theorem complete_tombstones_unobserved:
  assumes "complete_rehome name db = (Inr n, db')"
  shows "map_of (db_sources db') name = None \<and>
     set (db_presence db') = {(e, s) \<in> set (db_presence db). s \<noteq> name} \<and>
     set (db_live db') = {e \<in> set (db_live db). (e, name) \<in> set (db_presence db) \<longrightarrow> (\<exists>s. s \<noteq> name \<and> (e, s) \<in> set (db_presence db))} \<and>
     set (db_drift db') = {e \<in> set (db_drift db). (e, name) \<in> set (db_presence db) \<longrightarrow> e \<in> set (db_live db')} \<and>
     n + length (db_live db') = length (db_live db)"
proof -
  let ?gone = "retracted name db" and ?pres = "filter (\<lambda>(e, s). s \<noteq> name) (db_presence db)"
  let ?dead = "filter (\<lambda>e. e \<in> set ?gone \<and> e \<notin> fst ` set ?pres) (db_live db)"
  have gone: "e \<in> set ?gone \<longleftrightarrow> (e, name) \<in> set (db_presence db)" for e by (force simp: retracted_def)
  define other where "other = (\<lambda>e. \<exists>s. s \<noteq> name \<and> (e, s) \<in> set (db_presence db))"
  have pres: "e \<in> fst ` set ?pres \<longleftrightarrow> other e" for e by (force simp: other_def)
  have dead: "?dead = filter (\<lambda>e. (e, name) \<in> set (db_presence db) \<and> \<not> other e) (db_live db)" by (simp only: gone pres)
  have live: "filter (\<lambda>e. e \<notin> set ?dead) (db_live db) = filter (\<lambda>e. \<not> ((e, name) \<in> set (db_presence db) \<and> \<not> other e)) (db_live db)"
    unfolding dead by (rule filter_cong) auto
  let ?db' = "db\<lparr>db_presence := ?pres, db_live := filter (\<lambda>e. e \<notin> set ?dead) (db_live db),
      db_drift := filter (\<lambda>e. \<not> (e \<in> set ?gone \<and> e \<notin> set (filter (\<lambda>e. e \<notin> set ?dead) (db_live db)))) (db_drift db),
      db_sources := filter (\<lambda>(k, _). k \<noteq> name) (db_sources db)\<rparr>"
  from assms obtain r where "map_of (db_sources db) name = Some r" "sr_rehoming_to r \<noteq> None"
    by (auto simp: complete_rehome_def split: option.splits if_splits)
  then have "complete_rehome name db = (Inr (length ?dead), ?db')"
    by (simp only: complete_rehome_def Let_def option.case if_False)
  with assms have n: "n = length ?dead" and db': "db' = ?db'" by (simp_all only: prod.inject sum.inject)
  have "n + length (filter (\<lambda>e. \<not> ((e, name) \<in> set (db_presence db) \<and> \<not> other e)) (db_live db)) = length (db_live db)"
    unfolding n dead by (rule sum_length_filter_compl)
  then show ?thesis unfolding db' live other_def by (auto simp: gone map_of_without)
qed

section \<open>A move from eu to us\<close>

definition eu_us :: rehome_input where
  "eu_us = \<lparr>rh_source = ''vc'', rh_dest = ''us'', rh_principal = ''ada''\<rparr>"

definition at_eu :: rehome_state where
  "at_eu = \<lparr>rs_fleet = \<lparr>fl_cells = [''eu'', ''us''], fl_db = (\<lambda>c. if c = ''eu'' then register_source vc [] (empty_cell c) else empty_cell c)\<rparr>,
     rs_phase = Granting 0, rs_seal = (vc, 0), rs_mail = []\<rparr>"

definition eu_sealing :: rehome_state where
  "eu_sealing = at_eu\<lparr>rs_phase := Sealing 0\<rparr>"

definition eu_sealed :: rehome_state where
  "eu_sealed = do_seal eu_us ''eu'' NoFault 0 eu_sealing"

lemmas eu_defs = eu_us_def at_eu_def eu_sealing_def vc_def empty_cell_def
lemmas op_defs = register_source_def new_source_row_def set_source_row_def do_seal_def seal_source_def seal_source_for_rehome_def
  write_rehome_stuck_def sealed_payload_def source_spec.defs do_adopt_def adopt_source_def adopt_arrives_def adopt_answer_def
  do_abort_def abort_source_rehome_def abort_rehome_def do_complete_def complete_source_rehome_def complete_rehome_def
  resolve_rehome_finding_def resolve_finding_def retracted_def after_seal_def after_adopt_def after_abort_def
  after_complete_def again_def max_attempts_def set_db_def Let_def

lemma eu_sealing_reach: "move.reach eu_us ''eu'' W eu_sealing"
proof -
  have "rehome_init eu_us ''eu'' at_eu" by (simp add: rehome_init_def eu_defs register_source_def new_source_row_def)
  then have "move.reach eu_us ''eu'' W at_eu" by (rule move.start)
  moreover have "rehome_step eu_us ''eu'' W at_eu
      (at_eu\<lparr>rs_phase := after_grant (check_rehome_grant eu_us (Some (fleet_peers (rs_fleet at_eu) ''eu'')) (Some True)) 0\<rparr>)"
    by (rule rehome_step.grant) (simp_all add: at_eu_def)
  moreover have "check_rehome_grant eu_us (Some (fleet_peers (rs_fleet at_eu) ''eu'')) (Some True) = None"
    by (simp add: check_rehome_grant_def eu_defs fleet_peers_def local_cell_def)
  ultimately show ?thesis by (auto simp: eu_sealing_def after_grant_def intro: move.onward)
qed

lemma eu_sealed_reach: "move.reach eu_us ''eu'' W eu_sealed"
  unfolding eu_sealed_def
  by (rule move.onward [OF eu_sealing_reach rehome_step.seal]) (simp add: eu_sealing_def)

lemma eu_sealed_phase: "rs_phase eu_sealed = Adopting 0"
  by (simp add: eu_sealed_def eu_defs op_defs)

definition us_adopted :: rehome_state where
  "us_adopted = do_adopt eu_us Delivered 0 eu_sealed"

definition us_moved :: rehome_state where
  "us_moved = do_complete eu_us ''eu'' NoFault 0 us_adopted"

lemma us_moved_reach: "Delivered \<in> W \<Longrightarrow> move.reach eu_us ''eu'' W us_moved"
proof -
  assume "Delivered \<in> W"
  then have "move.reach eu_us ''eu'' W us_adopted" unfolding us_adopted_def
    by (intro move.onward [OF eu_sealed_reach rehome_step.adopt]) (auto simp: eu_sealed_phase)
  then show ?thesis unfolding us_moved_def
    by (rule move.onward [OF _ rehome_step.complete]) (simp add: us_adopted_def do_adopt_def adopt_arrives_def after_adopt_def adopt_answer_def)
qed

lemma us_moved_phase: "rs_phase us_moved = Ended (Moved 0)"
  by (simp add: us_moved_def us_adopted_def eu_sealed_def eu_defs op_defs)

section \<open>Two writers after a lost answer\<close>

text \<open>
  The destination adopts and the answer is lost (or the request is delayed past the last attempt): the driver
  compensates, and the bump of the old home's epoch does not reach the destination's database, where the adopt is an
  INSERT.  Both Cells then write the Source.
\<close>

definition compensated :: "delivery \<Rightarrow> rehome_state" where
  "compensated w = do_abort eu_us ''eu'' NoFault 0 TransportFailed
     (do_adopt eu_us Unsent 2 (do_adopt eu_us Unsent 1 (do_adopt eu_us w 0 eu_sealed)))"




text \<open>The late adopt carries epoch 1, the old home is at epoch 2, and it is accepted.\<close>

lemma late_adopt_passes_fence:
  "rs_mail (compensated Delayed) = [(vc, 1)] \<and>
   map_option sr_home_epoch (map_of (db_sources (db_of (compensated Delayed) ''eu'')) ''vc'') = Some 2 \<and>
   projects (adopt_source vc 1 (db_of (compensated Delayed) ''us'')) ''vc''"
  by (simp add: compensated_def eu_sealed_def eu_defs op_defs projects_def may_project_def)

text \<open>
  The seal is committed before its Finding: when that fails three times the driver gives up without compensation, and
  the Source is frozen with nothing on the Findings surface.
\<close>

lemma failed_finding_freezes_source:
  "rs_phase (do_seal eu_us ''eu'' FindingDown 2 (do_seal eu_us ''eu'' FindingDown 1 (do_seal eu_us ''eu'' FindingDown 0 eu_sealing)))
     = Ended (SealFailed FindingFailed) \<and>
   \<not> projects (db_of (do_seal eu_us ''eu'' FindingDown 2 (do_seal eu_us ''eu'' FindingDown 1 (do_seal eu_us ''eu'' FindingDown 0 eu_sealing))) ''eu'') ''vc'' \<and>
   db_findings (db_of (do_seal eu_us ''eu'' FindingDown 2 (do_seal eu_us ''eu'' FindingDown 1 (do_seal eu_us ''eu'' FindingDown 0 eu_sealing))) ''eu'') = []"
  by (simp add: eu_defs op_defs projects_def may_project_def)

text \<open>
  The completion is not repeatable: once its row is gone every retry is told that the Source does not exist, so a
  Finding it failed to resolve stays open and the move is reported failed.
\<close>

lemma retried_completion_fails:
  assumes "complete_source_rehome I FindingDown db = (Inl e, db')" "fa_error e = FindingFailed"
  shows "complete_source_rehome I f db' = (if f = StoreDown then (Inl (retryable StoreFailed), db') else (Inl (retryable SourceNotFound), db'))"
  using assms
  by (auto simp: complete_source_rehome_def complete_rehome_def map_of_without Let_def split: if_splits prod.splits sum.splits option.splits)

text \<open>A Source whose row names no Cell is sealed although the driver is told that sealing it failed.\<close>

lemma unclaimed_source_is_frozen:
  assumes "map_of (db_sources db) name = Some r" "sr_cell r = None" "sr_rehoming_to r = None"
  shows "fst (seal_source_for_rehome name dest db) = Inl ScanFailed \<and>
    \<not> projects (snd (seal_source_for_rehome name dest db)) name"
  using assms by (simp add: seal_source_for_rehome_def Let_def projects_def may_project_def map_of_aput)

section \<open>Witnesses\<close>


lemma rehome_outcome_witness:
  "row_at eu_us us_moved ''eu'' = None \<and> projects (db_of us_moved (rh_dest eu_us)) (rh_source eu_us)"
  using rehome_outcome [OF us_moved_reach [of UNIV] us_moved_phase] by simp

definition observed_db :: cell_db where
  "observed_db = (snd (seal_source eu_us NoFault (register_source vc [] (empty_cell ''eu''))))
     \<lparr>db_presence := [(''a'', ''vc''), (''b'', ''vc''), (''b'', ''dns'')], db_live := [''a'', ''b''], db_drift := [''a'', ''b'']\<rparr>"

lemma complete_tombstones_unobserved_witness:
  "''a'' \<notin> set (db_live (snd (complete_rehome ''vc'' observed_db))) \<and> ''b'' \<in> set (db_live (snd (complete_rehome ''vc'' observed_db)))"
proof -
  let ?P = "[(''a'', ''vc''), (''b'', ''vc''), (''b'', ''dns'')]"
  have r: "complete_rehome ''vc'' observed_db = (Inr 1, snd (complete_rehome ''vc'' observed_db))"
    by (simp add: observed_db_def eu_defs op_defs)
  have p: "db_presence observed_db = ?P" "db_live observed_db = [''a'', ''b'']"
    by (simp_all add: observed_db_def)
  from complete_tombstones_unobserved [OF r, unfolded p]
  have live: "e \<in> set (db_live (snd (complete_rehome ''vc'' observed_db))) \<longleftrightarrow>
      e \<in> set [''a'', ''b''] \<and> ((e, ''vc'') \<in> set ?P \<longrightarrow> (\<exists>s. s \<noteq> ''vc'' \<and> (e, s) \<in> set ?P))" for e
    by (simp only: mem_Collect_eq)
  have "s = ''vc''" if "(''a'', s) \<in> set ?P" for s using that by simp
  moreover have "(''b'', ''dns'') \<in> set ?P" "''dns'' \<noteq> ''vc''" by simp_all
  moreover have "(''a'', ''vc'') \<in> set ?P" by simp
  ultimately show ?thesis unfolding live by (metis list.set_intros)
qed

end
