(* ===== verification/Across.thy ===== *)
theory Across
  imports Runners
begin

text \<open>
  A Run over more than one Cell (\<open>core/internal/orchestrate/across.go\<close>): the scatter of a child Run to every Cell,
  the forwarding and polling of a remote child, the aggregate the parent records and the body a peer launches the
  child from, with the launch selection of \<open>launch.go\<close> and the decoding of \<open>StartRun\<close> in
  \<open>core/internal/api/server.go\<close> on the peer's side.  What the activities, the peers and the child Runs answer is a
  parameter.
\<close>

section \<open>Runs\<close>

text \<open>\<open>types.RunStatus\<close> is a string type: a peer may answer any.\<close>

definition RunSucceeded :: string where "RunSucceeded = ''succeeded''"
definition RunFailed :: string where "RunFailed = ''failed''"
definition RunCanceled :: string where "RunCanceled = ''canceled''"
definition RunPartial :: string where "RunPartial = ''partial''"

lemmas run_status_defs = RunSucceeded_def RunFailed_def RunCanceled_def RunPartial_def

definition is_terminal :: "string \<Rightarrow> bool" where
  "is_terminal s \<longleftrightarrow> s = RunSucceeded \<or> s = RunFailed \<or> s = RunCanceled \<or> s = RunPartial"

record across_input = run_input +
  ai_run_id :: string
  ai_stay_local :: bool

record child_result =
  cr_cell :: string
  cr_run_id :: string
  cr_status :: string
  cr_targets :: int
  cr_unreachable :: bool

section \<open>The aggregate\<close>

record aggregate =
  ag_status :: string
  ag_touched :: "string list"
  ag_failed_cells :: "string list"
  ag_total :: int

definition failed_children :: "child_result list \<Rightarrow> child_result list" where
  "failed_children cs = filter (\<lambda>c. cr_status c \<noteq> RunSucceeded) cs"

definition aggregate_across :: "child_result list \<Rightarrow> aggregate" where
  "aggregate_across cs =
     (let failed = length (failed_children cs);
          total = sum_list (map cr_targets cs)
      in \<lparr>ag_status = (if failed = length cs then RunFailed else if failed > 0 then RunPartial
                       else if total = 0 then RunFailed else RunSucceeded),
          ag_touched = sort (map cr_cell (filter (\<lambda>c. cr_targets c > 0 \<or> cr_status c \<noteq> RunSucceeded) cs)),
          ag_failed_cells = sort (map cr_cell (failed_children cs)),
          ag_total = total\<rparr>)"

section \<open>A remote child\<close>

datatype forward_error = NoPeerClient | InvalidChildBody | PostFailed | ChildRunRejected | ChildRunUnparseable | ForwardCanceled

text \<open>
  One attempt of the activity: the answer to its POST, then what each tick of the poll saw.  \<open>TickLost\<close> ends the
  attempt from outside (the worker is gone, the heartbeat times out) and the schedule retries.
\<close>

datatype post_answer = TransportError | Answer nat "string option" \<comment> \<open>HTTP status, the launched id if the body parses\<close>

datatype poll_tick = Transient | Polled string int | TickCanceled | TickLost

datatype attempt_result = Forwarded child_result | Attempt_Failed forward_error bool \<comment> \<open>retryable\<close> | Still_Polling

fun poll_loop :: "string \<Rightarrow> string \<Rightarrow> poll_tick list \<Rightarrow> attempt_result" where
  "poll_loop cell run [] = Still_Polling"
| "poll_loop cell run (Transient # ts) = poll_loop cell run ts"
| "poll_loop cell run (Polled s n # ts) =
     (if is_terminal s then Forwarded \<lparr>cr_cell = cell, cr_run_id = run, cr_status = s, cr_targets = n, cr_unreachable = False\<rparr>
      else poll_loop cell run ts)"
| "poll_loop cell run (TickCanceled # ts) = Attempt_Failed ForwardCanceled False"
| "poll_loop cell run (TickLost # ts) = Attempt_Failed PostFailed True"

definition forward_attempt :: "string \<Rightarrow> bool \<Rightarrow> bool \<Rightarrow> post_answer \<Rightarrow> poll_tick list \<Rightarrow> attempt_result" where
  "forward_attempt cell has_peers body_ok answer ticks =
     (if \<not> has_peers then Attempt_Failed NoPeerClient False
      else if \<not> body_ok then Attempt_Failed InvalidChildBody False
      else case answer of
          TransportError \<Rightarrow> Attempt_Failed PostFailed True
        | Answer code parsed \<Rightarrow>
            if code < 200 \<or> 300 \<le> code then Attempt_Failed ChildRunRejected False
            else (case parsed of
                None \<Rightarrow> Attempt_Failed ChildRunUnparseable False
              | Some run \<Rightarrow> if run = [] then Attempt_Failed ChildRunUnparseable False else poll_loop cell run ticks))"

text \<open>The activity under its retry policy (three attempts), and the number of POSTs the peer accepted.\<close>

fun forward_child :: "string \<Rightarrow> bool \<Rightarrow> bool \<Rightarrow> nat \<Rightarrow> (post_answer \<times> poll_tick list) list \<Rightarrow> attempt_result" where
  "forward_child cell has_peers body_ok n [] = Still_Polling"
| "forward_child cell has_peers body_ok n ((a, ts) # later) =
     (case forward_attempt cell has_peers body_ok a ts of
        Attempt_Failed e r \<Rightarrow> if r \<and> n + 1 < 3 then forward_child cell has_peers body_ok (n + 1) later else Attempt_Failed e r
      | res \<Rightarrow> res)"

definition accepted_post :: "post_answer \<Rightarrow> bool" where
  "accepted_post a = (case a of TransportError \<Rightarrow> False | Answer code _ \<Rightarrow> 200 \<le> code \<and> code < 300)"

fun children_launched :: "string \<Rightarrow> nat \<Rightarrow> (post_answer \<times> poll_tick list) list \<Rightarrow> nat" where
  "children_launched cell n [] = 0"
| "children_launched cell n ((a, ts) # later) =
     (if accepted_post a then 1 else 0) +
     (case forward_attempt cell True True a ts of
        Attempt_Failed e r \<Rightarrow> if r \<and> n + 1 < 3 then children_launched cell (n + 1) later else 0
      | _ \<Rightarrow> 0)"

section \<open>The parent\<close>

datatype local_result = LocalCanceled | LocalError | LocalDone string int \<comment> \<open>child Run, targets\<close>

datatype remote_result = RemoteCanceled | RemoteError | RemoteDone child_result

record across_world =
  aw_grant :: "string option" \<comment> \<open>the refusal of \<open>CheckExecutionGrant\<close>\<close>
  aw_fleet :: "(string \<times> string list) option" \<comment> \<open>\<open>ListPeerCells\<close>: this Cell, its peers\<close>
  aw_mark_running :: bool
  aw_local :: local_result
  aw_remote :: "string \<Rightarrow> remote_result"
  aw_finish :: bool

record finish_arg =
  fa_status :: string
  fa_cells :: "string list"
  fa_failed_cells :: "string list"
  fa_children :: "child_result list"
  fa_targets :: int

definition bare_finish :: "string \<Rightarrow> finish_arg" where
  "bare_finish s = \<lparr>fa_status = s, fa_cells = [], fa_failed_cells = [], fa_children = [], fa_targets = 0\<rparr>"

datatype across_outcome = AcrossError | AcrossCanceled | AcrossDone

definition local_child :: "string \<Rightarrow> local_result \<Rightarrow> child_result" where
  "local_child cell r =
     (case r of
        LocalDone run n \<Rightarrow> \<lparr>cr_cell = cell, cr_run_id = run, cr_status = RunSucceeded, cr_targets = n, cr_unreachable = False\<rparr>
      | _ \<Rightarrow> \<lparr>cr_cell = cell, cr_run_id = [], cr_status = RunFailed, cr_targets = 0, cr_unreachable = False\<rparr>)"

fun await_remotes :: "(string \<Rightarrow> remote_result) \<Rightarrow> string list \<Rightarrow> child_result list option" where
  "await_remotes remote [] = Some []"
| "await_remotes remote (p # ps) =
     (case remote p of
        RemoteCanceled \<Rightarrow> None
      | RemoteError \<Rightarrow> map_option ((#) \<lparr>cr_cell = p, cr_run_id = [], cr_status = RunFailed, cr_targets = 0, cr_unreachable = True\<rparr>)
          (await_remotes remote ps)
      | RemoteDone c \<Rightarrow> map_option ((#) c) (await_remotes remote ps))"

definition run_across_cells :: "across_world \<Rightarrow> finish_arg \<times> across_outcome" where
  "run_across_cells w =
     (case aw_grant w of Some _ \<Rightarrow> (bare_finish RunFailed, AcrossError)
      | None \<Rightarrow> (case aw_fleet w of None \<Rightarrow> (bare_finish RunFailed, AcrossError)
      | Some (here, peers) \<Rightarrow>
          if \<not> aw_mark_running w then (bare_finish RunFailed, AcrossError)
          else if aw_local w = LocalCanceled then (bare_finish RunCanceled, AcrossCanceled)
          else (case await_remotes (aw_remote w) peers of
              None \<Rightarrow> (bare_finish RunCanceled, AcrossCanceled)
            | Some remotes \<Rightarrow>
                (let children = local_child here (aw_local w) # remotes; ag = aggregate_across children
                 in (\<lparr>fa_status = ag_status ag, fa_cells = ag_touched ag, fa_failed_cells = ag_failed_cells ag,
                      fa_children = children, fa_targets = ag_total ag\<rparr>,
                     if aw_finish w then AcrossDone else AcrossError)))))"

text \<open>\<open>FinishRunAcross\<close>, call by call; the notice goes out after the status is recorded.\<close>

datatype finish_call =
    SetRunStatus string string jmap
  | SetRunCells string "string list"
  | PublishNotice string string jmap
  | PublishStreamEnd string

definition child_row :: "child_result \<Rightarrow> json" where
  "child_row c = JObj [(''cell'', JStr (cr_cell c)), (''run'', JStr (cr_run_id c)), (''status'', JStr (cr_status c))]"

definition finish_summary :: "('a) across_input_scheme \<Rightarrow> finish_arg \<Rightarrow> jmap" where
  "finish_summary input a =
     [(''actuator'', JStr (ri_actuator input)), (''view'', JStr (ri_view_name input)), (''targets'', JInt (fa_targets a)), (''crossCell'', JBool True)]
     @ (if ri_principal input = [] then [] else [(''principal'', JStr (ri_principal input))])
     @ (if fa_children a = [] then [] else [(''childRuns'', JArr (map child_row (fa_children a)))])
     @ (if fa_failed_cells a = [] then [] else [(''failedCells'', JArr (map JStr (fa_failed_cells a)))])
     @ (if fa_cells a = [] then [] else [(''cells'', JArr (map JStr (fa_cells a)))])"

definition notice_kind :: "string \<Rightarrow> string" where
  "notice_kind s = (if s = RunFailed \<or> s = RunPartial then ''run.failed'' else if s = RunCanceled then ''run.canceled'' else [])"

definition finish_run_across :: "('a) across_input_scheme \<Rightarrow> bool \<Rightarrow> finish_arg \<Rightarrow> finish_call list" where
  "finish_run_across input has_bus a =
     [SetRunStatus (ai_run_id input) (fa_status a) (finish_summary input a), SetRunCells (ai_run_id input) (fa_cells a)]
     @ (if notice_kind (fa_status a) \<noteq> [] \<and> has_bus
        then [PublishNotice (notice_kind (fa_status a)) (ai_run_id input)
          [(''status'', JStr (fa_status a)), (''view'', JStr (ri_view_name input)),
           (''failedCells'', JArr (map JStr (fa_failed_cells a))), (''cells'', JArr (map JStr (fa_cells a)))]]
        else [])
     @ (if has_bus then [PublishStreamEnd (ai_run_id input)] else [])"

section \<open>Launching the child on its Cell\<close>


record launch_params =
  lp_view_name :: string
  lp_actuator :: string
  lp_action :: string
  lp_params :: string
  lp_credential_refs :: "string list"
  lp_slices :: int
  lp_principal :: string
  lp_facet_write_scope :: "string list"
  lp_stay_local :: bool















definition launch_input :: "launch_params \<Rightarrow> string \<Rightarrow> string \<Rightarrow> across_input" where
  "launch_input p view run =
     \<lparr>ri_view_name = view, ri_actuator = lp_actuator p, ri_action = [], ri_action_capability = [], ri_dry_run = False,
      ri_params = lp_params p, ri_capability_args = [], ri_slices = lp_slices p, ri_credential_refs = lp_credential_refs p,
      ri_principal = lp_principal p, ri_workflow_run_id = [], ri_step_name = [], ri_plan = False, ri_plan_from = [],
      ri_plan_digest = [], ri_facet_write_scope = lp_facet_write_scope p, ri_entity_scope = [], ri_image = [], ri_group_by = [],
      ai_run_id = run, ai_stay_local = lp_stay_local p\<rparr>"


section \<open>The aggregate tells what ran\<close>

lemma failed_children_all: "length (failed_children cs) = length cs \<longleftrightarrow> (\<forall>c \<in> set cs. cr_status c \<noteq> RunSucceeded)"
proof -
  have "length (failed_children cs) = length cs \<longleftrightarrow> failed_children cs = cs"
    unfolding failed_children_def by (metis length_filter_less filter_True less_irrefl)
  then show ?thesis by (simp add: failed_children_def filter_id_conv)
qed

lemma failed_children_none: "failed_children cs = [] \<longleftrightarrow> (\<forall>c \<in> set cs. cr_status c = RunSucceeded)"
  by (auto simp: failed_children_def filter_empty_conv)

text \<open>
  C29. A Run across Cells is green only when every Cell of the fleet ran its slice to success and one of them had a
  target: when nothing was cancelled, the recorded status is succeeded exactly then, partial exactly when some Cell
  succeeded and another did not, every Cell that did not succeed is named, and the run.failed Notice that goes out
  with any other status names them too.
\<close>

theorem across_never_silently_green:
  assumes "aw_grant w = None" "aw_fleet w = Some (here, peers)" "aw_mark_running w" "aw_local w \<noteq> LocalCanceled"
    and "await_remotes (aw_remote w) peers = Some remotes" and "arg = fst (run_across_cells w)"
    and "children = local_child here (aw_local w) # remotes"
  shows "(fa_status arg = RunSucceeded \<longleftrightarrow> (\<forall>c \<in> set children. cr_status c = RunSucceeded) \<and> (\<Sum>c\<leftarrow>children. cr_targets c) \<noteq> 0) \<and>
     (fa_status arg = RunPartial \<longleftrightarrow> (\<exists>c \<in> set children. cr_status c = RunSucceeded) \<and> (\<exists>c \<in> set children. cr_status c \<noteq> RunSucceeded)) \<and>
     set (fa_failed_cells arg) = {cr_cell c | c. c \<in> set children \<and> cr_status c \<noteq> RunSucceeded} \<and>
     (fa_status arg \<noteq> RunSucceeded \<longrightarrow>
        (\<exists>payload. PublishNotice ''run.failed'' (ai_run_id input) payload \<in> set (finish_run_across input True arg) \<and>
           map_of payload ''failedCells'' = Some (JArr (map JStr (fa_failed_cells arg)))))"
proof -
  let ?ag = "aggregate_across children"
  have arg: "fa_status arg = ag_status ?ag" "fa_failed_cells arg = ag_failed_cells ?ag"
    using assms by (simp_all add: run_across_cells_def Let_def)
  have ne: "children \<noteq> []" using assms(7) by simp
  have "fa_status arg = (if \<forall>c \<in> set children. cr_status c \<noteq> RunSucceeded then RunFailed
      else if \<exists>c \<in> set children. cr_status c \<noteq> RunSucceeded then RunPartial
      else if (\<Sum>c\<leftarrow>children. cr_targets c) = 0 then RunFailed else RunSucceeded)"
    unfolding arg aggregate_across_def Let_def using failed_children_none [of children]
    by (simp add: failed_children_all)
  note status = this
  have cells: "set (fa_failed_cells arg) = {cr_cell c | c. c \<in> set children \<and> cr_status c \<noteq> RunSucceeded}"
    unfolding arg by (auto simp: aggregate_across_def failed_children_def Let_def)
  have kinds: "fa_status arg \<noteq> RunSucceeded \<Longrightarrow> notice_kind (fa_status arg) = ''run.failed''"
    using status by (auto simp: notice_kind_def split: if_splits)
  have "fa_status arg \<noteq> RunSucceeded \<longrightarrow>
        (\<exists>payload. PublishNotice ''run.failed'' (ai_run_id input) payload \<in> set (finish_run_across input True arg) \<and>
           map_of payload ''failedCells'' = Some (JArr (map JStr (fa_failed_cells arg))))"
    using kinds by (auto simp: finish_run_across_def)
  moreover have "fa_status arg = RunSucceeded \<longleftrightarrow> (\<forall>c \<in> set children. cr_status c = RunSucceeded) \<and> (\<Sum>c\<leftarrow>children. cr_targets c) \<noteq> 0"
    using status ne by (auto simp: run_status_defs)
  moreover have "fa_status arg = RunPartial \<longleftrightarrow> (\<exists>c \<in> set children. cr_status c = RunSucceeded) \<and> (\<exists>c \<in> set children. cr_status c \<noteq> RunSucceeded)"
    using status by (auto simp: run_status_defs)
  ultimately show ?thesis using cells by blast
qed

section \<open>A child is launched once\<close>

lemma poll_never_retries: "TickLost \<notin> set ts \<Longrightarrow> poll_loop cell run ts \<noteq> Attempt_Failed e True"
  by (induction cell run ts rule: poll_loop.induct) auto

lemma poll_forwarded: "poll_loop cell run ts = Forwarded c \<Longrightarrow> cr_cell c = cell \<and> cr_run_id c = run \<and> is_terminal (cr_status c)"
  by (induction cell run ts rule: poll_loop.induct) (auto split: if_splits)

lemma accepted_never_retries:
  "accepted_post a \<Longrightarrow> TickLost \<notin> set ts \<Longrightarrow> forward_attempt cell p b a ts = Attempt_Failed e r \<Longrightarrow> \<not> r"
  using poll_never_retries [of ts cell]
  by (cases r) (auto simp: forward_attempt_def accepted_post_def split: post_answer.splits option.splits if_splits)

text \<open>
  As long as no worker is lost in the middle of a poll, the forwarding of a slice creates at most one child Run
  on its peer, however often it is retried, and what it reports is a terminal status of a child of that peer.
\<close>

theorem forward_launches_once:
  assumes "\<forall>(a, ts) \<in> set attempts. TickLost \<notin> set ts"
  shows "children_launched cell n attempts \<le> 1 \<and>
    (\<forall>c. forward_child cell p b n attempts = Forwarded c \<longrightarrow> cr_cell c = cell \<and> is_terminal (cr_status c))"
proof
  show "children_launched cell n attempts \<le> 1" using assms
  proof (induction cell n attempts rule: children_launched.induct)
    case (2 cell n a ts later)
    show ?case
    proof (cases "accepted_post a")
      case True
      with 2(2) accepted_never_retries [of a ts cell True True] show ?thesis by (auto split: attempt_result.split)
    next
      case False
      with 2 show ?thesis by (auto split: attempt_result.split)
    qed
  qed simp
  have attempt: "cr_cell c = cell \<and> is_terminal (cr_status c)" if "forward_attempt cell p b a ts = Forwarded c" for cell p b c a ts
    using that by (auto simp: forward_attempt_def dest: poll_forwarded split: if_splits post_answer.splits option.splits)
  show "\<forall>c. forward_child cell p b n attempts = Forwarded c \<longrightarrow> cr_cell c = cell \<and> is_terminal (cr_status c)"
    by (induction cell p b n attempts rule: forward_child.induct)
      (auto dest: attempt split: attempt_result.splits if_splits)
qed

text \<open>
  A worker that is lost after its POST is accepted makes the retry POST again: the id it recorded in its heartbeat
  is not read back, and the peer runs the slice twice.
\<close>

lemma lost_worker_launches_twice:
  "children_launched cell 0 [(Answer 201 (Some ''r1''), [Polled ''running'' 0, TickLost]),
     (Answer 201 (Some ''r2''), [Polled RunSucceeded 3])] = 2"
  by (simp add: forward_attempt_def accepted_post_def is_terminal_def run_status_defs)

section \<open>The child is the parent's slice\<close>









text \<open>What a failed slice of this Cell leaves in the summary: no Run to descend to.\<close>

lemma failed_local_run_unnamed: "cr_run_id (local_child cell LocalError) = []"
  by (simp add: local_child_def)

section \<open>A fleet of two\<close>

definition eu_down :: across_world where
  "eu_down = \<lparr>aw_grant = None, aw_fleet = Some (''eu'', [''us'']), aw_mark_running = True, aw_local = LocalDone ''r1'' 3,
     aw_remote = (\<lambda>_. RemoteError), aw_finish = True\<rparr>"

definition patch_run :: across_input where
  "patch_run = launch_input \<lparr>lp_view_name = ''web'', lp_actuator = ''ansible'', lp_action = [], lp_params = ''{}'',
     lp_credential_refs = [''ssh''], lp_slices = 2, lp_principal = ''ada'', lp_facet_write_scope = [''os''], lp_stay_local = False\<rparr>
     ''web'' ''r0''"


lemma across_never_silently_green_witness:
  "fa_status (fst (run_across_cells eu_down)) \<noteq> RunSucceeded \<and> ''us'' \<in> set (fa_failed_cells (fst (run_across_cells eu_down)))"
proof -
  let ?r = "\<lparr>cr_cell = ''us'', cr_run_id = [], cr_status = RunFailed, cr_targets = 0, cr_unreachable = True\<rparr>"
  have "await_remotes (aw_remote eu_down) [''us''] = Some [?r]" by (simp add: eu_down_def)
  note t = across_never_silently_green [where here = "''eu''", OF _ _ _ _ this refl refl, of patch_run]
  have w: "aw_grant eu_down = None" "aw_fleet eu_down = Some (''eu'', [''us''])" "aw_mark_running eu_down"
    "aw_local eu_down \<noteq> LocalCanceled" by (simp_all add: eu_down_def)
  have r: "cr_status ?r \<noteq> RunSucceeded" "cr_cell ?r = ''us''" by (simp_all add: run_status_defs)
  let ?C = "[local_child ''eu'' (aw_local eu_down), ?r]"
  from t [OF w] have "fa_status (fst (run_across_cells eu_down)) = RunSucceeded \<longrightarrow> (\<forall>c \<in> set ?C. cr_status c = RunSucceeded)"
    and cells: "set (fa_failed_cells (fst (run_across_cells eu_down))) = {cr_cell c | c. c \<in> set ?C \<and> cr_status c \<noteq> RunSucceeded}"
    by blast+
  then have "fa_status (fst (run_across_cells eu_down)) \<noteq> RunSucceeded" using r(1) by (metis list.set_intros)
  moreover have "''us'' \<in> {cr_cell c | c. c \<in> set ?C \<and> cr_status c \<noteq> RunSucceeded}"
    using r by (intro CollectI exI [of _ ?r]) simp
  ultimately show ?thesis unfolding cells by blast
qed

lemma forward_launches_once_witness:
  "children_launched ''us'' 0 [(TransportError, []), (Answer 201 (Some ''r2''), [Transient, Polled RunPartial 3])] \<le> 1"
  using forward_launches_once [of "[(TransportError, []), (Answer 201 (Some ''r2''), [Transient, Polled RunPartial 3])]" "''us''" 0]
  by simp


end
