(* ===== verification/Observe.thy ===== *)
theory Observe
  imports Compiler Runners
begin

text \<open>
  Drift: what a Baseline's check observes (\<open>core/internal/orchestrate/baseline.go\<close>), which of several projected
  Facet values it observes (\<open>core/internal/graph/reader.go\<close>) and the flap-damping machine that turns observations
  into Findings (\<open>core/internal/graph/findingstore.go\<close>).  The partial unique index on live rows makes the live
  Findings of \<open>graph.finding\<close> a map from Baseline and target; resolved rows are kept beside it.  The JSON codec and
  the parsers of durations and timestamps are parameters.
\<close>

section \<open>Expectations\<close>

record observer =
  ob_unmarshal :: "string \<Rightarrow> json option"
  ob_marshal :: "json \<Rightarrow> string option"
  ob_duration :: "string \<Rightarrow> int option"
  ob_rfc3339 :: "string \<Rightarrow> int option"
  ob_now :: int

datatype unmet_reason = FacetAbsent | PathAbsent | ValueMismatch | DoesNotContain | InvalidWindow string
  | NotATimestamp | NotRFC3339 | WithinWindow string | RelationAbsent

fun walk_segs :: "json \<Rightarrow> string list \<Rightarrow> json option" where
  "walk_segs v [] = Some v"
| "walk_segs v (s # ss) = (case v of JObj m \<Rightarrow> (case map_of m s of None \<Rightarrow> None | Some w \<Rightarrow> walk_segs w ss) | _ \<Rightarrow> None)"

definition facet_at_path :: "observer \<Rightarrow> string \<Rightarrow> string \<Rightarrow> string option" where
  "facet_at_path L doc path =
     (if path = [] then Some doc
      else Option.bind (ob_unmarshal L doc) (\<lambda>v.
        Option.bind (walk_segs v (split_on CHR ''.'' path)) (ob_marshal L)))"

definition json_equal :: "observer \<Rightarrow> string \<Rightarrow> string \<Rightarrow> bool" where
  "json_equal L a b = (case (ob_unmarshal L a, ob_unmarshal L b) of (Some va, Some vb) \<Rightarrow> deep_equal va vb | _ \<Rightarrow> False)"

definition json_contains :: "observer \<Rightarrow> string \<Rightarrow> string \<Rightarrow> bool" where
  "json_contains L haystack needle =
     (case ob_unmarshal L haystack of
        Some (JArr vs) \<Rightarrow> (case ob_unmarshal L needle of None \<Rightarrow> False | Some nv \<Rightarrow> list_ex (\<lambda>el. deep_equal el nv) vs)
      | Some (JStr h) \<Rightarrow> (case ob_unmarshal L needle of Some (JStr ns) \<Rightarrow> contains ns h | Some JNull \<Rightarrow> True | _ \<Rightarrow> False)
      | _ \<Rightarrow> False)"

definition not_before_unmet :: "observer \<Rightarrow> string \<Rightarrow> string \<Rightarrow> unmet_reason option" where
  "not_before_unmet L val window =
     (case ob_duration L window of
        None \<Rightarrow> Some (InvalidWindow window)
      | Some dur \<Rightarrow>
          (case (case ob_unmarshal L val of Some (JStr s) \<Rightarrow> Some s | Some JNull \<Rightarrow> Some [] | _ \<Rightarrow> None) of
             None \<Rightarrow> Some NotATimestamp
           | Some ts \<Rightarrow> (case ob_rfc3339 L ts of
                 None \<Rightarrow> Some NotRFC3339
               | Some not_after \<Rightarrow> if not_after < ob_now L + dur then Some (WithinWindow ts) else None)))"

definition expectation_unmet :: "observer \<Rightarrow> string \<Rightarrow> facet_expectation \<Rightarrow> unmet_reason option" where
  "expectation_unmet L val e =
     (if val = [] then Some FacetAbsent
      else case facet_at_path L val (fe_path e) of
          None \<Rightarrow> Some PathAbsent
        | Some found \<Rightarrow>
            if fe_equals e \<noteq> [] then (if json_equal L found (fe_equals e) then None else Some ValueMismatch)
            else if fe_contains e \<noteq> [] then (if json_contains L found (fe_contains e) then None else Some DoesNotContain)
            else if fe_not_before e \<noteq> [] then not_before_unmet L found (fe_not_before e)
            else None)"
section \<open>The Facet a check observes\<close>

datatype facet_key = FacetKey (fk_namespace: string) (fk_qualifier: string)

text \<open>The order \<open>ResolvedFacetsByEntity\<close> sorts contended keys in: by namespace, then by qualifier.\<close>

definition key_before :: "facet_key \<Rightarrow> facet_key \<Rightarrow> bool" where
  "key_before a b \<longleftrightarrow>
     (if fk_namespace a \<noteq> fk_namespace b then fk_namespace a < fk_namespace b else fk_qualifier a < fk_qualifier b)"

instantiation facet_key :: linorder
begin

definition less_facet_key :: "facet_key \<Rightarrow> facet_key \<Rightarrow> bool" where
  "less_facet_key a b \<longleftrightarrow> key_before a b"

definition less_eq_facet_key :: "facet_key \<Rightarrow> facet_key \<Rightarrow> bool" where
  "less_eq_facet_key a b \<longleftrightarrow> a = b \<or> a < b"

instance
  by standard (auto simp: less_facet_key_def key_before_def less_eq_facet_key_def facet_key.expand split: if_splits intro: facet_key.expand)

end

record facet_row =
  fw_key :: facet_key
  fw_value :: string
  fw_authority :: bool

text \<open>One value per namespace and qualifier: the only projection, else the one declared authoritative.\<close>

definition resolve_candidates :: "facet_row list \<Rightarrow> string option" where
  "resolve_candidates cands =
     (case cands of
        [c] \<Rightarrow> Some (fw_value c)
      | _ \<Rightarrow> (case filter fw_authority cands of [a] \<Rightarrow> Some (fw_value a) | _ \<Rightarrow> None))"

definition candidates :: "facet_row list \<Rightarrow> facet_key \<Rightarrow> facet_row list" where
  "candidates rows k = filter (\<lambda>r. fw_key r = k) rows"

definition resolved_facets :: "facet_row list \<Rightarrow> (facet_key \<times> string) list \<times> facet_key list" where
  "resolved_facets rows =
     (let ks = remdups (map fw_key rows)
      in (List.map_filter (\<lambda>k. map_option (\<lambda>v. (k, v)) (resolve_candidates (candidates rows k))) ks,
          sort (filter (\<lambda>k. resolve_candidates (candidates rows k) = None) ks)))"

record check_baseline = baseline +
  cb_actuator :: string
  cb_actuator_capability :: string
  cb_params :: jmap
  cb_slices :: int
  cb_principal :: string
  cb_credential_refs :: "string list"
  cb_facet_write_scope :: "string list"
  cb_required_relations :: "string list"

datatype unmet =
    UnmetFacet string string string unmet_reason bool \<comment> \<open>namespace, qualifier, path, reason, contended\<close>
  | UnmetRelation string

record observation =
  bo_drifted :: bool
  bo_entity_id :: string
  bo_detail :: "unmet list"

text \<open>What the graph answers about one Entity: its Facet rows and the targets of an outgoing relation type.\<close>

record entity_view =
  ev_id :: string
  ev_facets :: "facet_row list"
  ev_relations :: "string \<Rightarrow> string list"

definition value_of :: "(facet_key \<times> string) list \<Rightarrow> facet_key \<Rightarrow> string" where
  "value_of m k = (case map_of m k of None \<Rightarrow> [] | Some v \<Rightarrow> v)"

definition unmet_expectations :: "observer \<Rightarrow> facet_row list \<Rightarrow> facet_expectation list \<Rightarrow> unmet list" where
  "unmet_expectations L rows es =
     (case resolved_facets rows of (by_key, contended) \<Rightarrow>
        List.map_filter (\<lambda>e. let k = FacetKey (fe_namespace e) (fe_qualifier e)
           in map_option (\<lambda>r. UnmetFacet (fe_namespace e) (fe_qualifier e) (fe_path e) r (k \<in> set contended))
                (expectation_unmet L (value_of by_key k) e)) es)"

definition observe_entity :: "observer \<Rightarrow> ('a) check_baseline_scheme \<Rightarrow> entity_view \<Rightarrow> observation" where
  "observe_entity L b v =
     (let unmet = unmet_expectations L (ev_facets v) (bl_expected b)
            @ map UnmetRelation (filter (\<lambda>t. ev_relations v t = []) (cb_required_relations b))
      in \<lparr>bo_drifted = unmet \<noteq> [], bo_entity_id = ev_id v, bo_detail = unmet\<rparr>)"

definition observe_entities :: "observer \<Rightarrow> ('a) check_baseline_scheme \<Rightarrow> entity_view list \<Rightarrow> observation gomap" where
  "observe_entities L b vs = fold (\<lambda>v. aput (ev_id v) (observe_entity L b v)) vs []"

section \<open>Observations of a check Run\<close>

record run_outcome =
  ro_run_id :: string
  ro_per_target :: "string gomap"
  ro_entity_by_target :: "string gomap"
  ro_drift :: "unmet list gomap"

text \<open>\<open>changed\<close> is drift, \<open>ok\<close> is clean, anything else is evidence of neither.\<close>

definition verdict :: "run_outcome \<Rightarrow> string \<Rightarrow> string \<Rightarrow> observation option" where
  "verdict o' target status =
     (let entity = (case map_of (ro_entity_by_target o') target of None \<Rightarrow> [] | Some e \<Rightarrow> e)
      in if status = ''changed'' then Some \<lparr>bo_drifted = True, bo_entity_id = entity,
             bo_detail = (case map_of (ro_drift o') target of None \<Rightarrow> [] | Some d \<Rightarrow> d)\<rparr>
         else if status = ''ok'' then Some \<lparr>bo_drifted = False, bo_entity_id = entity, bo_detail = []\<rparr>
         else None)"

definition observations_from_outcome :: "run_outcome \<Rightarrow> observation gomap" where
  "observations_from_outcome o' =
     List.map_filter (\<lambda>(target, status). map_option (Pair target) (verdict o' target status)) (ro_per_target o')"

section \<open>The damping machine\<close>

datatype live_status = FindingPending | FindingOpen

record live_finding =
  lf_status :: live_status
  lf_count :: int
  lf_entity :: string
  lf_diff :: "unmet list"
  lf_run :: string

type_synonym finding_key = "string \<times> string" \<comment> \<open>Baseline, target\<close>

record finding_table =
  ft_live :: "(finding_key \<times> live_finding) list"
  ft_resolved :: "finding_key list"

record opened_finding =
  op_baseline :: string
  op_target :: string
  op_entity_id :: string
  op_severity :: string
  op_framework :: string

record observation_outcome =
  oo_opened :: nat
  oo_pending :: nat
  oo_resolved :: nat
  oo_cleared :: nat
  oo_opened_findings :: "opened_finding list"

definition no_outcome :: observation_outcome where
  "no_outcome = \<lparr>oo_opened = 0, oo_pending = 0, oo_resolved = 0, oo_cleared = 0, oo_opened_findings = []\<rparr>"

definition damping_of :: "('a) baseline_scheme \<Rightarrow> int" where
  "damping_of b = (if bl_damping b < 1 then 1 else bl_damping b)"

definition opened_of :: "('a) baseline_scheme \<Rightarrow> string \<Rightarrow> observation \<Rightarrow> opened_finding" where
  "opened_of b target o' = \<lparr>op_baseline = bl_name b, op_target = target, op_entity_id = bo_entity_id o',
     op_severity = bl_severity b, op_framework = bl_framework b\<rparr>"

definition note_opened :: "opened_finding \<Rightarrow> observation_outcome \<Rightarrow> observation_outcome" where
  "note_opened f out = out\<lparr>oo_opened := oo_opened out + 1, oo_opened_findings := oo_opened_findings out @ [f]\<rparr>"

definition note_pending :: "observation_outcome \<Rightarrow> observation_outcome" where
  "note_pending out = out\<lparr>oo_pending := oo_pending out + 1\<rparr>"

definition drop_live :: "finding_key \<Rightarrow> (finding_key \<times> live_finding) list \<Rightarrow> (finding_key \<times> live_finding) list" where
  "drop_live k m = filter (\<lambda>(k', _). k' \<noteq> k) m"

text \<open>
  One target of the loop, reading the live rows as they were when the transaction began (\<open>live\<close>).
\<close>

definition observe_target :: "('a) baseline_scheme \<Rightarrow> string \<Rightarrow> (finding_key \<times> live_finding) list \<Rightarrow> string \<times> observation \<Rightarrow>
    observation_outcome \<times> finding_table \<Rightarrow> observation_outcome \<times> finding_table" where
  "observe_target b run live = (\<lambda>(target, o') (out, T).
     let k = (bl_name b, target); damping = damping_of b
     in case map_of live k of
          None \<Rightarrow>
            if bo_drifted o' then
              (let st = (if damping \<le> 1 then FindingOpen else FindingPending);
                   row = \<lparr>lf_status = st, lf_count = 1, lf_entity = bo_entity_id o', lf_diff = bo_detail o', lf_run = run\<rparr>
               in (if st = FindingOpen then note_opened (opened_of b target o') out else note_pending out,
                   T\<lparr>ft_live := aput k row (ft_live T)\<rparr>))
            else (out, T)
        | Some cur \<Rightarrow>
            if bo_drifted o' then
              (let opens = (lf_status cur = FindingPending \<and> lf_count cur + 1 \<ge> damping);
                   row = \<lparr>lf_status = (if opens then FindingOpen else lf_status cur), lf_count = lf_count cur + 1,
                     lf_entity = bo_entity_id o', lf_diff = bo_detail o', lf_run = run\<rparr>
               in (if opens then note_opened (opened_of b target o') out
                   else if lf_status cur = FindingPending then note_pending out else out,
                   T\<lparr>ft_live := aput k row (ft_live T)\<rparr>))
            else if lf_status cur = FindingPending then
              (out\<lparr>oo_cleared := oo_cleared out + 1\<rparr>, T\<lparr>ft_live := drop_live k (ft_live T)\<rparr>)
            else (out\<lparr>oo_resolved := oo_resolved out + 1\<rparr>,
                  T\<lparr>ft_live := drop_live k (ft_live T), ft_resolved := ft_resolved T @ [k]\<rparr>))"

text \<open>\<open>RecordBaselineObservations\<close>: one transaction; a failed one leaves the table as it was (\<open>None\<close>).\<close>

definition record_observations :: "('a) baseline_scheme \<Rightarrow> string \<Rightarrow> observation gomap \<Rightarrow> finding_table \<Rightarrow>
    observation_outcome \<times> finding_table" where
  "record_observations b run obs T = fold (observe_target b run (ft_live T)) obs (no_outcome, T)"

text \<open>
  \<open>EvaluateBaseline\<close> and \<open>EvaluateFacetBaseline\<close> after their observations are taken: the transaction, then one Notice
  per opened Finding until the bus fails.  The policy retries a failed attempt with fresh observations.
\<close>

record evaluate_attempt =
  ea_obs :: "observation gomap"
  ea_commits :: bool
  ea_bus :: "opened_finding \<Rightarrow> bool"

fun emit_notices :: "(opened_finding \<Rightarrow> bool) \<Rightarrow> opened_finding list \<Rightarrow> opened_finding list \<times> bool" where
  "emit_notices bus [] = ([], True)"
| "emit_notices bus (f # fs) = (if bus f then (case emit_notices bus fs of (sent, good) \<Rightarrow> (f # sent, good)) else ([], False))"

fun evaluate_baseline :: "('a) baseline_scheme \<Rightarrow> string \<Rightarrow> nat \<Rightarrow> evaluate_attempt list \<Rightarrow> finding_table \<Rightarrow>
    opened_finding list \<times> bool \<times> finding_table" where
  "evaluate_baseline b run n [] T = ([], False, T)"
| "evaluate_baseline b run n (a # later) T =
     (if \<not> ea_commits a then (if n + 1 < 3 then evaluate_baseline b run (n + 1) later T else ([], False, T))
      else (case record_observations b run (ea_obs a) T of (out, T') \<Rightarrow>
        (case emit_notices (ea_bus a) (oo_opened_findings out) of (sent, good) \<Rightarrow>
           if good then (sent, True, T')
           else if n + 1 < 3 then (case evaluate_baseline b run (n + 1) later T' of (sent', r, T'') \<Rightarrow> (sent @ sent', r, T''))
           else (sent, False, T'))))"

section \<open>The check itself\<close>

record check_input = run_input +
  ci_baseline :: string

definition check_run_input :: "(json \<Rightarrow> string) \<Rightarrow> ('a) check_baseline_scheme \<Rightarrow> string \<Rightarrow> check_input option" where
  "check_run_input encoder b actuator =
     (if actuator = [] then None
      else Some \<lparr>ri_view_name = bl_view_name b, ri_actuator = actuator, ri_action = [], ri_action_capability = [], ri_dry_run = True,
        ri_params = encoder (JObj (cb_params b)), ri_capability_args = [], ri_slices = cb_slices b,
        ri_credential_refs = cb_credential_refs b, ri_principal = cb_principal b, ri_workflow_run_id = [], ri_step_name = [],
        ri_plan = False, ri_plan_from = [], ri_plan_digest = [], ri_facet_write_scope = cb_facet_write_scope b,
        ri_entity_scope = [], ri_image = [], ri_group_by = [], ci_baseline = bl_name b\<rparr>)"

text \<open>
  \<open>RunBaselineCheck\<close>: which observations a cadence fire records.  \<open>None\<close> is a fire that ends in an error and records
  nothing; the child Run that was started, if any, is the second component.
\<close>

record check_world =
  cw_observer :: observer
  cw_entities :: "view_selector option \<Rightarrow> string \<Rightarrow> entity_view list option"
  cw_capability :: "string \<Rightarrow> string option"
  cw_run :: "check_input \<Rightarrow> run_outcome option"
  cw_encode :: "json \<Rightarrow> string"

definition run_baseline_check :: "check_world \<Rightarrow> check_baseline option \<Rightarrow> observation gomap option \<times> check_input option" where
  "run_baseline_check w loaded =
     (case loaded of
        None \<Rightarrow> (None, None)
      | Some b \<Rightarrow>
          if bl_mode b = FacetObservation
          then (if bl_selector b = None \<and> bl_view_name b = [] then (None, None)
                else (map_option (observe_entities (cw_observer w) b) (cw_entities w (bl_selector b) (bl_view_name b)), None))
          else (case (if cb_actuator_capability b \<noteq> [] then cw_capability w (cb_actuator_capability b) else Some (cb_actuator b)) of
              None \<Rightarrow> (None, None)
            | Some actuator \<Rightarrow> (case check_run_input (cw_encode w) b actuator of
                  None \<Rightarrow> (None, None)
                | Some input \<Rightarrow> (map_option observations_from_outcome (cw_run w input), Some input))))"

section \<open>The observed value does not depend on the order of the rows\<close>

lemma filter_single_perm:
  assumes "mset xs = mset ys"
  shows "(case filter P xs of [a] \<Rightarrow> Some (f a) | _ \<Rightarrow> None) = (case filter P ys of [a] \<Rightarrow> Some (f a) | _ \<Rightarrow> None)"
proof -
  have m: "mset (filter P xs) = mset (filter P ys)" using assms by simp
  then have l: "length (filter P xs) = length (filter P ys)" by (rule mset_eq_length)
  have "filter P xs = filter P ys" if "length (filter P ys) = 1"
    using that m l by (cases "filter P xs"; cases "filter P ys") auto
  then show ?thesis using l by (auto split: list.splits)
qed

lemma resolve_candidates_perm:
  assumes "mset cs = mset cs'"
  shows "resolve_candidates cs = resolve_candidates cs'"
proof -
  have l: "length cs = length cs'" using assms by (rule mset_eq_length)
  have "resolve_candidates xs = (if length xs = 1 then (case filter (\<lambda>_. True) xs of [c] \<Rightarrow> Some (fw_value c) | _ \<Rightarrow> None)
      else (case filter fw_authority xs of [a] \<Rightarrow> Some (fw_value a) | _ \<Rightarrow> None))" for xs
    by (cases xs; cases "tl xs") (simp_all add: resolve_candidates_def)
  from this [of cs] this [of cs'] show ?thesis
    using l filter_single_perm [OF assms, where P = "\<lambda>_. True" and f = fw_value]
      filter_single_perm [OF assms, where P = fw_authority and f = fw_value] by simp
qed

lemma map_of_resolved:
  "map_of (fst (resolved_facets rows)) k = (if k \<in> fw_key ` set rows then resolve_candidates (candidates rows k) else None)"
proof -
  let ?f = "\<lambda>k. map_option (\<lambda>v. (k, v)) (resolve_candidates (candidates rows k))"
  have "map_of (List.map_filter ?f ks) k = (if k \<in> set ks then resolve_candidates (candidates rows k) else None)" for ks
    by (induction ks) (auto simp: map_filter_simps split: option.splits)
  then show ?thesis by (simp add: resolved_facets_def Let_def)
qed

lemma contended_iff:
  "k \<in> set (snd (resolved_facets rows)) \<longleftrightarrow> k \<in> fw_key ` set rows \<and> resolve_candidates (candidates rows k) = None"
  by (auto simp: resolved_facets_def Let_def)

lemma unmet_expectations_alt:
  "unmet_expectations L rows es = List.map_filter (\<lambda>e. let k = FacetKey (fe_namespace e) (fe_qualifier e)
     in map_option (\<lambda>r. UnmetFacet (fe_namespace e) (fe_qualifier e) (fe_path e) r (k \<in> set (snd (resolved_facets rows))))
       (expectation_unmet L (value_of (fst (resolved_facets rows)) k) e)) es"
  by (simp add: unmet_expectations_def split: prod.split)

text \<open>
  C31. What a drift check sees of an Entity does not depend on the order its Facet rows come back in: an Entity is
  drifted exactly when an expectation is unmet by the one value its namespace and qualifier resolve to, or a required
  relation has no target, and a key that several Sources project without exactly one declared authority counts as
  absent and is marked as contended.
\<close>

theorem check_observes_one_value:
  assumes "mset (ev_facets v) = mset rows'"
  shows "observe_entity L b v = observe_entity L b (v\<lparr>ev_facets := rows'\<rparr>) \<and>
     (bo_drifted (observe_entity L b v) \<longleftrightarrow>
        (\<exists>e \<in> set (bl_expected b). expectation_unmet L (value_of (fst (resolved_facets (ev_facets v)))
           (FacetKey (fe_namespace e) (fe_qualifier e))) e \<noteq> None) \<or>
        (\<exists>t \<in> set (cb_required_relations b). ev_relations v t = [])) \<and>
     (\<forall>e \<in> set (bl_expected b).
        let cs = candidates (ev_facets v) (FacetKey (fe_namespace e) (fe_qualifier e))
        in length cs > 1 \<longrightarrow> length (filter fw_authority cs) \<noteq> 1 \<longrightarrow>
           UnmetFacet (fe_namespace e) (fe_qualifier e) (fe_path e) FacetAbsent True \<in> set (bo_detail (observe_entity L b v)))"
proof (intro conjI)
  let ?rows = "ev_facets v"
  have cand: "resolve_candidates (candidates ?rows k) = resolve_candidates (candidates rows' k)" for k
    using assms by (intro resolve_candidates_perm) (simp add: candidates_def)
  have keys: "set ?rows = set rows'" using assms by (rule mset_eq_setD)
  have vals: "value_of (fst (resolved_facets ?rows)) k = value_of (fst (resolved_facets rows')) k" for k
    by (simp add: value_of_def map_of_resolved cand keys)
  have cont: "set (snd (resolved_facets ?rows)) = set (snd (resolved_facets rows'))"
    by (rule set_eqI) (simp add: contended_iff cand keys)
  show "observe_entity L b v = observe_entity L b (v\<lparr>ev_facets := rows'\<rparr>)"
    by (simp add: observe_entity_def unmet_expectations_alt vals cont)
  show "bo_drifted (observe_entity L b v) \<longleftrightarrow>
        (\<exists>e \<in> set (bl_expected b). expectation_unmet L (value_of (fst (resolved_facets ?rows))
           (FacetKey (fe_namespace e) (fe_qualifier e))) e \<noteq> None) \<or>
        (\<exists>t \<in> set (cb_required_relations b). ev_relations v t = [])"
  proof -
    have "xs \<noteq> [] \<longleftrightarrow> (\<exists>x. x \<in> set xs)" for xs :: "unmet list" by (cases xs) auto
    then show ?thesis
      by (auto simp: observe_entity_def unmet_expectations_alt in_map_filter Let_def filter_empty_conv)
  qed
  show "\<forall>e \<in> set (bl_expected b).
        let cs = candidates ?rows (FacetKey (fe_namespace e) (fe_qualifier e))
        in length cs > 1 \<longrightarrow> length (filter fw_authority cs) \<noteq> 1 \<longrightarrow>
           UnmetFacet (fe_namespace e) (fe_qualifier e) (fe_path e) FacetAbsent True \<in> set (bo_detail (observe_entity L b v))"
    unfolding Let_def
  proof (intro ballI impI)
    fix e assume e: "e \<in> set (bl_expected b)"
    let ?k = "FacetKey (fe_namespace e) (fe_qualifier e)"
    assume two: "length (candidates ?rows ?k) > 1" "length (filter fw_authority (candidates ?rows ?k)) \<noteq> 1"
    then have none: "resolve_candidates (candidates ?rows ?k) = None"
      by (auto simp: resolve_candidates_def split: list.splits)
    from two(1) have "candidates ?rows ?k \<noteq> []" by auto
    then have "?k \<in> fw_key ` set ?rows" by (force simp: candidates_def filter_empty_conv)
    with none have "?k \<in> set (snd (resolved_facets ?rows))" and "value_of (fst (resolved_facets ?rows)) ?k = []"
      by (simp_all add: contended_iff value_of_def map_of_resolved)
    then show "UnmetFacet (fe_namespace e) (fe_qualifier e) (fe_path e) FacetAbsent True \<in> set (bo_detail (observe_entity L b v))"
      using e by (auto simp: observe_entity_def unmet_expectations_alt in_map_filter Let_def expectation_unmet_def intro!: bexI [of _ e])
  qed
qed

section \<open>The damping machine counts the trailing drift\<close>

text \<open>
  The specification: the history of a target is its verdicts, \<open>None\<close> where a pass observed nothing; what matters is
  how many drifted verdicts there were since the last clean one, and how often a clean one met an open Finding.
\<close>

fun trailing :: "nat \<Rightarrow> bool option list \<Rightarrow> nat" where
  "trailing n [] = n"
| "trailing n (None # h) = trailing n h"
| "trailing n (Some True # h) = trailing (n + 1) h"
| "trailing n (Some False # h) = trailing 0 h"

definition spec_live :: "int \<Rightarrow> nat \<Rightarrow> (live_status \<times> int) option" where
  "spec_live d n = (if n = 0 then None else Some (if int n \<ge> d then FindingOpen else FindingPending, int n))"

lemma trailing_append: "trailing n (h @ h') = trailing (trailing n h) h'"
  by (induction n h rule: trailing.induct) auto

definition next_live :: "('a) baseline_scheme \<Rightarrow> string \<Rightarrow> live_finding option \<Rightarrow> observation \<Rightarrow> live_finding option" where
  "next_live b run cur o' =
     (if \<not> bo_drifted o' then None
      else Some (case cur of
          None \<Rightarrow> \<lparr>lf_status = (if damping_of b \<le> 1 then FindingOpen else FindingPending), lf_count = 1, lf_entity = bo_entity_id o',
            lf_diff = bo_detail o', lf_run = run\<rparr>
        | Some c \<Rightarrow> \<lparr>lf_status = (if lf_status c = FindingPending \<and> lf_count c + 1 \<ge> damping_of b then FindingOpen else lf_status c),
            lf_count = lf_count c + 1, lf_entity = bo_entity_id o', lf_diff = bo_detail o', lf_run = run\<rparr>))"

definition fires :: "('a) baseline_scheme \<Rightarrow> live_finding option \<Rightarrow> observation \<Rightarrow> bool" where
  "fires b cur o' \<longleftrightarrow> bo_drifted o' \<and>
     (case cur of None \<Rightarrow> damping_of b \<le> 1 | Some c \<Rightarrow> lf_status c = FindingPending \<and> lf_count c + 1 \<ge> damping_of b)"

lemma map_of_drop: "map_of (drop_live k m) k' = (if k' = k then None else map_of m k')"
  by (simp add: drop_live_def map_of_without)

lemma observe_target_live:
  assumes "map_of (ft_live T) (bl_name b, t) = map_of live (bl_name b, t)"
  shows "map_of (ft_live (snd (observe_target b run live (t, o') (out, T)))) k =
     (if k = (bl_name b, t) then next_live b run (map_of live k) o' else map_of (ft_live T) k)"
  using assms by (auto simp: observe_target_def next_live_def Let_def map_of_aput map_of_drop split: option.splits)

lemma observe_target_opened:
  "oo_opened_findings (fst (observe_target b run live (t, o') (out, T))) =
     oo_opened_findings out @ (if fires b (map_of live (bl_name b, t)) o' then [opened_of b t o'] else [])"
  by (auto simp: observe_target_def fires_def note_opened_def note_pending_def Let_def split: option.splits)

lemma fold_observe_live:
  assumes "distinct (keys obs)" "\<forall>t \<in> set (keys obs). map_of (ft_live T) (bl_name b, t) = map_of live (bl_name b, t)"
  shows "map_of (ft_live (snd (fold (observe_target b run live) obs (out, T)))) k =
     (case (if fst k = bl_name b then map_of obs (snd k) else None) of
        None \<Rightarrow> map_of (ft_live T) k | Some o' \<Rightarrow> next_live b run (map_of live k) o')"
  using assms
proof (induction obs arbitrary: out T)
  case (Cons x obs)
  obtain t o' where x: "x = (t, o')" by fastforce
  obtain out' T' where st: "observe_target b run live x (out, T) = (out', T')" by fastforce
  have live: "map_of (ft_live T') k = (if k = (bl_name b, t) then next_live b run (map_of live k) o' else map_of (ft_live T) k)" for k
    using observe_target_live [of T b t live run o' out k] Cons.prems(2) st x by simp
  have "map_of obs t = None" using Cons.prems(1) x by (simp add: map_of_eq_None_iff)
  moreover have "\<forall>t' \<in> set (keys obs). map_of (ft_live T') (bl_name b, t') = map_of live (bl_name b, t')"
    using Cons.prems x unfolding live by auto
  ultimately show ?case using Cons.IH [of T' out'] Cons.prems(1) x st live
    by (cases k) (auto split: option.splits)
qed (auto split: option.splits)

lemma fold_observe_opened:
  "oo_opened_findings (fst (fold (observe_target b run live) obs (out, T))) =
     oo_opened_findings out @ List.map_filter (\<lambda>(t, o'). if fires b (map_of live (bl_name b, t)) o' then Some (opened_of b t o') else None) obs"
proof (induction obs arbitrary: out T)
  case (Cons x obs)
  obtain t o' where x: "x = (t, o')" by fastforce
  obtain out' T' where st: "observe_target b run live x (out, T) = (out', T')" by fastforce
  show ?case using Cons.IH [of out' T'] observe_target_opened [of b run live t o' out T] x st by (simp add: map_filter_simps)
qed (simp add: map_filter_simps)

definition no_findings :: finding_table where
  "no_findings = \<lparr>ft_live = [], ft_resolved = []\<rparr>"

definition after_passes :: "('a) baseline_scheme \<Rightarrow> (string \<times> observation gomap) list \<Rightarrow> finding_table" where
  "after_passes b ps = fold (\<lambda>(run, obs) T. snd (record_observations b run obs T)) ps no_findings"

definition history :: "string \<Rightarrow> (string \<times> observation gomap) list \<Rightarrow> bool option list" where
  "history t ps = map (\<lambda>(run, obs). map_option bo_drifted (map_of obs t)) ps"

definition abs_live :: "live_finding option \<Rightarrow> (live_status \<times> int) option" where
  "abs_live = map_option (\<lambda>r. (lf_status r, lf_count r))"

lemma next_live_spec:
  assumes "abs_live cur = spec_live (damping_of b) n"
  shows "abs_live (next_live b run cur o') = spec_live (damping_of b) (if bo_drifted o' then n + 1 else 0) \<and>
    (fires b cur o' \<longleftrightarrow> bo_drifted o' \<and> int (n + 1) = damping_of b)"
  using assms
  by (auto simp: abs_live_def spec_live_def next_live_def fires_def damping_of_def split: option.splits if_splits)

lemma after_passes_live:
  assumes "\<forall>(run, obs) \<in> set ps. distinct (keys obs)"
  shows "abs_live (map_of (ft_live (after_passes b ps)) (bl_name b, t)) = spec_live (damping_of b) (trailing 0 (history t ps))"
  using assms
proof (induction ps rule: rev_induct)
  case Nil
  show ?case by (simp add: after_passes_def no_findings_def history_def abs_live_def spec_live_def)
next
  case (snoc p ps)
  obtain run obs where p: "p = (run, obs)" by fastforce
  let ?T = "after_passes b ps"
  have T: "after_passes b (ps @ [p]) = snd (record_observations b run obs ?T)" by (simp add: after_passes_def p)
  have h: "trailing 0 (history t (ps @ [p])) = trailing (trailing 0 (history t ps)) [map_option bo_drifted (map_of obs t)]"
    by (simp add: history_def p trailing_append)
  have IH: "abs_live (map_of (ft_live ?T) (bl_name b, t)) = spec_live (damping_of b) (trailing 0 (history t ps))"
    using snoc by auto
  have "map_of (ft_live (after_passes b (ps @ [p]))) (bl_name b, t) =
      (case map_of obs t of None \<Rightarrow> map_of (ft_live ?T) (bl_name b, t) | Some o' \<Rightarrow> next_live b run (map_of (ft_live ?T) (bl_name b, t)) o')"
    unfolding T record_observations_def
    by (subst fold_observe_live) (use snoc.prems p in auto)
  then show ?case unfolding h using IH next_live_spec [OF IH, of run] by (auto split: option.splits)
qed

text \<open>
  C28. Flap damping refines its specification.  Whatever passes a Baseline has gone through, in whatever order each
  pass ranged over its targets, the live Finding of a target is its number of drifted verdicts since the last clean
  one: none for zero, open from the damping number on and pending below it, with unobserved passes leaving it as it
  was; and the next pass opens it - once, with one Notice to send - exactly when that number is reached.
\<close>

theorem damping_refines_trailing_drift:
  assumes "\<forall>(run, obs) \<in> set (ps @ [(run, obs)]). distinct (keys obs)"
  shows "abs_live (map_of (ft_live (after_passes b ps)) (bl_name b, t)) = spec_live (damping_of b) (trailing 0 (history t ps)) \<and>
     (t \<in> op_target ` set (oo_opened_findings (fst (record_observations b run obs (after_passes b ps)))) \<longleftrightarrow>
        map_option bo_drifted (map_of obs t) = Some True \<and> int (trailing 0 (history t ps)) + 1 = damping_of b)"
proof
  from assms have ps: "\<forall>(run, obs) \<in> set ps. distinct (keys obs)" and d: "distinct (keys obs)" by auto
  note live = after_passes_live [OF ps]
  then show "abs_live (map_of (ft_live (after_passes b ps)) (bl_name b, t)) = spec_live (damping_of b) (trailing 0 (history t ps))" .
  let ?cur = "map_of (ft_live (after_passes b ps)) (bl_name b, t)"
  have "t \<in> op_target ` set (oo_opened_findings (fst (record_observations b run obs (after_passes b ps)))) \<longleftrightarrow>
      (\<exists>o'. (t, o') \<in> set obs \<and> fires b ?cur o')"
    by (force simp: record_observations_def fold_observe_opened no_outcome_def in_map_filter opened_of_def split: if_splits)
  also have "\<dots> \<longleftrightarrow> (\<exists>o'. map_of obs t = Some o' \<and> fires b ?cur o')" using d by (auto simp: map_of_eq_Some_iff)
  also have "\<dots> \<longleftrightarrow> map_option bo_drifted (map_of obs t) = Some True \<and> int (trailing 0 (history t ps)) + 1 = damping_of b"
    using next_live_spec [OF live, THEN conjunct2] by auto
  finally show "t \<in> op_target ` set (oo_opened_findings (fst (record_observations b run obs (after_passes b ps)))) \<longleftrightarrow>
        map_option bo_drifted (map_of obs t) = Some True \<and> int (trailing 0 (history t ps)) + 1 = damping_of b" .
qed

section \<open>A check changes nothing and a broken check says nothing\<close>

lemma map_of_verdicts:
  "distinct (keys m) \<Longrightarrow> map_of (List.map_filter (\<lambda>(t, st). map_option (Pair t) (f t st)) m) t = Option.bind (map_of m t) (f t)"
proof (induction m)
  case (Cons x m)
  obtain u st where x: "x = (u, st)" by fastforce
  with Cons.prems have "map_of m u = None" by (simp add: map_of_eq_None_iff)
  with Cons x show ?case by (cases "f u st") (auto simp: map_filter_simps)
qed (simp add: map_filter_simps)

text \<open>
  A cadence fire never changes what it checks and a broken check is evidence of nothing: the only Run it starts
  has the dry-run bit, for the Baseline's own View and params and no Action; when that Run fails nothing is observed;
  and a target is observed exactly when the Run reports it changed (drift) or ok (clean).
\<close>

theorem baseline_check_is_read_only:
  assumes "run_baseline_check w (Some b) = (obs, started)" "bl_mode b \<noteq> FacetObservation"
    and "\<And>input outcome. cw_run w input = Some outcome \<Longrightarrow> distinct (keys (ro_per_target outcome))"
  shows "(\<forall>input. started = Some input \<longrightarrow> ri_dry_run input \<and> ri_action input = [] \<and> ri_view_name input = bl_view_name b \<and>
        ri_params input = cw_encode w (JObj (cb_params b)) \<and> (cw_run w input = None \<longrightarrow> obs = None)) \<and>
     (started = None \<longrightarrow> obs = None) \<and>
     (\<forall>observed. obs = Some observed \<longrightarrow> (\<exists>input outcome. started = Some input \<and> cw_run w input = Some outcome \<and>
        (\<forall>t. map_option bo_drifted (map_of observed t) =
           (case map_of (ro_per_target outcome) t of
              None \<Rightarrow> None
            | Some st \<Rightarrow> if st = ''changed'' then Some True else if st = ''ok'' then Some False else None))))"
proof -
  have v: "map_option bo_drifted (map_of (observations_from_outcome outcome) t) =
           (case map_of (ro_per_target outcome) t of
              None \<Rightarrow> None
            | Some st \<Rightarrow> if st = ''changed'' then Some True else if st = ''ok'' then Some False else None)"
    if "cw_run w input = Some outcome" for input outcome t
    using map_of_verdicts [OF assms(3) [OF that], of "verdict outcome"]
    by (auto simp: observations_from_outcome_def verdict_def Let_def split: option.splits)
  show ?thesis
  proof (cases started)
    case None
    with assms(1,2) have "obs = None"
      by (simp add: run_baseline_check_def check_run_input_def split: option.splits if_splits)
    with None show ?thesis by simp
  next
    case (Some input)
    with assms(1,2) obtain actuator where i: "check_run_input (cw_encode w) b actuator = Some input"
      and obs: "obs = map_option observations_from_outcome (cw_run w input)"
      by (auto simp: run_baseline_check_def split: option.splits if_splits)
    from i have "ri_dry_run input" "ri_action input = []" "ri_view_name input = bl_view_name b"
      "ri_params input = cw_encode w (JObj (cb_params b))" by (auto simp: check_run_input_def split: if_splits)
    moreover have "\<exists>input' outcome. started = Some input' \<and> cw_run w input' = Some outcome \<and>
        (\<forall>t. map_option bo_drifted (map_of observed t) =
           (case map_of (ro_per_target outcome) t of
              None \<Rightarrow> None
            | Some st \<Rightarrow> if st = ''changed'' then Some True else if st = ''ok'' then Some False else None))"
      if o': "obs = Some observed" for observed
    proof -
      from obs o' obtain outcome where r: "cw_run w input = Some outcome" "observed = observations_from_outcome outcome"
        by (cases "cw_run w input") auto
      with v [OF r(1)] Some show ?thesis by blast
    qed
    ultimately show ?thesis using Some obs by simp
  qed
qed

section \<open>What a retried evaluation does\<close>

text \<open>
  The transaction is committed before its Notices go out, and a bus that fails makes the policy run it again.  The
  retry counts every observation of that one check a second time, so a damping of two opens on a single drifted
  check (\<open>b\<close>); and the Finding it opened the first time (\<open>a\<close>) is open already, so its Notice is never sent.
\<close>

definition damped :: baseline where
  "damped = \<lparr>bl_name = ''cis'', bl_mode = [], bl_view_name = [], bl_selector = None, bl_expected = [], bl_claim = [],
     bl_environments = [], bl_cron = [], bl_severity = ''warning'', bl_damping = 2, bl_remediation_workflow = [],
     bl_remediation_params = None, bl_remove_params = None, bl_framework = [], bl_compiled_from = None\<rparr>"

definition drifted_once :: observation where
  "drifted_once = \<lparr>bo_drifted = True, bo_entity_id = [], bo_detail = []\<rparr>"

definition clean :: observation where
  "clean = \<lparr>bo_drifted = False, bo_entity_id = [], bo_detail = []\<rparr>"

definition one_check :: evaluate_attempt where
  "one_check = \<lparr>ea_obs = [(''a'', drifted_once), (''b'', drifted_once)], ea_commits = True, ea_bus = (\<lambda>_. False)\<rparr>"

definition a_pending :: finding_table where
  "a_pending = after_passes damped [([], [(''a'', drifted_once)])]"

lemmas damped_defs = damped_def drifted_once_def clean_def one_check_def a_pending_def after_passes_def no_findings_def record_observations_def
  observe_target_def damping_of_def note_opened_def note_pending_def no_outcome_def opened_of_def drop_live_def Let_def

lemma retry_counts_twice:
  "map_option lf_status (map_of (ft_live (snd (record_observations damped [] (ea_obs one_check) a_pending))) (''cis'', ''b'')) = Some FindingPending \<and>
   map_option lf_status (map_of (ft_live (snd (snd (evaluate_baseline damped [] 0 [one_check, one_check\<lparr>ea_bus := \<lambda>_. True\<rparr>] a_pending)))) (''cis'', ''b'')) = Some FindingOpen"
  by (simp add: damped_defs)

lemma retry_loses_notice:
  "map op_target (fst (evaluate_baseline damped [] 0 [one_check, one_check\<lparr>ea_bus := \<lambda>_. True\<rparr>] a_pending)) = [''b''] \<and>
   map_option lf_status (map_of (ft_live (snd (snd (evaluate_baseline damped [] 0 [one_check, one_check\<lparr>ea_bus := \<lambda>_. True\<rparr>] a_pending)))) (''cis'', ''a'')) = Some FindingOpen"
  by (simp add: damped_defs)

section \<open>Witnesses\<close>

definition plain_observer :: observer where
  "plain_observer = \<lparr>ob_unmarshal = (\<lambda>s. Some (JStr s)), ob_marshal = (\<lambda>v. case v of JStr s \<Rightarrow> Some s | _ \<Rightarrow> None),
     ob_duration = (\<lambda>_. None), ob_rfc3339 = (\<lambda>_. None), ob_now = 0\<rparr>"

definition port_check :: check_baseline where
  "port_check = baseline.extend (damped\<lparr>bl_expected := [\<lparr>fe_namespace = ''app'', fe_qualifier = [], fe_path = [], fe_equals = ''80'',
     fe_contains = [], fe_not_before = []\<rparr>]\<rparr>) (check_baseline.fields ''ansible'' [] [] 1 ''ada'' [] [] [])"

definition contested :: entity_view where
  "contested = \<lparr>ev_id = ''e1'', ev_facets = [\<lparr>fw_key = FacetKey ''app'' [], fw_value = ''80'', fw_authority = False\<rparr>,
     \<lparr>fw_key = FacetKey ''app'' [], fw_value = ''81'', fw_authority = False\<rparr>], ev_relations = (\<lambda>_. [])\<rparr>"

lemma check_observes_one_value_witness:
  "observe_entity plain_observer port_check contested =
     observe_entity plain_observer port_check (contested\<lparr>ev_facets := rev (ev_facets contested)\<rparr>) \<and>
   bo_drifted (observe_entity plain_observer port_check contested)"
proof -
  have p: "mset (ev_facets contested) = mset (rev (ev_facets contested))" by simp
  from check_observes_one_value [OF p] have eq: "observe_entity plain_observer port_check contested =
     observe_entity plain_observer port_check (contested\<lparr>ev_facets := rev (ev_facets contested)\<rparr>)" by (rule conjunct1)
  have "bo_drifted (observe_entity plain_observer port_check contested)" by code_simp
  with eq show ?thesis ..
qed

lemma damping_refines_trailing_drift_witness:
  "abs_live (map_of (ft_live (after_passes damped [([], [(''a'', drifted_once), (''b'', clean)])])) (bl_name damped, ''a'')) = spec_live 2 1 \<and>
   ''a'' \<in> op_target ` set (oo_opened_findings (fst (record_observations damped [] [(''a'', drifted_once)]
      (after_passes damped [([], [(''a'', drifted_once), (''b'', clean)])]))))"
  using damping_refines_trailing_drift [of "[([], [(''a'', drifted_once), (''b'', clean)])]" "[]" "[(''a'', drifted_once)]" damped "''a''"]
  by (simp add: history_def drifted_once_def damping_of_def damped_def)

lemma baseline_check_is_read_only_witness:
  "\<exists>input. snd (run_baseline_check \<lparr>cw_observer = plain_observer, cw_entities = (\<lambda>_ _. None), cw_capability = (\<lambda>_. None),
      cw_run = (\<lambda>_. Some \<lparr>ro_run_id = ''r1'', ro_per_target = [(''h1'', ''changed''), (''h2'', ''failed'')], ro_entity_by_target = [], ro_drift = []\<rparr>),
      cw_encode = (\<lambda>_. ''{}'')\<rparr> (Some port_check)) = Some input \<and> ri_dry_run input"
proof -
  let ?w = "\<lparr>cw_observer = plain_observer, cw_entities = (\<lambda>_ _. None), cw_capability = (\<lambda>_. None),
      cw_run = (\<lambda>_. Some \<lparr>ro_run_id = ''r1'', ro_per_target = [(''h1'', ''changed''), (''h2'', ''failed'')], ro_entity_by_target = [], ro_drift = []\<rparr>),
      cw_encode = (\<lambda>_. ''{}'')\<rparr>"
  have m: "bl_mode port_check \<noteq> FacetObservation"
    by (simp add: port_check_def damped_def baseline.defs check_baseline.defs FacetObservation_def)
  have "snd (run_baseline_check ?w (Some port_check)) \<noteq> None"
    by (simp add: run_baseline_check_def check_run_input_def m) (simp add: port_check_def baseline.defs check_baseline.defs)
  then obtain input where i: "snd (run_baseline_check ?w (Some port_check)) = Some input" by auto
  have "run_baseline_check ?w (Some port_check) = (fst (run_baseline_check ?w (Some port_check)), Some input)"
    using i by (metis prod.collapse)
  from baseline_check_is_read_only [OF this m] i show ?thesis by auto
qed

end
