(* ===== verification/TargetGroups.thy ===== *)
theory TargetGroups
  imports Runners Observe
begin

text \<open>
  Group membership of execution targets, \<open>core/internal/orchestrate/groups.go\<close> and \<open>applyGroups\<close> of
  \<open>orchestrate.go\<close>: the groups an Entity joins by the Step's \<open>groupBy\<close> keys, the name built from a prefix and an
  observed value, and the stamping of the resolved targets with the collisions that the lossy name makes.  Go ranges
  over the runes of a string and the model over its bytes: a rune that is not an ASCII letter or digit is a byte
  sequence of which no byte is one, and a run of such bytes becomes one underscore in either reading.
\<close>

section \<open>Names\<close>

definition group_char :: "char \<Rightarrow> bool" where
  "group_char c = (let n = of_char c :: nat in (97 \<le> n \<and> n \<le> 122) \<or> (65 \<le> n \<and> n \<le> 90) \<or> (48 \<le> n \<and> n \<le> 57))"

definition is_group_start :: "char \<Rightarrow> bool" where
  "is_group_start c = (c = CHR ''_'' \<or> (let n = of_char c :: nat in (97 \<le> n \<and> n \<le> 122) \<or> (65 \<le> n \<and> n \<le> 90)))"

fun sanitize_loop :: "bool \<Rightarrow> string \<Rightarrow> string" where
  "sanitize_loop prev [] = []"
| "sanitize_loop prev (c # cs) =
     (if group_char c then c # sanitize_loop False cs
      else if prev then sanitize_loop True cs
      else CHR ''_'' # sanitize_loop True cs)"

definition trim_underscore :: "string \<Rightarrow> string" where
  "trim_underscore s = rev (dropWhile (\<lambda>c. c = CHR ''_'') (rev (dropWhile (\<lambda>c. c = CHR ''_'') s)))"

definition sanitize_group_token :: "string \<Rightarrow> string" where
  "sanitize_group_token s = trim_underscore (sanitize_loop False s)"

definition group_name :: "string \<Rightarrow> string \<Rightarrow> string" where
  "group_name prefix value =
     (let name = trim_underscore ((if prefix \<noteq> [] then sanitize_group_token prefix @ ''_'' else []) @ sanitize_group_token value)
      in if name = [] then []
         else if \<not> is_group_start (hd name) then ''g_'' @ name
         else name)"

section \<open>Values\<close>

text \<open>Only scalars group; an object, an array or a null yields no value.\<close>

definition facet_value_at :: "codec \<Rightarrow> string \<Rightarrow> string \<Rightarrow> string" where
  "facet_value_at L raw path =
     (if raw = [] then []
      else case unmarshal L raw of
        None \<Rightarrow> []
      | Some doc \<Rightarrow> (case walk_segs doc (filter (\<lambda>seg. seg \<noteq> []) (split_on CHR ''.'' path)) of
            Some (JStr s) \<Rightarrow> s
          | Some (JBool b) \<Rightarrow> (if b then ''true'' else ''false'')
          | Some (JFloat q) \<Rightarrow> fmt_float L q
          | _ \<Rightarrow> []))"

definition value_or_empty :: "string gomap \<Rightarrow> string \<Rightarrow> string" where
  "value_or_empty m k = (case map_of m k of None \<Rightarrow> [] | Some v \<Rightarrow> v)"

definition group_key_ok :: "group_key \<Rightarrow> bool" where
  "group_key_ok k \<longleftrightarrow> (gk_label k = []) \<noteq> (gk_facet k = None)"

definition key_value :: "codec \<Rightarrow> entity \<Rightarrow> string gomap \<Rightarrow> group_key \<Rightarrow> string" where
  "key_value L e facets k =
     (if gk_label k \<noteq> [] then value_or_empty (en_labels e) (gk_label k)
      else case gk_facet k of
        None \<Rightarrow> []
      | Some f \<Rightarrow> facet_value_at L (value_or_empty facets (fa_namespace f)) (fa_path f))"

text \<open>The loop over the keys: the index is the one an error names, \<open>acc\<close> is \<open>out\<close> with \<open>seen\<close> its members.\<close>

fun groups_loop :: "codec \<Rightarrow> entity \<Rightarrow> string gomap \<Rightarrow> nat \<Rightarrow> group_key list \<Rightarrow> string list \<Rightarrow> nat + string list" where
  "groups_loop L e facets i [] acc = Inr acc"
| "groups_loop L e facets i (k # ks) acc =
     (if \<not> group_key_ok k then Inl i
      else let value = key_value L e facets k in
        if value = [] then groups_loop L e facets (Suc i) ks acc
        else let name = group_name (gk_prefix k) value in
          if name = [] \<or> name \<in> set acc then groups_loop L e facets (Suc i) ks acc
          else groups_loop L e facets (Suc i) ks (acc @ [name]))"

definition groups_for :: "codec \<Rightarrow> entity \<Rightarrow> string gomap \<Rightarrow> group_key list \<Rightarrow> nat + string list" where
  "groups_for L e facets ks =
     (case groups_loop L e facets 0 ks [] of Inl i \<Rightarrow> Inl i | Inr out \<Rightarrow> Inr (sort out))"

definition group_facet_namespaces :: "group_key list \<Rightarrow> string list" where
  "group_facet_namespaces ks =
     sort (remdups (filter (\<lambda>n. n \<noteq> []) (List.map_filter (\<lambda>k. map_option fa_namespace (gk_facet k)) ks)))"

section \<open>Stamping the targets\<close>

record hop =
  hp_name :: string
  hp_address :: string
  hp_port :: int

record target =
  tg_entity_id :: string
  tg_name :: string
  tg_address :: string
  tg_port :: int
  tg_transport :: "(string \<times> string) option" \<comment> \<open>kind, coordinates\<close>
  tg_jump :: "hop list"
  tg_groups :: "string list"

text \<open>The map \<open>byID\<close> keeps the last target of an id, so that is the one stamped.\<close>

fun stamp_first :: "string \<Rightarrow> string list \<Rightarrow> target list \<Rightarrow> target list" where
  "stamp_first ident names [] = []"
| "stamp_first ident names (t # ts) =
     (if tg_entity_id t = ident then t\<lparr>tg_groups := names\<rparr> # ts else t # stamp_first ident names ts)"

definition stamp :: "string \<Rightarrow> string list \<Rightarrow> target list \<Rightarrow> target list" where
  "stamp ident names ts = rev (stamp_first ident names (rev ts))"

text \<open>The raw value and the group name it became, for every key of an Entity that yields one.\<close>

definition named_values :: "codec \<Rightarrow> entity \<Rightarrow> string gomap \<Rightarrow> group_key list \<Rightarrow> (string \<times> string) list" where
  "named_values L e facets ks = List.map_filter (\<lambda>k.
     let raw = key_value L e facets k; n = group_name (gk_prefix k) raw
     in if raw = [] \<or> n = [] then None else Some (n, raw)) ks"

definition arrow :: string where
  "arrow = [CHR '' '', CHR 0xE2, CHR 0x86, CHR 0x90, CHR '' '']"

definition raws_of :: "(string \<times> string) list \<Rightarrow> string \<Rightarrow> string list" where
  "raws_of merged n = sort (remdups (map snd (filter (\<lambda>(m, _). m = n) merged)))"

definition collisions :: "(string \<times> string) list \<Rightarrow> string list" where
  "collisions merged =
     sort (map (\<lambda>n. n @ arrow @ join_with '', '' (raws_of merged n))
       (filter (\<lambda>n. length (raws_of merged n) \<ge> 2) (remdups (map fst merged))))"

datatype group_error = FacetsUnreadable string | AmbiguousKey nat

fun apply_loop :: "codec \<Rightarrow> (string \<times> string gomap) list \<Rightarrow> group_key list \<Rightarrow> entity list \<Rightarrow>
    target list \<times> (string \<times> string) list \<Rightarrow> group_error + target list \<times> (string \<times> string) list" where
  "apply_loop L per_ns ks [] acc = Inr acc"
| "apply_loop L per_ns ks (e # es) (ts, merged) =
     (let facets = map (\<lambda>(ns, vs). (ns, value_or_empty vs (en_id e))) per_ns
      in case groups_for L e facets ks of
          Inl i \<Rightarrow> Inl (AmbiguousKey i)
        | Inr names \<Rightarrow> apply_loop L per_ns ks es (stamp (en_id e) names ts, merged @ named_values L e facets ks))"

definition apply_groups :: "codec \<Rightarrow> (string \<Rightarrow> string list \<Rightarrow> string gomap option) \<Rightarrow> entity list \<Rightarrow> target list \<Rightarrow> group_key list \<Rightarrow>
    group_error + target list \<times> string list" where
  "apply_groups L facet_values es ts ks =
     (if ks = [] then Inr (ts, [])
      else case map_err (\<lambda>ns. case facet_values ns (map en_id es) of
             None \<Rightarrow> Inl (FacetsUnreadable ns)
           | Some vs \<Rightarrow> Inr (ns, vs)) (group_facet_namespaces ks) of
        Inl e \<Rightarrow> Inl e
      | Inr per_ns \<Rightarrow> (case apply_loop L per_ns ks es (ts, []) of
            Inl e \<Rightarrow> Inl e
          | Inr (ts', merged) \<Rightarrow> Inr (ts', collisions merged)))"

section \<open>The shape of a name\<close>

text \<open>A letter first, letters, digits and single underscores inside, no underscore at the end.\<close>

fun tidy :: "string \<Rightarrow> bool" where
  "tidy (a # b # s) = (\<not> (a = CHR ''_'' \<and> b = CHR ''_'') \<and> tidy (b # s))"
| "tidy s = True"

definition group_ident :: "string \<Rightarrow> bool" where
  "group_ident s \<longleftrightarrow> s \<noteq> [] \<and> group_char (hd s) \<and> is_group_start (hd s) \<and> group_char (last s) \<and>
     (\<forall>c \<in> set s. group_char c \<or> c = CHR ''_'') \<and> tidy s"

lemma group_char_underscore [simp]: "\<not> group_char CHR ''_''"
  by code_simp

lemma group_char_g [simp]: "group_char CHR ''g''" "is_group_start CHR ''g''"
  by code_simp+

lemma tidy_Cons: "tidy (a # s) \<longleftrightarrow> (s = [] \<or> \<not> (a = CHR ''_'' \<and> hd s = CHR ''_'')) \<and> tidy s"
  by (cases s) auto

lemma tidy_append: "tidy (s @ t) \<longleftrightarrow> tidy s \<and> tidy t \<and>
    (s = [] \<or> t = [] \<or> \<not> (last s = CHR ''_'' \<and> hd t = CHR ''_''))"
proof (induction s)
  case (Cons a s)
  then show ?case by (cases "s = []") (auto simp: tidy_Cons)
qed simp

definition token :: "string \<Rightarrow> bool" where
  "token s \<longleftrightarrow> (\<forall>c \<in> set s. group_char c \<or> c = CHR ''_'') \<and> tidy s"

lemma token_Nil [simp]: "token []"
  by (simp add: token_def)

lemma token_append: "token (s @ t) \<longleftrightarrow> token s \<and> token t \<and>
    (s = [] \<or> t = [] \<or> \<not> (last s = CHR ''_'' \<and> hd t = CHR ''_''))"
  by (auto simp: token_def tidy_append)

lemma sanitize_loop_head: "sanitize_loop True s = [] \<or> hd (sanitize_loop True s) \<noteq> CHR ''_''"
  by (induction s) auto

lemma token_sanitize_loop: "token (sanitize_loop prev s)"
proof (induction s arbitrary: prev)
  case (Cons c s)
  have "tidy (sanitize_loop False s)" "tidy (sanitize_loop True s)"
    "\<forall>c \<in> set (sanitize_loop False s). group_char c \<or> c = CHR ''_''"
    "\<forall>c \<in> set (sanitize_loop True s). group_char c \<or> c = CHR ''_''"
    using Cons [of False] Cons [of True] by (auto simp: token_def)
  with sanitize_loop_head [of s] show ?case
    by (auto simp: token_def tidy_Cons)
qed (simp add: token_def)

lemma dropWhile_split: "\<exists>p. s = p @ dropWhile P s"
  by (metis takeWhile_dropWhile_id)

lemma token_dropWhile: "token s \<Longrightarrow> token (dropWhile P s)"
  using dropWhile_split [of s P] token_append by metis

lemma token_rev: "token (rev s) \<longleftrightarrow> token s"
proof (induction s)
  case (Cons a s)
  have "token (rev s @ [a]) \<longleftrightarrow> token (a # s)"
    using Cons token_append [of "rev s" "[a]"] token_append [of "[a]" s]
    by (cases "s = []") (auto simp: last_rev)
  then show ?case by simp
qed simp

lemma trim_ends:
  assumes "trim_underscore s \<noteq> []"
  shows "hd (trim_underscore s) \<noteq> CHR ''_'' \<and> last (trim_underscore s) \<noteq> CHR ''_''"
proof -
  let ?d = "dropWhile (\<lambda>c. c = CHR ''_'')"
  have ne: "?d (rev (?d s)) \<noteq> []" using assms by (simp add: trim_underscore_def)
  then have "last (trim_underscore s) \<noteq> CHR ''_''"
    using hd_dropWhile [of "\<lambda>c. c = CHR ''_''" "rev (?d s)"]
    by (auto simp: trim_underscore_def last_rev)
  moreover obtain p where "rev (?d s) = p @ ?d (rev (?d s))"
    using dropWhile_split by blast
  then have "?d s = trim_underscore s @ rev p"
    by (metis rev_append rev_rev_ident trim_underscore_def)
  then have "hd (trim_underscore s) = hd (?d s)" "?d s \<noteq> []" using assms by auto
  ultimately show ?thesis using hd_dropWhile [of "\<lambda>c. c = CHR ''_''" s] by auto
qed

lemma token_trim: "token s \<Longrightarrow> token (trim_underscore s)"
  by (simp add: trim_underscore_def token_rev token_dropWhile)

lemma token_sanitize: "token (sanitize_group_token s)"
  by (simp add: sanitize_group_token_def token_trim token_sanitize_loop)

lemma sanitize_ends:
  "sanitize_group_token s \<noteq> [] \<Longrightarrow>
     hd (sanitize_group_token s) \<noteq> CHR ''_'' \<and> last (sanitize_group_token s) \<noteq> CHR ''_''"
  using trim_ends by (simp add: sanitize_group_token_def)

lemma group_name_ident: "group_name p v = [] \<or> group_ident (group_name p v)"
proof -
  let ?pre = "if p \<noteq> [] then sanitize_group_token p @ ''_'' else []"
  let ?raw = "?pre @ sanitize_group_token v"
  have "token ''_''" by (simp add: token_def)
  then have "token ?raw"
    using token_sanitize [of p] token_sanitize [of v] sanitize_ends [of p] sanitize_ends [of v]
    by (auto simp: token_append)
  then have tok: "token (trim_underscore ?raw)" by (rule token_trim)
  show ?thesis
  proof (cases "trim_underscore ?raw = []")
    case True
    then show ?thesis by (simp add: group_name_def)
  next
    case False
    then have ends: "hd (trim_underscore ?raw) \<noteq> CHR ''_''" "last (trim_underscore ?raw) \<noteq> CHR ''_''"
      using trim_ends by auto
    have chars: "group_char (hd (trim_underscore ?raw))" "group_char (last (trim_underscore ?raw))"
      using tok ends False by (auto simp: token_def)
    show ?thesis
    proof (cases "is_group_start (hd (trim_underscore ?raw))")
      case True
      then have "group_name p v = trim_underscore ?raw" using False by (simp add: group_name_def Let_def)
      with True False chars tok show ?thesis by (simp add: group_ident_def token_def)
    next
      case False': False
      then have "group_name p v = ''g_'' @ trim_underscore ?raw" using False by (simp add: group_name_def Let_def)
      moreover have "tidy (CHR ''g'' # CHR ''_'' # trim_underscore ?raw)"
        using tok ends False by (simp add: tidy_Cons token_def)
      ultimately show ?thesis using False chars tok by (auto simp: group_ident_def token_def)
    qed
  qed
qed

text \<open>A name is already in the form the sanitiser makes: as a value it names the same group.\<close>

lemma sanitize_loop_token: "token s \<Longrightarrow> \<not> (prev \<and> s \<noteq> [] \<and> hd s = CHR ''_'') \<Longrightarrow> sanitize_loop prev s = s"
proof (induction s arbitrary: prev)
  case (Cons c s)
  then have s: "token s" and c: "group_char c \<or> c = CHR ''_''" by (auto simp: token_def tidy_Cons)
  have "c = CHR ''_'' \<Longrightarrow> s = [] \<or> hd s \<noteq> CHR ''_''" using Cons.prems(1) by (auto simp: token_def tidy_Cons)
  with Cons.prems(2) c Cons.IH [OF s, of False] Cons.IH [OF s, of True] show ?case by auto
qed simp

lemma dropWhile_hd: "s = [] \<or> \<not> P (hd s) \<Longrightarrow> dropWhile P s = s"
  by (cases s) auto

lemma trim_ident: "s = [] \<or> (hd s \<noteq> CHR ''_'' \<and> last s \<noteq> CHR ''_'') \<Longrightarrow> trim_underscore s = s"
  unfolding trim_underscore_def by (subst dropWhile_hd, auto simp: hd_rev)+

lemma group_ident_sanitized: "group_ident s \<Longrightarrow> sanitize_group_token s = s"
proof -
  assume g: "group_ident s"
  then have "token s" "s \<noteq> []" "hd s \<noteq> CHR ''_''" "last s \<noteq> CHR ''_''"
    by (auto simp: group_ident_def token_def)
  then show ?thesis by (simp add: sanitize_group_token_def sanitize_loop_token trim_ident)
qed

lemma group_name_stable: "group_name [] (group_name p v) = group_name p v"
proof (cases "group_name p v = []")
  case True
  then show ?thesis by (simp add: group_name_def sanitize_group_token_def trim_underscore_def)
next
  case False
  then have g: "group_ident (group_name p v)" using group_name_ident by blast
  then have "trim_underscore (group_name p v) = group_name p v"
    by (intro trim_ident) (auto simp: group_ident_def)
  with g show ?thesis
    unfolding group_name_def [of "[]"] by (simp add: group_ident_sanitized Let_def) (simp add: group_ident_def)
qed

section \<open>What an Entity joins\<close>

definition joins :: "codec \<Rightarrow> entity \<Rightarrow> string gomap \<Rightarrow> group_key list \<Rightarrow> string set" where
  "joins L e facets ks =
     {group_name (gk_prefix k) (key_value L e facets k) | k.
        k \<in> set ks \<and> key_value L e facets k \<noteq> [] \<and> group_name (gk_prefix k) (key_value L e facets k) \<noteq> []}"

lemma joins_Nil [simp]: "joins L e facets [] = {}"
  by (simp add: joins_def)

lemma joins_Cons: "joins L e facets (k # ks) =
    (if key_value L e facets k = [] \<or> group_name (gk_prefix k) (key_value L e facets k) = [] then {}
     else {group_name (gk_prefix k) (key_value L e facets k)}) \<union> joins L e facets ks"
  by (auto simp: joins_def)

lemma groups_loop_Inr:
  "groups_loop L e facets i ks acc = Inr out \<Longrightarrow> distinct acc \<Longrightarrow>
     distinct out \<and> set out = set acc \<union> joins L e facets ks \<and> list_all group_key_ok ks"
proof (induction ks arbitrary: i acc)
  case (Cons k ks)
  let ?v = "key_value L e facets k" let ?n = "group_name (gk_prefix k) ?v"
  have ok: "group_key_ok k" using Cons.prems(1) by (auto split: if_splits)
  consider "?v = [] \<or> ?n = []" | "?v \<noteq> []" "?n \<noteq> []" "?n \<in> set acc" | "?v \<noteq> []" "?n \<noteq> []" "?n \<notin> set acc" by blast
  then show ?case
  proof cases
    case 1
    with ok Cons.prems have "groups_loop L e facets (Suc i) ks acc = Inr out" by (auto simp: Let_def split: if_splits)
    from Cons.IH [OF this Cons.prems(2)] 1 ok show ?thesis by (simp add: joins_Cons)
  next
    case 2
    with ok Cons.prems have "groups_loop L e facets (Suc i) ks acc = Inr out" by (auto simp: Let_def split: if_splits)
    from Cons.IH [OF this Cons.prems(2)] 2 ok show ?thesis by (auto simp: joins_Cons)
  next
    case 3
    with ok Cons.prems have "groups_loop L e facets (Suc i) ks (acc @ [?n]) = Inr out" by (auto simp: Let_def split: if_splits)
    from Cons.IH [OF this] Cons.prems(2) 3 ok show ?thesis by (auto simp: joins_Cons)
  qed
qed simp

lemma groups_loop_Inl:
  "groups_loop L e facets i ks acc = Inl j \<Longrightarrow> i \<le> j \<and> j < i + length ks \<and> \<not> group_key_ok (ks ! (j - i)) \<and>
     list_all group_key_ok (take (j - i) ks)"
proof (induction ks arbitrary: i acc)
  case (Cons k ks)
  show ?case
  proof (cases "group_key_ok k")
    case True
    then obtain acc' where "groups_loop L e facets (Suc i) ks acc' = Inl j"
      using Cons.prems by (auto simp: Let_def split: if_splits)
    from Cons.IH [OF this] True show ?thesis
      by (auto simp: nth_Cons' take_Cons' Suc_diff_Suc simp flip: diff_Suc_eq_diff_pred)
  qed (use Cons.prems in auto)
qed simp

text \<open>
  The groups an Entity joins are well-formed names: when the Step's keys are valid, the result is sorted, has no
  duplicate, consists of identifiers (a letter, then letters, digits and single underscores) and contains a name
  exactly when some key yields a value that has that name; a key without a value puts the Entity in no group.  A key
  with both or neither source fails the resolution at the first such index.
\<close>

theorem group_names_typed:
  "case groups_for L e facets ks of
     Inl i \<Rightarrow> i < length ks \<and> \<not> group_key_ok (ks ! i) \<and> list_all group_key_ok (take i ks)
   | Inr names \<Rightarrow> sorted names \<and> distinct names \<and> list_all group_ident names \<and> list_all group_key_ok ks \<and>
       set names = joins L e facets ks"
proof (cases "groups_loop L e facets 0 ks []")
  case (Inl i)
  with groups_loop_Inl [OF Inl] show ?thesis by (simp add: groups_for_def)
next
  case (Inr out)
  have "\<forall>n \<in> joins L e facets ks. group_ident n"
    unfolding joins_def using group_name_ident by fastforce
  with groups_loop_Inr [OF Inr] show ?thesis by (auto simp: groups_for_def Inr list_all_iff)
qed

section \<open>Stamping and collisions\<close>

definition regroup :: "string \<Rightarrow> string list \<Rightarrow> target \<Rightarrow> target" where
  "regroup ident names t = (if tg_entity_id t = ident then t\<lparr>tg_groups := names\<rparr> else t)"

lemma regroup_id [simp]: "tg_entity_id (regroup ident names t) = tg_entity_id t" "tg_entity_id \<circ> regroup ident names = tg_entity_id"
  by (auto simp: regroup_def)

lemma regroup_others: "ident \<notin> set (map tg_entity_id ts) \<Longrightarrow> map (regroup ident names) ts = ts"
  by (induction ts) (auto simp: regroup_def)

lemma stamp_first_map: "distinct (map tg_entity_id ts) \<Longrightarrow> stamp_first ident names ts = map (regroup ident names) ts"
proof (induction ts)
  case (Cons t ts)
  then show ?case
    using regroup_others [of ident ts names] by (auto simp: regroup_def [of _ _ t])
qed simp

lemma stamp_map: "distinct (map tg_entity_id ts) \<Longrightarrow> stamp ident names ts = map (regroup ident names) ts"
  using stamp_first_map [of "rev ts" ident names] by (simp add: stamp_def rev_map [symmetric])

definition entity_facets :: "(string \<times> string gomap) list \<Rightarrow> entity \<Rightarrow> string gomap" where
  "entity_facets per_ns e = map (\<lambda>(ns, vs). (ns, value_or_empty vs (en_id e))) per_ns"

definition all_named :: "codec \<Rightarrow> (string \<times> string gomap) list \<Rightarrow> group_key list \<Rightarrow> entity list \<Rightarrow> (string \<times> string) list" where
  "all_named L per_ns ks es = concat (map (\<lambda>e. named_values L e (entity_facets per_ns e) ks) es)"

definition stamped :: "codec \<Rightarrow> (string \<times> string gomap) list \<Rightarrow> group_key list \<Rightarrow> entity list \<Rightarrow> target \<Rightarrow> target" where
  "stamped L per_ns ks es t =
     (case find (\<lambda>e. en_id e = tg_entity_id t) es of
        None \<Rightarrow> t
      | Some e \<Rightarrow> (case groups_for L e (entity_facets per_ns e) ks of Inl i \<Rightarrow> t | Inr names \<Rightarrow> t\<lparr>tg_groups := names\<rparr>))"

lemma find_other: "ident \<notin> en_id ` set es \<Longrightarrow> find (\<lambda>e. en_id e = ident) es = None"
  by (auto simp: find_None_iff)

lemma apply_loop_Inr:
  "apply_loop L per_ns ks es (ts, merged) = Inr (ts', merged') \<Longrightarrow> distinct (map en_id es) \<Longrightarrow>
   distinct (map tg_entity_id ts) \<Longrightarrow>
     ts' = map (stamped L per_ns ks es) ts \<and> merged' = merged @ all_named L per_ns ks es \<and>
     (\<forall>e \<in> set es. \<exists>names. groups_for L e (entity_facets per_ns e) ks = Inr names)"
proof (induction es arbitrary: ts merged)
  case Nil
  then show ?case by (simp add: all_named_def stamped_def)
next
  case (Cons e es)
  from Cons.prems(1) obtain names where n: "groups_for L e (entity_facets per_ns e) ks = Inr names"
    and r: "apply_loop L per_ns ks es (stamp (en_id e) names ts, merged @ named_values L e (entity_facets per_ns e) ks)
      = Inr (ts', merged')"
    by (auto simp: entity_facets_def Let_def split: sum.splits)
  have d: "distinct (map tg_entity_id (stamp (en_id e) names ts))"
    using Cons.prems(3) by (simp add: stamp_map)
  have fresh: "en_id e \<notin> en_id ` set es" using Cons.prems(2) by auto
  have "stamped L per_ns ks es (regroup (en_id e) names t) = stamped L per_ns ks (e # es) t" for t
    using n find_other [OF fresh] by (auto simp: stamped_def regroup_def)
  then have "map (stamped L per_ns ks es) (stamp (en_id e) names ts) = map (stamped L per_ns ks (e # es)) ts"
    using Cons.prems(3) by (simp add: stamp_map)
  with Cons.IH [OF r _ d] Cons.prems(2) n show ?case by (auto simp: all_named_def)
qed

lemma raws_of_set: "set (raws_of merged n) = {r. (n, r) \<in> set merged}"
  by (auto simp: raws_of_def image_iff split: prod.splits)

lemma distinct_short: "distinct xs \<Longrightarrow> length xs < 2 \<longleftrightarrow> (\<forall>x \<in> set xs. \<forall>y \<in> set xs. x = y)"
proof -
  assume d: "distinct xs"
  consider "xs = []" | x where "xs = [x]" | x y zs where "xs = x # y # zs" by (metis list.exhaust)
  then show ?thesis
  proof cases
    case (3 x y zs)
    with d have "x \<noteq> y" "x \<in> set xs" "y \<in> set xs" by auto
    with 3 show ?thesis by (metis One_nat_def Suc_1 Suc_less_eq length_Cons not_less_zero)
  qed simp_all
qed

lemma raws_of_single: "length (raws_of merged n) < 2 \<longleftrightarrow> (\<forall>r r'. (n, r) \<in> set merged \<longrightarrow> (n, r') \<in> set merged \<longrightarrow> r = r')"
proof -
  have "distinct (raws_of merged n)" by (simp add: raws_of_def)
  from distinct_short [OF this] show ?thesis unfolding raws_of_set by blast
qed

lemma sort_Nil_iff: "sort xs = [] \<longleftrightarrow> xs = []"
  by (metis length_0_conv length_sort)

lemma no_collision: "collisions merged = [] \<longleftrightarrow> (\<forall>n r r'. (n, r) \<in> set merged \<longrightarrow> (n, r') \<in> set merged \<longrightarrow> r = r')"
proof -
  have "collisions merged = [] \<longleftrightarrow> filter (\<lambda>n. length (raws_of merged n) \<ge> 2) (remdups (map fst merged)) = []"
    unfolding collisions_def by (simp only: sort_Nil_iff map_is_Nil_conv)
  also have "\<dots> \<longleftrightarrow> (\<forall>n \<in> fst ` set merged. length (raws_of merged n) < 2)"
    by (simp only: filter_empty_conv set_remdups set_map not_le)
  finally show ?thesis unfolding raws_of_single by (metis fst_conv imageI)
qed

text \<open>The store's answers, once every namespace was read.\<close>

definition reads :: "(string \<Rightarrow> string list \<Rightarrow> string gomap option) \<Rightarrow> entity list \<Rightarrow> group_key list \<Rightarrow> (string \<times> string gomap) list" where
  "reads facet_values es ks = map (\<lambda>ns. (ns, the (facet_values ns (map en_id es)))) (group_facet_namespaces ks)"

lemma map_err_reads:
  "map_err (\<lambda>ns. case fv ns ids of None \<Rightarrow> Inl (FacetsUnreadable ns) | Some vs \<Rightarrow> Inr (ns, vs)) nss = Inr per_ns \<Longrightarrow>
     per_ns = map (\<lambda>ns. (ns, the (fv ns ids))) nss"
  by (induction nss arbitrary: per_ns) (auto split: option.splits sum.splits)

text \<open>
  No two observed values share a group unsaid: when grouping succeeds every target carries exactly the groups of its own
  Entity and is otherwise as it was resolved, and the collision report is empty exactly when any two values that were
  given one name in this Run are the same value.
\<close>

theorem merged_groups_are_reported:
  assumes "ks \<noteq> []" and "distinct (map en_id es)" and "map tg_entity_id ts = map en_id es"
    and "apply_groups L facet_values es ts ks = Inr (ts', cs)"
  shows "map tg_entity_id ts' = map en_id es \<and> map (\<lambda>t. t\<lparr>tg_groups := []\<rparr>) ts' = map (\<lambda>t. t\<lparr>tg_groups := []\<rparr>) ts \<and>
    list_all2 (\<lambda>e t. groups_for L e (entity_facets (reads facet_values es ks) e) ks = Inr (tg_groups t)) es ts' \<and>
    (cs = [] \<longleftrightarrow> (\<forall>n r r'. (n, r) \<in> set (all_named L (reads facet_values es ks) ks es) \<longrightarrow>
        (n, r') \<in> set (all_named L (reads facet_values es ks) ks es) \<longrightarrow> r = r'))"
proof -
  let ?p = "reads facet_values es ks"
  from assms(1,4) obtain merged where run: "apply_loop L ?p ks es (ts, []) = Inr (ts', merged)" and cs: "cs = collisions merged"
    by (auto simp: apply_groups_def reads_def dest!: map_err_reads split: sum.splits)
  have d: "distinct (map tg_entity_id ts)" using assms(2,3) by simp
  note loop = apply_loop_Inr [OF run assms(2) d]
  then have ts': "ts' = map (stamped L ?p ks es) ts" and merged: "merged = all_named L ?p ks es" by auto
  have "stamped L ?p ks es t\<lparr>tg_groups := []\<rparr> = t\<lparr>tg_groups := []\<rparr>" "tg_entity_id (stamped L ?p ks es t) = tg_entity_id t" for t
    by (auto simp: stamped_def split: option.splits sum.splits)
  then have "tg_entity_id \<circ> stamped L ?p ks es = tg_entity_id"
      "(\<lambda>t. t\<lparr>tg_groups := []\<rparr>) \<circ> stamped L ?p ks es = (\<lambda>t. t\<lparr>tg_groups := []\<rparr>)" by (auto simp: fun_eq_iff)
  then have "map tg_entity_id ts' = map en_id es" "map (\<lambda>t. t\<lparr>tg_groups := []\<rparr>) ts' = map (\<lambda>t. t\<lparr>tg_groups := []\<rparr>) ts"
    using assms(3) by (simp_all add: ts')
  moreover have "list_all2 (\<lambda>e t. groups_for L e (entity_facets ?p e) ks = Inr (tg_groups t)) es ts'"
  proof (rule list_all2_all_nthI)
    show len: "length es = length ts'" using assms(3) ts' by (metis length_map)
    fix i assume i: "i < length es"
    then have id_eq: "tg_entity_id (ts ! i) = en_id (es ! i)" using assms(3) len ts' by (metis length_map nth_map)
    have "find (\<lambda>e. en_id e = en_id (es ! i)) es = Some (es ! i)"
      using i assms(2) by (auto simp: find_Some_iff distinct_conv_nth intro!: exI [of _ i])
    moreover obtain names where "groups_for L (es ! i) (entity_facets ?p (es ! i)) ks = Inr names"
      using loop i by force
    ultimately show "groups_for L (es ! i) (entity_facets ?p (es ! i)) ks = Inr (tg_groups (ts' ! i))"
      using i len ts' id_eq by (simp add: stamped_def)
  qed
  ultimately show ?thesis using no_collision [of merged] by (simp add: cs merged)
qed

definition region_entities :: "entity list" where
  "region_entities = [\<lparr>en_id = ''a'', en_kind = ''vm'', en_labels = [(''region'', ''eu-west-1'')]\<rparr>,
     \<lparr>en_id = ''b'', en_kind = ''vm'', en_labels = [(''region'', ''eu.west.1'')]\<rparr>]"

definition bare_target :: "string \<Rightarrow> target" where
  "bare_target i = \<lparr>tg_entity_id = i, tg_name = i, tg_address = [], tg_port = 0, tg_transport = None, tg_jump = [], tg_groups = []\<rparr>"

definition no_json :: codec where
  "no_json = \<lparr>unmarshal = (\<lambda>_. None), marshal = (\<lambda>_. Inl []), fmt_float = (\<lambda>_. [])\<rparr>"

definition by_region :: "group_key list" where
  "by_region = [\<lparr>gk_label = ''region'', gk_facet = None, gk_prefix = ''region''\<rparr>]"

lemma region_run: "apply_groups no_json (\<lambda>_ _. None) region_entities (map bare_target [''a'', ''b'']) by_region =
    Inr (map (\<lambda>i. bare_target i\<lparr>tg_groups := [''region_eu_west_1'']\<rparr>) [''a'', ''b''],
      [''region_eu_west_1'' @ arrow @ ''eu-west-1, eu.west.1''])"
  by code_simp

lemma merged_groups_are_reported_witness:
  "\<not> (\<forall>n r r'. (n, r) \<in> set (all_named no_json (reads (\<lambda>_ _. None) region_entities by_region) by_region region_entities) \<longrightarrow>
     (n, r') \<in> set (all_named no_json (reads (\<lambda>_ _. None) region_entities by_region) by_region region_entities) \<longrightarrow> r = r')"
proof -
  have "by_region \<noteq> []" "distinct (map en_id region_entities)"
    "map tg_entity_id (map bare_target [''a'', ''b'']) = map en_id region_entities" by code_simp+
  from merged_groups_are_reported [OF this region_run] show ?thesis by (simp add: arrow_def)
qed

end
