(* ===== verification/Targets.thy ===== *)
theory Targets
  imports TargetGroups Across
begin

text \<open>
  What a View resolves to at dispatch time, from \<open>core/internal/orchestrate/orchestrate.go\<close>, \<open>reachvia.go\<close> and the
  scalar Facet read of \<open>core/internal/graph/reader.go\<close>: rendering an Entity as a target (name, address, transport),
  the chain of bastions it is reached through, narrowing a Run to one Entity, and the partition of the targets by
  execution locus with its check that every Site is served by this Cell.  \<open>graph_reads\<close> is what the store answers
  (\<open>None\<close> is an error).  \<open>parse_doc\<close> is the JSON document as written: its members in order, an integer literal as
  \<open>JInt\<close>.
\<close>

section \<open>Facet documents read into structs\<close>

record wire = codec +
  parse_doc :: "string \<Rightarrow> json option"

text \<open>
  \<open>json.Unmarshal\<close> into a struct field: names match in any case, the last member wins, a null changes nothing and
  another type is an error after which the rest is still read.  Member names are ASCII.
\<close>

definition read_string :: "string \<Rightarrow> jmap \<Rightarrow> bool \<times> string" where
  "read_string fld m = fold (\<lambda>(k, v) (ok, x). if map lower_char k = fld
     then (case v of JStr s \<Rightarrow> (ok, s) | JNull \<Rightarrow> (ok, x) | _ \<Rightarrow> (False, x)) else (ok, x)) m (True, [])"

definition read_int32 :: "string \<Rightarrow> jmap \<Rightarrow> bool \<times> int" where
  "read_int32 fld m = fold (\<lambda>(k, v) (ok, x). if map lower_char k = fld
     then (case v of JInt i \<Rightarrow> if - (2 ^ 31) \<le> i \<and> i < 2 ^ 31 then (ok, i) else (False, x)
           | JNull \<Rightarrow> (ok, x) | _ \<Rightarrow> (False, x)) else (ok, x)) m (True, 0)"

definition address_of :: "wire \<Rightarrow> string \<Rightarrow> string \<times> int" where
  "address_of W raw =
     (if raw = [] then ([], 0)
      else case parse_doc W raw of
        Some (JObj m) \<Rightarrow> (snd (read_string ''address'' m), snd (read_int32 ''port'' m))
      | _ \<Rightarrow> ([], 0))"

definition transport_of :: "wire \<Rightarrow> string \<Rightarrow> (string \<times> string) option" where
  "transport_of W raw =
     (if raw = [] then None
      else case parse_doc W raw of
        Some (JObj m) \<Rightarrow> (case read_string ''kind'' m of (ok, kind) \<Rightarrow> if \<not> ok \<or> kind = [] then None else Some (kind, raw))
      | _ \<Rightarrow> None)"

definition LocalSite :: string where
  "LocalSite = ''local''"

definition site_of :: "wire \<Rightarrow> string gomap \<Rightarrow> string \<Rightarrow> string" where
  "site_of W locs ident =
     (case map_of locs ident of
        None \<Rightarrow> LocalSite
      | Some raw \<Rightarrow> (case parse_doc W raw of
            Some (JObj m) \<Rightarrow> (case read_string ''site'' m of (ok, site) \<Rightarrow> if ok \<and> site \<noteq> [] then site else LocalSite)
          | _ \<Rightarrow> LocalSite))"

section \<open>What the graph answers\<close>

record graph_reads =
  gr_view :: "string \<Rightarrow> jmap \<Rightarrow> (int \<times> entity list) option"
  gr_rows :: "string \<Rightarrow> string list \<Rightarrow> (string \<Rightarrow> facet_row list) option"
  gr_relation_targets :: "string \<Rightarrow> string \<Rightarrow> string list option"
  gr_entity :: "string \<Rightarrow> entity option"
  gr_site_cell :: "string \<Rightarrow> string option"
  gr_cell :: string

definition scalar_value :: "facet_row list \<Rightarrow> string \<Rightarrow> string option" where
  "scalar_value rows ns = resolve_candidates (candidates rows (FacetKey ns []))"

definition facet_values_by_entities :: "graph_reads \<Rightarrow> string \<Rightarrow> string list \<Rightarrow> string gomap option" where
  "facet_values_by_entities g ns ids =
     (if ids = [] then Some []
      else map_option (\<lambda>rows. List.map_filter (\<lambda>i. map_option (Pair i) (scalar_value (rows i) ns)) ids) (gr_rows g ns ids))"

text \<open>The qualifiers reported where a value was suppressed for being qualified.\<close>

definition suppressed_qualifiers :: "facet_row list \<Rightarrow> string \<Rightarrow> string list option" where
  "suppressed_qualifiers rows ns =
     (let quals = map (\<lambda>r. case fw_key r of FacetKey _ q \<Rightarrow> q)
            (filter (\<lambda>r. case fw_key r of FacetKey n q \<Rightarrow> n = ns \<and> q \<noteq> []) rows)
      in if quals = [] \<or> scalar_value rows ns \<noteq> None then None else Some (sort quals))"

section \<open>Rendering one Entity\<close>

definition has_suffix :: "string \<Rightarrow> string \<Rightarrow> bool" where
  "has_suffix p s = has_prefix (rev p) (rev s)"

definition better_name :: "string \<times> string \<Rightarrow> string \<times> string \<Rightarrow> string \<times> string" where
  "better_name kv best = (case kv of (k, v) \<Rightarrow> case best of (name, best_key) \<Rightarrow>
     if v = [] \<or> \<not> has_suffix ''.name'' k then best
     else if best_key = [] \<or> k < best_key then (v, k) else best)"

definition observed_name :: "entity \<Rightarrow> string" where
  "observed_name e =
     (let name = fst (fold better_name (en_labels e) ([], [])) in if name = [] then en_id e else name)"

definition render_target :: "wire \<Rightarrow> entity \<Rightarrow> string \<Rightarrow> int \<Rightarrow> string \<Rightarrow> target" where
  "render_target W e address port transport =
     \<lparr>tg_entity_id = en_id e, tg_name = observed_name e, tg_address = address, tg_port = port,
      tg_transport = transport_of W transport, tg_jump = [], tg_groups = []\<rparr>"

section \<open>The chain of bastions\<close>

datatype target_error = ViewUnreadable | NoEntities | NotAMember | FacetUnreadable string | RelationUnreadable string
  | AmbiguousHop string | HopCycle string | HopUnknown string | HopUnreachable string | TooManyHops
  | SiteUnknown string | SiteCellMisroute string | GroupFailed group_error

definition max_jump_hops :: nat where
  "max_jump_hops = 8"

definition read_hop :: "wire \<Rightarrow> graph_reads \<Rightarrow> string \<Rightarrow> target_error + hop" where
  "read_hop W g h =
     (case gr_entity g h of
        None \<Rightarrow> Inl (HopUnknown h)
      | Some ent \<Rightarrow> (case facet_values_by_entities g ''mgmt.address'' [h] of
            None \<Rightarrow> Inl (FacetUnreadable ''mgmt.address'')
          | Some raw \<Rightarrow> (case address_of W (value_or_empty raw h) of (addr, port) \<Rightarrow>
                if addr = [] then Inl (HopUnreachable h)
                else Inr \<lparr>hp_name = observed_name ent, hp_address = addr, hp_port = port\<rparr>)))"

text \<open>The argument counts the iterations that are left: the loop runs while the chain has at most eight hops.\<close>

fun jump_walk :: "wire \<Rightarrow> graph_reads \<Rightarrow> nat \<Rightarrow> string list \<Rightarrow> string \<Rightarrow> target_error + hop list" where
  "jump_walk W g 0 seen cur = Inl TooManyHops"
| "jump_walk W g (Suc n) seen cur =
     (case gr_relation_targets g cur ''reached-via'' of
        None \<Rightarrow> Inl (RelationUnreadable cur)
      | Some [] \<Rightarrow> Inr []
      | Some [h] \<Rightarrow>
          (if h \<in> set seen then Inl (HopCycle h)
           else case read_hop W g h of
               Inl e \<Rightarrow> Inl e
             | Inr hp \<Rightarrow> (case jump_walk W g n (h # seen) h of Inl e \<Rightarrow> Inl e | Inr hps \<Rightarrow> Inr (hp # hps)))
      | Some _ \<Rightarrow> Inl (AmbiguousHop cur))"

definition resolve_jump_chain :: "wire \<Rightarrow> graph_reads \<Rightarrow> string \<Rightarrow> target_error + hop list" where
  "resolve_jump_chain W g ident = jump_walk W g (Suc max_jump_hops) [ident] ident"

section \<open>Resolution\<close>

record view_run = across_input +
  vr_view_params :: jmap
  vr_trigger :: string
  vr_baseline :: string

record site_group =
  sg_site :: string
  sg_targets :: "target list"

record routed_targets =
  rt_view_version :: int
  rt_groups :: "site_group list"
  rt_group_collisions :: "string list"

record resolved_targets =
  rs_view_version :: int
  rs_targets :: "target list"
  rs_group_collisions :: "string list"

definition narrow_to_entity :: "entity list \<Rightarrow> view_run \<Rightarrow> target_error + entity list" where
  "narrow_to_entity es i =
     (if ri_entity_scope i = [] then Inr es
      else case find (\<lambda>e. en_id e = ri_entity_scope i) es of None \<Rightarrow> Inl NotAMember | Some e \<Rightarrow> Inr [e])"

definition place :: "wire \<Rightarrow> graph_reads \<Rightarrow> string gomap \<Rightarrow> string gomap \<Rightarrow> string gomap \<Rightarrow> entity \<Rightarrow> target_error + (string \<times> target)" where
  "place W g locs addrs transports e =
     (case address_of W (value_or_empty addrs (en_id e)) of (addr, port) \<Rightarrow>
        case resolve_jump_chain W g (en_id e) of
          Inl x \<Rightarrow> Inl x
        | Inr hops \<Rightarrow> Inr (site_of W locs (en_id e),
            render_target W e addr port (value_or_empty transports (en_id e))\<lparr>tg_jump := hops\<rparr>))"

definition site_reachable_from_cell :: "string \<Rightarrow> string \<Rightarrow> bool" where
  "site_reachable_from_cell site_cell daemon_cell \<longleftrightarrow> site_cell = [] \<or> site_cell = daemon_cell"

definition check_site :: "graph_reads \<Rightarrow> string \<Rightarrow> target_error option" where
  "check_site g s =
     (if s = LocalSite then None
      else case gr_site_cell g s of
        None \<Rightarrow> Some (SiteUnknown s)
      | Some c \<Rightarrow> if site_reachable_from_cell c (gr_cell g) then None else Some (SiteCellMisroute s))"

definition by_site :: "(string \<times> target) list \<Rightarrow> site_group list" where
  "by_site placed = map (\<lambda>s. \<lparr>sg_site = s, sg_targets = map snd (filter (\<lambda>(s', _). s' = s) placed)\<rparr>)
     (sort (remdups (map fst placed)))"

text \<open>The stamped targets go back into the groups they were taken from.\<close>

fun put_back :: "site_group list \<Rightarrow> target list \<Rightarrow> site_group list" where
  "put_back [] ts = []"
| "put_back (G # Gs) ts = G\<lparr>sg_targets := take (length (sg_targets G)) ts\<rparr> # put_back Gs (drop (length (sg_targets G)) ts)"

definition facet_read :: "graph_reads \<Rightarrow> string \<Rightarrow> string list \<Rightarrow> target_error + string gomap" where
  "facet_read g ns ids = (case facet_values_by_entities g ns ids of None \<Rightarrow> Inl (FacetUnreadable ns) | Some m \<Rightarrow> Inr m)"

definition resolve_targets_by_site :: "wire \<Rightarrow> graph_reads \<Rightarrow> view_run \<Rightarrow> target_error + routed_targets" where
  "resolve_targets_by_site W g i =
     (case gr_view g (ri_view_name i) (vr_view_params i) of
        None \<Rightarrow> Inl ViewUnreadable
      | Some (version, members) \<Rightarrow>
          if members = [] then (if ai_stay_local i then Inr \<lparr>rt_view_version = version, rt_groups = [], rt_group_collisions = []\<rparr>
                                else Inl NoEntities)
          else case narrow_to_entity members i of Inl x \<Rightarrow> Inl x | Inr es \<Rightarrow>
            let ids = map en_id es in
            case facet_read g ''mgmt.site'' ids of Inl x \<Rightarrow> Inl x | Inr locs \<Rightarrow>
            (case facet_read g ''mgmt.address'' ids of Inl x \<Rightarrow> Inl x | Inr addrs \<Rightarrow>
            (case facet_read g ''mgmt.transport'' ids of Inl x \<Rightarrow> Inl x | Inr transports \<Rightarrow>
            (case map_err (place W g locs addrs transports) es of Inl x \<Rightarrow> Inl x | Inr placed \<Rightarrow>
            (case first_err (check_site g) (map sg_site (by_site placed)) of Some x \<Rightarrow> Inl x | None \<Rightarrow>
            (case apply_groups (codec.truncate W) (facet_values_by_entities g) es (concat (map sg_targets (by_site placed))) (ri_group_by i) of
                Inl x \<Rightarrow> Inl (GroupFailed x)
              | Inr (ts, cs) \<Rightarrow> Inr \<lparr>rt_view_version = version, rt_groups = put_back (by_site placed) ts, rt_group_collisions = cs\<rparr>))))))"

definition resolve_targets :: "wire \<Rightarrow> graph_reads \<Rightarrow> view_run \<Rightarrow> target_error + resolved_targets" where
  "resolve_targets W g i =
     (case gr_view g (ri_view_name i) (vr_view_params i) of
        None \<Rightarrow> Inl ViewUnreadable
      | Some (version, members) \<Rightarrow>
          if members = [] then Inl NoEntities
          else case narrow_to_entity members i of Inl x \<Rightarrow> Inl x | Inr es \<Rightarrow>
            let ids = map en_id es in
            case facet_read g ''mgmt.address'' ids of Inl x \<Rightarrow> Inl x | Inr addrs \<Rightarrow>
            (case facet_read g ''mgmt.transport'' ids of Inl x \<Rightarrow> Inl x | Inr transports \<Rightarrow>
            (case map_err (place W g [] addrs transports) es of Inl x \<Rightarrow> Inl x | Inr placed \<Rightarrow>
            (case apply_groups (codec.truncate W) (facet_values_by_entities g) es (map snd placed) (ri_group_by i) of
                Inl x \<Rightarrow> Inl (GroupFailed x)
              | Inr (ts, cs) \<Rightarrow> Inr \<lparr>rs_view_version = version, rs_targets = ts, rs_group_collisions = cs\<rparr>))))"

section \<open>The route is the declared one\<close>

text \<open>The route from an Entity: one reached-via edge after another until there is none.\<close>

fun route :: "graph_reads \<Rightarrow> string \<Rightarrow> string list \<Rightarrow> bool" where
  "route g cur [] \<longleftrightarrow> gr_relation_targets g cur ''reached-via'' = Some []"
| "route g cur (h # p) \<longleftrightarrow> gr_relation_targets g cur ''reached-via'' = Some [h] \<and> route g h p"

lemma jump_walk_iff:
  "jump_walk W g n seen cur = Inr hps \<longleftrightarrow>
     (\<exists>p. length p < n \<and> distinct p \<and> set p \<inter> set seen = {} \<and> route g cur p \<and> list_all2 (\<lambda>h hp. read_hop W g h = Inr hp) p hps)"
    (is "_ \<longleftrightarrow> (\<exists>p. ?ok n seen cur hps p)")
proof (induction n arbitrary: seen cur hps)
  case (Suc n)
  consider "gr_relation_targets g cur ''reached-via'' = None" | "gr_relation_targets g cur ''reached-via'' = Some []"
    | h where "gr_relation_targets g cur ''reached-via'' = Some [h]"
    | h h' r where "gr_relation_targets g cur ''reached-via'' = Some (h # h' # r)"
    by (metis list.exhaust option.exhaust)
  then show ?case
  proof cases
    case 2
    have "?ok (Suc n) seen cur hps p \<longleftrightarrow> p = [] \<and> hps = []" for p
      using 2 by (cases p) auto
    with 2 show ?thesis by auto
  next
    case (3 h)
    have path: "?ok (Suc n) seen cur hps p \<longleftrightarrow>
        (\<exists>q hp hps'. p = h # q \<and> hps = hp # hps' \<and> h \<notin> set seen \<and> read_hop W g h = Inr hp \<and> ?ok n (h # seen) h hps' q)" for p
      using 3 by (cases p; cases hps) auto
    have step: "jump_walk W g (Suc n) seen cur = Inr hps \<longleftrightarrow>
        (\<exists>hp hps'. hps = hp # hps' \<and> h \<notin> set seen \<and> read_hop W g h = Inr hp \<and> jump_walk W g n (h # seen) h = Inr hps')"
      using 3 by (auto split: sum.splits)
    show ?thesis unfolding step path Suc.IH by blast
  next
    case (4 h h' r)
    have "\<not> ?ok (Suc n) seen cur hps p" for p
      using 4 by (cases p) auto
    with 4 show ?thesis by simp
  qed (auto elim: route.elims)
qed simp

text \<open>
  A target is reached over its declared bastions or not at all: the chain resolves exactly when the reached-via edges
  from the Entity form a path without repetition of at most eight hops, unambiguous at every hop and ended by a hop
  that declares none, and every hop is a known Entity with an address of its own; the chain is then that path, nearest
  hop first.
\<close>

theorem jump_chain_iff:
  "resolve_jump_chain W g e = Inr hps \<longleftrightarrow>
     (\<exists>p. length p \<le> max_jump_hops \<and> distinct (e # p) \<and> route g e p \<and> list_all2 (\<lambda>h hp. read_hop W g h = Inr hp) p hps)"
  unfolding resolve_jump_chain_def jump_walk_iff by (auto simp: less_Suc_eq_le)

section \<open>The name does not depend on the order of the labels\<close>

definition name_labels :: "string gomap \<Rightarrow> string gomap" where
  "name_labels m = filter (\<lambda>(k, v). v \<noteq> [] \<and> has_suffix ''.name'' k) m"

lemma has_suffix_nonempty: "has_suffix ''.name'' k \<Longrightarrow> k \<noteq> []"
  by (auto simp: has_suffix_def has_prefix_iff)

lemma fold_better_name:
  "case fold better_name m ([], []) of (name, best_key) \<Rightarrow>
     (name_labels m = [] \<and> name = [] \<and> best_key = []) \<or>
     ((best_key, name) \<in> set (name_labels m) \<and> (\<forall>k \<in> fst ` set (name_labels m). best_key \<le> k))"
proof (induction m rule: rev_induct)
  case (snoc kv m)
  obtain k v where kv: "kv = (k, v)" by force
  obtain name best_key where acc: "fold better_name m ([], []) = (name, best_key)" by force
  show ?case
  proof (cases "v = [] \<or> \<not> has_suffix ''.name'' k")
    case True
    then have "name_labels (m @ [kv]) = name_labels m" "better_name kv (name, best_key) = (name, best_key)"
      by (auto simp: name_labels_def better_name_def kv)
    with snoc acc show ?thesis by simp
  next
    case False
    then have lab: "name_labels (m @ [kv]) = name_labels m @ [(k, v)]"
      by (auto simp: name_labels_def kv)
    have named: "best_key = [] \<Longrightarrow> name_labels m = []"
      using snoc acc has_suffix_nonempty by (auto simp: name_labels_def)
    show ?thesis
    proof (cases "best_key = [] \<or> k < best_key")
      case True
      then have "better_name kv (name, best_key) = (v, k)" using False by (simp add: better_name_def kv)
      moreover have "\<forall>k' \<in> fst ` set (name_labels m). k \<le> k'"
        using True snoc acc named by fastforce
      ultimately show ?thesis using lab acc by simp
    next
      case out: False
      then have "better_name kv (name, best_key) = (name, best_key)" using False by (simp add: better_name_def kv)
      moreover have "name_labels m \<noteq> []" using snoc acc out by auto
      ultimately show ?thesis using lab acc snoc out by (auto simp: not_less)
    qed
  qed
qed (simp add: name_labels_def)

lemma observed_name_least:
  "if name_labels (en_labels e) = [] then observed_name e = en_id e
   else \<exists>k. (k, observed_name e) \<in> set (name_labels (en_labels e)) \<and> (\<forall>k' \<in> fst ` set (name_labels (en_labels e)). k \<le> k')"
proof -
  obtain name best_key where acc: "fold better_name (en_labels e) ([], []) = (name, best_key)" by force
  have "(best_key, name) \<in> set (name_labels (en_labels e)) \<Longrightarrow> name \<noteq> []" by (auto simp: name_labels_def)
  then show ?thesis
    using fold_better_name [of "en_labels e"] acc by (auto simp: observed_name_def)
qed

text \<open>The iteration order of the label map does not matter: a replay renders the same name.\<close>

lemma observed_name_order_independent:
  assumes "distinct (keys (en_labels e))" "mset (en_labels e) = mset (en_labels e')" "en_id e = en_id e'"
  shows "observed_name e = observed_name e'"
proof -
  have set: "set (name_labels (en_labels e)) = set (name_labels (en_labels e'))"
    using assms(2) by (auto simp: name_labels_def dest: mset_eq_setD)
  have inj: "(k, v) \<in> set (name_labels (en_labels e)) \<Longrightarrow> (k, w) \<in> set (name_labels (en_labels e)) \<Longrightarrow> v = w" for k v w
    using assms(1) by (auto simp: name_labels_def dest: eq_key_imp_eq_value)
  show ?thesis
  proof (cases "name_labels (en_labels e) = []")
    case True
    then have "name_labels (en_labels e') = []" using set by simp
    with True show ?thesis using observed_name_least [of e] observed_name_least [of e'] assms(3) by simp
  next
    case False
    then have "name_labels (en_labels e') \<noteq> []" using set by auto
    with False obtain k k' where "(k, observed_name e) \<in> set (name_labels (en_labels e))"
        "\<forall>x \<in> fst ` set (name_labels (en_labels e)). k \<le> x"
        "(k', observed_name e') \<in> set (name_labels (en_labels e))"
        "\<forall>x \<in> fst ` set (name_labels (en_labels e)). k' \<le> x"
      using observed_name_least [of e] observed_name_least [of e'] unfolding set by auto
    then show ?thesis using inj by (metis antisym fst_conv imageI)
  qed
qed

section \<open>The partition by Site\<close>

lemma apply_groups_keeps:
  assumes "apply_groups L fv es ts ks = Inr (ts', cs)" "distinct (map en_id es)" "distinct (map tg_entity_id ts)"
  shows "\<exists>f. ts' = map f ts \<and> (\<forall>t. f t\<lparr>tg_groups := []\<rparr> = t\<lparr>tg_groups := []\<rparr>)"
proof (cases "ks = []")
  case True
  with assms(1) have "ts' = map id ts" by (simp add: apply_groups_def)
  then show ?thesis by (metis id_apply)
next
  case False
  with assms(1) obtain merged where "apply_loop L (reads fv es ks) ks es (ts, []) = Inr (ts', merged)"
    by (auto simp: apply_groups_def reads_def dest!: map_err_reads split: sum.splits)
  from apply_loop_Inr [OF this assms(2,3)] have "ts' = map (stamped L (reads fv es ks) ks es) ts" by simp
  moreover have "stamped L (reads fv es ks) ks es t\<lparr>tg_groups := []\<rparr> = t\<lparr>tg_groups := []\<rparr>" for t
    by (auto simp: stamped_def split: option.splits sum.splits)
  ultimately show ?thesis by blast
qed

lemma put_back_map:
  "put_back Gs (map f (concat (map sg_targets Gs))) = map (\<lambda>G. G\<lparr>sg_targets := map f (sg_targets G)\<rparr>) Gs"
  by (induction Gs) (auto simp: take_map drop_map)

lemma filter_key_union:
  "s \<notin> set ns \<Longrightarrow> mset (filter (\<lambda>p. fst p \<in> set (s # ns)) xs) =
     mset (filter (\<lambda>(s', _). s' = s) xs) + mset (filter (\<lambda>p. fst p \<in> set ns) xs)"
  by (induction xs) auto

lemma concat_by_key:
  "distinct ns \<Longrightarrow> mset (concat (map (\<lambda>s. map snd (filter (\<lambda>(s', _). s' = s) xs)) ns)) =
     mset (map snd (filter (\<lambda>p. fst p \<in> set ns) xs))"
proof (induction ns)
  case (Cons s ns)
  then have "mset (filter (\<lambda>p. fst p \<in> set (s # ns)) xs) =
     mset (filter (\<lambda>(s', _). s' = s) xs) + mset (filter (\<lambda>p. fst p \<in> set ns) xs)"
    by (intro filter_key_union) simp
  with Cons show ?case by (simp add: mset_map del: mset_filter)
qed simp

lemma by_site_targets: "mset (concat (map sg_targets (by_site placed))) = mset (map snd placed)"
proof -
  have "filter (\<lambda>p. fst p \<in> set (sort (remdups (map fst placed)))) placed = placed"
    by (simp add: filter_id_conv)
  then show ?thesis using concat_by_key [of "sort (remdups (map fst placed))" placed]
    by (simp add: by_site_def comp_def)
qed

lemma by_site_sites: "map sg_site (by_site placed) = sort (remdups (map fst placed))"
  by (simp add: by_site_def comp_def)

lemma by_site_group: "G \<in> set (by_site placed) \<Longrightarrow> sg_targets G \<noteq> [] \<and> (\<forall>t \<in> set (sg_targets G). (sg_site G, t) \<in> set placed)"
proof -
  assume "G \<in> set (by_site placed)"
  then obtain s where s: "s \<in> fst ` set placed" and G: "G = \<lparr>sg_site = s, sg_targets = map snd (filter (\<lambda>(s', _). s' = s) placed)\<rparr>"
    by (auto simp: by_site_def)
  from s obtain t where "(s, t) \<in> set placed" by force
  then have "(s, t) \<in> set (filter (\<lambda>(s', _). s' = s) placed)" by simp
  then have "filter (\<lambda>(s', _). s' = s) placed \<noteq> []" by (metis empty_iff empty_set)
  with G show ?thesis by auto
qed

definition scoped :: "view_run \<Rightarrow> entity list \<Rightarrow> entity list" where
  "scoped i members = (if ri_entity_scope i = [] then members else filter (\<lambda>e. en_id e = ri_entity_scope i) members)"

lemma filter_unique_id: "distinct (map en_id es) \<Longrightarrow> find (\<lambda>e. en_id e = x) es = Some e \<Longrightarrow> filter (\<lambda>e. en_id e = x) es = [e]"
proof (induction es)
  case (Cons a es)
  show ?case
  proof (cases "en_id a = x")
    case True
    then have "\<forall>b \<in> set es. en_id b \<noteq> x" using Cons.prems(1) by (metis distinct.simps(2) imageI list.simps(9) set_map)
    then have "filter (\<lambda>e. en_id e = x) es = []" by (simp add: filter_empty_conv)
    with True Cons show ?thesis by simp
  next
    case False
    with Cons show ?thesis by simp
  qed
qed simp

lemma narrow_scoped:
  "narrow_to_entity members i = Inr es \<Longrightarrow> distinct (map en_id members) \<Longrightarrow> es = scoped i members \<and> es \<noteq> [] \<or> members = []"
  by (auto simp: narrow_to_entity_def scoped_def filter_unique_id split: if_splits option.splits)

lemma resolve_targets_by_site_Inr:
  assumes "gr_view g (ri_view_name i) (vr_view_params i) = Some (version, members)" "members \<noteq> []"
    and "resolve_targets_by_site W g i = Inr r"
  obtains es locs addrs transports placed ts cs where
    "narrow_to_entity members i = Inr es" "facet_read g ''mgmt.site'' (map en_id es) = Inr locs"
    "facet_read g ''mgmt.address'' (map en_id es) = Inr addrs" "facet_read g ''mgmt.transport'' (map en_id es) = Inr transports"
    "map_err (place W g locs addrs transports) es = Inr placed"
    "first_err (check_site g) (map sg_site (by_site placed)) = None"
    "apply_groups (codec.truncate W) (facet_values_by_entities g) es (concat (map sg_targets (by_site placed))) (ri_group_by i) = Inr (ts, cs)"
    "r = \<lparr>rt_view_version = version, rt_groups = put_back (by_site placed) ts, rt_group_collisions = cs\<rparr>"
  using assms(3) unfolding resolve_targets_by_site_def assms(1)
  by (auto simp: assms(2) Let_def split: sum.splits option.splits if_splits prod.splits)

lemma map_err_source: "map_err f xs = Inr ys \<Longrightarrow> y \<in> set ys \<Longrightarrow> \<exists>x \<in> set xs. f x = Inr y"
  by (induction xs arbitrary: ys) (auto split: sum.splits)

lemma place_fields:
  "place W g locs addrs transports e = Inr (s, t) \<Longrightarrow>
     tg_entity_id t = en_id e \<and> s = site_of W locs (en_id e) \<and> tg_name t = observed_name e \<and>
     (tg_address t, tg_port t) = address_of W (value_or_empty addrs (en_id e)) \<and>
     resolve_jump_chain W g (en_id e) = Inr (tg_jump t)"
  by (auto simp: place_def render_target_def split: prod.splits sum.splits)

text \<open>
  The partition by execution locus loses no target and misplaces none: when the resolution succeeds on a View with the
  given members, the targets of all groups together are the members (or the one the Run is narrowed to), each once;
  the Sites are sorted and distinct and each is the local one or is served by this Cell; and every target sits in the
  group of its own Site with its own chain of bastions.
\<close>

theorem routed_targets_partition:
  assumes "gr_view g (ri_view_name i) (vr_view_params i) = Some (version, members)" and "distinct (map en_id members)"
    and "resolve_targets_by_site W g i = Inr r"
  shows "mset (map tg_entity_id (concat (map sg_targets (rt_groups r)))) = mset (map en_id (scoped i members)) \<and>
    sorted_wrt (<) (map sg_site (rt_groups r)) \<and>
    list_all (\<lambda>G. sg_targets G \<noteq> [] \<and> check_site g (sg_site G) = None \<and>
      (\<exists>locs. facet_values_by_entities g ''mgmt.site'' (map en_id (scoped i members)) = Some locs \<and>
        list_all (\<lambda>t. site_of W locs (tg_entity_id t) = sg_site G \<and> resolve_jump_chain W g (tg_entity_id t) = Inr (tg_jump t))
          (sg_targets G))) (rt_groups r)"
proof (cases "members = []")
  case True
  then show ?thesis using assms
    by (auto simp: resolve_targets_by_site_def scoped_def split: if_splits)
next
  case False
  obtain es locs addrs transports placed ts cs where
    narrow: "narrow_to_entity members i = Inr es" and sites: "facet_read g ''mgmt.site'' (map en_id es) = Inr locs"
    and placed: "map_err (place W g locs addrs transports) es = Inr placed"
    and served: "first_err (check_site g) (map sg_site (by_site placed)) = None"
    and groups: "apply_groups (codec.truncate W) (facet_values_by_entities g) es (concat (map sg_targets (by_site placed))) (ri_group_by i) = Inr (ts, cs)"
    and r: "r = \<lparr>rt_view_version = version, rt_groups = put_back (by_site placed) ts, rt_group_collisions = cs\<rparr>"
    using resolve_targets_by_site_Inr [OF assms(1) False assms(3)] by metis
  from narrow_scoped [OF narrow assms(2)] False have es: "es = scoped i members" by simp
  have dist: "distinct (map en_id es)" using assms(2) by (auto simp: es scoped_def distinct_map_filter)
  have rel: "list_all2 (\<lambda>e p. place W g locs addrs transports e = Inr p) es placed" using placed by (simp add: map_err_Inr)
  then have ids: "map en_id es = map tg_entity_id (map snd placed)"
    by (induction rule: list_all2_induct) (auto dest: place_fields)
  have mset_ids: "mset (map tg_entity_id (concat (map sg_targets (by_site placed)))) = mset (map en_id es)"
    unfolding ids by (simp only: mset_map by_site_targets)
  then have "distinct (map tg_entity_id (concat (map sg_targets (by_site placed))))"
    using dist by (metis mset_eq_imp_distinct_iff)
  from apply_groups_keeps [OF groups dist this] obtain f where
    ts: "ts = map f (concat (map sg_targets (by_site placed)))" and f: "\<And>t. f t\<lparr>tg_groups := []\<rparr> = t\<lparr>tg_groups := []\<rparr>" by blast
  have keep: "tg_entity_id (f t) = tg_entity_id t" "tg_jump (f t) = tg_jump t" for t
    using arg_cong [OF f, of tg_entity_id t] arg_cong [OF f, of tg_jump t] by simp_all
  have gs: "rt_groups r = map (\<lambda>G. G\<lparr>sg_targets := map f (sg_targets G)\<rparr>) (by_site placed)"
    by (simp add: r ts put_back_map)
  have ids_kept: "map tg_entity_id (concat (map sg_targets (rt_groups r))) = map tg_entity_id (concat (map sg_targets (by_site placed)))"
    by (simp add: gs map_concat comp_def keep)
  have all_once: "mset (map tg_entity_id (concat (map sg_targets (rt_groups r)))) = mset (map en_id (scoped i members))"
    using mset_ids unfolding ids_kept es .
  have "map sg_site (rt_groups r) = sort (remdups (map fst placed))"
    by (simp add: gs comp_def by_site_sites)
  then have sites_sorted: "sorted_wrt (<) (map sg_site (rt_groups r))" by (simp add: strict_sorted_iff)
  have site_read: "facet_values_by_entities g ''mgmt.site'' (map en_id (scoped i members)) = Some locs"
    using sites by (simp add: facet_read_def es split: option.splits)
  have placed_right: "list_all (\<lambda>G. sg_targets G \<noteq> [] \<and> check_site g (sg_site G) = None \<and>
      (\<exists>locs. facet_values_by_entities g ''mgmt.site'' (map en_id (scoped i members)) = Some locs \<and>
        list_all (\<lambda>t. site_of W locs (tg_entity_id t) = sg_site G \<and> resolve_jump_chain W g (tg_entity_id t) = Inr (tg_jump t))
          (sg_targets G))) (rt_groups r)"
    unfolding gs list_all_iff
  proof (intro ballI)
    fix H assume "H \<in> set (map (\<lambda>G. G\<lparr>sg_targets := map f (sg_targets G)\<rparr>) (by_site placed))"
    then obtain G where G: "G \<in> set (by_site placed)" and H: "H = G\<lparr>sg_targets := map f (sg_targets G)\<rparr>" by auto
    have "site_of W locs (tg_entity_id t) = sg_site G \<and> resolve_jump_chain W g (tg_entity_id t) = Inr (tg_jump t)"
      if "t \<in> set (sg_targets G)" for t
    proof -
      have "(sg_site G, t) \<in> set placed" using by_site_group [OF G] that by blast
      with map_err_source [OF placed] obtain e where "place W g locs addrs transports e = Inr (sg_site G, t)" by blast
      from place_fields [OF this] show ?thesis by metis
    qed
    then have all: "\<forall>t \<in> set (sg_targets H). site_of W locs (tg_entity_id t) = sg_site H \<and>
        resolve_jump_chain W g (tg_entity_id t) = Inr (tg_jump t)"
      by (simp add: H keep)
    have "sg_targets H \<noteq> []" "check_site g (sg_site H) = None"
      using by_site_group [OF G] served G by (simp_all add: H)
    with all site_read show "sg_targets H \<noteq> [] \<and> check_site g (sg_site H) = None \<and>
      (\<exists>locs. facet_values_by_entities g ''mgmt.site'' (map en_id (scoped i members)) = Some locs \<and>
        (\<forall>t \<in> set (sg_targets H). site_of W locs (tg_entity_id t) = sg_site H \<and>
           resolve_jump_chain W g (tg_entity_id t) = Inr (tg_jump t)))"
      by blast
  qed
  from all_once sites_sorted placed_right show ?thesis by (intro conjI)
qed

text \<open>
  The read reports which Entities lost a scalar value for being qualified, and its comment says that return is not
  optional; the resolver uses the wrapper that drops it.  An Entity whose Site is projected under a qualifier runs at
  the local site, and nothing says so.
\<close>

lemma qualified_site_is_dropped:
  "let rows = [\<lparr>fw_key = FacetKey ''mgmt.site'' ''app'', fw_value = ''S2'', fw_authority = False\<rparr>];
       g = \<lparr>gr_view = (\<lambda>_ _. None), gr_rows = (\<lambda>_ _. Some (\<lambda>_. rows)), gr_relation_targets = (\<lambda>_ _. None),
         gr_entity = (\<lambda>_. None), gr_site_cell = (\<lambda>_. None), gr_cell = ''eu''\<rparr>
   in suppressed_qualifiers rows ''mgmt.site'' = Some [''app''] \<and>
      map_option (\<lambda>locs. site_of W locs ''h'') (facet_values_by_entities g ''mgmt.site'' [''h'']) = Some LocalSite"
  by (simp add: Let_def suppressed_qualifiers_def scalar_value_def facet_values_by_entities_def resolve_candidates_def
      candidates_def site_of_def List.map_filter_def)

section \<open>A small estate\<close>

definition estate_docs :: "(string \<times> json) list" where
  "estate_docs = [(''A1'', JObj [(''address'', JStr ''10.0.0.1''), (''port'', JInt 22)]),
     (''A2'', JObj [(''Address'', JStr ''10.0.0.2'')]), (''A9'', JObj [(''address'', JStr ''192.0.2.9'')]),
     (''S2'', JObj [(''site'', JStr ''edge'')])]"

definition estate_wire :: wire where
  "estate_wire = \<lparr>unmarshal = (\<lambda>_. None), marshal = (\<lambda>_. Inl []), fmt_float = (\<lambda>_. []), parse_doc = map_of estate_docs\<rparr>"

definition estate_rows :: "string \<Rightarrow> facet_row list" where
  "estate_rows i =
     (if i = ''h1'' then [\<lparr>fw_key = FacetKey ''mgmt.address'' [], fw_value = ''A1'', fw_authority = False\<rparr>]
      else if i = ''h2'' then [\<lparr>fw_key = FacetKey ''mgmt.address'' [], fw_value = ''A2'', fw_authority = False\<rparr>,
          \<lparr>fw_key = FacetKey ''mgmt.site'' [], fw_value = ''S2'', fw_authority = False\<rparr>]
      else if i = ''bastion'' then [\<lparr>fw_key = FacetKey ''mgmt.address'' [], fw_value = ''A9'', fw_authority = False\<rparr>]
      else [])"

definition host :: "string \<Rightarrow> string \<Rightarrow> entity" where
  "host i name = \<lparr>en_id = i, en_kind = ''vm'', en_labels = [(''aws.name'', name)]\<rparr>"

definition estate_hosts :: "entity list" where
  "estate_hosts = [host ''h2'' ''web-2'', host ''h1'' ''web-1'']"

definition estate :: graph_reads where
  "estate = \<lparr>gr_view = (\<lambda>_ _. Some (3, estate_hosts)), gr_rows = (\<lambda>_ _. Some estate_rows),
     gr_relation_targets = (\<lambda>i _. Some (if i = ''h1'' then [''bastion''] else [])),
     gr_entity = (\<lambda>i. if i = ''bastion'' then Some (host ''bastion'' ''jump'') else None),
     gr_site_cell = (\<lambda>s. if s = ''edge'' then Some ''eu'' else None), gr_cell = ''eu''\<rparr>"

definition view_run_on :: "string \<Rightarrow> view_run" where
  "view_run_on scope = \<lparr>ri_view_name = ''web'', ri_actuator = ''ansible'', ri_action = [], ri_action_capability = [],
     ri_dry_run = False, ri_params = [], ri_capability_args = [], ri_slices = 1, ri_credential_refs = [],
     ri_principal = ''alice'', ri_workflow_run_id = [], ri_step_name = [], ri_plan = False, ri_plan_from = [],
     ri_plan_digest = [], ri_facet_write_scope = [], ri_entity_scope = scope, ri_image = [], ri_group_by = [],
     ai_run_id = ''run-1'', ai_stay_local = False, vr_view_params = [], vr_trigger = [], vr_baseline = []\<rparr>"

definition estate_routed :: routed_targets where
  "estate_routed = \<lparr>rt_view_version = 3,
     rt_groups = [
       \<lparr>sg_site = ''edge'', sg_targets = [\<lparr>tg_entity_id = ''h2'', tg_name = ''web-2'', tg_address = ''10.0.0.2'', tg_port = 0,
          tg_transport = None, tg_jump = [], tg_groups = []\<rparr>]\<rparr>,
       \<lparr>sg_site = ''local'', sg_targets = [\<lparr>tg_entity_id = ''h1'', tg_name = ''web-1'', tg_address = ''10.0.0.1'', tg_port = 22,
          tg_transport = None, tg_jump = [\<lparr>hp_name = ''jump'', hp_address = ''192.0.2.9'', hp_port = 0\<rparr>], tg_groups = []\<rparr>]\<rparr>],
     rt_group_collisions = []\<rparr>"

lemma estate_resolved: "resolve_targets_by_site estate_wire estate (view_run_on []) = Inr estate_routed"
  by code_simp

lemma routed_targets_partition_witness:
  "mset (map tg_entity_id (concat (map sg_targets (rt_groups estate_routed)))) = {#''h1'', ''h2''#}"
proof -
  have "gr_view estate (ri_view_name (view_run_on [])) (vr_view_params (view_run_on [])) = Some (3, estate_hosts)"
    by (simp add: estate_def)
  moreover have "distinct (map en_id estate_hosts)" by code_simp
  moreover have "mset (map en_id (scoped (view_run_on []) estate_hosts)) = {#''h1'', ''h2''#}"
    by (simp add: scoped_def view_run_on_def estate_hosts_def host_def add_mset_commute)
  ultimately show ?thesis
    using routed_targets_partition [OF _ _ estate_resolved] by metis
qed

end
