(* ===== verification/RunView.thy ===== *)
theory RunView
  imports Targets
begin

text \<open>
  One Run against a View, \<open>RunAgainstView\<close> of \<open>core/internal/orchestrate/orchestrate.go\<close> with the activities it
  calls: the execution grant, the credential pointers, the routing of a slice to its transport, the fan-out over Sites
  and slices, the fold of the slice results, the projection of the gathered facts, the terminal record and the cleanup
  of a cancelled Run.  What another process answers (the authorizer, a slice's execution, the store's writes) is a
  parameter; \<open>None\<close> is an error after the last retry.
\<close>

section \<open>Grant and credentials\<close>

type_synonym authz = "string \<Rightarrow> string \<Rightarrow> string \<Rightarrow> bool option" \<comment> \<open>principal, relation, object\<close>

record grant_audit =
  ar_principal :: string
  ar_action :: string
  ar_object :: string
  ar_outcome :: string

record credential_injection =
  ci_key :: string
  ci_as :: string
  ci_name :: string

record credential_ref =
  ref_backend :: string
  ref_locator :: string
  ref_injection :: "credential_injection list"

datatype mount_source = SecretSource string string \<comment> \<open>namespace, name\<close> | VaultSource string string bool \<comment> \<open>mount, path, kvV2\<close>

record credential_mount =
  cm_ref_name :: string
  cm_source :: mount_source
  cm_injection :: "credential_injection list"

datatype run_error = ExecutionDenied | AuthzFailed | CredentialUseDenied string | CredentialRefNotFound string
  | InvalidLocator string | BackendUnimplemented string string | Unresolved target_error
  | MarkFailed | SliceFailed | ProjectionFailed | RecordFailed | TargetsFailed nat nat | Cancelled | NotEnsured

definition check_execution_grant :: "authz \<Rightarrow> view_run \<Rightarrow> run_error option \<times> grant_audit list" where
  "check_execution_grant az i =
     (let row = \<lambda>who outcome. \<lparr>ar_principal = who, ar_action = ''authz.exec-grant'', ar_object = ''view:'' @ ri_view_name i, ar_outcome = outcome\<rparr>
      in if ri_principal i = [] then (Some ExecutionDenied, [row [] ''denied''])
         else case az (ri_principal i) ''runner'' (''view:'' @ ri_view_name i) of
             None \<Rightarrow> (Some AuthzFailed, [])
           | Some False \<Rightarrow> (Some ExecutionDenied, [row (ri_principal i) ''denied''])
           | Some True \<Rightarrow> (None, [row (ri_principal i) ''ok'']))"

definition read_bool :: "string \<Rightarrow> jmap \<Rightarrow> bool \<times> bool" where
  "read_bool fld m = fold (\<lambda>(k, v) (ok, x). if map lower_char k = map lower_char fld
     then (case v of JBool b \<Rightarrow> (ok, b) | JNull \<Rightarrow> (ok, x) | _ \<Rightarrow> (False, x)) else (ok, x)) m (True, False)"

definition mount_of :: "wire \<Rightarrow> string \<Rightarrow> credential_ref \<Rightarrow> run_error + credential_mount" where
  "mount_of W name cred =
     (let doc = (case parse_doc W (ref_locator cred) of Some (JObj m) \<Rightarrow> Some m | Some JNull \<Rightarrow> Some [] | _ \<Rightarrow> None)
      in if ref_backend cred = ''k8s-secret'' then
           (case doc of
              None \<Rightarrow> Inl (InvalidLocator name)
            | Some m \<Rightarrow> (case (read_string ''namespace'' m, read_string ''name'' m) of ((ok1, ns), (ok2, nm)) \<Rightarrow>
                if \<not> ok1 \<or> \<not> ok2 \<or> nm = [] then Inl (InvalidLocator name)
                else Inr \<lparr>cm_ref_name = name, cm_source = SecretSource ns nm, cm_injection = ref_injection cred\<rparr>))
         else if ref_backend cred = ''vault'' then
           (case doc of
              None \<Rightarrow> Inl (InvalidLocator name)
            | Some m \<Rightarrow> (case (read_string ''mount'' m, read_string ''path'' m, read_bool ''kvV2'' m) of ((ok1, mnt), (ok2, pth), (ok3, v2)) \<Rightarrow>
                if \<not> ok1 \<or> \<not> ok2 \<or> \<not> ok3 \<or> mnt = [] \<or> pth = [] then Inl (InvalidLocator name)
                else Inr \<lparr>cm_ref_name = name, cm_source = VaultSource mnt pth v2, cm_injection = ref_injection cred\<rparr>))
         else Inl (BackendUnimplemented name (ref_backend cred)))"

text \<open>The loop over the refs: the mounts so far and the audit rows written.\<close>

fun credentials_loop :: "authz \<Rightarrow> wire \<Rightarrow> (string \<Rightarrow> credential_ref option) \<Rightarrow> string \<Rightarrow> string list \<Rightarrow>
    (run_error + credential_mount list) \<times> grant_audit list" where
  "credentials_loop az W store who [] = (Inr [], [])"
| "credentials_loop az W store who (name # names) =
     (let row = \<lambda>outcome. \<lparr>ar_principal = who, ar_action = ''credential.use'', ar_object = ''credential_ref:'' @ name, ar_outcome = outcome\<rparr>
      in case az who ''user'' (''credential_ref:'' @ name) of
          None \<Rightarrow> (Inl AuthzFailed, [])
        | Some False \<Rightarrow> (Inl (CredentialUseDenied name), [row ''denied''])
        | Some True \<Rightarrow> (case store name of
              None \<Rightarrow> (Inl (CredentialRefNotFound name), [row ''ok''])
            | Some cred \<Rightarrow> (case mount_of W name cred of
                  Inl e \<Rightarrow> (Inl e, [row ''ok''])
                | Inr mnt \<Rightarrow> (case credentials_loop az W store who names of
                      (Inl e, rows) \<Rightarrow> (Inl e, row ''ok'' # rows)
                    | (Inr mnts, rows) \<Rightarrow> (Inr (mnt # mnts), row ''ok'' # rows)))))"

definition resolve_credentials :: "authz \<Rightarrow> wire \<Rightarrow> (string \<Rightarrow> credential_ref option) \<Rightarrow> view_run \<Rightarrow>
    (run_error + credential_mount list) \<times> grant_audit list" where
  "resolve_credentials az W store i =
     (if ri_credential_refs i = [] then (Inr [], [])
      else if ri_principal i = [] then (Inl (CredentialUseDenied []), [])
      else credentials_loop az W store (ri_principal i) (ri_credential_refs i))"

section \<open>Where a slice executes\<close>

record job_spec =
  js_image :: string
  js_env :: "string gomap"

record plugin_actuator =
  pa_grant_facets :: "string list"
  pa_mcp :: bool
  pa_job_command :: "string list"

record execution_registry =
  er_plugins :: "string \<Rightarrow> plugin_actuator option"
  er_prepare :: "string \<Rightarrow> (string \<Rightarrow> target list \<Rightarrow> job_spec option) option"
  er_has_site_gateway :: bool

datatype route_error = ActuatorRequired | FacetWriteScopeUngranted string | UnknownActuator | DryRunUnsupported
  | InvalidStepParams | NotRemoteSafe | NoSiteGateway

datatype execution_route = PluginMCP | PluginJob string | PluginPort string | HubPod job_spec | SitePod string job_spec

definition job_transport :: "plugin_actuator \<Rightarrow> bool" where
  "job_transport p \<longleftrightarrow> length (pa_job_command p) > 0"

text \<open>The first namespace of the scope outside the grant, the empty string when there is none.\<close>

definition first_outside_grant :: "string list \<Rightarrow> string list \<Rightarrow> string" where
  "first_outside_grant scope grant = (case find (\<lambda>ns. ns \<notin> set grant) scope of None \<Rightarrow> [] | Some ns \<Rightarrow> ns)"

definition remote_safe :: "job_spec \<Rightarrow> bool" where
  "remote_safe s \<longleftrightarrow> js_env s = []"

definition execute_route :: "execution_registry \<Rightarrow> view_run \<Rightarrow> string \<Rightarrow> target list \<Rightarrow> route_error + execution_route" where
  "execute_route er i site ts =
     (if ri_actuator i = [] then Inl ActuatorRequired
      else case er_plugins er (ri_actuator i) of
        Some p \<Rightarrow>
          (if first_outside_grant (ri_facet_write_scope i) (pa_grant_facets p) \<noteq> []
           then Inl (FacetWriteScopeUngranted (first_outside_grant (ri_facet_write_scope i) (pa_grant_facets p)))
           else if pa_mcp p then Inr PluginMCP
           else if job_transport p then Inr (PluginJob site)
           else Inr (PluginPort site))
      | None \<Rightarrow> (case er_prepare er (ri_actuator i) of
            None \<Rightarrow> Inl UnknownActuator
          | Some prep \<Rightarrow>
              if ri_dry_run i then Inl DryRunUnsupported
              else case prep (ri_params i) ts of
                None \<Rightarrow> Inl InvalidStepParams
              | Some spec \<Rightarrow>
                  if site = [] \<or> site = LocalSite then Inr (HubPod spec)
                  else if \<not> remote_safe spec then Inl NotRemoteSafe
                  else if \<not> er_has_site_gateway er then Inl NoSiteGateway
                  else Inr (SitePod site spec)))"

lemma first_outside_grant_Nil: "first_outside_grant scope grant = [] \<Longrightarrow> [] \<notin> set scope \<Longrightarrow> set scope \<subseteq> set grant"
  by (auto simp: first_outside_grant_def find_Some_iff find_None_iff split: option.splits) (metis nth_mem)

text \<open>
  Where a slice may execute: a route always belongs to a named Actuator; a plugin's write scope lies in its grant unless
  the scope holds an empty namespace; a pod never executes a dry run; and a specification that leaves for a Site carries
  no plain environment.
\<close>

theorem route_is_governed:
  assumes "execute_route er i site ts = Inr rt"
  shows "ri_actuator i \<noteq> [] \<and>
    (case er_plugins er (ri_actuator i) of
       Some p \<Rightarrow> ([] \<in> set (ri_facet_write_scope i) \<or> set (ri_facet_write_scope i) \<subseteq> set (pa_grant_facets p)) \<and>
         rt = (if pa_mcp p then PluginMCP else if job_transport p then PluginJob site else PluginPort site)
     | None \<Rightarrow> \<not> ri_dry_run i \<and>
         (case rt of HubPod spec \<Rightarrow> site = [] \<or> site = LocalSite
          | SitePod s spec \<Rightarrow> s = site \<and> site \<noteq> LocalSite \<and> js_env spec = [] \<and> er_has_site_gateway er
          | _ \<Rightarrow> False))"
proof (cases "er_plugins er (ri_actuator i)")
  case None
  with assms show ?thesis
    by (auto simp: execute_route_def remote_safe_def split: if_splits option.splits)
next
  case (Some p)
  with assms have "first_outside_grant (ri_facet_write_scope i) (pa_grant_facets p) = []"
    by (auto simp: execute_route_def split: if_splits)
  with first_outside_grant_Nil have "[] \<in> set (ri_facet_write_scope i) \<or> set (ri_facet_write_scope i) \<subseteq> set (pa_grant_facets p)"
    by blast
  with Some assms show ?thesis by (auto simp: execute_route_def split: if_splits)
qed

section \<open>Slices\<close>

fun chunks :: "nat \<Rightarrow> nat \<Rightarrow> nat \<Rightarrow> nat \<Rightarrow> 'a list \<Rightarrow> 'a list list" where
  "chunks base extra i 0 ts = []"
| "chunks base extra i (Suc k) ts =
     (let size = (if i < extra then base + 1 else base) in take size ts # chunks base extra (Suc i) k (drop size ts))"

definition split_targets :: "'a list \<Rightarrow> int \<Rightarrow> 'a list list" where
  "split_targets ts n =
     (let n1 = (if n < 1 then 1 else n); n2 = (if n1 > int (length ts) then int (length ts) else n1)
      in if n2 \<le> 1 then [ts]
         else chunks (length ts div nat n2) (length ts mod nat n2) 0 (nat n2) ts)"

record slice =
  sl_index :: nat
  sl_site :: string
  sl_targets :: "target list"

text \<open>The index is global over the Sites of the Run.\<close>

definition slices_of :: "routed_targets \<Rightarrow> int \<Rightarrow> slice list" where
  "slices_of r n = map (\<lambda>(i, s, ts). \<lparr>sl_index = i, sl_site = s, sl_targets = ts\<rparr>)
     (enumerate 0 (concat (map (\<lambda>G. map (Pair (sg_site G)) (split_targets (sg_targets G) n)) (rt_groups r))))"

section \<open>Results\<close>

record entity_observation =
  eo_kind :: string
  eo_identity_keys :: "string gomap"
  eo_labels :: "string gomap"
  eo_relations :: "(string \<times> string \<times> string) list" \<comment> \<open>type, scheme, value\<close>
  eo_facets :: "string gomap"

record run_result =
  rr_succeeded :: bool
  rr_error :: string
  rr_per_target :: "string gomap"
  rr_site_by_target :: "string gomap"
  rr_facts :: "string gomap gomap"
  rr_entities :: "entity_observation list"
  rr_outputs_contract :: string
  rr_outputs :: string
  rr_drift :: "string list gomap"
  rr_spawn_ms :: int

definition no_result :: run_result where
  "no_result = \<lparr>rr_succeeded = False, rr_error = [], rr_per_target = [], rr_site_by_target = [], rr_facts = [],
     rr_entities = [], rr_outputs_contract = [], rr_outputs = [], rr_drift = [], rr_spawn_ms = 0\<rparr>"

definition merge_slice :: "run_result \<Rightarrow> run_result \<Rightarrow> run_result" where
  "merge_slice r acc =
     \<lparr>rr_succeeded = (rr_succeeded acc \<and> rr_succeeded r),
      rr_error = (if rr_error acc = [] \<and> rr_error r \<noteq> [] then rr_error r else rr_error acc),
      rr_per_target = over (rr_per_target r) (rr_per_target acc),
      rr_site_by_target = over (rr_site_by_target r) (rr_site_by_target acc),
      rr_facts = over (rr_facts r) (rr_facts acc),
      rr_entities = rr_entities acc @ rr_entities r,
      rr_outputs_contract = (if length (rr_outputs_contract r) > 0 then rr_outputs_contract r else rr_outputs_contract acc),
      rr_outputs = (if has_outputs (rr_outputs r) then rr_outputs r else rr_outputs acc),
      rr_drift = over (rr_drift r) (rr_drift acc),
      rr_spawn_ms = (if rr_spawn_ms r > rr_spawn_ms acc then rr_spawn_ms r else rr_spawn_ms acc)\<rparr>"

definition merge_results :: "run_result list \<Rightarrow> run_result" where
  "merge_results rs = fold merge_slice rs (no_result\<lparr>rr_succeeded := True\<rparr>)"

definition failed_targets :: "string gomap \<Rightarrow> nat" where
  "failed_targets per_target = length (filter (\<lambda>(_, st). st = ''failed'' \<or> st = ''unreachable'') per_target)"

definition sites_touched :: "run_result \<Rightarrow> string list" where
  "sites_touched r = sort (remdups (map snd (rr_site_by_target r)))"

section \<open>Facts back to the graph\<close>

record fact_set =
  fs_entity_facts :: "string gomap gomap"
  fs_entities :: "entity_observation list"
  fs_outputs_contract :: string
  fs_outputs_contract_name :: string
  fs_workspace :: string

text \<open>The map \<open>byName\<close>: a later target of the same name replaces an earlier one.\<close>

definition by_name :: "target list \<Rightarrow> string gomap" where
  "by_name ts = fold (\<lambda>t. aput (tg_name t) (tg_entity_id t)) ts []"

definition collect_facts :: "wire \<Rightarrow> view_run \<Rightarrow> target list \<Rightarrow> run_result \<Rightarrow> fact_set" where
  "collect_facts W i ts r =
     (let facts = fold (\<lambda>(host, facets) m. case map_of (by_name ts) host of None \<Rightarrow> m | Some ident \<Rightarrow> aput ident facets m) (rr_facts r) [];
          contract = (if length (rr_outputs_contract r) > 0 then rr_outputs_contract r else []);
          workspace = (if contract = [] then []
            else case parse_doc W (ri_params i) of Some (JObj m) \<Rightarrow> snd (read_string ''workspace'' m) | _ \<Rightarrow> [])
      in \<lparr>fs_entity_facts = facts, fs_entities = rr_entities r, fs_outputs_contract = contract,
          fs_outputs_contract_name = (if workspace = [] then [] else ''opentofu/'' @ workspace @ ''.outputs''),
          fs_workspace = workspace\<rparr>)"

definition singular_placement :: "string \<Rightarrow> bool" where
  "singular_placement rel \<longleftrightarrow> rel = ''placed-in'' \<or> rel = ''in-vlan'' \<or> rel = ''in-dmz'' \<or> rel = ''in-az''"

datatype projection =
    UpsertFacet string string string \<comment> \<open>entity, namespace, value\<close>
  | UpsertEntity string "string gomap" "string gomap" \<comment> \<open>kind, identity keys, labels\<close>
  | RetractRunRelationsFrom string string string \<comment> \<open>type, from, the target kept\<close>
  | UpsertRelation string string string
  | RegisterDerivedContract string string

text \<open>
  The writes of \<open>ProjectFacts\<close> in order: \<open>observed\<close> is the id an upsert of an observation answers and \<open>identity\<close> the
  Entity an identity names, if any.  A write that fails ends the activity there.
\<close>

definition relation_writes :: "(string \<Rightarrow> string \<Rightarrow> string option) \<Rightarrow> string \<Rightarrow> string \<times> string \<times> string \<Rightarrow> projection list" where
  "relation_writes identity from rel = (case rel of (typ, scheme, val) \<Rightarrow>
     case identity scheme val of
       None \<Rightarrow> []
     | Some to \<Rightarrow> (if singular_placement typ then [RetractRunRelationsFrom typ from to] else []) @ [UpsertRelation typ from to])"

definition observation_writes :: "(entity_observation \<Rightarrow> string) \<Rightarrow> (string \<Rightarrow> string \<Rightarrow> string option) \<Rightarrow> string \<Rightarrow> entity_observation \<Rightarrow> projection list" where
  "observation_writes observed identity workspace eo =
     [UpsertEntity (eo_kind eo) (eo_identity_keys eo)
        (if workspace = [] then eo_labels eo else aput ''stratt.workspace'' workspace (eo_labels eo))]
     @ map (\<lambda>(ns, v). UpsertFacet (observed eo) ns v) (eo_facets eo)
     @ concat (map (relation_writes identity (observed eo)) (eo_relations eo))"

definition project_facts :: "(entity_observation \<Rightarrow> string) \<Rightarrow> (string \<Rightarrow> string \<Rightarrow> string option) \<Rightarrow> fact_set \<Rightarrow> projection list" where
  "project_facts observed identity fs =
     concat (map (\<lambda>(ident, facets). map (\<lambda>(ns, v). UpsertFacet ident ns v) facets) (fs_entity_facts fs))
     @ concat (map (observation_writes observed identity (fs_workspace fs)) (fs_entities fs))
     @ (if length (fs_outputs_contract fs) > 0 \<and> fs_outputs_contract_name fs \<noteq> []
        then [RegisterDerivedContract (fs_outputs_contract_name fs) (fs_outputs_contract fs)] else [])"

section \<open>The terminal record\<close>

datatype finish_write =
    WriteStatus string string jmap
  | WriteSites string "string list"
  | WriteOutputs string string
  | SendNotice string string jmap
  | SendStreamEnd string

definition run_notice_kind :: "string \<Rightarrow> string" where
  "run_notice_kind s = (if s = RunFailed then ''run.failed'' else if s = RunCanceled then ''run.canceled'' else [])"

definition status_count :: "run_result \<Rightarrow> string \<Rightarrow> int" where
  "status_count r st = int (length (filter (\<lambda>(_, s). s = st) (rr_per_target r)))"

definition opt_field :: "string \<Rightarrow> string \<Rightarrow> jmap" where
  "opt_field k v = (if v = [] then [] else [(k, JStr v)])"

definition run_summary :: "view_run \<Rightarrow> run_result \<Rightarrow> jmap" where
  "run_summary i r =
     (if ri_action i = [] then [(''actuator'', JStr (ri_actuator i))] else [])
     @ [(''slices'', JInt (if ri_slices i < 1 then 1 else ri_slices i)), (''targets'', JInt (int (length (rr_per_target r)))),
        (''ok'', JInt (status_count r ''ok'')), (''changed'', JInt (status_count r ''changed'')),
        (''failed'', JInt (status_count r ''failed'')), (''unreachable'', JInt (status_count r ''unreachable'')),
        (''spawnLatencyMs'', JInt (rr_spawn_ms r))]
     @ (if ri_action i = [] then []
        else (''action'', JStr (ri_action i)) # opt_field ''actionCapability'' (ri_action_capability i)
          @ (if ri_dry_run i then [(''dryRun'', JBool True)] else []))
     @ opt_field ''principal'' (ri_principal i) @ opt_field ''trigger'' (vr_trigger i) @ opt_field ''baseline'' (vr_baseline i)
     @ (if rr_drift r = [] then [] else [(''drift'', JObj (map (\<lambda>(t, fs). (t, JArr (map JStr fs))) (rr_drift r)))])
     @ (if ri_workflow_run_id i = [] then []
        else [(''workflowRun'', JStr (ri_workflow_run_id i)), (''step'', JStr (ri_step_name i))])
     @ (if ri_credential_refs i = [] then [] else [(''credentialRefs'', JArr (map JStr (ri_credential_refs i)))])
     @ (if sites_touched r = [] then [] else [(''sites'', JArr (map JStr (sites_touched r)))])
     @ opt_field ''error'' (rr_error r)"

definition notice_payload :: "view_run \<Rightarrow> string \<Rightarrow> run_result \<Rightarrow> jmap" where
  "notice_payload i status r =
     [(''status'', JStr status), (''actuator'', JStr (ri_actuator i)), (''view'', JStr (ri_view_name i)),
      (''failed'', JInt (status_count r ''failed'' + status_count r ''unreachable'')),
      (''targets'', JInt (int (length (rr_per_target r))))]
     @ opt_field ''trigger'' (vr_trigger i) @ opt_field ''baseline'' (vr_baseline i) @ opt_field ''principal'' (ri_principal i)
     @ (if ri_workflow_run_id i = [] then []
        else [(''workflowRun'', JStr (ri_workflow_run_id i)), (''step'', JStr (ri_step_name i))])"

text \<open>The calls of \<open>FinishRun\<close>; an attempt that fails stops at the call that failed.\<close>

definition finish_run :: "view_run \<Rightarrow> string \<Rightarrow> run_result \<Rightarrow> finish_write list" where
  "finish_run i status r =
     [WriteStatus (ai_run_id i) status (run_summary i r)]
     @ (if sites_touched r = [] then [] else [WriteSites (ai_run_id i) (sites_touched r)])
     @ (if has_outputs (rr_outputs r) then [WriteOutputs (ai_run_id i) (rr_outputs r)] else [])
     @ (if run_notice_kind status = [] then [] else [SendNotice (run_notice_kind status) (ai_run_id i) (notice_payload i status r)])
     @ [SendStreamEnd (ai_run_id i)]"

section \<open>Cleanup\<close>

datatype cleanup_call = DeleteRunJobs | CancelAtSite string

text \<open>The calls one attempt makes and whether it succeeded; the answer of each call is an argument.\<close>

fun cancel_sites :: "(cleanup_call \<Rightarrow> bool) \<Rightarrow> string list \<Rightarrow> cleanup_call list \<times> bool" where
  "cancel_sites ans [] = ([], True)"
| "cancel_sites ans (s # ss) =
     (if s = [] \<or> s = LocalSite then cancel_sites ans ss
      else if \<not> ans (CancelAtSite s) then ([CancelAtSite s], False)
      else case cancel_sites ans ss of (cs, ok) \<Rightarrow> (CancelAtSite s # cs, ok))"

definition cleanup_run :: "(cleanup_call \<Rightarrow> bool) \<Rightarrow> bool \<Rightarrow> string list \<Rightarrow> cleanup_call list \<times> bool" where
  "cleanup_run ans has_gateway sites =
     (if \<not> ans DeleteRunJobs then ([DeleteRunJobs], False)
      else if \<not> has_gateway then ([DeleteRunJobs], True)
      else case cancel_sites ans sites of (cs, ok) \<Rightarrow> (DeleteRunJobs # cs, ok))"

section \<open>The Workflow\<close>

datatype stage = AtEnsure | AtGrant | AtResolve | AtMark | AtCredentials | AtExecute | AtCollect | AtProject | AtFinish

datatype finish_answer = FinishLost | FinishPartial | FinishDone \<comment> \<open>nothing written, status written and a later call failed, all written\<close>

record run_world =
  rw_ensure :: "string option"
  rw_authz :: authz
  rw_wire :: wire
  rw_graph :: graph_reads
  rw_mark :: bool
  rw_credential :: "string \<Rightarrow> credential_ref option"
  rw_execute :: "slice \<Rightarrow> credential_mount list \<Rightarrow> run_result option"
  rw_project :: "fact_set \<Rightarrow> bool"
  rw_finish :: "string \<Rightarrow> run_result \<Rightarrow> finish_answer"
  rw_cleanup :: "string option" \<comment> \<open>the error\<close>
  rw_cancel :: "stage option"
  rw_cause :: "run_error \<Rightarrow> string"

datatype run_event =
    Dispatched slice "credential_mount list"
  | Projected fact_set
  | Recorded string run_result
  | CleanedUp "string list"

record view_outcome =
  vo_error :: "run_error option"
  vo_run_id :: string
  vo_result :: run_result
  vo_entity_by_target :: "string gomap"
  vo_events :: "run_event list"

text \<open>
  \<open>finishRun\<close> and the deferred handler: when the Run was cancelled the activity of the error path fails at once, the
  Jobs are reaped on the Sites routed so far and the Run is stamped canceled, with the cleanup error if there was one.
\<close>

definition cancelled_result :: "run_world \<Rightarrow> run_result" where
  "cancelled_result w = (case rw_cleanup w of
       None \<Rightarrow> no_result
     | Some msg \<Rightarrow> no_result\<lparr>rr_error :=
         ''cancelled, but the execution Job could NOT be deleted and may still be running against real targets: '' @ msg\<rparr>)"

definition recorded :: "run_world \<Rightarrow> string \<Rightarrow> run_result \<Rightarrow> run_event list" where
  "recorded w status r = (if rw_finish w status r = FinishLost then [] else [Recorded status r])"

definition reap :: "run_world \<Rightarrow> string \<Rightarrow> string list \<Rightarrow> run_event list" where
  "reap w run touched = (if run = [] then [] else CleanedUp touched # recorded w RunCanceled (cancelled_result w))"

definition stop :: "run_world \<Rightarrow> string \<Rightarrow> string list \<Rightarrow> run_event list \<Rightarrow> stage \<Rightarrow> run_error \<Rightarrow> view_outcome" where
  "stop w run touched evs stg e =
     (if rw_cancel w = Some stg
      then \<lparr>vo_error = Some Cancelled, vo_run_id = run, vo_result = no_result, vo_entity_by_target = [], vo_events = evs @ reap w run touched\<rparr>
      else \<lparr>vo_error = Some e, vo_run_id = run, vo_result = no_result, vo_entity_by_target = [],
        vo_events = evs @ recorded w RunFailed (no_result\<lparr>rr_error := rw_cause w e\<rparr>)\<rparr>)"

text \<open>The answer of an activity: an error where the Run is cancelled.\<close>

definition answer :: "run_world \<Rightarrow> stage \<Rightarrow> run_error + 'a \<Rightarrow> run_error + 'a" where
  "answer w stg x = (if rw_cancel w = Some stg then Inl Cancelled else x)"

definition finish_view :: "run_world \<Rightarrow> view_run \<Rightarrow> routed_targets \<Rightarrow> run_event list \<Rightarrow> run_result \<Rightarrow> view_outcome" where
  "finish_view w i routed evs merged =
     (let status = (if rr_succeeded merged then RunSucceeded else RunFailed);
          cancelled = (rw_cancel w = Some AtFinish);
          err = (if cancelled then Some Cancelled
                 else if rw_finish w status merged \<noteq> FinishDone then Some RecordFailed
                 else if status = RunFailed then Some (TargetsFailed (failed_targets (rr_per_target merged)) (length (rr_per_target merged)))
                 else None)
      in \<lparr>vo_error = err, vo_run_id = ai_run_id i, vo_result = merged,
          vo_entity_by_target = by_name (concat (map sg_targets (rt_groups routed))),
          vo_events = evs @ recorded w status merged @ (if cancelled then reap w (ai_run_id i) (map sg_site (rt_groups routed)) else [])\<rparr>)"

definition after_dispatch :: "run_world \<Rightarrow> view_run \<Rightarrow> routed_targets \<Rightarrow> credential_mount list \<Rightarrow> view_outcome" where
  "after_dispatch w i routed creds =
     (let touched = map sg_site (rt_groups routed);
          slices = slices_of routed (ri_slices i);
          evs = map (\<lambda>s. Dispatched s creds) slices;
          run = ai_run_id i
      in case answer w AtExecute (map_err (\<lambda>s. case rw_execute w s creds of None \<Rightarrow> Inl SliceFailed | Some r \<Rightarrow> Inr r) slices) of
          Inl e \<Rightarrow> stop w run touched evs AtExecute e
        | Inr results \<Rightarrow>
            let merged = merge_results results;
                facts = collect_facts (rw_wire w) i (concat (map sg_targets (rt_groups routed))) merged
            in if rw_cancel w = Some AtCollect then stop w run touched evs AtCollect Cancelled
               else if rw_cancel w = Some AtProject \<or> \<not> rw_project w facts
               then stop w run touched (evs @ [Projected facts]) AtProject ProjectionFailed
               else finish_view w i routed (evs @ [Projected facts]) merged)"

text \<open>The activities before the fan-out; a failure carries the Sites routed so far, the stage and the error.\<close>

definition before_dispatch :: "run_world \<Rightarrow> view_run \<Rightarrow> (string list \<times> stage \<times> run_error) + (routed_targets \<times> credential_mount list)" where
  "before_dispatch w i =
     (case answer w AtGrant (case fst (check_execution_grant (rw_authz w) i) of Some e \<Rightarrow> Inl e | None \<Rightarrow> Inr ()) of
        Inl e \<Rightarrow> Inl ([], AtGrant, e)
      | Inr _ \<Rightarrow> (case answer w AtResolve (case resolve_targets_by_site (rw_wire w) (rw_graph w) i of Inl e \<Rightarrow> Inl (Unresolved e) | Inr r \<Rightarrow> Inr r) of
          Inl e \<Rightarrow> Inl ([], AtResolve, e)
        | Inr routed \<Rightarrow>
            (case answer w AtMark (if rw_mark w then Inr () else Inl MarkFailed) of
              Inl e \<Rightarrow> Inl (map sg_site (rt_groups routed), AtMark, e)
            | Inr _ \<Rightarrow> (case answer w AtCredentials (fst (resolve_credentials (rw_authz w) (rw_wire w) (rw_credential w) i)) of
                Inl e \<Rightarrow> Inl (map sg_site (rt_groups routed), AtCredentials, e)
              | Inr creds \<Rightarrow> Inr (routed, creds)))))"

definition run_against :: "run_world \<Rightarrow> view_run \<Rightarrow> view_outcome" where
  "run_against w input =
     (case (if ai_run_id input \<noteq> [] then Inr (ai_run_id input)
            else answer w AtEnsure (case rw_ensure w of None \<Rightarrow> Inl NotEnsured | Some r \<Rightarrow> Inr r)) of
        Inl e \<Rightarrow> \<lparr>vo_error = Some e, vo_run_id = [], vo_result = no_result, vo_entity_by_target = [], vo_events = []\<rparr>
      | Inr run \<Rightarrow>
          (case before_dispatch w (input\<lparr>ai_run_id := run\<rparr>) of
            Inl (touched, stg, e) \<Rightarrow> stop w run touched [] stg e
          | Inr (routed, creds) \<Rightarrow> after_dispatch w (input\<lparr>ai_run_id := run\<rparr>) routed creds))"

section \<open>Splitting\<close>

lemma chunks_concat: "length ts = k * base + (if i < extra then min k (extra - i) else 0) \<Longrightarrow> concat (chunks base extra i k ts) = ts"
proof (induction k arbitrary: i ts)
  case (Suc k)
  let ?size = "if i < extra then base + 1 else base"
  have "length (drop ?size ts) = k * base + (if Suc i < extra then min k (extra - Suc i) else 0)"
    using Suc.prems by (auto simp: min_def)
  from Suc.IH [OF this] show ?case by (simp add: Let_def)
qed (auto split: if_splits)

lemma chunks_length [simp]: "length (chunks base extra i k ts) = k"
  by (induction base extra i k ts rule: chunks.induct) (auto simp: Let_def)

lemma chunks_sizes: "length ts = k * base + (if i < extra then min k (extra - i) else 0) \<Longrightarrow>
    c \<in> set (chunks base extra i k ts) \<Longrightarrow> length c = base \<or> length c = base + 1"
proof (induction k arbitrary: i ts)
  case (Suc k)
  let ?size = "if i < extra then base + 1 else base"
  have rest: "length (drop ?size ts) = k * base + (if Suc i < extra then min k (extra - Suc i) else 0)"
    using Suc.prems(1) by (auto simp: min_def)
  have "?size \<le> length ts" using Suc.prems(1) by auto
  then have "length (take ?size ts) = ?size" by simp
  with Suc.prems(2) Suc.IH [OF rest] show ?case by (auto simp: Let_def split: if_splits)
qed simp

text \<open>
  Slicing a Site's targets: the slices are the targets in order, their number is the declared one clamped to one and
  the number of targets, none is empty and no two differ by more than one target.
\<close>

lemma split_facts:
  "concat (split_targets ts n) = ts \<and> int (length (split_targets ts n)) = max 1 (min n (int (length ts))) \<and>
    (ts = [] \<or> list_all (\<lambda>c. c \<noteq> []) (split_targets ts n)) \<and>
    list_all (\<lambda>c. list_all (\<lambda>d. length c \<le> length d + 1) (split_targets ts n)) (split_targets ts n)"
proof (cases "min n (int (length ts)) \<le> 1")
  case True
  then have "split_targets ts n = [ts]" by (auto simp: split_targets_def Let_def min_def split: if_splits)
  with True show ?thesis by simp
next
  case False
  define k where "k = nat (min n (int (length ts)))"
  have k: "2 \<le> k" "k \<le> length ts" using False by (auto simp: k_def)
  have s: "split_targets ts n = chunks (length ts div k) (length ts mod k) 0 k ts"
    using False by (auto simp: split_targets_def Let_def min_def k_def split: if_splits)
  have len: "length ts = k * (length ts div k) + (if 0 < length ts mod k then min k (length ts mod k - 0) else 0)"
    using k by (auto simp: min_def) (metis mod_less_divisor mult_div_mod_eq not_less order_less_le_trans zero_less_numeral less_imp_le)
  have pos: "0 < length ts div k" using k by (simp add: div_greater_zero_iff)
  have sizes: "c \<in> set (split_targets ts n) \<Longrightarrow> length c = length ts div k \<or> length c = length ts div k + 1" for c
    using chunks_sizes [OF len] by (simp add: s)
  have "concat (split_targets ts n) = ts" using chunks_concat [OF len] by (simp add: s)
  moreover have "int (length (split_targets ts n)) = max 1 (min n (int (length ts)))"
    using False by (simp add: s) (simp add: k_def max_def min_def split: if_splits)
  moreover have "list_all (\<lambda>c. c \<noteq> []) (split_targets ts n)"
    unfolding list_all_iff
  proof
    fix c assume "c \<in> set (split_targets ts n)"
    from sizes [OF this] pos show "c \<noteq> []" by auto
  qed
  moreover have "list_all (\<lambda>c. list_all (\<lambda>d. length c \<le> length d + 1) (split_targets ts n)) (split_targets ts n)"
    unfolding list_all_iff
  proof (intro ballI)
    fix c d assume "c \<in> set (split_targets ts n)" "d \<in> set (split_targets ts n)"
    from sizes [OF this(1)] sizes [OF this(2)] show "length c \<le> length d + 1" by linarith
  qed
  ultimately show ?thesis by blast
qed

section \<open>What is dispatched\<close>

definition dispatched :: "run_event list \<Rightarrow> slice list" where
  "dispatched evs = List.map_filter (\<lambda>e. case e of Dispatched s creds \<Rightarrow> Some s | _ \<Rightarrow> None) evs"

lemma dispatched_append [simp]: "dispatched (es @ fs) = dispatched es @ dispatched fs"
  by (simp add: dispatched_def map_filter_def)

lemma dispatched_simps [simp]:
  "dispatched [] = []" "dispatched (Dispatched s creds # es) = s # dispatched es" "dispatched (Projected f # es) = dispatched es"
  "dispatched (Recorded st r # es) = dispatched es" "dispatched (CleanedUp ts # es) = dispatched es"
  by (simp_all add: dispatched_def map_filter_simps)

lemma dispatched_recorded [simp]: "dispatched (recorded w st r) = []" "dispatched (reap w run touched) = []"
  by (simp_all add: recorded_def reap_def)

lemma dispatched_map [simp]: "dispatched (map (\<lambda>s. Dispatched s creds) ss) = ss"
  by (induction ss) auto

lemma stop_dispatched [simp]: "dispatched (vo_events (stop w run touched evs stg e)) = dispatched evs"
  by (simp add: stop_def)

lemma finish_view_dispatched [simp]: "dispatched (vo_events (finish_view w i routed evs merged)) = dispatched evs"
  by (simp add: finish_view_def Let_def)

lemma after_dispatch_dispatched: "dispatched (vo_events (after_dispatch w i routed creds)) = slices_of routed (ri_slices i)"
  by (simp add: after_dispatch_def Let_def split: sum.split)

text \<open>A Run that got as far as its slices passed every check before them.\<close>

definition cleared :: "run_world \<Rightarrow> view_run \<Rightarrow> view_run \<Rightarrow> routed_targets \<Rightarrow> credential_mount list \<Rightarrow> bool" where
  "cleared w input i routed creds \<longleftrightarrow>
     (\<exists>run. i = input\<lparr>ai_run_id := run\<rparr> \<and> (ai_run_id input \<noteq> [] \<and> run = ai_run_id input \<or> ai_run_id input = [] \<and> rw_ensure w = Some run)) \<and>
     fst (check_execution_grant (rw_authz w) i) = None \<and>
     resolve_targets_by_site (rw_wire w) (rw_graph w) i = Inr routed \<and> rw_mark w \<and>
     fst (resolve_credentials (rw_authz w) (rw_wire w) (rw_credential w) i) = Inr creds"

lemma before_dispatch_Inr:
  "before_dispatch w i = Inr (routed, creds) \<Longrightarrow>
     fst (check_execution_grant (rw_authz w) i) = None \<and> resolve_targets_by_site (rw_wire w) (rw_graph w) i = Inr routed \<and>
     rw_mark w \<and> fst (resolve_credentials (rw_authz w) (rw_wire w) (rw_credential w) i) = Inr creds"
  by (auto simp: before_dispatch_def answer_def split: if_splits sum.splits option.splits)

lemma run_against_cases:
  obtains (unstarted) e where "run_against w input = \<lparr>vo_error = Some e, vo_run_id = [], vo_result = no_result, vo_entity_by_target = [], vo_events = []\<rparr>"
  | (stopped) run touched stg e where "run_against w input = stop w run touched [] stg e"
      "before_dispatch w (input\<lparr>ai_run_id := run\<rparr>) = Inl (touched, stg, e)"
  | (ran) i routed creds where "cleared w input i routed creds" "run_against w input = after_dispatch w i routed creds"
proof -
  define start :: "run_error + string" where
    "start = (if ai_run_id input \<noteq> [] then Inr (ai_run_id input)
       else answer w AtEnsure (case rw_ensure w of None \<Rightarrow> Inl NotEnsured | Some r \<Rightarrow> Inr r))"
  show thesis
  proof (cases start)
    case (Inl e)
    then show thesis using unstarted by (simp add: run_against_def start_def)
  next
    case (Inr run)
    let ?i = "input\<lparr>ai_run_id := run\<rparr>"
    have run: "run_against w input = (case before_dispatch w ?i of
        Inl (touched, stg, e) \<Rightarrow> stop w run touched [] stg e | Inr (routed, creds) \<Rightarrow> after_dispatch w ?i routed creds)"
      using Inr by (simp add: run_against_def start_def)
    show thesis
    proof (cases "before_dispatch w ?i")
      case (Inl x)
      then show thesis using run stopped by (cases x) auto
    next
      case (Inr x)
      then obtain routed creds where x: "before_dispatch w ?i = Inr (routed, creds)" by (cases x) auto
      have "cleared w input ?i routed creds"
        using before_dispatch_Inr [OF x] \<open>start = Inr run\<close>
        by (auto simp: cleared_def start_def answer_def split: if_splits option.splits intro!: exI [of _ run])
      then show thesis using run ran x by simp
    qed
  qed
qed

lemma resolved_sites_served:
  assumes "resolve_targets_by_site W g i = Inr r" "G \<in> set (rt_groups r)"
  shows "check_site g (sg_site G) = None"
proof -
  obtain version members where v: "gr_view g (ri_view_name i) (vr_view_params i) = Some (version, members)"
    using assms(1) by (cases "gr_view g (ri_view_name i) (vr_view_params i)") (auto simp: resolve_targets_by_site_def)
  show ?thesis
  proof (cases "members = []")
    case True
    with assms v show ?thesis by (auto simp: resolve_targets_by_site_def split: if_splits)
  next
    case False
    from resolve_targets_by_site_Inr [OF v False assms(1)] obtain placed ts cs where
      served: "first_err (check_site g) (map sg_site (by_site placed)) = None" and
      r: "r = \<lparr>rt_view_version = version, rt_groups = put_back (by_site placed) ts, rt_group_collisions = cs\<rparr>" by metis
    have "map sg_site (put_back Gs ts) = map sg_site Gs" for Gs ts
      by (induction Gs ts rule: put_back.induct) auto
    then have "set (map sg_site (rt_groups r)) = set (map sg_site (by_site placed))" by (simp only: r routed_targets.select_convs)
    moreover have "sg_site G \<in> set (map sg_site (rt_groups r))" using assms(2) by simp
    ultimately show ?thesis using served unfolding first_err_None by blast
  qed
qed

lemma ran_or_nothing:
  assumes "dispatched (vo_events (run_against w input)) \<noteq> []"
  obtains i routed creds where "cleared w input i routed creds" "run_against w input = after_dispatch w i routed creds"
  using assms by (cases rule: run_against_cases [of w input]) auto

lemma credentials_loop_granted:
  "credentials_loop az W store who names = (Inr mnts, rows) \<Longrightarrow>
     list_all (\<lambda>n. az who ''user'' (''credential_ref:'' @ n) = Some True) names \<and> map cm_ref_name mnts = names"
proof (induction names arbitrary: mnts rows)
  case (Cons n names)
  then show ?case
    by (auto simp: Let_def mount_of_def split: option.splits bool.splits sum.splits prod.splits if_splits)
qed simp

text \<open>
  C13. Nothing executes unauthorized: when a Run dispatched any slice, its Principal is known, holds \<open>runner\<close> on the View
  and \<open>use\<close> on every credential it names, and the slice goes to the local Site or to one that is served by this Cell.
\<close>

theorem dispatch_is_authorized:
  assumes "s \<in> set (dispatched (vo_events (run_against w input)))"
  shows "ri_principal input \<noteq> [] \<and> rw_authz w (ri_principal input) ''runner'' (''view:'' @ ri_view_name input) = Some True \<and>
    list_all (\<lambda>n. rw_authz w (ri_principal input) ''user'' (''credential_ref:'' @ n) = Some True) (ri_credential_refs input) \<and>
    check_site (rw_graph w) (sl_site s) = None"
proof -
  from assms have "dispatched (vo_events (run_against w input)) \<noteq> []" by auto
  then obtain i routed creds where c: "cleared w input i routed creds" and r: "run_against w input = after_dispatch w i routed creds"
    by (rule ran_or_nothing)
  have grant: "ri_principal input \<noteq> [] \<and> rw_authz w (ri_principal input) ''runner'' (''view:'' @ ri_view_name input) = Some True"
    using c by (auto simp: cleared_def check_execution_grant_def Let_def split: if_splits option.splits bool.splits)
  have creds: "list_all (\<lambda>n. rw_authz w (ri_principal input) ''user'' (''credential_ref:'' @ n) = Some True) (ri_credential_refs input)"
    using c credentials_loop_granted [of "rw_authz w" "rw_wire w" "rw_credential w" "ri_principal input" "ri_credential_refs input"]
    by (cases "credentials_loop (rw_authz w) (rw_wire w) (rw_credential w) (ri_principal input) (ri_credential_refs input)")
      (auto simp: cleared_def resolve_credentials_def split: if_splits)
  have "s \<in> set (slices_of routed (ri_slices i))" using assms by (simp add: r after_dispatch_dispatched)
  then obtain G where G: "G \<in> set (rt_groups routed)" "sl_site s = sg_site G"
    by (auto simp: slices_of_def in_set_enumerate_eq dest!: nth_mem)
  have "resolve_targets_by_site (rw_wire w) (rw_graph w) i = Inr routed" using c by (simp add: cleared_def)
  from resolved_sites_served [OF this G(1)] G(2) grant creds show ?thesis by simp
qed

lemma split_targets_keeps: "concat (split_targets ts n) = ts" "ts \<noteq> [] \<Longrightarrow> c \<in> set (split_targets ts n) \<Longrightarrow> c \<noteq> []"
  using split_facts [of ts n] by (auto simp: list_all_iff)

definition site_slices :: "routed_targets \<Rightarrow> int \<Rightarrow> (string \<times> target list) list" where
  "site_slices r n = concat (map (\<lambda>G. map (Pair (sg_site G)) (split_targets (sg_targets G) n)) (rt_groups r))"

lemma slices_of_alt: "slices_of r n = map (\<lambda>(i, s, ts). \<lparr>sl_index = i, sl_site = s, sl_targets = ts\<rparr>) (enumerate 0 (site_slices r n))"
  by (simp add: slices_of_def site_slices_def)

lemma slices_of_index: "map sl_index (slices_of r n) = [0..<length (slices_of r n)]"
proof -
  have "map sl_index (slices_of r n) = map fst (enumerate 0 (site_slices r n))"
    by (simp add: slices_of_alt comp_def case_prod_beta)
  then show ?thesis by (simp add: slices_of_alt map_fst_enumerate)
qed

lemma concat_of_concat: "concat (concat (map f gs)) = concat (map (\<lambda>g. concat (f g)) gs)"
  by (induction gs) auto

lemma slices_of_targets: "concat (map sl_targets (slices_of r n)) = concat (map sg_targets (rt_groups r))"
proof -
  have "map sl_targets (slices_of r n) = map (\<lambda>x. snd (snd x)) (enumerate 0 (site_slices r n))"
    by (simp add: slices_of_alt comp_def case_prod_beta)
  also have "\<dots> = map snd (map snd (enumerate 0 (site_slices r n)))" by (simp only: map_map comp_def)
  also have "\<dots> = map snd (site_slices r n)" by (simp only: map_snd_enumerate)
  finally have "concat (map sl_targets (slices_of r n)) = concat (map (\<lambda>G. concat (split_targets (sg_targets G) n)) (rt_groups r))"
    by (simp add: site_slices_def map_concat comp_def concat_of_concat)
  then show ?thesis by (simp add: split_targets_keeps)
qed

lemma slices_of_group: "s \<in> set (slices_of r n) \<Longrightarrow>
    \<exists>G \<in> set (rt_groups r). sl_site s = sg_site G \<and> sl_targets s \<in> set (split_targets (sg_targets G) n)"
proof -
  assume "s \<in> set (slices_of r n)"
  then obtain i where "(i, sl_site s, sl_targets s) \<in> set (enumerate 0 (site_slices r n))"
    by (auto simp: slices_of_alt)
  then have "(sl_site s, sl_targets s) \<in> set (site_slices r n)"
    by (metis image_eqI list.set_map map_snd_enumerate snd_conv)
  then show ?thesis by (auto simp: site_slices_def)
qed

text \<open>
  C12. Every member is dispatched exactly once: when a Run over a View dispatches at all, the targets of all its slices
  together are the View's members (or the one it is narrowed to), each once; the slice numbers are consecutive over
  all Sites, so no two slices share a Job or an event id; no slice is empty, and each target runs at the Site its own
  mgmt.site names, over its own declared bastions.
\<close>

theorem each_member_dispatched_once:
  assumes "gr_view (rw_graph w) (ri_view_name input) (vr_view_params input) = Some (version, members)"
    and "distinct (map en_id members)"
    and "dispatched (vo_events (run_against w input)) = ss" and "ss \<noteq> []"
  shows "mset (map tg_entity_id (concat (map sl_targets ss))) = mset (map en_id (scoped input members)) \<and>
    map sl_index ss = [0..<length ss] \<and>
    list_all (\<lambda>s. sl_targets s \<noteq> [] \<and>
      (\<exists>locs. facet_values_by_entities (rw_graph w) ''mgmt.site'' (map en_id (scoped input members)) = Some locs \<and>
        list_all (\<lambda>t. site_of (rw_wire w) locs (tg_entity_id t) = sl_site s \<and>
          resolve_jump_chain (rw_wire w) (rw_graph w) (tg_entity_id t) = Inr (tg_jump t)) (sl_targets s))) ss"
proof -
  from assms(3,4) have "dispatched (vo_events (run_against w input)) \<noteq> []" by simp
  then obtain i routed creds where c: "cleared w input i routed creds" and r: "run_against w input = after_dispatch w i routed creds"
    by (rule ran_or_nothing)
  have ss: "ss = slices_of routed (ri_slices i)" using assms(3) by (simp add: r after_dispatch_dispatched)
  have i: "ri_view_name i = ri_view_name input" "vr_view_params i = vr_view_params input" "scoped i members = scoped input members"
    using c by (auto simp: cleared_def scoped_def)
  have "resolve_targets_by_site (rw_wire w) (rw_graph w) i = Inr routed" using c by (simp add: cleared_def)
  note parts = routed_targets_partition [OF assms(1,2) [folded i] this]
  have "mset (map tg_entity_id (concat (map sl_targets ss))) = mset (map en_id (scoped input members))"
    using parts i(3) unfolding ss slices_of_targets by metis
  moreover have "map sl_index ss = [0..<length ss]" unfolding ss by (rule slices_of_index)
  moreover have "list_all (\<lambda>s. sl_targets s \<noteq> [] \<and>
      (\<exists>locs. facet_values_by_entities (rw_graph w) ''mgmt.site'' (map en_id (scoped input members)) = Some locs \<and>
        list_all (\<lambda>t. site_of (rw_wire w) locs (tg_entity_id t) = sl_site s \<and>
          resolve_jump_chain (rw_wire w) (rw_graph w) (tg_entity_id t) = Inr (tg_jump t)) (sl_targets s))) ss"
    unfolding list_all_iff [of _ ss]
  proof
    fix s assume "s \<in> set ss"
    from slices_of_group [OF this [unfolded ss]] obtain G where G: "G \<in> set (rt_groups routed)" "sl_site s = sg_site G"
        "sl_targets s \<in> set (split_targets (sg_targets G) (ri_slices i))" by blast
    have sub: "set (sl_targets s) \<subseteq> set (sg_targets G)"
      using G(3) split_targets_keeps(1) [of "sg_targets G" "ri_slices i"] by (metis UN_upper set_concat)
    from parts G(1) obtain locs where l: "sg_targets G \<noteq> []"
        "facet_values_by_entities (rw_graph w) ''mgmt.site'' (map en_id (scoped i members)) = Some locs"
        "list_all (\<lambda>t. site_of (rw_wire w) locs (tg_entity_id t) = sg_site G \<and>
          resolve_jump_chain (rw_wire w) (rw_graph w) (tg_entity_id t) = Inr (tg_jump t)) (sg_targets G)"
      unfolding list_all_iff [of _ "rt_groups routed"] by blast
    have "list_all (\<lambda>t. site_of (rw_wire w) locs (tg_entity_id t) = sl_site s \<and>
          resolve_jump_chain (rw_wire w) (rw_graph w) (tg_entity_id t) = Inr (tg_jump t)) (sl_targets s)"
      using l(3) sub unfolding G(2) list_all_iff by blast
    moreover have "sl_targets s \<noteq> []" by (rule split_targets_keeps(2) [OF l(1) G(3)])
    moreover have "facet_values_by_entities (rw_graph w) ''mgmt.site'' (map en_id (scoped input members)) = Some locs"
      using l(2) by (simp only: i(3))
    ultimately show "sl_targets s \<noteq> [] \<and>
      (\<exists>locs. facet_values_by_entities (rw_graph w) ''mgmt.site'' (map en_id (scoped input members)) = Some locs \<and>
        list_all (\<lambda>t. site_of (rw_wire w) locs (tg_entity_id t) = sl_site s \<and>
          resolve_jump_chain (rw_wire w) (rw_graph w) (tg_entity_id t) = Inr (tg_jump t)) (sl_targets s))"
      by blast
  qed
  ultimately show ?thesis by (intro conjI)
qed

section \<open>What is recorded\<close>

lemma fold_merge_succeeded: "rr_succeeded (fold merge_slice rs acc) \<longleftrightarrow> rr_succeeded acc \<and> list_all rr_succeeded rs"
  by (induction rs arbitrary: acc) (auto simp: merge_slice_def)

lemma merge_succeeded: "rr_succeeded (merge_results rs) \<longleftrightarrow> list_all rr_succeeded rs"
  by (simp add: merge_results_def fold_merge_succeeded)

lemma statuses_distinct [simp]: "RunFailed \<noteq> RunSucceeded" "RunCanceled \<noteq> RunSucceeded" "RunSucceeded \<noteq> RunFailed" "RunSucceeded \<noteq> RunCanceled"
  by (simp_all add: run_status_defs)

lemma Recorded_in: "Recorded st r \<in> set (recorded w st' r') \<Longrightarrow> st = st' \<and> r = r'"
  by (auto simp: recorded_def split: if_splits)

lemma reap_not_succeeded: "Recorded RunSucceeded r \<notin> set (reap w run touched)"
  by (auto simp: reap_def dest: Recorded_in)

lemma stop_not_succeeded: "Recorded RunSucceeded r \<notin> set evs \<Longrightarrow> Recorded RunSucceeded r \<notin> set (vo_events (stop w run touched evs stg e))"
  by (auto simp: stop_def reap_not_succeeded dest: Recorded_in)

lemma executed_slices:
  "map_err (\<lambda>s. case rw_execute w s creds of None \<Rightarrow> Inl SliceFailed | Some r \<Rightarrow> Inr r) ss = Inr rs \<Longrightarrow>
     list_all2 (\<lambda>s r. rw_execute w s creds = Some r) ss rs"
  unfolding map_err_Inr by (erule list_all2_mono) (auto split: option.splits)

lemma finish_view_succeeded: "Recorded RunSucceeded r \<notin> set evs \<Longrightarrow> Recorded RunSucceeded r \<in> set (vo_events (finish_view w i routed evs merged)) \<Longrightarrow>
    rr_succeeded merged \<and> r = merged"
  by (auto simp: finish_view_def Let_def reap_not_succeeded split: if_splits dest: Recorded_in)

lemma after_dispatch_succeeded:
  assumes "Recorded RunSucceeded r \<in> set (vo_events (after_dispatch w i routed creds))"
  shows "\<exists>results. list_all2 (\<lambda>s r. rw_execute w s creds = Some r) (slices_of routed (ri_slices i)) results \<and>
    list_all rr_succeeded results \<and> r = merge_results results"
proof -
  let ?ss = "slices_of routed (ri_slices i)"
  let ?evs = "map (\<lambda>s. Dispatched s creds) ?ss"
  let ?run = "map_err (\<lambda>s. case rw_execute w s creds of None \<Rightarrow> Inl SliceFailed | Some r \<Rightarrow> Inr r) ?ss"
  have none: "Recorded RunSucceeded r \<notin> set ?evs" "Recorded RunSucceeded r \<notin> set (?evs @ [Projected f])" for f by auto
  obtain results where run: "answer w AtExecute ?run = Inr results"
    using assms none stop_not_succeeded [OF none(1)] by (auto simp: after_dispatch_def Let_def split: sum.splits)
  then have exec: "list_all2 (\<lambda>s r. rw_execute w s creds = Some r) ?ss results"
    by (intro executed_slices) (auto simp: answer_def split: if_splits)
  obtain f where "Recorded RunSucceeded r \<in> set (vo_events (finish_view w i routed (?evs @ [Projected f]) (merge_results results)))"
    using assms run stop_not_succeeded [OF none(1)] stop_not_succeeded [OF none(2)]
    by (auto simp: after_dispatch_def Let_def split: if_splits)
  from finish_view_succeeded [OF none(2) this] exec show ?thesis by (auto simp: merge_succeeded)
qed

lemma after_dispatch_ok:
  assumes "vo_error (after_dispatch w i routed creds) = None"
  shows "\<exists>r. last (vo_events (after_dispatch w i routed creds)) = Recorded RunSucceeded r"
proof -
  have stop: "vo_error (stop w run touched evs stg e) \<noteq> None" for run touched evs stg e by (simp add: stop_def)
  from assms obtain evs merged where "after_dispatch w i routed creds = finish_view w i routed evs merged"
    by (auto simp: after_dispatch_def Let_def stop split: sum.splits if_splits)
  then show ?thesis using assms
    by (auto simp: finish_view_def Let_def recorded_def split: if_splits)
qed

lemma after_dispatch_nonempty: "vo_error (after_dispatch w i routed creds) = None \<Longrightarrow> vo_events (after_dispatch w i routed creds) \<noteq> []"
  by (auto simp: after_dispatch_def finish_view_def stop_def Let_def split: sum.splits if_splits)

text \<open>
  C14. A green Run is green everywhere: whenever a Run is recorded as succeeded, every slice it dispatched was executed and
  reported success, and what is recorded is the fold of exactly those results; a Run that returns without an error has
  that record as its last.
\<close>

theorem succeeded_run_succeeded_everywhere:
  assumes "vo_error (run_against w input) = None \<or> Recorded RunSucceeded r \<in> set (vo_events (run_against w input))"
  shows "\<exists>r creds results. Recorded RunSucceeded r \<in> set (vo_events (run_against w input)) \<and>
    (vo_error (run_against w input) = None \<longrightarrow> last (vo_events (run_against w input)) = Recorded RunSucceeded r) \<and>
    list_all2 (\<lambda>s r. rw_execute w s creds = Some r) (dispatched (vo_events (run_against w input))) results \<and>
    list_all rr_succeeded results \<and> r = merge_results results"
proof (cases rule: run_against_cases [of w input])
  case (ran i routed creds)
  let ?o = "after_dispatch w i routed creds"
  obtain r where r: "Recorded RunSucceeded r \<in> set (vo_events ?o)"
    "vo_error ?o = None \<longrightarrow> last (vo_events ?o) = Recorded RunSucceeded r"
  proof (cases "vo_error ?o = None")
    case True
    from after_dispatch_ok [OF True] obtain r where "last (vo_events ?o) = Recorded RunSucceeded r" by blast
    moreover from this have "Recorded RunSucceeded r \<in> set (vo_events ?o)"
      using True by (metis last_in_set after_dispatch_nonempty)
    ultimately show ?thesis using that by blast
  next
    case False
    with assms ran(2) that show ?thesis by auto
  qed
  from after_dispatch_succeeded [OF r(1)] obtain results where "list_all2 (\<lambda>s r. rw_execute w s creds = Some r) (slices_of routed (ri_slices i)) results"
    "list_all rr_succeeded results" "r = merge_results results" by blast
  with r show ?thesis
    unfolding ran(2) after_dispatch_dispatched by (intro exI [of _ r] exI [of _ creds] exI [of _ results]) blast
qed (use assms stop_not_succeeded [of r "[]" w] in \<open>auto simp: stop_def\<close>)

section \<open>Cancellation\<close>

lemma credentials_not_cancelled: "fst (resolve_credentials az W store i) \<noteq> Inl Cancelled"
proof -
  have "mount_of W n cred \<noteq> Inl Cancelled" for n cred
    by (auto simp: mount_of_def Let_def split: if_splits option.splits json.splits prod.splits)
  then have "fst (credentials_loop az W store who names) \<noteq> Inl Cancelled" for who names
    by (induction names) (auto simp: Let_def split: option.splits bool.splits sum.splits prod.splits)
  then show ?thesis by (simp add: resolve_credentials_def)
qed

lemma before_dispatch_cancelled:
  assumes "before_dispatch w i = Inl (touched, stg, Cancelled)"
  shows "rw_cancel w = Some stg"
proof -
  have "fst (check_execution_grant az i) \<noteq> Some Cancelled" for az
    by (auto simp: check_execution_grant_def Let_def split: option.splits bool.splits)
  with assms credentials_not_cancelled show ?thesis
    by (auto simp: before_dispatch_def answer_def split: if_splits sum.splits option.splits)
qed

lemma stop_reaps:
  assumes "rw_cancel w = Some stg" "run \<noteq> []"
  shows "CleanedUp touched \<in> set (vo_events (stop w run touched evs stg e)) \<and>
    (rw_finish w RunCanceled (cancelled_result w) \<noteq> FinishLost \<longrightarrow>
      last (vo_events (stop w run touched evs stg e)) = Recorded RunCanceled (cancelled_result w))"
  using assms by (simp add: stop_def reap_def recorded_def)

lemma slices_of_sites: "s \<in> set (slices_of routed n) \<Longrightarrow> sl_site s \<in> set (map sg_site (rt_groups routed))"
  using slices_of_group by fastforce

lemma after_dispatch_cancelled:
  assumes "vo_error (after_dispatch w i routed creds) = Some Cancelled" "ai_run_id i \<noteq> []"
  shows "CleanedUp (map sg_site (rt_groups routed)) \<in> set (vo_events (after_dispatch w i routed creds)) \<and>
    (rw_finish w RunCanceled (cancelled_result w) \<noteq> FinishLost \<longrightarrow>
      last (vo_events (after_dispatch w i routed creds)) = Recorded RunCanceled (cancelled_result w))"
proof -
  let ?ss = "slices_of routed (ri_slices i)"
  let ?run = "map_err (\<lambda>s. case rw_execute w s creds of None \<Rightarrow> Inl SliceFailed | Some r \<Rightarrow> Inr r) ?ss"
  have sliced: "?run \<noteq> Inl Cancelled"
  proof -
    have "map_err (\<lambda>s. case rw_execute w s creds of None \<Rightarrow> Inl SliceFailed | Some r \<Rightarrow> Inr r) ss \<noteq> Inl Cancelled" for ss
      by (induction ss) (auto split: option.splits sum.splits)
    then show ?thesis .
  qed
  show ?thesis
  proof (cases "answer w AtExecute ?run")
    case (Inl e)
    then have o': "after_dispatch w i routed creds = stop w (ai_run_id i) (map sg_site (rt_groups routed))
        (map (\<lambda>s. Dispatched s creds) ?ss) AtExecute e"
      by (simp add: after_dispatch_def Let_def)
    with assms(1) Inl sliced have "rw_cancel w = Some AtExecute"
      by (auto simp: stop_def answer_def split: if_splits)
    from stop_reaps [OF this assms(2)] show ?thesis unfolding o' by blast
  next
    case (Inr results)
    consider "rw_cancel w = Some AtCollect" | "rw_cancel w = Some AtProject" | "rw_cancel w = Some AtFinish"
      using assms(1) Inr by (auto simp: after_dispatch_def finish_view_def stop_def Let_def split: if_splits)
    then show ?thesis
    proof cases
      case 3
      with assms Inr show ?thesis
        by (auto simp: after_dispatch_def Let_def finish_view_def stop_def reap_def recorded_def split: if_splits)
    qed (use Inr stop_reaps [OF _ assms(2)] in \<open>auto simp: after_dispatch_def Let_def\<close>)
  qed
qed

text \<open>
  A cancelled Run is reaped where it ran: when a Run that has a record ends because it was cancelled, the cleanup is
  called with Sites that include the one of every slice it dispatched, and the last record is canceled, carrying the
  error of the cleanup when it failed.
\<close>

theorem cancel_reaps_every_site:
  assumes "vo_error (run_against w input) = Some Cancelled" and "vo_run_id (run_against w input) \<noteq> []"
  shows "\<exists>sites. CleanedUp sites \<in> set (vo_events (run_against w input)) \<and>
    sl_site ` set (dispatched (vo_events (run_against w input))) \<subseteq> set sites \<and>
    (rw_finish w RunCanceled (cancelled_result w) \<noteq> FinishLost \<longrightarrow>
      last (vo_events (run_against w input)) = Recorded RunCanceled (cancelled_result w))"
proof (cases rule: run_against_cases [of w input])
  case (stopped run touched stg e)
  have run: "run \<noteq> []" using assms(2) stopped(1) by (auto simp: stop_def split: if_splits)
  have "rw_cancel w = Some stg"
  proof (cases "rw_cancel w = Some stg")
    case False
    then have "e = Cancelled" using assms(1) stopped(1) by (simp add: stop_def)
    with before_dispatch_cancelled stopped(2) show ?thesis by simp
  qed
  from stop_reaps [OF this run] show ?thesis unfolding stopped(1) by auto
next
  case (ran i routed creds)
  have "ai_run_id i \<noteq> []"
    using assms(2) ran(2) by (auto simp: after_dispatch_def stop_def finish_view_def Let_def split: sum.splits if_splits)
  from after_dispatch_cancelled [OF _ this] assms(1) ran(2) slices_of_sites show ?thesis
    unfolding ran(2) after_dispatch_dispatched by (intro exI [of _ "map sg_site (rt_groups routed)"]) auto
qed (use assms in simp)

section \<open>What the code does not do\<close>

text \<open>
  A cancel whose deletion of the hub's Jobs fails returns before it reaches the Sites: the agents of the Sites the Run
  touched are never told.
\<close>

lemma hub_failure_spares_sites:
  "\<not> ans DeleteRunJobs \<Longrightarrow> cleanup_run ans has_gateway sites = ([DeleteRunJobs], False)"
  by (simp add: cleanup_run_def)

text \<open>
  Results are keyed by the target's name, and two Entities may carry one name (the same label of two Sources).  The facts
  gathered on the first are then written to the second, and the count of failed targets loses one.
\<close>

lemma namesake_facts_misattributed:
  "let one = bare_target ''h1''\<lparr>tg_name := ''web''\<rparr>; two = bare_target ''h2''\<lparr>tg_name := ''web''\<rparr>;
       merged = merge_results [
         no_result\<lparr>rr_per_target := [(''web'', ''failed'')], rr_facts := [(''web'', [(''os'', ''facts of h1'')])]\<rparr>,
         no_result\<lparr>rr_succeeded := True, rr_per_target := [(''web'', ''ok'')]\<rparr>]
   in fs_entity_facts (collect_facts W i [one, two] merged) = [(''h2'', [(''os'', ''facts of h1'')])] \<and>
      \<not> rr_succeeded merged \<and> failed_targets (rr_per_target merged) = 0"
  by (simp add: Let_def merge_results_def merge_slice_def no_result_def over_def collect_facts_def by_name_def bare_target_def
      failed_targets_def)

text \<open>An empty namespace in the write scope is the answer that means there is none, and hides the entries after it.\<close>

lemma empty_namespace_masks_scope: "first_outside_grant [[], ''mgmt.address''] [] = []"
  by (simp add: first_outside_grant_def)

section \<open>A small Run\<close>

definition demo_world :: "stage option \<Rightarrow> run_world" where
  "demo_world c = \<lparr>rw_ensure = None, rw_authz = (\<lambda>_ _ _. Some True), rw_wire = estate_wire, rw_graph = estate, rw_mark = True,
     rw_credential = (\<lambda>_. None), rw_execute = (\<lambda>s _. Some (no_result\<lparr>rr_succeeded := True,
       rr_per_target := map (\<lambda>t. (tg_name t, ''ok'')) (sl_targets s)\<rparr>)), rw_project = (\<lambda>_. True),
     rw_finish = (\<lambda>_ _. FinishDone), rw_cleanup = Some ''forbidden'', rw_cancel = c, rw_cause = (\<lambda>_. ''failed'')\<rparr>"

definition demo_slices :: "slice list" where
  "demo_slices = slices_of estate_routed 1"

lemma route_is_governed_witness:
  "\<exists>rt. execute_route \<lparr>er_plugins = (\<lambda>_. None), er_prepare = (\<lambda>_. Some (\<lambda>_ _. Some \<lparr>js_image = [], js_env = []\<rparr>)), er_has_site_gateway = True\<rparr>
      (view_run_on []) ''edge'' [] = Inr rt \<and> \<not> ri_dry_run (view_run_on [])"
proof -
  let ?er = "\<lparr>er_plugins = (\<lambda>_. None), er_prepare = (\<lambda>_. Some (\<lambda>_ _. Some \<lparr>js_image = [], js_env = []\<rparr>)), er_has_site_gateway = True\<rparr>"
  have r: "execute_route ?er (view_run_on []) ''edge'' [] = Inr (SitePod ''edge'' \<lparr>js_image = [], js_env = []\<rparr>)"
    by (simp add: execute_route_def view_run_on_def LocalSite_def remote_safe_def)
  from route_is_governed [OF r] r show ?thesis by auto
qed

lemma demo_run: "dispatched (vo_events (run_against (demo_world c) (view_run_on []))) = demo_slices" if "c \<in> {None, Some AtExecute}"
  using that by (elim insertE emptyE; hypsubst; code_simp)

lemma demo_slice: "demo_slices \<noteq> []" "map sl_site demo_slices = [''edge'', ''local'']"
  by code_simp+

lemma dispatch_is_authorized_witness: "rw_authz (demo_world None) ''alice'' ''runner'' ''view:web'' = Some True \<and> check_site estate ''edge'' = None"
proof -
  have "''edge'' \<in> set (map sl_site demo_slices)" by (simp add: demo_slice(2))
  then obtain s where s: "s \<in> set demo_slices" "sl_site s = ''edge''" by auto
  then have "s \<in> set (dispatched (vo_events (run_against (demo_world None) (view_run_on []))))" by (simp add: demo_run)
  from dispatch_is_authorized [OF this] s(2) show ?thesis by (simp add: demo_world_def view_run_on_def)
qed

lemma each_member_dispatched_once_witness:
  "mset (map tg_entity_id (concat (map sl_targets demo_slices))) = {#''h1'', ''h2''#} \<and> map sl_index demo_slices = [0, 1]"
proof -
  have "gr_view (rw_graph (demo_world None)) (ri_view_name (view_run_on [])) (vr_view_params (view_run_on [])) = Some (3, estate_hosts)"
    by (simp add: demo_world_def estate_def)
  moreover have "distinct (map en_id estate_hosts)" by code_simp
  moreover have "dispatched (vo_events (run_against (demo_world None) (view_run_on []))) = demo_slices" by (simp add: demo_run)
  ultimately have "mset (map tg_entity_id (concat (map sl_targets demo_slices))) = mset (map en_id (scoped (view_run_on []) estate_hosts)) \<and>
      map sl_index demo_slices = [0..<length demo_slices]"
    using each_member_dispatched_once [OF _ _ _ demo_slice(1)] by metis
  moreover have "mset (map en_id (scoped (view_run_on []) estate_hosts)) = {#''h1'', ''h2''#}"
    by (simp add: scoped_def view_run_on_def estate_hosts_def host_def add_mset_commute)
  moreover have "[0..<length demo_slices] = [0, 1]" by code_simp
  ultimately show ?thesis by simp
qed

lemma succeeded_run_succeeded_everywhere_witness:
  "\<exists>r. Recorded RunSucceeded r \<in> set (vo_events (run_against (demo_world None) (view_run_on [])))"
proof -
  have "vo_error (run_against (demo_world None) (view_run_on [])) = None" by code_simp
  then show ?thesis using succeeded_run_succeeded_everywhere [of "demo_world None" "view_run_on []"] by blast
qed

lemma cancel_reaps_every_site_witness:
  "\<exists>sites. CleanedUp sites \<in> set (vo_events (run_against (demo_world (Some AtExecute)) (view_run_on []))) \<and> ''edge'' \<in> set sites"
proof -
  have "vo_error (run_against (demo_world (Some AtExecute)) (view_run_on [])) = Some Cancelled" by code_simp
  moreover have "vo_run_id (run_against (demo_world (Some AtExecute)) (view_run_on [])) \<noteq> []" by code_simp
  moreover have "''edge'' \<in> sl_site ` set demo_slices" using demo_slice(2) by (metis list.set_intros(1) list.set_map)
  ultimately show ?thesis
    using cancel_reaps_every_site [of "demo_world (Some AtExecute)" "view_run_on []"] by (auto simp: demo_run)
qed

end
