(* ===== verification/Projection.thy ===== *)
theory Projection
  imports Home Compiler
begin

text \<open>
  The graph projection of one Cell (\<open>core/internal/graph/projector.go\<close>, the reads of \<open>reader.go\<close> the write paths
  rest on, the ownership registry and the cursors of \<open>registry.go\<close>), over the tables and triggers of
  \<open>core/internal/graph/migrations\<close>.  A table is an association list over its key; a statement of the code is a
  function of the whole state, and a transaction that fails is \<open>Inl\<close>, which leaves the state as it was.
  Timestamps are not kept.  \<open>gen_random_uuid\<close> and the Facet schemas of the contract registry are parameters.
\<close>

section \<open>The tables\<close>

datatype write_path = Normalizer | RunProvenance

datatype writer_kind = WriterSyncer | WriterRun

record provenance =
  pv_kind :: writer_kind
  pv_ref :: string
  pv_source :: string

record entity_row =
  er_kind :: string
  er_labels :: "string gomap"
  er_prov :: provenance
  er_home :: string

type_synonym facet_slot = "string \<times> string \<times> string" \<comment> \<open>Entity, namespace, Source\<close>
type_synonym edge = "string \<times> string \<times> string" \<comment> \<open>type, from, to\<close>

record facet_cell =
  fc_qualifier :: string
  fc_value :: string
  fc_version :: nat
  fc_prov :: provenance

record owner_row =
  ow_namespace :: string
  ow_kind :: string
  ow_ref :: string
  ow_scope :: string
  ow_authoritative :: bool

record label_owner =
  lo_kind :: string
  lo_ref :: string
  lo_scope :: string

record graph_db = cell_db +
  g_entities :: "entity_row gomap"
  g_identity :: "((string \<times> string) \<times> string) list" \<comment> \<open>Entity and scheme; value\<close>
  g_relations :: "(edge \<times> provenance) list"
  g_edge_presence :: "(edge \<times> string) list" \<comment> \<open>the Sources that assert an edge\<close>
  g_facets :: "(facet_slot \<times> facet_cell) list"
  g_facet_history :: "((facet_slot \<times> nat) \<times> string \<times> string) list" \<comment> \<open>qualifier, value\<close>
  g_facet_owners :: "owner_row list"
  g_label_owners :: "label_owner gomap"
  g_cursors :: "string gomap"

record graph_env =
  ge_uuid :: "string list \<Rightarrow> string"
  ge_contract :: "string \<Rightarrow> string \<Rightarrow> bool"

datatype graph_error =
    NoIdentity | IdentityConflict | WrongStamp | SourceFenced | LabelRefused string | FacetInvalid string
  | FacetRefused string | VersionTaken string | MissingEntity string | MissingSource string | AuthorityTaken string
  | OwnerTaken string

section \<open>The triggers\<close>

text \<open>\<open>graph.enforce_write_path\<close> on an insert or an update: the provenance must agree with the path, and a Normalizer
  may not write for a Source that is sealed or homed on a peer.\<close>

definition stamp_ok :: "write_path \<Rightarrow> writer_kind \<Rightarrow> bool" where
  "stamp_ok wp k = (case wp of Normalizer \<Rightarrow> k = WriterSyncer | RunProvenance \<Rightarrow> k = WriterRun)"

definition source_fenced :: "'a cell_db_scheme \<Rightarrow> write_path \<Rightarrow> string \<Rightarrow> bool" where
  "source_fenced db wp src \<longleftrightarrow> wp = Normalizer \<and> src \<noteq> [] \<and>
     (case map_of (db_sources db) src of None \<Rightarrow> False | Some r \<Rightarrow> \<not> may_project r (db_cell db))"

definition write_check :: "'a cell_db_scheme \<Rightarrow> write_path \<Rightarrow> provenance \<Rightarrow> graph_error option" where
  "write_check db wp pv =
     (if \<not> stamp_ok wp (pv_kind pv) then Some WrongStamp
      else if source_fenced db wp (pv_source pv) then Some SourceFenced else None)"

text \<open>\<open>graph.enforce_label_owner\<close>: every key a Syncer adds or changes must be registered to it.\<close>

definition label_check :: "label_owner gomap \<Rightarrow> provenance \<Rightarrow> string gomap \<Rightarrow> string gomap \<Rightarrow> graph_error option" where
  "label_check owners pv old new =
     (if pv_kind pv \<noteq> WriterSyncer then None
      else first_err (\<lambda>(k, v).
        if map_of old k = Some v then None
        else case map_of owners k of
               None \<Rightarrow> Some (LabelRefused k)
             | Some o' \<Rightarrow> if lo_kind o' \<noteq> ''syncer'' \<or> lo_ref o' \<noteq> pv_ref pv then Some (LabelRefused k) else None) new)"

text \<open>\<open>graph.enforce_facet_owner\<close> of migration 00035.\<close>

definition facet_refused :: "owner_row list \<Rightarrow> provenance \<Rightarrow> string \<Rightarrow> bool" where
  "facet_refused owners pv ns \<longleftrightarrow>
     \<not> (\<exists>o' \<in> set owners. ow_namespace o' = ns) \<or>
     (pv_kind pv = WriterSyncer \<and>
      \<not> (\<exists>o' \<in> set owners. ow_namespace o' = ns \<and> ow_kind o' = ''syncer'' \<and> ow_ref o' = pv_ref pv))"

text \<open>\<open>graph.facet_version_from_history\<close> of migration 00047.\<close>

definition next_version :: "((facet_slot \<times> nat) \<times> string \<times> string) list \<Rightarrow> facet_slot \<Rightarrow> string \<Rightarrow> nat" where
  "next_version h slot q =
     Suc (fold max (map (\<lambda>((_, n), _). n) (filter (\<lambda>((s, _), q', _). s = slot \<and> q' = q) h)) 0)"

section \<open>Upserts\<close>

record entity_upsert =
  eu_kind :: string
  eu_ids :: "string gomap"
  eu_labels :: "string gomap"
  eu_facets :: "string gomap"

definition upsert_facet ::
  "graph_env \<Rightarrow> write_path \<Rightarrow> provenance \<Rightarrow> string \<Rightarrow> string \<Rightarrow> string \<Rightarrow> string \<Rightarrow> graph_db \<Rightarrow> graph_error + graph_db" where
  "upsert_facet env wp pv eid ns q val db =
     (let slot = (eid, ns, pv_source pv);
          ver = (case map_of (g_facets db) slot of
                   None \<Rightarrow> next_version (g_facet_history db) slot q
                 | Some f \<Rightarrow> Suc (fc_version f))
      in if \<not> ge_contract env ns val then Inl (FacetInvalid ns)
         else if facet_refused (g_facet_owners db) pv ns then Inl (FacetRefused ns)
         else case write_check db wp pv of Some e \<Rightarrow> Inl e | None \<Rightarrow>
         if map_of (g_entities db) eid = None then Inl (MissingEntity eid)
         else if map_of (g_facet_history db) (slot, ver) \<noteq> None then Inl (VersionTaken ns)
         else Inr (db\<lparr>g_facets := aput slot \<lparr>fc_qualifier = q, fc_value = val, fc_version = ver, fc_prov = pv\<rparr> (g_facets db),
                      g_facet_history := aput (slot, ver) (q, val) (g_facet_history db)\<rparr>))"

definition correlate :: "string gomap \<Rightarrow> graph_db \<Rightarrow> string list" where
  "correlate ids db = remdups (map (fst \<circ> fst) (filter (\<lambda>((e, s), v). (s, v) \<in> set ids) (g_identity db)))"

definition record_presence :: "provenance \<Rightarrow> string \<Rightarrow> graph_db \<Rightarrow> graph_error + graph_db" where
  "record_presence pv eid db =
     (if pv_kind pv = WriterSyncer \<and> pv_source pv \<noteq> [] then
        if map_of (db_sources db) (pv_source pv) = None then Inl (MissingSource (pv_source pv))
        else Inr (db\<lparr>db_presence := List.insert (eid, pv_source pv) (db_presence db)\<rparr>)
      else Inr db)"

text \<open>What follows the entity row of an observation: its identity keys, its presence and its Facets.\<close>

definition record_observation ::
  "graph_env \<Rightarrow> write_path \<Rightarrow> provenance \<Rightarrow> entity_upsert \<Rightarrow> string \<Rightarrow> graph_db \<Rightarrow> graph_error + graph_db" where
  "record_observation env wp pv u eid db =
     (case record_presence pv eid
             (db\<lparr>g_identity := over (map (\<lambda>(s, v). ((eid, s), v)) (eu_ids u)) (g_identity db)\<rparr>) of
        Inl e \<Rightarrow> Inl e
      | Inr db' \<Rightarrow> fold_err (\<lambda>(ns, val). upsert_facet env wp pv eid ns [] val) (eu_facets u) db')"

definition insert_entity :: "graph_env \<Rightarrow> write_path \<Rightarrow> provenance \<Rightarrow> entity_upsert \<Rightarrow> graph_db \<Rightarrow> graph_error + (string \<times> graph_db)" where
  "insert_entity env wp pv u db =
     (let eid = ge_uuid env (keys (g_entities db));
          labels = over (eu_labels u) []
      in case write_check db wp pv of Some e \<Rightarrow> Inl e | None \<Rightarrow>
         case label_check (g_label_owners db) pv [] labels of Some e \<Rightarrow> Inl e | None \<Rightarrow>
         Inr (eid, db\<lparr>g_entities := aput eid \<lparr>er_kind = eu_kind u, er_labels = labels, er_prov = pv, er_home = db_cell db\<rparr>
                        (g_entities db),
                      db_live := List.insert eid (db_live db)\<rparr>))"

definition update_entity ::
  "write_path \<Rightarrow> provenance \<Rightarrow> entity_upsert \<Rightarrow> string \<Rightarrow> graph_db \<Rightarrow> graph_error + (string \<times> graph_db)" where
  "update_entity wp pv u eid db =
     (case map_of (g_entities db) eid of None \<Rightarrow> Inl (MissingEntity eid)
      | Some r \<Rightarrow>
         let labels = over (eu_labels u) (er_labels r);
             revived = eid \<notin> set (db_live db);
             db' = db\<lparr>g_entities := aput eid (r\<lparr>er_kind := eu_kind u, er_labels := labels, er_prov := pv\<rparr>) (g_entities db),
                      db_live := List.insert eid (db_live db)\<rparr>
         in case write_check db wp pv of Some e \<Rightarrow> Inl e | None \<Rightarrow>
            case label_check (g_label_owners db) pv (er_labels r) labels of Some e \<Rightarrow> Inl e | None \<Rightarrow>
            Inr (eid, if revived then db'\<lparr>g_facets := filter (\<lambda>((e, _), _). e \<noteq> eid) (g_facets db')\<rparr> else db'))"

definition upsert_entity ::
  "graph_env \<Rightarrow> write_path \<Rightarrow> provenance \<Rightarrow> entity_upsert \<Rightarrow> graph_db \<Rightarrow> graph_error + (string \<times> graph_db)" where
  "upsert_entity env wp pv u db =
     (if eu_ids u = [] then Inl NoIdentity
      else case (case correlate (eu_ids u) db of
                   [] \<Rightarrow> insert_entity env wp pv u db
                 | [eid] \<Rightarrow> update_entity wp pv u eid db
                 | _ \<Rightarrow> Inl IdentityConflict) of
             Inl e \<Rightarrow> Inl e
           | Inr (eid, db') \<Rightarrow>
               (case record_observation env wp pv u eid db' of Inl e \<Rightarrow> Inl e | Inr db'' \<Rightarrow> Inr (eid, db'')))"

definition upsert_entities ::
  "graph_env \<Rightarrow> write_path \<Rightarrow> provenance \<Rightarrow> entity_upsert list \<Rightarrow> graph_db \<Rightarrow> graph_error + (string list \<times> graph_db)" where
  "upsert_entities env wp pv batch db =
     fold_err (\<lambda>u (ids, d). case upsert_entity env wp pv u d of Inl e \<Rightarrow> Inl e | Inr (eid, d') \<Rightarrow> Inr (ids @ [eid], d'))
       batch ([], db)"

section \<open>Relations\<close>

definition upsert_relation ::
  "write_path \<Rightarrow> provenance \<Rightarrow> string \<Rightarrow> string \<Rightarrow> string \<Rightarrow> graph_db \<Rightarrow> graph_error + graph_db" where
  "upsert_relation wp pv ty f t db =
     (case write_check db wp pv of Some e \<Rightarrow> Inl e | None \<Rightarrow>
      if map_of (g_entities db) f = None then Inl (MissingEntity f)
      else if map_of (g_entities db) t = None then Inl (MissingEntity t)
      else let db' = db\<lparr>g_relations := aput (ty, f, t) pv (g_relations db)\<rparr>
           in if pv_source pv = [] then Inr db'
              else if map_of (db_sources db) (pv_source pv) = None then Inl (MissingSource (pv_source pv))
              else Inr (db'\<lparr>g_edge_presence := List.insert ((ty, f, t), pv_source pv) (g_edge_presence db')\<rparr>))"

text \<open>\<open>DELETE FROM graph.relation\<close>, with the cascade to the presence rows.\<close>

definition delete_edges :: "edge list \<Rightarrow> graph_db \<Rightarrow> graph_db" where
  "delete_edges dead db =
     db\<lparr>g_relations := filter (\<lambda>(e, _). e \<notin> set dead) (g_relations db),
        g_edge_presence := filter (\<lambda>(e, _). e \<notin> set dead) (g_edge_presence db)\<rparr>"

definition retract_relation :: "string \<Rightarrow> string \<Rightarrow> string \<Rightarrow> graph_db \<Rightarrow> graph_db" where
  "retract_relation ty f t db = delete_edges [(ty, f, t)] db"

definition retract_run_relations_from :: "string \<Rightarrow> string \<Rightarrow> string \<Rightarrow> graph_db \<Rightarrow> graph_db" where
  "retract_run_relations_from ty f keep db =
     delete_edges (map fst (filter (\<lambda>((ty', f', t'), pv). ty' = ty \<and> f' = f \<and> t' \<noteq> keep \<and> pv_kind pv = WriterRun)
       (g_relations db))) db"

definition retract_source_presence_except :: "string \<Rightarrow> string \<Rightarrow> (string \<times> string) list \<Rightarrow> graph_db \<Rightarrow> nat \<times> graph_db" where
  "retract_source_presence_except src ty keep db =
     (let db' = db\<lparr>g_edge_presence := filter (\<lambda>((ty', f, t), s). \<not> (s = src \<and> ty' = ty \<and> (f, t) \<notin> set keep)) (g_edge_presence db)\<rparr>;
          dead = map fst (filter (\<lambda>((ty', f, t), pv). ty' = ty \<and> pv_kind pv = WriterSyncer \<and>
                   (ty', f, t) \<notin> fst ` set (g_edge_presence db')) (g_relations db'))
      in (length dead, delete_edges dead db'))"

definition relation_types_by_source :: "string \<Rightarrow> graph_db \<Rightarrow> string list" where
  "relation_types_by_source src db =
     remdups (map (fst \<circ> fst) (filter (\<lambda>(e, s). s = src \<and> e \<in> fst ` set (g_relations db)) (g_edge_presence db)))"

section \<open>Tombstones\<close>

definition touching :: "string list \<Rightarrow> graph_db \<Rightarrow> edge list" where
  "touching ids db = map fst (filter (\<lambda>((_, f, t), _). f \<in> set ids \<or> t \<in> set ids) (g_relations db))"

definition retract_relations_for :: "string list \<Rightarrow> graph_db \<Rightarrow> graph_db" where
  "retract_relations_for ids db = delete_edges (touching ids db) db"

text \<open>Statement B of a retraction: the retracted Entities whose last presence is gone are tombstoned under the
  provenance of the retracting Syncer, and their edges go with them.\<close>

definition bury :: "write_path \<Rightarrow> provenance \<Rightarrow> string list \<Rightarrow> graph_db \<Rightarrow> graph_error + (nat \<times> graph_db)" where
  "bury wp pv gone db =
     (let dead = filter (\<lambda>e. e \<in> set gone \<and> e \<notin> fst ` set (db_presence db)) (db_live db)
      in if dead = [] then Inr (0, db)
         else case write_check db wp pv of Some e \<Rightarrow> Inl e | None \<Rightarrow>
           Inr (length dead, retract_relations_for dead
             (db\<lparr>db_live := filter (\<lambda>e. e \<notin> set dead) (db_live db),
                 g_entities := map (\<lambda>(e, r). (e, if e \<in> set dead then r\<lparr>er_prov := pv\<rparr> else r)) (g_entities db)\<rparr>)))"

definition retract_presence :: "string \<Rightarrow> (string \<Rightarrow> bool) \<Rightarrow> graph_db \<Rightarrow> string list \<times> graph_db" where
  "retract_presence src P db =
     (map fst (filter (\<lambda>(e, s). s = src \<and> P e) (db_presence db)),
      db\<lparr>db_presence := filter (\<lambda>(e, s). \<not> (s = src \<and> P e)) (db_presence db)\<rparr>)"

definition tombstone_absent ::
  "write_path \<Rightarrow> provenance \<Rightarrow> string \<Rightarrow> string list \<Rightarrow> graph_db \<Rightarrow> graph_error + (nat \<times> graph_db)" where
  "tombstone_absent wp pv scheme seen db =
     (let (gone, db') = retract_presence (pv_source pv)
            (\<lambda>e. case map_of (g_identity db) (e, scheme) of None \<Rightarrow> False | Some v \<Rightarrow> v \<notin> set seen) db
      in if gone = [] then Inr (0, db') else bury wp pv gone db')"

definition tombstone_by_identity ::
  "write_path \<Rightarrow> provenance \<Rightarrow> string \<Rightarrow> string \<Rightarrow> graph_db \<Rightarrow> graph_error + (bool \<times> graph_db)" where
  "tombstone_by_identity wp pv scheme val db =
     (let (gone, db') = retract_presence (pv_source pv) (\<lambda>e. map_of (g_identity db) (e, scheme) = Some val) db
      in if gone = [] then Inr (False, db')
         else case bury wp pv gone db' of Inl e \<Rightarrow> Inl e | Inr (n, db'') \<Rightarrow> Inr (0 < n, db''))"

section \<open>Reads\<close>

definition identity_of :: "graph_db \<Rightarrow> string \<Rightarrow> string gomap" where
  "identity_of db eid = map (\<lambda>((_, s), v). (s, v)) (filter (\<lambda>((e, _), _). e = eid) (g_identity db))"

definition get_entity :: "graph_db \<Rightarrow> string \<Rightarrow> (entity \<times> string gomap) option" where
  "get_entity db eid =
     (case map_of (g_entities db) eid of
        Some r \<Rightarrow> if eid \<in> set (db_live db)
          then Some (\<lparr>en_id = eid, en_kind = er_kind r, en_labels = er_labels r\<rparr>, identity_of db eid) else None
      | None \<Rightarrow> None)"

definition entity_id_by_identity :: "graph_db \<Rightarrow> string \<Rightarrow> string \<Rightarrow> string option" where
  "entity_id_by_identity db scheme val =
     map_option (fst \<circ> fst) (find (\<lambda>((e, s), v). s = scheme \<and> v = val \<and> e \<in> set (db_live db)) (g_identity db))"

definition entity_writer_kind :: "graph_db \<Rightarrow> string \<Rightarrow> writer_kind option" where
  "entity_writer_kind db eid = map_option (pv_kind \<circ> er_prov) (map_of (g_entities db) eid)"

definition relation_targets :: "graph_db \<Rightarrow> string \<Rightarrow> string \<Rightarrow> string list" where
  "relation_targets db f ty = map (\<lambda>((_, _, t), _). t) (filter (\<lambda>((ty', f', _), _). ty' = ty \<and> f' = f) (g_relations db))"

definition relation_sources :: "graph_db \<Rightarrow> string \<Rightarrow> string \<Rightarrow> string list" where
  "relation_sources db t ty = map (\<lambda>((_, f, _), _). f) (filter (\<lambda>((ty', _, t'), _). ty' = ty \<and> t' = t) (g_relations db))"

definition get_observed_by :: "graph_db \<Rightarrow> string \<Rightarrow> string list" where
  "get_observed_by db eid = sort (map snd (filter (\<lambda>(e, s). e = eid \<and> map_of (db_sources db) s \<noteq> None) (db_presence db)))"

section \<open>The ownership registry and the cursors\<close>

definition register_facet_owner :: "owner_row \<Rightarrow> graph_db \<Rightarrow> graph_error + graph_db" where
  "register_facet_owner o' db =
     (let others = filter (\<lambda>x. \<not> (ow_namespace x = ow_namespace o' \<and> ow_ref x = ow_ref o')) (g_facet_owners db)
      in if ow_authoritative o' \<and> (\<exists>x \<in> set others. ow_namespace x = ow_namespace o' \<and> ow_authoritative x)
         then Inl (AuthorityTaken (ow_namespace o'))
         else Inr (db\<lparr>g_facet_owners := others @ [o']\<rparr>))"

definition register_label_owner :: "string \<Rightarrow> label_owner \<Rightarrow> graph_db \<Rightarrow> graph_error + graph_db" where
  "register_label_owner k o' db =
     (case map_of (g_label_owners db) k of
        None \<Rightarrow> Inr (db\<lparr>g_label_owners := aput k o' (g_label_owners db)\<rparr>)
      | Some x \<Rightarrow> if lo_kind x = lo_kind o' \<and> lo_ref x = lo_ref o'
          then Inr (db\<lparr>g_label_owners := aput k (x\<lparr>lo_scope := lo_scope o'\<rparr>) (g_label_owners db)\<rparr>)
          else Inl (OwnerTaken k))"

definition deregister_facet_owner :: "string \<Rightarrow> string \<Rightarrow> graph_db \<Rightarrow> graph_db" where
  "deregister_facet_owner ns ref db =
     db\<lparr>g_facet_owners := filter (\<lambda>x. \<not> (ow_namespace x = ns \<and> ow_ref x = ref)) (g_facet_owners db)\<rparr>"

definition deregister_label_owner :: "string \<Rightarrow> string \<Rightarrow> graph_db \<Rightarrow> graph_db" where
  "deregister_label_owner k ref db =
     db\<lparr>g_label_owners := filter (\<lambda>(k', x). \<not> (k' = k \<and> lo_ref x = ref)) (g_label_owners db)\<rparr>"

definition sync_cursor :: "string \<Rightarrow> graph_db \<Rightarrow> string" where
  "sync_cursor src db = (case map_of (g_cursors db) src of None \<Rightarrow> [] | Some c \<Rightarrow> c)"

definition set_sync_cursor :: "string \<Rightarrow> string \<Rightarrow> graph_db \<Rightarrow> graph_error + graph_db" where
  "set_sync_cursor src c db =
     (if map_of (db_sources db) src = None then Inl (MissingSource src)
      else Inr (db\<lparr>g_cursors := aput src c (g_cursors db)\<rparr>))"

section \<open>What every write keeps\<close>

definition rows_ok :: "graph_db \<Rightarrow> bool" where
  "rows_ok db \<longleftrightarrow> distinct (keys (g_entities db)) \<and> distinct (db_live db) \<and> set (db_live db) \<subseteq> set (keys (g_entities db))"

definition identity_ok :: "graph_db \<Rightarrow> bool" where
  "identity_ok db \<longleftrightarrow> distinct (keys (g_identity db)) \<and>
     (\<forall>x \<in> set (g_identity db). fst (fst x) \<in> set (keys (g_entities db))) \<and>
     (\<forall>x \<in> set (g_identity db). \<forall>y \<in> set (g_identity db). snd (fst x) = snd (fst y) \<and> snd x = snd y \<longrightarrow> x = y)"

definition presence_ok :: "graph_db \<Rightarrow> bool" where
  "presence_ok db \<longleftrightarrow> fst ` set (db_presence db) \<subseteq> set (db_live db)"

definition edges_ok :: "graph_db \<Rightarrow> bool" where
  "edges_ok db \<longleftrightarrow> distinct (keys (g_relations db)) \<and>
     (\<forall>x \<in> set (keys (g_relations db)). fst (snd x) \<in> set (db_live db) \<and> snd (snd x) \<in> set (db_live db)) \<and>
     fst ` set (g_edge_presence db) \<subseteq> set (keys (g_relations db))"

definition facets_ok :: "graph_db \<Rightarrow> bool" where
  "facets_ok db \<longleftrightarrow> distinct (keys (g_facets db)) \<and> distinct (keys (g_facet_history db)) \<and>
     (\<forall>x \<in> set (keys (g_facets db)). fst x \<in> set (keys (g_entities db)))"

definition graph_ok :: "graph_db \<Rightarrow> bool" where
  "graph_ok db \<longleftrightarrow> rows_ok db \<and> identity_ok db \<and> presence_ok db \<and> edges_ok db \<and> facets_ok db"

named_theorems graph_inv \<open>the parts of the invariant\<close>

declare graph_ok_def [graph_inv] rows_ok_def [graph_inv] identity_ok_def [graph_inv] presence_ok_def [graph_inv]
  edges_ok_def [graph_inv] facets_ok_def [graph_inv]

definition fresh_uuids :: "graph_env \<Rightarrow> bool" where
  "fresh_uuids env \<longleftrightarrow> (\<forall>ids. ge_uuid env ids \<notin> set ids)"

definition one_value_each :: "entity_upsert \<Rightarrow> bool" where
  "one_value_each u \<longleftrightarrow> distinct (keys (eu_ids u)) \<and> distinct (keys (eu_labels u)) \<and> distinct (keys (eu_facets u))"

subsection \<open>Facets\<close>

lemma upsert_facet_effect:
  assumes "upsert_facet env wp pv eid ns q val db = Inr db'"
  obtains c k h where "db' = db\<lparr>g_facets := aput (eid, ns, pv_source pv) c (g_facets db),
      g_facet_history := aput k h (g_facet_history db)\<rparr>"
    and "eid \<in> set (keys (g_entities db))"
  using assms that
  by (auto simp: upsert_facet_def Let_def map_of_None_key split: if_splits option.splits)

lemma upsert_facet_ok:
  assumes "graph_ok db" and "upsert_facet env wp pv eid ns q val db = Inr db'"
  shows "graph_ok db'"
proof -
  from assms(2) obtain c k h where eff: "db' = db\<lparr>g_facets := aput (eid, ns, pv_source pv) c (g_facets db),
      g_facet_history := aput k h (g_facet_history db)\<rparr>" and old: "eid \<in> set (keys (g_entities db))"
    by (rule upsert_facet_effect)
  have "facets_ok db'"
    using assms(1) old by (auto simp: eff facets_ok_def graph_ok_def intro: distinct_aput)
  then show ?thesis
    using assms(1) by (simp add: eff graph_inv)
qed

interpretation facet_writes: checked_loop "\<lambda>(ns, val). upsert_facet env wp pv eid ns [] val" graph_ok
  for env wp pv eid
  by unfold_locales (auto intro: upsert_facet_ok)

subsection \<open>Entities\<close>

lemma correlate_iff: "e \<in> set (correlate ids db) \<longleftrightarrow> (\<exists>s v. ((e, s), v) \<in> set (g_identity db) \<and> (s, v) \<in> set ids)"
  by (force simp: correlate_def image_iff)

lemma identity_grows:
  assumes ok: "identity_ok db" and ids: "distinct (keys ids)" and new: "set (correlate ids db) \<subseteq> {eid}"
    and ent: "set (keys (g_entities db')) = insert eid (set (keys (g_entities db)))"
    and idn: "g_identity db' = over (map (\<lambda>(s, v). ((eid, s), v)) ids) (g_identity db)"
  shows "identity_ok db'"
proof -
  let ?new = "map (\<lambda>(s, v). ((eid, s), v)) ids"
  have ks: "keys ?new = map (Pair eid) (keys ids)" by (induction ids) auto
  have dk: "distinct (keys ?new)" using ids by (simp only: ks) (simp add: distinct_map inj_on_def)
  from ok have d: "distinct (keys (g_identity db))" by (simp add: identity_ok_def)
  have set': "set (g_identity db') = set ?new \<union> {x \<in> set (g_identity db). fst x \<notin> set (keys ?new)}"
    using set_over [OF d dk] by (simp add: idn)
  have cases_old: "a = eid \<and> (s, v) \<in> set ids \<or> ((a, s), v) \<in> set (g_identity db)"
    if "((a, s), v) \<in> set (g_identity db')" for a s v
    using that set' by auto
  have meets: "a = eid" if "((a, s), v) \<in> set (g_identity db)" "(s, v) \<in> set ids" for a s v
  proof -
    from that have "a \<in> set (correlate ids db)" by (auto simp: correlate_iff)
    with new show ?thesis by auto
  qed
  have old: "a = b" if "((a, s), v) \<in> set (g_identity db)" "((b, s), v) \<in> set (g_identity db)" for a b s v
  proof -
    from ok have "\<forall>x \<in> set (g_identity db). \<forall>y \<in> set (g_identity db). snd (fst x) = snd (fst y) \<and> snd x = snd y \<longrightarrow> x = y"
      by (simp add: identity_ok_def)
    from bspec [OF bspec [OF this that(1)] that(2)] show ?thesis by simp
  qed
  have same: "a = b" if "((a, s), v) \<in> set (g_identity db')" "((b, s), v) \<in> set (g_identity db')" for a b s v
    using cases_old [OF that(1)] cases_old [OF that(2)] meets old by metis
  have uniq: "x = y" if h: "x \<in> set (g_identity db')" "y \<in> set (g_identity db')"
      "snd (fst x) = snd (fst y)" "snd x = snd y" for x y
  proof -
    obtain a s v where x: "x = ((a, s), v)" by (metis prod.collapse)
    obtain b where y: "y = ((b, s), v)" using h(3,4) x by (metis fst_conv prod.collapse snd_conv)
    from same h(1,2) x y have "a = b" by blast
    with x y show ?thesis by simp
  qed
  have refs: "fst (fst x) \<in> set (keys (g_entities db'))" if "x \<in> set (g_identity db')" for x
    using that ok unfolding set' ent identity_ok_def by auto
  show ?thesis
    using uniq refs distinct_over [OF d] by (simp add: identity_ok_def idn)
qed

lemma record_presence_effect:
  assumes "record_presence pv eid db = Inr db'"
  obtains ps where "db' = db\<lparr>db_presence := ps\<rparr>" and "set (db_presence db) \<subseteq> set ps"
    and "set ps \<subseteq> insert (eid, pv_source pv) (set (db_presence db))"
proof -
  have "\<exists>ps. db' = db\<lparr>db_presence := ps\<rparr> \<and> set (db_presence db) \<subseteq> set ps \<and>
      set ps \<subseteq> insert (eid, pv_source pv) (set (db_presence db))"
  proof (cases "pv_kind pv = WriterSyncer \<and> pv_source pv \<noteq> []")
    case True
    with assms show ?thesis
      by (intro exI [of _ "List.insert (eid, pv_source pv) (db_presence db)"])
        (auto simp: record_presence_def split: if_splits)
  next
    case False
    with assms show ?thesis
      by (intro exI [of _ "db_presence db"]) (auto simp: record_presence_def)
  qed
  then show ?thesis using that by blast
qed

lemma record_observation_ok:
  assumes ok: "graph_ok db" and live: "eid \<in> set (db_live db)" and ids: "distinct (keys (eu_ids u))"
    and new: "set (correlate (eu_ids u) db) \<subseteq> {eid}"
    and obs: "record_observation env wp pv u eid db = Inr db'"
  shows "graph_ok db'"
proof -
  let ?db1 = "db\<lparr>g_identity := over (map (\<lambda>(s, v). ((eid, s), v)) (eu_ids u)) (g_identity db)\<rparr>"
  from obs obtain db2 where pres: "record_presence pv eid ?db1 = Inr db2"
    and facets: "fold_err (\<lambda>(ns, val). upsert_facet env wp pv eid ns [] val) (eu_facets u) db2 = Inr db'"
    by (auto simp: record_observation_def split: sum.splits)
  from live ok have ent: "eid \<in> set (keys (g_entities db))" by (auto simp: graph_ok_def rows_ok_def)
  have "identity_ok ?db1"
    by (rule identity_grows [OF _ ids new]) (use ok ent in \<open>auto simp: graph_ok_def\<close>)
  with ok have ok1: "graph_ok ?db1" by (simp add: graph_inv)
  from pres obtain ps where db2: "db2 = ?db1\<lparr>db_presence := ps\<rparr>"
    and ps: "set ps \<subseteq> insert (eid, pv_source pv) (set (db_presence ?db1))" by (rule record_presence_effect)
  have "fst ` set ps \<subseteq> insert eid (fst ` set (db_presence ?db1))" using ps by force
  with ok1 live have "presence_ok db2" by (auto simp: db2 presence_ok_def graph_ok_def)
  with ok1 have "graph_ok db2" by (simp add: db2 graph_inv)
  then show ?thesis using facets by (rule facet_writes.loop_inv)
qed

lemma insert_entity_effect:
  assumes "insert_entity env wp pv u db = Inr (eid, db')"
  shows "\<exists>r. er_labels r = over (eu_labels u) [] \<and> eid = ge_uuid env (keys (g_entities db)) \<and>
    db' = db\<lparr>g_entities := aput eid r (g_entities db), db_live := List.insert eid (db_live db)\<rparr>"
proof -
  let ?r = "\<lparr>er_kind = eu_kind u, er_labels = over (eu_labels u) [], er_prov = pv, er_home = db_cell db\<rparr>"
  from assms have "eid = ge_uuid env (keys (g_entities db))"
    and "db' = db\<lparr>g_entities := aput eid ?r (g_entities db), db_live := List.insert eid (db_live db)\<rparr>"
    by (auto simp: insert_entity_def Let_def split: option.splits)
  then show ?thesis by (intro exI [of _ ?r]) simp
qed

lemma update_entity_effect:
  assumes "update_entity wp pv u eid0 db = Inr (eid, db')"
  shows "\<exists>r r'. map_of (g_entities db) eid = Some r \<and> er_labels r' = over (eu_labels u) (er_labels r) \<and> eid0 = eid \<and>
    db' = db\<lparr>g_entities := aput eid r' (g_entities db), db_live := List.insert eid (db_live db),
             g_facets := (if eid \<in> set (db_live db) then g_facets db else filter (\<lambda>((e, _), _). e \<noteq> eid) (g_facets db))\<rparr>"
proof -
  from assms obtain r where r: "map_of (g_entities db) eid0 = Some r"
    by (auto simp: update_entity_def split: option.splits)
  let ?r = "r\<lparr>er_kind := eu_kind u, er_labels := over (eu_labels u) (er_labels r), er_prov := pv\<rparr>"
  from assms r have "eid0 = eid"
    by (simp add: update_entity_def Let_def split: option.splits)
  moreover from assms r have "db' = db\<lparr>g_entities := aput eid0 ?r (g_entities db), db_live := List.insert eid0 (db_live db),
      g_facets := (if eid0 \<in> set (db_live db) then g_facets db else filter (\<lambda>((e, _), _). e \<noteq> eid0) (g_facets db))\<rparr>"
    by (auto simp: update_entity_def Let_def split: option.splits)
  ultimately show ?thesis using r by (intro exI [of _ r] exI [of _ ?r]) simp
qed

text \<open>Either way the observation lands on one Entity, alive, that is the only one its keys correlate to.\<close>

lemma entity_row_written:
  assumes "(case correlate (eu_ids u) db of [] \<Rightarrow> insert_entity env wp pv u db
      | [e] \<Rightarrow> update_entity wp pv u e db | _ \<Rightarrow> Inl IdentityConflict) = Inr (eid, db')"
  obtains r where "set (correlate (eu_ids u) db) \<subseteq> {eid}"
    and "er_labels r = over (eu_labels u) (case map_of (g_entities db) eid of None \<Rightarrow> [] | Some r0 \<Rightarrow> er_labels r0)
         \<or> eid = ge_uuid env (keys (g_entities db)) \<and> er_labels r = over (eu_labels u) []"
    and "db' = db\<lparr>g_entities := aput eid r (g_entities db), db_live := List.insert eid (db_live db),
             g_facets := (if eid \<in> set (db_live db) \<or> correlate (eu_ids u) db = [] then g_facets db
                          else filter (\<lambda>((e, _), _). e \<noteq> eid) (g_facets db))\<rparr>"
proof (cases "correlate (eu_ids u) db")
  case Nil
  with assms insert_entity_effect [of env wp pv u db eid db'] that show ?thesis by auto
next
  case (Cons e es)
  with assms have "es = []" and upd: "update_entity wp pv u e db = Inr (eid, db')" by (auto split: list.splits)
  from update_entity_effect [OF upd] obtain r r' where r: "map_of (g_entities db) eid = Some r" "e = eid"
      "er_labels r' = over (eu_labels u) (er_labels r)"
    and db': "db' = db\<lparr>g_entities := aput eid r' (g_entities db), db_live := List.insert eid (db_live db),
      g_facets := (if eid \<in> set (db_live db) then g_facets db else filter (\<lambda>((e, _), _). e \<noteq> eid) (g_facets db))\<rparr>"
    by blast
  show ?thesis by (rule that [of r']) (use Cons \<open>es = []\<close> r db' in simp_all)
qed

lemma upsert_entity_split:
  assumes "upsert_entity env wp pv u db = Inr (eid, db')"
  obtains db1 where "(case correlate (eu_ids u) db of [] \<Rightarrow> insert_entity env wp pv u db
      | [e] \<Rightarrow> update_entity wp pv u e db | _ \<Rightarrow> Inl IdentityConflict) = Inr (eid, db1)"
    and "record_observation env wp pv u eid db1 = Inr db'"
  using assms that by (auto simp: upsert_entity_def split: sum.splits if_splits prod.splits)

lemma upsert_entity_ok:
  assumes ok: "graph_ok db" and ids: "distinct (keys (eu_ids u))"
    and up: "upsert_entity env wp pv u db = Inr (eid, db')"
  shows "graph_ok db'"
proof -
  from up obtain db1 where row: "(case correlate (eu_ids u) db of [] \<Rightarrow> insert_entity env wp pv u db
      | [e] \<Rightarrow> update_entity wp pv u e db | _ \<Rightarrow> Inl IdentityConflict) = Inr (eid, db1)"
    and obs: "record_observation env wp pv u eid db1 = Inr db'" by (rule upsert_entity_split)
  from row obtain r where new: "set (correlate (eu_ids u) db) \<subseteq> {eid}"
    and db1: "db1 = db\<lparr>g_entities := aput eid r (g_entities db), db_live := List.insert eid (db_live db),
             g_facets := (if eid \<in> set (db_live db) \<or> correlate (eu_ids u) db = [] then g_facets db
                          else filter (\<lambda>((e, _), _). e \<noteq> eid) (g_facets db))\<rparr>" by (rule entity_row_written)
  have "rows_ok db1" using ok by (auto simp: db1 graph_ok_def rows_ok_def intro: distinct_aput)
  moreover have "identity_ok db1" using ok by (auto simp: db1 graph_ok_def identity_ok_def)
  moreover have "presence_ok db1" using ok by (auto simp: db1 graph_ok_def presence_ok_def)
  moreover have "edges_ok db1" using ok by (auto simp: db1 graph_ok_def edges_ok_def)
  moreover have "facets_ok db1"
    using ok by (auto simp: db1 graph_ok_def facets_ok_def intro: distinct_keys_filter)
  ultimately have "graph_ok db1" by (simp add: graph_ok_def)
  moreover have "correlate (eu_ids u) db1 = correlate (eu_ids u) db" by (simp add: db1 correlate_def)
  ultimately show ?thesis
    using record_observation_ok [of db1 eid u env wp pv db'] ids new obs by (simp add: db1)
qed

subsection \<open>Relations and tombstones\<close>

lemma upsert_relation_effect:
  assumes "upsert_relation wp pv ty f t db = Inr db'"
  obtains ps where "db' = db\<lparr>g_relations := aput (ty, f, t) pv (g_relations db), g_edge_presence := ps\<rparr>"
    and "set (g_edge_presence db) \<subseteq> set ps" and "set ps \<subseteq> insert ((ty, f, t), pv_source pv) (set (g_edge_presence db))"
proof (cases "pv_source pv = []")
  case True
  with assms show ?thesis
    by (intro that [of "g_edge_presence db"])
      (auto simp: upsert_relation_def Let_def split: option.splits if_splits)
next
  case False
  with assms show ?thesis
    by (intro that [of "List.insert ((ty, f, t), pv_source pv) (g_edge_presence db)"])
      (auto simp: upsert_relation_def Let_def split: option.splits if_splits)
qed

lemma upsert_relation_ok:
  assumes ok: "graph_ok db" and ends: "f \<in> set (db_live db)" "t \<in> set (db_live db)"
    and up: "upsert_relation wp pv ty f t db = Inr db'"
  shows "graph_ok db'"
proof -
  from up obtain ps where db': "db' = db\<lparr>g_relations := aput (ty, f, t) pv (g_relations db), g_edge_presence := ps\<rparr>"
    and ps: "set ps \<subseteq> insert ((ty, f, t), pv_source pv) (set (g_edge_presence db))" by (rule upsert_relation_effect)
  from ps have "fst ` set ps \<subseteq> insert (ty, f, t) (fst ` set (g_edge_presence db))" by force
  with ok ends have "edges_ok db'"
    by (auto simp: db' edges_ok_def graph_ok_def intro: distinct_aput)
  with ok show ?thesis by (simp add: db' graph_inv)
qed

lemma delete_edges_fields [simp]:
  "db_sources (delete_edges dead db) = db_sources db" "db_cell (delete_edges dead db) = db_cell db"
  "db_presence (delete_edges dead db) = db_presence db" "db_live (delete_edges dead db) = db_live db"
  "g_entities (delete_edges dead db) = g_entities db" "g_identity (delete_edges dead db) = g_identity db"
  "g_facets (delete_edges dead db) = g_facets db" "g_facet_history (delete_edges dead db) = g_facet_history db"
  "g_facet_owners (delete_edges dead db) = g_facet_owners db" "g_label_owners (delete_edges dead db) = g_label_owners db"
  "g_cursors (delete_edges dead db) = g_cursors db"
  "set (g_relations (delete_edges dead db)) = {x \<in> set (g_relations db). fst x \<notin> set dead}"
  "set (g_edge_presence (delete_edges dead db)) = {x \<in> set (g_edge_presence db). fst x \<notin> set dead}"
  by (auto simp: delete_edges_def)

lemma delete_edges_ok:
  assumes "rows_ok db" "identity_ok db" "presence_ok db" "facets_ok db"
    and "distinct (keys (g_relations db))" and "fst ` set (g_edge_presence db) \<subseteq> set (keys (g_relations db))"
    and "\<And>x. x \<in> set (keys (g_relations db)) \<Longrightarrow> x \<notin> set dead \<Longrightarrow> fst (snd x) \<in> set (db_live db) \<and> snd (snd x) \<in> set (db_live db)"
  shows "graph_ok (delete_edges dead db)"
proof -
  have "distinct (keys (g_relations (delete_edges dead db)))"
    using assms(5) by (simp add: delete_edges_def distinct_keys_filter)
  moreover have "fst ` set (g_edge_presence (delete_edges dead db)) \<subseteq> set (keys (g_relations (delete_edges dead db)))"
    using assms(6) by (auto simp: image_iff) force
  ultimately have "edges_ok (delete_edges dead db)"
    using assms(7) by (auto simp: edges_ok_def)
  with assms(1-4) show ?thesis by (simp add: graph_inv)
qed

lemma delete_edges_keeps: "graph_ok db \<Longrightarrow> graph_ok (delete_edges dead db)"
  by (rule delete_edges_ok) (auto simp: graph_ok_def edges_ok_def)

lemma retract_relation_ok: "graph_ok db \<Longrightarrow> graph_ok (retract_relation ty f t db)"
  by (simp add: retract_relation_def delete_edges_keeps)

lemma retract_run_relations_from_ok: "graph_ok db \<Longrightarrow> graph_ok (retract_run_relations_from ty f keep db)"
  by (simp add: retract_run_relations_from_def delete_edges_keeps)

lemma retract_source_presence_except_ok:
  "graph_ok db \<Longrightarrow> graph_ok (snd (retract_source_presence_except src ty keep db))"
  by (simp add: retract_source_presence_except_def Let_def, rule delete_edges_keeps) (auto simp: graph_inv)

lemma touching_iff: "x \<in> set (touching ids db) \<longleftrightarrow> x \<in> set (keys (g_relations db)) \<and> (fst (snd x) \<in> set ids \<or> snd (snd x) \<in> set ids)"
  by (force simp: touching_def image_iff)

lemma bury_effect:
  assumes "bury wp pv gone db = Inr (n, db')"
  obtains dead stamp where "\<And>e. e \<in> set dead \<longleftrightarrow> e \<in> set gone \<and> e \<notin> fst ` set (db_presence db) \<and> e \<in> set (db_live db)"
    and "n = length dead"
    and "db' = retract_relations_for dead (db\<lparr>db_live := filter (\<lambda>e. e \<notin> set dead) (db_live db),
       g_entities := map (\<lambda>(e, r). (e, r\<lparr>er_prov := stamp e r\<rparr>)) (g_entities db)\<rparr>)"
proof -
  let ?dead = "filter (\<lambda>e. e \<in> set gone \<and> e \<notin> fst ` set (db_presence db)) (db_live db)"
  let ?stamp = "\<lambda>e r. if e \<in> set ?dead then pv else er_prov r"
  have same: "map (\<lambda>(e, r). (e, if e \<in> set ?dead then r\<lparr>er_prov := pv\<rparr> else r)) (g_entities db)
      = map (\<lambda>(e, r). (e, r\<lparr>er_prov := ?stamp e r\<rparr>)) (g_entities db)" by auto
  show ?thesis
  proof (cases "?dead = []")
    case True
    with assms have res: "n = 0" "db' = db" unfolding bury_def Let_def by auto
    have none: "touching [] d = []" for d by (auto simp: touching_def filter_empty_conv)
    have "db = retract_relations_for [] (db\<lparr>db_live := filter (\<lambda>e. e \<notin> set []) (db_live db),
       g_entities := map (\<lambda>(e, r). (e, r\<lparr>er_prov := er_prov r\<rparr>)) (g_entities db)\<rparr>)"
      by (simp add: retract_relations_for_def delete_edges_def none case_prod_beta)
    with res True show ?thesis
      by (intro that [of "[]" "\<lambda>e r. er_prov r"]) (auto simp: filter_empty_conv)
  next
    case False
    with assms have "n = length ?dead \<and> db' = retract_relations_for ?dead (db\<lparr>db_live := filter (\<lambda>e. e \<notin> set ?dead) (db_live db),
       g_entities := map (\<lambda>(e, r). (e, if e \<in> set ?dead then r\<lparr>er_prov := pv\<rparr> else r)) (g_entities db)\<rparr>)"
      unfolding bury_def Let_def by (auto split: option.splits simp del: filter_filter)
    then show ?thesis unfolding same by (intro that [of ?dead ?stamp]) auto
  qed
qed

lemma bury_ok:
  assumes ok: "rows_ok db" "identity_ok db" "facets_ok db" "edges_ok db"
    and pres: "fst ` set (db_presence db) \<subseteq> set (db_live db)"
    and bury: "bury wp pv gone db = Inr (n, db')"
  shows "graph_ok db'"
proof -
  from bury obtain dead stamp where dead: "\<And>e. e \<in> set dead \<longleftrightarrow> e \<in> set gone \<and> e \<notin> fst ` set (db_presence db) \<and> e \<in> set (db_live db)"
    and "n = length dead"
    and db': "db' = retract_relations_for dead (db\<lparr>db_live := filter (\<lambda>e. e \<notin> set dead) (db_live db),
       g_entities := map (\<lambda>(e, r). (e, r\<lparr>er_prov := stamp e r\<rparr>)) (g_entities db)\<rparr>)" by (rule bury_effect) auto
  let ?db1 = "db\<lparr>db_live := filter (\<lambda>e. e \<notin> set dead) (db_live db),
       g_entities := map (\<lambda>(e, r). (e, r\<lparr>er_prov := stamp e r\<rparr>)) (g_entities db)\<rparr>"
  have ks: "keys (g_entities ?db1) = keys (g_entities db)" by (simp add: case_prod_beta)
  show ?thesis unfolding db' retract_relations_for_def
  proof (rule delete_edges_ok)
    show "rows_ok ?db1" using ok(1) unfolding rows_ok_def ks by auto
    show "identity_ok ?db1" using ok(2) unfolding identity_ok_def ks by simp
    show "facets_ok ?db1" using ok(3) unfolding facets_ok_def ks by simp
    show "presence_ok ?db1" using pres dead by (auto simp: presence_ok_def)
    show "distinct (keys (g_relations ?db1))" "fst ` set (g_edge_presence ?db1) \<subseteq> set (keys (g_relations ?db1))"
      using ok(4) by (auto simp: edges_ok_def)
    show "fst (snd x) \<in> set (db_live ?db1) \<and> snd (snd x) \<in> set (db_live ?db1)"
      if "x \<in> set (keys (g_relations ?db1))" "x \<notin> set (touching dead ?db1)" for x
      using that ok(4) unfolding touching_iff edges_ok_def by auto
  qed
qed

lemma retract_presence_ok:
  assumes "graph_ok db" and "retract_presence src P db = (gone, db')"
  shows "graph_ok db'"
proof -
  from assms(2) have db': "db' = db\<lparr>db_presence := filter (\<lambda>(e, s). \<not> (s = src \<and> P e)) (db_presence db)\<rparr>"
    by (simp add: retract_presence_def)
  from assms(1) have "presence_ok db'" by (auto simp: db' graph_ok_def presence_ok_def)
  with assms(1) show ?thesis by (simp add: db' graph_inv)
qed

lemma retract_then_bury_ok:
  assumes ok: "graph_ok db" and ret: "retract_presence src P db = (gone, db1)"
    and bury: "bury wp pv gone db1 = Inr (n, db')"
  shows "graph_ok db'"
proof (rule bury_ok [OF _ _ _ _ _ bury])
  have "graph_ok db1" by (rule retract_presence_ok [OF ok ret])
  then show "rows_ok db1" "identity_ok db1" "facets_ok db1" "edges_ok db1"
    "fst ` set (db_presence db1) \<subseteq> set (db_live db1)"
    by (simp_all add: graph_ok_def presence_ok_def)
qed

lemma tombstone_absent_ok:
  assumes "graph_ok db" and "tombstone_absent wp pv scheme seen db = Inr (n, db')"
  shows "graph_ok db'"
  using assms retract_presence_ok [OF assms(1)] retract_then_bury_ok [OF assms(1)]
  by (auto simp: tombstone_absent_def Let_def split: prod.splits if_splits)

lemma tombstone_by_identity_ok:
  assumes "graph_ok db" and "tombstone_by_identity wp pv scheme val db = Inr (b, db')"
  shows "graph_ok db'"
  using assms retract_presence_ok [OF assms(1)] retract_then_bury_ok [OF assms(1)]
  by (auto simp: tombstone_by_identity_def Let_def split: prod.splits if_splits sum.splits)

section \<open>What a writer may touch\<close>

text \<open>The reach of one Syncer: what lies outside it is not written.  A Facet outside may only disappear, with the death
  of its Entity, and a foreign assertion of an edge may only be retracted.\<close>

record reach =
  re_source :: string
  re_schemes :: "string list"
  re_labels :: "string list"
  re_facets :: "string list"

definition label_of :: "graph_db \<Rightarrow> string \<Rightarrow> string \<Rightarrow> string option" where
  "label_of db e k = (case map_of (g_entities db) e of None \<Rightarrow> None | Some r \<Rightarrow> map_of (er_labels r) k)"

definition identity_at :: "graph_db \<Rightarrow> string \<Rightarrow> string \<Rightarrow> string option" where
  "identity_at db e s = map_of (g_identity db) (e, s)"

definition same_identity :: "reach \<Rightarrow> graph_db \<Rightarrow> graph_db \<Rightarrow> bool" where
  "same_identity sc db db' \<longleftrightarrow> (\<forall>e s. s \<notin> set (re_schemes sc) \<longrightarrow> identity_at db' e s = identity_at db e s)"

definition same_labels :: "reach \<Rightarrow> graph_db \<Rightarrow> graph_db \<Rightarrow> bool" where
  "same_labels sc db db' \<longleftrightarrow> (\<forall>e k. k \<notin> set (re_labels sc) \<longrightarrow> label_of db' e k = label_of db e k)"

definition facets_fade :: "reach \<Rightarrow> graph_db \<Rightarrow> graph_db \<Rightarrow> bool" where
  "facets_fade sc db db' \<longleftrightarrow> (\<forall>e ns s. ns \<notin> set (re_facets sc) \<or> s \<noteq> re_source sc \<longrightarrow>
     map_of (g_facets db') (e, ns, s) = None \<or> map_of (g_facets db') (e, ns, s) = map_of (g_facets db) (e, ns, s))"

definition same_presence :: "reach \<Rightarrow> graph_db \<Rightarrow> graph_db \<Rightarrow> bool" where
  "same_presence sc db db' \<longleftrightarrow>
     (\<forall>e s. s \<noteq> re_source sc \<longrightarrow> ((e, s) \<in> set (db_presence db') \<longleftrightarrow> (e, s) \<in> set (db_presence db)))"

definition edges_fade :: "reach \<Rightarrow> graph_db \<Rightarrow> graph_db \<Rightarrow> bool" where
  "edges_fade sc db db' \<longleftrightarrow>
     (\<forall>x s. s \<noteq> re_source sc \<and> (x, s) \<in> set (g_edge_presence db') \<longrightarrow> (x, s) \<in> set (g_edge_presence db))"

definition same_registry :: "reach \<Rightarrow> graph_db \<Rightarrow> graph_db \<Rightarrow> bool" where
  "same_registry sc db db' \<longleftrightarrow> db_sources db' = db_sources db \<and> db_cell db' = db_cell db \<and>
     g_facet_owners db' = g_facet_owners db \<and> g_label_owners db' = g_label_owners db \<and>
     (\<forall>s. s \<noteq> re_source sc \<longrightarrow> map_of (g_cursors db') s = map_of (g_cursors db) s)"

definition confined :: "reach \<Rightarrow> graph_db \<Rightarrow> graph_db \<Rightarrow> bool" where
  "confined sc db db' \<longleftrightarrow> same_identity sc db db' \<and> same_labels sc db db' \<and> facets_fade sc db db' \<and>
     same_presence sc db db' \<and> edges_fade sc db db' \<and> same_registry sc db db'"

lemmas within_parts = confined_def same_identity_def same_labels_def facets_fade_def same_presence_def edges_fade_def
  same_registry_def

lemma within_refl [simp, intro]: "confined sc db db"
  by (simp add: within_parts)

lemma within_trans [trans]:
  assumes "confined sc a b" and "confined sc b c"
  shows "confined sc a c"
proof -
  from assms have "facets_fade sc a b" "facets_fade sc b c" by (simp_all add: confined_def)
  then have "facets_fade sc a c" unfolding facets_fade_def by metis
  with assms show ?thesis by (auto simp: within_parts)
qed

text \<open>A Source keeps alive what it observes: no other writer within its reach can end it.\<close>

lemma within_keeps_alive:
  assumes "confined sc db db'" and "graph_ok db'" and "(e, s) \<in> set (db_presence db)" and "s \<noteq> re_source sc"
  shows "e \<in> set (db_live db')"
proof -
  from assms(1,3,4) have "(e, s) \<in> set (db_presence db')" by (simp add: within_parts)
  with assms(2) show ?thesis by (force simp: graph_ok_def presence_ok_def)
qed

lemma upsert_facet_within:
  assumes "upsert_facet env wp pv eid ns q val db = Inr db'" and "ns \<in> set (re_facets sc)" and "pv_source pv = re_source sc"
  shows "confined sc db db'"
proof -
  from assms(1) obtain c k h where "db' = db\<lparr>g_facets := aput (eid, ns, pv_source pv) c (g_facets db),
      g_facet_history := aput k h (g_facet_history db)\<rparr>"
    by (rule upsert_facet_effect)
  with assms(2,3) show ?thesis by (simp add: within_parts identity_at_def label_of_def map_of_aput)
qed

lemma facet_writes_within:
  assumes "set (keys fs) \<subseteq> set (re_facets sc)" and "pv_source pv = re_source sc"
    and "fold_err (\<lambda>(ns, val). upsert_facet env wp pv eid ns [] val) fs db = Inr db'"
  shows "confined sc db db'"
  using assms(1,3)
proof (induction fs arbitrary: db)
  case (Cons p fs)
  obtain ns val where p: "p = (ns, val)" by (cases p)
  with Cons.prems(2) obtain d where one: "upsert_facet env wp pv eid ns [] val db = Inr d"
    and rest: "fold_err (\<lambda>(ns, val). upsert_facet env wp pv eid ns [] val) fs d = Inr db'"
    by (auto split: sum.splits)
  from Cons.prems(1) p have ns: "ns \<in> set (re_facets sc)" and fs: "set (keys fs) \<subseteq> set (re_facets sc)" by simp_all
  from upsert_facet_within [OF one ns assms(2)] Cons.IH [OF fs rest] show ?case by (rule within_trans)
qed simp

lemma map_of_drop_entity:
  "map_of (filter (\<lambda>((e, _), _). e \<noteq> eid) m) x = (if fst x = eid then None else map_of m x)"
  by (induction m) auto

lemma entity_row_within:
  assumes fresh: "fresh_uuids env" and labels: "set (keys (eu_labels u)) \<subseteq> set (re_labels sc)"
    and row: "(case correlate (eu_ids u) db of [] \<Rightarrow> insert_entity env wp pv u db
      | [e] \<Rightarrow> update_entity wp pv u e db | _ \<Rightarrow> Inl IdentityConflict) = Inr (eid, db')"
  shows "confined sc db db'"
proof -
  from row obtain r where lab: "er_labels r = over (eu_labels u) (case map_of (g_entities db) eid of None \<Rightarrow> [] | Some r0 \<Rightarrow> er_labels r0)
         \<or> eid = ge_uuid env (keys (g_entities db)) \<and> er_labels r = over (eu_labels u) []"
    and db': "db' = db\<lparr>g_entities := aput eid r (g_entities db), db_live := List.insert eid (db_live db),
             g_facets := (if eid \<in> set (db_live db) \<or> correlate (eu_ids u) db = [] then g_facets db
                          else filter (\<lambda>((e, _), _). e \<noteq> eid) (g_facets db))\<rparr>"
    by (rule entity_row_written)
  have "er_labels r = over (eu_labels u) (case map_of (g_entities db) eid of None \<Rightarrow> [] | Some r0 \<Rightarrow> er_labels r0)"
    using lab
  proof (elim disjE conjE)
    assume new: "eid = ge_uuid env (keys (g_entities db))" "er_labels r = over (eu_labels u) []"
    from fresh have "eid \<notin> set (keys (g_entities db))" unfolding new(1) fresh_uuids_def by (rule spec)
    then have "map_of (g_entities db) eid = None" by (simp add: map_of_None_key)
    with new show ?thesis by simp
  qed
  then have "label_of db' e k = label_of db e k" if k: "k \<notin> set (re_labels sc)" for e k
  proof -
    from labels k have "k \<notin> set (keys (eu_labels u))" by blast
    then have "map_of (over (eu_labels u) m) k = map_of m k" for m by (rule map_of_over_other)
    with \<open>er_labels r = _\<close> show ?thesis by (simp add: db' label_of_def map_of_aput split: option.splits)
  qed
  moreover have fade: "map_of (filter (\<lambda>((e, _), _). e \<noteq> eid) (g_facets db)) x = None \<or>
      map_of (filter (\<lambda>((e, _), _). e \<noteq> eid) (g_facets db)) x = map_of (g_facets db) x" for x
    by (simp add: map_of_drop_entity)
  ultimately show ?thesis by (simp add: db' within_parts identity_at_def)
qed

lemma upsert_entity_within:
  assumes fresh: "fresh_uuids env" and src: "pv_source pv = re_source sc"
    and ids: "set (keys (eu_ids u)) \<subseteq> set (re_schemes sc)" and labels: "set (keys (eu_labels u)) \<subseteq> set (re_labels sc)"
    and fs: "set (keys (eu_facets u)) \<subseteq> set (re_facets sc)"
    and up: "upsert_entity env wp pv u db = Inr (eid, db')"
  shows "confined sc db db'"
proof -
  from up obtain db1 where row: "(case correlate (eu_ids u) db of [] \<Rightarrow> insert_entity env wp pv u db
      | [e] \<Rightarrow> update_entity wp pv u e db | _ \<Rightarrow> Inl IdentityConflict) = Inr (eid, db1)"
    and obs: "record_observation env wp pv u eid db1 = Inr db'" by (rule upsert_entity_split)
  let ?db2 = "db1\<lparr>g_identity := over (map (\<lambda>(s, v). ((eid, s), v)) (eu_ids u)) (g_identity db1)\<rparr>"
  from obs obtain db3 where pres: "record_presence pv eid ?db2 = Inr db3"
    and facets: "fold_err (\<lambda>(ns, val). upsert_facet env wp pv eid ns [] val) (eu_facets u) db3 = Inr db'"
    by (auto simp: record_observation_def split: sum.splits)
  have "confined sc db db1" by (rule entity_row_within [OF fresh labels row])
  also have "confined sc db1 ?db2"
  proof -
    have "identity_at ?db2 e s = identity_at db1 e s" if "s \<notin> set (re_schemes sc)" for e s
    proof -
      have "(e, s) \<notin> set (keys (map (\<lambda>(s, v). ((eid, s), v)) (eu_ids u)))" using ids that by auto
      then show ?thesis by (simp add: identity_at_def map_of_over_other)
    qed
    then show ?thesis by (simp add: within_parts label_of_def)
  qed
  also have "confined sc ?db2 db3"
  proof -
    from pres obtain ps where db3: "db3 = ?db2\<lparr>db_presence := ps\<rparr>" and lo: "set (db_presence ?db2) \<subseteq> set ps"
      and ps: "set ps \<subseteq> insert (eid, pv_source pv) (set (db_presence ?db2))" by (rule record_presence_effect)
    with src have "(e, s) \<in> set ps \<longleftrightarrow> (e, s) \<in> set (db_presence ?db2)" if "s \<noteq> re_source sc" for e s
      using that by auto
    then show ?thesis by (simp add: db3 within_parts label_of_def identity_at_def)
  qed
  also have "confined sc db3 db'" by (rule facet_writes_within [OF fs src facets])
  finally show ?thesis .
qed

lemma upsert_relation_within:
  assumes "upsert_relation wp pv ty f t db = Inr db'" and "pv_source pv = re_source sc"
  shows "confined sc db db'"
proof -
  from assms(1) obtain ps where db': "db' = db\<lparr>g_relations := aput (ty, f, t) pv (g_relations db), g_edge_presence := ps\<rparr>"
    and "set (g_edge_presence db) \<subseteq> set ps" and ps: "set ps \<subseteq> insert ((ty, f, t), pv_source pv) (set (g_edge_presence db))"
    by (rule upsert_relation_effect)
  from ps assms(2) have "(x, s) \<in> set (g_edge_presence db)" if "s \<noteq> re_source sc" "(x, s) \<in> set ps" for x s
    using that by auto
  then show ?thesis by (auto simp: db' within_parts label_of_def identity_at_def)
qed

lemma delete_edges_within: "confined sc db (delete_edges dead db)"
  by (auto simp: within_parts label_of_def identity_at_def)

lemma retract_relation_within: "confined sc db (retract_relation ty f t db)"
  by (simp add: retract_relation_def delete_edges_within)

lemma retract_source_presence_except_within:
  assumes "src = re_source sc"
  shows "confined sc db (snd (retract_source_presence_except src ty keep db))"
proof -
  let ?db1 = "db\<lparr>g_edge_presence := filter (\<lambda>((ty', f, t), s). \<not> (s = src \<and> ty' = ty \<and> (f, t) \<notin> set keep)) (g_edge_presence db)\<rparr>"
  have "confined sc db ?db1" by (auto simp: within_parts label_of_def identity_at_def)
  also have "confined sc ?db1 (snd (retract_source_presence_except src ty keep db))"
    unfolding retract_source_presence_except_def Let_def by (simp add: delete_edges_within)
  finally show ?thesis .
qed

lemma label_of_restamp:
  "map_of (map (\<lambda>(e, r). (e, r\<lparr>er_prov := stamp e r\<rparr>)) m) e = map_option (\<lambda>r. r\<lparr>er_prov := stamp e r\<rparr>) (map_of m e)"
  by (induction m) auto

lemma bury_within:
  assumes "bury wp pv gone db = Inr (n, db')"
  shows "confined sc db db'"
proof -
  from assms obtain dead stamp where "\<And>e. e \<in> set dead \<longleftrightarrow> e \<in> set gone \<and> e \<notin> fst ` set (db_presence db) \<and> e \<in> set (db_live db)"
    and "n = length dead"
    and db': "db' = retract_relations_for dead (db\<lparr>db_live := filter (\<lambda>e. e \<notin> set dead) (db_live db),
       g_entities := map (\<lambda>(e, r). (e, r\<lparr>er_prov := stamp e r\<rparr>)) (g_entities db)\<rparr>)" by (rule bury_effect) auto
  let ?db1 = "db\<lparr>db_live := filter (\<lambda>e. e \<notin> set dead) (db_live db),
       g_entities := map (\<lambda>(e, r). (e, r\<lparr>er_prov := stamp e r\<rparr>)) (g_entities db)\<rparr>"
  have "label_of ?db1 e k = label_of db e k" for e k
    by (simp add: label_of_def label_of_restamp split: option.splits)
  then have "confined sc db ?db1" by (simp add: within_parts identity_at_def)
  also have "confined sc ?db1 db'" by (simp add: db' retract_relations_for_def delete_edges_within)
  finally show ?thesis .
qed

lemma retract_presence_within:
  assumes "retract_presence src P db = (gone, db')" and "src = re_source sc"
  shows "confined sc db db'"
proof -
  from assms(1) have db': "db' = db\<lparr>db_presence := filter (\<lambda>(e, s). \<not> (s = src \<and> P e)) (db_presence db)\<rparr>"
    by (simp add: retract_presence_def)
  show ?thesis using assms(2) by (auto simp: db' within_parts label_of_def identity_at_def)
qed

lemma tombstone_absent_within:
  assumes "tombstone_absent wp pv scheme seen db = Inr (n, db')" and "pv_source pv = re_source sc"
  shows "confined sc db db'"
proof -
  obtain gone db1 where ret: "retract_presence (pv_source pv)
      (\<lambda>e. case map_of (g_identity db) (e, scheme) of None \<Rightarrow> False | Some v \<Rightarrow> v \<notin> set seen) db = (gone, db1)" by fastforce
  have "confined sc db db1" by (rule retract_presence_within [OF ret assms(2)])
  also have "confined sc db1 db'"
    using assms(1) ret by (auto simp: tombstone_absent_def Let_def split: if_splits intro: bury_within)
  finally show ?thesis .
qed

lemma tombstone_by_identity_within:
  assumes "tombstone_by_identity wp pv scheme val db = Inr (b, db')" and "pv_source pv = re_source sc"
  shows "confined sc db db'"
proof -
  obtain gone db1 where ret: "retract_presence (pv_source pv)
      (\<lambda>e. map_of (g_identity db) (e, scheme) = Some val) db = (gone, db1)" by fastforce
  have "confined sc db db1" by (rule retract_presence_within [OF ret assms(2)])
  also have "confined sc db1 db'"
    using assms(1) ret by (auto simp: tombstone_by_identity_def Let_def split: if_splits sum.splits intro: bury_within)
  finally show ?thesis .
qed

section \<open>What a write and a retraction come to\<close>

lemma upsert_facet_frame:
  "upsert_facet env wp pv eid ns q val db = Inr db' \<Longrightarrow>
    g_identity db' = g_identity db \<and> db_live db' = db_live db \<and> db_presence db' = db_presence db"
  by (erule upsert_facet_effect) simp

interpretation facet_frame: checked_loop "\<lambda>(ns, val). upsert_facet env wp pv eid ns [] val"
    "\<lambda>d. g_identity d = i \<and> db_live d = l \<and> db_presence d = p"
  for env wp pv eid i l p
  by unfold_locales (auto dest: upsert_facet_frame)

lemma upsert_entity_lands:
  assumes ok: "graph_ok db" and ids: "distinct (keys (eu_ids u))"
    and up: "upsert_entity env wp pv u db = Inr (eid, db')"
  shows "eid \<in> set (db_live db') \<and> (\<forall>(s, v) \<in> set (eu_ids u). ((eid, s), v) \<in> set (g_identity db')) \<and>
    set (db_live db') = insert eid (set (db_live db)) \<and>
    set (db_presence db) \<subseteq> set (db_presence db')"
proof -
  from up obtain db1 where row: "(case correlate (eu_ids u) db of [] \<Rightarrow> insert_entity env wp pv u db
      | [e] \<Rightarrow> update_entity wp pv u e db | _ \<Rightarrow> Inl IdentityConflict) = Inr (eid, db1)"
    and obs: "record_observation env wp pv u eid db1 = Inr db'" by (rule upsert_entity_split)
  from row obtain r where db1: "db1 = db\<lparr>g_entities := aput eid r (g_entities db), db_live := List.insert eid (db_live db),
             g_facets := (if eid \<in> set (db_live db) \<or> correlate (eu_ids u) db = [] then g_facets db
                          else filter (\<lambda>((e, _), _). e \<noteq> eid) (g_facets db))\<rparr>" by (rule entity_row_written)
  let ?new = "map (\<lambda>(s, v). ((eid, s), v)) (eu_ids u)"
  let ?db2 = "db1\<lparr>g_identity := over ?new (g_identity db1)\<rparr>"
  from obs obtain db3 where pres: "record_presence pv eid ?db2 = Inr db3"
    and facets: "fold_err (\<lambda>(ns, val). upsert_facet env wp pv eid ns [] val) (eu_facets u) db3 = Inr db'"
    by (auto simp: record_observation_def split: sum.splits)
  from pres obtain ps where db3: "db3 = ?db2\<lparr>db_presence := ps\<rparr>" and ps: "set (db_presence ?db2) \<subseteq> set ps"
    by (rule record_presence_effect)
  have fr: "g_identity db' = g_identity db3 \<and> db_live db' = db_live db3 \<and> db_presence db' = db_presence db3"
    by (rule facet_frame.loop_inv [OF _ facets]) simp
  have "keys ?new = map (Pair eid) (keys (eu_ids u))" by (induction "eu_ids u") auto
  then have "distinct (keys ?new)" using ids by (simp only: distinct_map) (simp add: inj_on_def)
  moreover have "distinct (keys (g_identity db))" using ok by (simp add: graph_ok_def identity_ok_def)
  ultimately have "set ?new \<subseteq> set (g_identity db')"
    using set_over [of "g_identity db" ?new] by (simp add: fr db3 db1)
  then have idn: "\<forall>(s, v) \<in> set (eu_ids u). ((eid, s), v) \<in> set (g_identity db')" by auto
  have "set (db_live db') = insert eid (set (db_live db))" by (simp add: fr db3 db1)
  with idn ps show ?thesis by (simp add: fr db3 db1)
qed

text \<open>One key names one live Entity.\<close>

lemma entity_id_by_identity_iff:
  assumes "graph_ok db"
  shows "entity_id_by_identity db s v = Some e \<longleftrightarrow> ((e, s), v) \<in> set (g_identity db) \<and> e \<in> set (db_live db)"
proof
  assume "entity_id_by_identity db s v = Some e"
  then obtain x where x: "find (\<lambda>((e, s'), v'). s' = s \<and> v' = v \<and> e \<in> set (db_live db)) (g_identity db) = Some x"
    and e: "e = fst (fst x)" by (auto simp: entity_id_by_identity_def)
  from x have "x \<in> set (g_identity db)" "(\<lambda>((e, s'), v'). s' = s \<and> v' = v \<and> e \<in> set (db_live db)) x"
    by (auto simp: find_Some_iff in_set_conv_nth)
  with e show "((e, s), v) \<in> set (g_identity db) \<and> e \<in> set (db_live db)" by (auto split: prod.splits)
next
  assume r: "((e, s), v) \<in> set (g_identity db) \<and> e \<in> set (db_live db)"
  let ?P = "\<lambda>((e, s'), v'). s' = s \<and> v' = v \<and> e \<in> set (db_live db)"
  from r have "find ?P (g_identity db) \<noteq> None" by (auto simp: find_None_iff)
  then obtain x where x: "find ?P (g_identity db) = Some x" by auto
  then have "x \<in> set (g_identity db)" "?P x" by (auto simp: find_Some_iff in_set_conv_nth)
  then obtain e' where e': "x = ((e', s), v)" "((e', s), v) \<in> set (g_identity db)" by (auto split: prod.splits)
  from assms have "\<forall>x \<in> set (g_identity db). \<forall>y \<in> set (g_identity db). snd (fst x) = snd (fst y) \<and> snd x = snd y \<longrightarrow> x = y"
    by (simp add: graph_ok_def identity_ok_def)
  from bspec [OF bspec [OF this e'(2)] conjunct1 [OF r]] have "e' = e" by simp
  with x e' show "entity_id_by_identity db s v = Some e" by (simp add: entity_id_by_identity_def)
qed

text \<open>After an observation is projected, every identity key it carries resolves to the Entity it was projected onto.\<close>

theorem observation_resolves:
  assumes "graph_ok db" and "distinct (keys (eu_ids u))"
    and "upsert_entity env wp pv u db = Inr (eid, db')"
  shows "list_all (\<lambda>(s, v). entity_id_by_identity db' s v = Some eid) (eu_ids u)"
  using upsert_entity_lands [OF assms] upsert_entity_ok [OF assms]
  by (auto simp: list_all_iff entity_id_by_identity_iff)

definition observers :: "graph_db \<Rightarrow> string \<Rightarrow> string set" where
  "observers db e = {s. (e, s) \<in> set (db_presence db)}"

definition asserters :: "graph_db \<Rightarrow> edge \<Rightarrow> string set" where
  "asserters db x = {s. (x, s) \<in> set (g_edge_presence db)}"

text \<open>Liveness is a union over Sources: a full resync ends exactly the Entities that only this Source observed and
  whose key it did not see.\<close>

lemma bury_live:
  assumes "bury wp pv gone db = Inr (n, db')"
  shows "set (db_live db') = {e \<in> set (db_live db). \<not> (e \<in> set gone \<and> observers db e = {})}"
proof -
  from assms obtain dead stamp where dead: "\<And>e. e \<in> set dead \<longleftrightarrow> e \<in> set gone \<and> e \<notin> fst ` set (db_presence db) \<and> e \<in> set (db_live db)"
    and "n = length dead"
    and db': "db' = retract_relations_for dead (db\<lparr>db_live := filter (\<lambda>e. e \<notin> set dead) (db_live db),
       g_entities := map (\<lambda>(e, r). (e, r\<lparr>er_prov := stamp e r\<rparr>)) (g_entities db)\<rparr>)" by (rule bury_effect) auto
  have "e \<notin> fst ` set (db_presence db) \<longleftrightarrow> observers db e = {}" for e
    by (force simp: observers_def)
  with dead show ?thesis by (auto simp: db' retract_relations_for_def)
qed

definition absent_from :: "graph_db \<Rightarrow> string \<Rightarrow> string list \<Rightarrow> string \<Rightarrow> bool" where
  "absent_from db scheme seen e = (case identity_at db e scheme of None \<Rightarrow> False | Some v \<Rightarrow> v \<notin> set seen)"

theorem tombstone_absent_exact:
  assumes ok: "graph_ok db" and res: "tombstone_absent wp pv scheme seen db = Inr (n, db')"
  shows "set (db_live db') = {e \<in> set (db_live db). \<not> (observers db e = {pv_source pv} \<and> absent_from db scheme seen e)}"
proof -
  let ?P = "\<lambda>e. case map_of (g_identity db) (e, scheme) of None \<Rightarrow> False | Some v \<Rightarrow> v \<notin> set seen"
  obtain gone db1 where ret: "retract_presence (pv_source pv) ?P db = (gone, db1)" by fastforce
  have P: "?P e = absent_from db scheme seen e" for e by (simp add: absent_from_def identity_at_def)
  from ret have gone: "e \<in> set gone \<longleftrightarrow> pv_source pv \<in> observers db e \<and> absent_from db scheme seen e" for e
    by (force simp: retract_presence_def observers_def P image_iff)
  from ret have left: "observers db1 e = observers db e - (if absent_from db scheme seen e then {pv_source pv} else {})" for e
    by (auto simp: retract_presence_def observers_def P)
  from ret have live: "db_live db1 = db_live db" by (auto simp: retract_presence_def)
  show ?thesis
  proof (cases "gone = []")
    case True
    then have "\<not> (observers db e = {pv_source pv} \<and> absent_from db scheme seen e)" for e
      using gone [of e] by auto
    then show ?thesis using res ret True live by (auto simp: tombstone_absent_def)
  next
    case False
    with res ret have "bury wp pv gone db1 = Inr (n, db')" by (simp add: tombstone_absent_def)
    from bury_live [OF this] show ?thesis unfolding live gone left by auto
  qed
qed

theorem retract_source_presence_exact:
  assumes "graph_ok db"
  shows "set (g_relations (snd (retract_source_presence_except src ty keep db))) =
    {(x, pv) \<in> set (g_relations db). \<not> (fst x = ty \<and> pv_kind pv = WriterSyncer \<and>
       asserters db x \<subseteq> (if snd x \<in> set keep then {} else {src}))}"
proof -
  let ?keep = "\<lambda>((ty', f, t), s). \<not> (s = src \<and> ty' = ty \<and> (f, t) \<notin> set keep)"
  let ?db1 = "db\<lparr>g_edge_presence := filter ?keep (g_edge_presence db)\<rparr>"
  have gone: "x \<notin> fst ` set (g_edge_presence ?db1) \<longleftrightarrow> asserters db x \<subseteq> (if snd x \<in> set keep then {} else {src})"
    if "fst x = ty" for x
    using that by (cases x) (force simp: asserters_def image_iff)
  let ?dead = "map fst (filter (\<lambda>((ty', f, t), pv). ty' = ty \<and> pv_kind pv = WriterSyncer \<and>
                   (ty', f, t) \<notin> fst ` set (g_edge_presence ?db1)) (g_relations ?db1))"
  have dead: "x \<in> set ?dead \<longleftrightarrow> fst x = ty \<and> pv_kind pv = WriterSyncer \<and>
      asserters db x \<subseteq> (if snd x \<in> set keep then {} else {src})" if "(x, pv) \<in> set (g_relations db)" for x pv
  proof -
    have "pv' = pv" if "(x, pv') \<in> set (g_relations db)" for pv'
      using that \<open>(x, pv) \<in> set (g_relations db)\<close> assms
      by (auto simp: graph_ok_def edges_ok_def dest: eq_key_imp_eq_value)
    moreover have "x \<in> set ?dead \<longleftrightarrow> (\<exists>pv'. (x, pv') \<in> set (g_relations db) \<and> fst x = ty \<and> pv_kind pv' = WriterSyncer \<and>
        x \<notin> fst ` set (g_edge_presence ?db1))"
      unfolding in_keys_filter by (cases x) simp
    ultimately have "x \<in> set ?dead \<longleftrightarrow> fst x = ty \<and> pv_kind pv = WriterSyncer \<and> x \<notin> fst ` set (g_edge_presence ?db1)"
      using that by blast
    with gone show ?thesis by blast
  qed
  have "set (g_relations (snd (retract_source_presence_except src ty keep db))) =
      {x \<in> set (g_relations db). fst x \<notin> set ?dead}"
  proof -
    have "snd (retract_source_presence_except src ty keep db) = delete_edges ?dead ?db1"
      by (simp only: retract_source_presence_except_def Let_def snd_conv)
    then show ?thesis by (simp only: delete_edges_fields) simp
  qed
  with dead show ?thesis by fastforce
qed

text \<open>A claim on a Facet namespace is never refused for another owner's sake, unless both claim its authority.\<close>

theorem facet_claims_coexist: "\<not> ow_authoritative o' \<Longrightarrow> \<exists>db'. register_facet_owner o' db = Inr db' \<and> o' \<in> set (g_facet_owners db') \<and>
    (\<forall>x \<in> set (g_facet_owners db). ow_ref x \<noteq> ow_ref o' \<longrightarrow> x \<in> set (g_facet_owners db'))"
  by (simp add: register_facet_owner_def)

section \<open>A small graph\<close>

definition demo_env :: graph_env where
  "demo_env = \<lparr>ge_uuid = (\<lambda>ids. CHR ''e'' # concat ids), ge_contract = (\<lambda>_ _. True)\<rparr>"

lemma demo_env_fresh: "fresh_uuids demo_env"
proof -
  have "length e \<le> length (concat ids)" if "e \<in> set ids" for e :: string and ids
    using that by (induction ids) auto
  then show ?thesis by (fastforce simp: fresh_uuids_def demo_env_def)
qed

definition demo_source :: "string \<Rightarrow> source_row" where
  "demo_source n = \<lparr>ss_kind = ''vcenter'', ss_name = n, ss_endpoint = [], ss_credential_ref = [],
     sr_cell = Some ''local'', sr_rehoming_to = None, sr_home_epoch = 0\<rparr>"

definition demo_graph :: graph_db where
  "demo_graph = \<lparr>db_cell = ''local'', db_sources = [(''vc'', demo_source ''vc''), (''chef'', demo_source ''chef'')],
     db_presence = [], db_live = [], db_drift = [], db_findings = [],
     g_entities = [], g_identity = [], g_relations = [], g_edge_presence = [], g_facets = [], g_facet_history = [],
     g_facet_owners = [\<lparr>ow_namespace = ''app.config'', ow_kind = ''team'', ow_ref = ''web'', ow_scope = [], ow_authoritative = False\<rparr>],
     g_label_owners = [], g_cursors = []\<rparr>"

lemma demo_graph_ok: "graph_ok demo_graph"
  by (simp add: demo_graph_def graph_inv)

definition syncer_of :: "string \<Rightarrow> provenance" where
  "syncer_of src = \<lparr>pv_kind = WriterSyncer, pv_ref = ''plugin/'' @ src @ ''/syncer'', pv_source = src\<rparr>"

definition by_run :: "string \<Rightarrow> provenance" where
  "by_run run = \<lparr>pv_kind = WriterRun, pv_ref = run, pv_source = []\<rparr>"

definition seen_as :: "string gomap \<Rightarrow> entity_upsert" where
  "seen_as ids = \<lparr>eu_kind = ''host'', eu_ids = ids, eu_labels = [], eu_facets = []\<rparr>"

definition demo_host :: "graph_error + (string \<times> graph_db)" where
  "demo_host = upsert_entity demo_env Normalizer (syncer_of ''vc'') (seen_as [(''vcenter.uuid'', ''v1'')]) demo_graph"

theorem observation_resolves_witness:
  "case demo_host of Inl _ \<Rightarrow> False
   | Inr (eid, db) \<Rightarrow> list_all (\<lambda>(s, v). entity_id_by_identity db s v = Some eid) [(''vcenter.uuid'', ''v1'')]"
proof -
  have "\<not> isl demo_host" by code_simp
  then obtain x where "demo_host = Inr x" by (metis isl_def sum.exhaust)
  then obtain eid db where up: "demo_host = Inr (eid, db)" by (cases x) blast
  have "list_all (\<lambda>(s, v). entity_id_by_identity db s v = Some eid) (eu_ids (seen_as [(''vcenter.uuid'', ''v1'')]))"
    by (rule observation_resolves [OF demo_graph_ok _ up [unfolded demo_host_def]]) (simp add: seen_as_def)
  then show ?thesis unfolding up by (simp add: seen_as_def)
qed

text \<open>
  A tombstoned Entity that is observed again loses its Facets and keeps their history: a Facet written then under another
  qualifier starts at version 1, which the history of the slot holds already, and the write fails.
\<close>

theorem revived_qualifier_collides:
  "(case demo_host of Inl e \<Rightarrow> Inl e | Inr (eid, d1) \<Rightarrow>
    case upsert_facet demo_env RunProvenance (by_run ''r1'') eid ''app.config'' ''apache'' ''1'' d1 of Inl e \<Rightarrow> Inl e | Inr d2 \<Rightarrow>
    case tombstone_by_identity Normalizer (syncer_of ''vc'') ''vcenter.uuid'' ''v1'' d2 of Inl e \<Rightarrow> Inl e | Inr (_, d3) \<Rightarrow>
    case upsert_entity demo_env Normalizer (syncer_of ''vc'') (seen_as [(''vcenter.uuid'', ''v1'')]) d3 of Inl e \<Rightarrow> Inl e
    | Inr (_, d4) \<Rightarrow> upsert_facet demo_env RunProvenance (by_run ''r2'') eid ''app.config'' ''tomcat'' ''2'' d4)
   = Inl (VersionTaken ''app.config'')"
  by code_simp

end
