(* ===== verification/Governor.thy ===== *)
theory Governor
  imports Projection GoText
begin

text \<open>
  The governor of the plugin port (\<open>core/internal/pluginhost/grant.go\<close>, \<open>host.go\<close>): the operator grant, the gate every
  emission passes, the governed fold of an Apply stream and of an Invoke stream, and what crosses to a plugin of its
  credentials.  A stream of the wire is the list of its messages and the way it ends; bytes are strings.
\<close>

section \<open>The grant\<close>

record grant =
  gr_identity :: string
  gr_tier :: string
  gr_source :: source_spec
  gr_facets :: "string list"
  gr_authoritative :: "string list"
  gr_labels :: "string list"
  gr_schemes :: "string list"
  gr_tombstones :: "string list"
  gr_emitter :: string

definition tier_trusted :: string where
  "tier_trusted = ''trusted''"

definition shared_schemes :: "string list" where
  "shared_schemes = [''dns.fqdn'', ''mac'']"

datatype refusal =
    SchemeUngranted | SharedSchemeUntrusted | NoGrantedKey | LabelUngranted | FacetUngranted | FacetOutOfScope
  | IdentitiesConflict | TargetNotFound | OutsideResolvedSet | NoContractPinned | ContractDrift | OutsideSource
  | NoMatch | PublishFailed

record rejected =
  rj_kind :: string
  rj_detail :: string
  rj_reason :: refusal

definition rejection :: "string \<Rightarrow> string \<Rightarrow> refusal \<Rightarrow> rejected" where
  "rejection kind detail r = \<lparr>rj_kind = kind, rj_detail = detail, rj_reason = r\<rparr>"

definition emitter_name :: "grant \<Rightarrow> string" where
  "emitter_name g = (if gr_emitter g \<noteq> [] then gr_emitter g else ss_name (gr_source g))"

definition writer_ref :: "grant \<Rightarrow> string" where
  "writer_ref g = ''plugin/'' @ gr_identity g @ ''/'' @ ss_name (gr_source g) @ ''/syncer''"

text \<open>The second result of \<open>allowsIdentity\<close> is the reason; \<open>None\<close> is the answer \<open>true\<close>.\<close>

definition allows_identity :: "grant \<Rightarrow> string \<Rightarrow> refusal option" where
  "allows_identity g scheme =
     (if scheme \<notin> set (gr_schemes g) then Some SchemeUngranted
      else if scheme \<in> set shared_schemes \<and> gr_tier g \<noteq> tier_trusted then Some SharedSchemeUntrusted
      else None)"

definition allows_label :: "grant \<Rightarrow> string \<Rightarrow> refusal option" where
  "allows_label g k = (if k \<in> set (gr_labels g) then None else Some LabelUngranted)"

definition allows_facet :: "grant \<Rightarrow> string \<Rightarrow> refusal option" where
  "allows_facet g ns = (if ns \<in> set (gr_facets g) then None else Some FacetUngranted)"

text \<open>The effective allowlist of an Apply: the grant, then the write scope of the Step.\<close>

definition allows_write_back :: "grant \<Rightarrow> string list \<Rightarrow> string \<Rightarrow> refusal option" where
  "allows_write_back g scope ns =
     (case allows_facet g ns of Some r \<Rightarrow> Some r | None \<Rightarrow> if ns \<in> set scope then None else Some FacetOutOfScope)"

section \<open>The gate of an emission\<close>

record observed_relation =
  ob_type :: string
  ob_to_scheme :: string
  ob_to_value :: string

record observed_entity =
  oe_kind :: string
  oe_ids :: "string gomap"
  oe_labels :: "string gomap"
  oe_facets :: "string gomap"
  oe_relations :: "observed_relation list"

definition passing :: "(string \<Rightarrow> refusal option) \<Rightarrow> string gomap \<Rightarrow> string gomap" where
  "passing gate m = filter (\<lambda>(k, _). gate k = None) m"

definition refused :: "(string \<Rightarrow> refusal option) \<Rightarrow> string \<Rightarrow> string gomap \<Rightarrow> rejected list" where
  "refused gate kind m = List.map_filter (\<lambda>(k, _). map_option (rejection kind k) (gate k)) m"

text \<open>\<open>toUpsert\<close>, and the gate \<open>govern\<close> puts each write-back through: they differ in the Facets they admit.\<close>

definition gate_entity :: "grant \<Rightarrow> (string \<Rightarrow> refusal option) \<Rightarrow> observed_entity \<Rightarrow> entity_upsert option \<times> rejected list" where
  "gate_entity g facet_gate e =
     (let ids = passing (allows_identity g) (oe_ids e);
          bad_ids = refused (allows_identity g) ''identity-scheme'' (oe_ids e)
      in if ids = [] then (None, bad_ids @ [rejection ''entity'' (oe_kind e) NoGrantedKey])
         else (Some \<lparr>eu_kind = oe_kind e, eu_ids = ids, eu_labels = passing (allows_label g) (oe_labels e),
                     eu_facets = passing facet_gate (oe_facets e)\<rparr>,
               bad_ids @ refused (allows_label g) ''label'' (oe_labels e) @ refused facet_gate ''facet'' (oe_facets e)))"

definition to_upsert :: "grant \<Rightarrow> observed_entity \<Rightarrow> entity_upsert option \<times> rejected list" where
  "to_upsert g e = gate_entity g (allows_facet g) e"

section \<open>The Apply governor\<close>

datatype item_status = StatusUnspecified | StatusOK | StatusChanged | StatusFailed | StatusUnreachable

definition apply_status :: "item_status \<Rightarrow> string" where
  "apply_status s = (case s of StatusOK \<Rightarrow> ''ok'' | StatusChanged \<Rightarrow> ''changed'' | StatusFailed \<Rightarrow> ''failed''
     | StatusUnreachable \<Rightarrow> ''unreachable'' | StatusUnspecified \<Rightarrow> ''unspecified'')"

record task_event =
  te_terminal :: bool
  te_ok :: bool
  te_message :: string
  te_checkpoint :: string

record derived_schema =
  ds_id :: string
  ds_rev :: string
  ds_schema :: string
  ds_rung :: int

record apply_response =
  ar_event :: "task_event option"
  ar_write_back :: "observed_entity list"
  ar_result :: "(string \<times> item_status) option"
  ar_drift :: "(string \<times> string) option"
  ar_outputs :: "string option"
  ar_output_contract :: string
  ar_derived :: "derived_schema option"

record raw_apply =
  ra_succeeded :: bool
  ra_error :: string
  ra_per_target :: "string gomap"
  ra_write_back :: "entity_upsert list"
  ra_drift :: "string list gomap"
  ra_derived :: "derived_schema list"
  ra_checkpoint :: string
  ra_rejections :: "rejected list"
  ra_outputs :: "string option"

record govern_state = raw_apply +
  gs_failed :: bool
  gs_terminal :: bool

datatype stream_end = Eof | RecvFailed | Canceled

datatype host_error = StreamFailed | StreamCanceled | OutputContractDrift string | ManifestUnread | IdentityMismatch
  | VerbMissing | ContractUngranted string | TombstoneRefused string refusal | SourceUnregistered | GraphFailed graph_error
  | OwnerRefused graph_error | NotRegistered | NoPlanStore | PlanUnstored | PlanUnverified | RpcFailed

definition is_bad :: "string \<Rightarrow> bool" where
  "is_bad st \<longleftrightarrow> st = ''failed'' \<or> st = ''unreachable''"

definition govern_event :: "task_event \<Rightarrow> govern_state \<Rightarrow> govern_state" where
  "govern_event ev s =
     (let s1 = (if te_checkpoint ev \<noteq> [] then s\<lparr>ra_checkpoint := te_checkpoint ev\<rparr> else s)
      in if \<not> te_terminal ev then s1
         else let s2 = s1\<lparr>gs_terminal := True\<rparr>
              in if te_ok ev then s2 else s2\<lparr>gs_failed := True, ra_error := te_message ev\<rparr>)"

definition govern_result :: "string list \<Rightarrow> string \<times> item_status \<Rightarrow> govern_state \<Rightarrow> govern_state" where
  "govern_result tset r s = (case r of (key, status) \<Rightarrow>
     if key \<noteq> [] \<and> key \<notin> set tset
     then s\<lparr>ra_rejections := ra_rejections s @ [rejection ''item-result'' key OutsideResolvedSet]\<rparr>
     else let st = apply_status status;
              s1 = (if is_bad st then s\<lparr>gs_failed := True\<rparr> else s)
          in if key = [] then s1
             else (case map_of (ra_per_target s1) key of
                     Some prev \<Rightarrow> if is_bad prev then s1 else s1\<lparr>ra_per_target := aput key st (ra_per_target s1)\<rparr>
                   | None \<Rightarrow> s1\<lparr>ra_per_target := aput key st (ra_per_target s1)\<rparr>))"

definition govern_write_back :: "grant \<Rightarrow> string list \<Rightarrow> observed_entity \<Rightarrow> govern_state \<Rightarrow> govern_state" where
  "govern_write_back g scope e s =
     (let (up, rejs) = gate_entity g (allows_write_back g scope) e
      in s\<lparr>ra_rejections := ra_rejections s @ rejs,
           ra_write_back := ra_write_back s @ (case up of None \<Rightarrow> [] | Some u \<Rightarrow> [u])\<rparr>)"

definition govern_drift :: "string \<times> string \<Rightarrow> govern_state \<Rightarrow> govern_state" where
  "govern_drift d s = (case d of (key, detail) \<Rightarrow>
     s\<lparr>ra_drift := aput key ((case map_of (ra_drift s) key of None \<Rightarrow> [] | Some ds \<Rightarrow> ds) @ [detail]) (ra_drift s)\<rparr>)"

definition govern_outputs :: "string \<Rightarrow> string \<Rightarrow> string \<Rightarrow> govern_state \<Rightarrow> govern_state" where
  "govern_outputs pinned got outs s =
     (if pinned = [] then s\<lparr>ra_rejections := ra_rejections s @ [rejection ''apply-outputs'' got NoContractPinned]\<rparr>
      else if got \<noteq> [] \<and> got \<noteq> pinned
        then s\<lparr>ra_rejections := ra_rejections s @ [rejection ''apply-outputs'' got ContractDrift]\<rparr>
      else s\<lparr>ra_outputs := Some outs\<rparr>)"

definition owns_schema :: "grant \<Rightarrow> string \<Rightarrow> bool" where
  "owns_schema g ident \<longleftrightarrow> has_prefix (ss_name (gr_source g) @ ''/'') ident"

definition govern_derived :: "grant \<Rightarrow> derived_schema \<Rightarrow> govern_state \<Rightarrow> govern_state" where
  "govern_derived g d s =
     (if \<not> owns_schema g (ds_id d)
      then s\<lparr>ra_rejections := ra_rejections s @ [rejection ''derived-contract'' (ds_id d) OutsideSource]\<rparr>
      else s\<lparr>ra_derived := ra_derived s @ [d]\<rparr>)"

definition when_some :: "'a option \<Rightarrow> ('a \<Rightarrow> 's \<Rightarrow> 's) \<Rightarrow> 's \<Rightarrow> 's" where
  "when_some x f s = (case x of None \<Rightarrow> s | Some y \<Rightarrow> f y s)"

definition govern_step :: "grant \<Rightarrow> string \<Rightarrow> string list \<Rightarrow> string list \<Rightarrow> apply_response \<Rightarrow> govern_state \<Rightarrow> govern_state" where
  "govern_step g pinned tset scope resp s =
     when_some (ar_derived resp) (govern_derived g)
      (when_some (ar_outputs resp) (govern_outputs pinned (ar_output_contract resp))
        (when_some (ar_drift resp) govern_drift
          (fold (govern_write_back g scope) (ar_write_back resp)
            (when_some (ar_result resp) (govern_result tset)
              (when_some (ar_event resp) govern_event s)))))"

definition govern_start :: govern_state where
  "govern_start = \<lparr>ra_succeeded = False, ra_error = [], ra_per_target = [], ra_write_back = [], ra_drift = [], ra_derived = [],
     ra_checkpoint = [], ra_rejections = [], ra_outputs = None, gs_failed = False, gs_terminal = False\<rparr>"

definition govern_fold :: "grant \<Rightarrow> string \<Rightarrow> string list \<Rightarrow> string list \<Rightarrow> apply_response list \<Rightarrow> govern_state" where
  "govern_fold g pinned tset scope msgs = fold (govern_step g pinned tset scope) msgs govern_start"

definition govern ::
  "grant \<Rightarrow> string \<Rightarrow> string list \<Rightarrow> string list \<Rightarrow> apply_response list \<times> stream_end \<Rightarrow> host_error + raw_apply" where
  "govern g pinned tset scope stream = (case stream of (msgs, fin) \<Rightarrow>
     (case fin of
        RecvFailed \<Rightarrow> Inl StreamFailed
      | Canceled \<Rightarrow> Inl StreamCanceled
      | Eof \<Rightarrow>
          let s = govern_fold g pinned tset scope msgs
          in Inr (raw_apply.truncate (s\<lparr>ra_succeeded := gs_terminal s \<and> \<not> gs_failed s\<rparr>))))"

section \<open>The Invoke governor\<close>

record governed_relation =
  gl_type :: string
  gl_to_scheme :: string
  gl_to_value :: string

record action_entity =
  ae_kind :: string
  ae_ids :: "string gomap"
  ae_labels :: "string gomap"
  ae_relations :: "governed_relation list"

record invoke_result =
  iv_outputs :: string
  iv_consumed :: "string list"
  iv_output_contract :: string
  iv_entities :: "observed_entity list"
  iv_creds :: "string list"

record invoke_response =
  ir_event :: "task_event option"
  ir_result :: "invoke_result option"

record raw_invoke =
  rv_ok :: bool
  rv_error :: string
  rv_outputs :: string
  rv_entities :: "action_entity list"
  rv_creds :: "string list"
  rv_rejections :: "rejected list"
  rv_consumed :: "string list"

definition owns_cred :: "grant \<Rightarrow> string \<Rightarrow> bool" where
  "owns_cred g name \<longleftrightarrow> has_prefix (''cred/'' @ ss_name (gr_source g) @ ''/'') name"

definition invoke_event :: "task_event \<Rightarrow> raw_invoke \<Rightarrow> raw_invoke" where
  "invoke_event ev out =
     (if te_terminal ev
      then (if te_ok ev then out\<lparr>rv_ok := True\<rparr> else out\<lparr>rv_ok := False, rv_error := te_message ev\<rparr>)
      else out)"

definition invoke_entity :: "grant \<Rightarrow> observed_entity \<Rightarrow> raw_invoke \<Rightarrow> raw_invoke" where
  "invoke_entity g e out =
     (let ids = passing (allows_identity g) (oe_ids e);
          bad_ids = refused (allows_identity g) ''identity-scheme'' (oe_ids e)
      in if ids = []
         then out\<lparr>rv_rejections := rv_rejections out @ bad_ids @ [rejection ''entity'' (oe_kind e) NoGrantedKey]\<rparr>
         else out\<lparr>rv_entities := rv_entities out @
                   [\<lparr>ae_kind = oe_kind e, ae_ids = ids, ae_labels = oe_labels e,
                     ae_relations = map (\<lambda>r. \<lparr>gl_type = ob_type r, gl_to_scheme = ob_to_scheme r, gl_to_value = ob_to_value r\<rparr>)
                       (filter (\<lambda>r. allows_identity g (ob_to_scheme r) = None) (oe_relations e))\<rparr>],
                  rv_rejections := rv_rejections out @ bad_ids @
                   List.map_filter (\<lambda>r. map_option (rejection ''relation-target'' (ob_to_scheme r)) (allows_identity g (ob_to_scheme r)))
                     (oe_relations e)\<rparr>)"

definition invoke_cred :: "grant \<Rightarrow> string \<Rightarrow> raw_invoke \<Rightarrow> raw_invoke" where
  "invoke_cred g name out =
     (if owns_cred g name then out\<lparr>rv_creds := rv_creds out @ [name]\<rparr>
      else out\<lparr>rv_rejections := rv_rejections out @ [rejection ''provisioned-cred'' name OutsideSource]\<rparr>)"

definition invoke_step :: "grant \<Rightarrow> string \<Rightarrow> invoke_response \<Rightarrow> raw_invoke \<Rightarrow> host_error + raw_invoke" where
  "invoke_step g expect resp out =
     (let out1 = when_some (ir_event resp) invoke_event out
      in case ir_result resp of
           None \<Rightarrow> Inr out1
         | Some res \<Rightarrow>
             if expect \<noteq> [] \<and> iv_output_contract res \<noteq> [] \<and> iv_output_contract res \<noteq> expect
             then Inl (OutputContractDrift (iv_output_contract res))
             else Inr (fold (invoke_cred g) (iv_creds res)
                    (fold (invoke_entity g) (iv_entities res)
                      (out1\<lparr>rv_outputs := iv_outputs res, rv_consumed := iv_consumed res\<rparr>))))"

definition invoke_start :: raw_invoke where
  "invoke_start = \<lparr>rv_ok = False, rv_error = [], rv_outputs = [], rv_entities = [], rv_creds = [], rv_rejections = [],
     rv_consumed = []\<rparr>"

definition invoke_raw :: "grant \<Rightarrow> string \<Rightarrow> invoke_response list \<times> stream_end \<Rightarrow> host_error + raw_invoke" where
  "invoke_raw g expect stream = (case stream of (msgs, fin) \<Rightarrow>
     (case fold_err (invoke_step g expect) msgs invoke_start of
        Inl e \<Rightarrow> Inl e
      | Inr out \<Rightarrow> (case fin of Eof \<Rightarrow> Inr out | RecvFailed \<Rightarrow> Inl StreamFailed | Canceled \<Rightarrow> Inl StreamCanceled)))"

section \<open>What crosses to the plugin\<close>

record vault_locator =
  vl_mount :: string
  vl_path :: string
  vl_kv_v2 :: bool

record credential =
  cd_ref_name :: string
  cd_secret_namespace :: string
  cd_secret_name :: string
  cd_vault :: "vault_locator option"
  cd_keys :: "(string \<times> string \<times> string) list" \<comment> \<open>key, as, name\<close>

record resolved_ref =
  rf_secret_namespace :: string
  rf_secret_name :: string
  rf_keys :: "(string \<times> string \<times> string) list"
  rf_vault :: "vault_locator option"

record credential_ref =
  cr_name :: string
  cr_resolved :: "resolved_ref option"

definition wire_cred :: "bool \<Rightarrow> credential \<Rightarrow> credential_ref" where
  "wire_cred coordinates c =
     \<lparr>cr_name = cd_ref_name c,
      cr_resolved = (if \<not> coordinates then None
        else Some (case cd_vault c of
          Some v \<Rightarrow> \<lparr>rf_secret_namespace = [], rf_secret_name = [], rf_keys = cd_keys c, rf_vault = Some v\<rparr>
        | None \<Rightarrow> \<lparr>rf_secret_namespace = cd_secret_namespace c, rf_secret_name = cd_secret_name c, rf_keys = cd_keys c,
                   rf_vault = None\<rparr>))\<rparr>"


section \<open>The gates\<close>

text \<open>What a gate promises its clients: it answers for a fixed set of keys, and an entry is either admitted or reported.\<close>

locale emission_gate =
  fixes gate :: "string \<Rightarrow> refusal option"
    and allowed :: "string set"
  assumes gate_iff: "gate k = None \<longleftrightarrow> k \<in> allowed"
begin

lemma admitted_within: "set (keys (passing gate m)) \<subseteq> allowed"
  by (auto simp: passing_def gate_iff)

lemma admitted_or_reported:
  "(k, v) \<in> set m \<Longrightarrow> (k, v) \<in> set (passing gate m) \<or> (\<exists>r. gate k = Some r \<and> rejection kind k r \<in> set (refused gate kind m))"
  by (cases "gate k") (force simp: passing_def refused_def in_map_filter)+

lemma admitted_keeps: "set (passing gate m) \<subseteq> set m"
  by (auto simp: passing_def)

lemma admitted_distinct: "distinct (keys m) \<Longrightarrow> distinct (keys (passing gate m))"
  by (simp add: passing_def distinct_keys_filter)

lemma admitted_Nil: "passing gate m = [] \<longleftrightarrow> set (keys m) \<inter> allowed = {}"
  by (force simp: passing_def filter_empty_conv gate_iff)

end

definition emittable :: "grant \<Rightarrow> string set" where
  "emittable g = {s \<in> set (gr_schemes g). s \<in> set shared_schemes \<longrightarrow> gr_tier g = tier_trusted}"

interpretation identity_gate: emission_gate "allows_identity g" "emittable g" for g
  by unfold_locales (auto simp: allows_identity_def emittable_def)

interpretation label_gate: emission_gate "allows_label g" "set (gr_labels g)" for g
  by unfold_locales (simp add: allows_label_def)

interpretation facet_gate: emission_gate "allows_facet g" "set (gr_facets g)" for g
  by unfold_locales (simp add: allows_facet_def)

interpretation write_back_gate: emission_gate "allows_write_back g scope" "set (gr_facets g) \<inter> set scope" for g scope
  by unfold_locales (auto simp: allows_write_back_def allows_facet_def)

text \<open>An admitted emission is named by a key the plugin may emit, and nothing in it outside its allowlists.\<close>

definition upsert_within :: "string set \<Rightarrow> string set \<Rightarrow> string set \<Rightarrow> entity_upsert \<Rightarrow> bool" where
  "upsert_within ids labels facets u \<longleftrightarrow> eu_ids u \<noteq> [] \<and> set (keys (eu_ids u)) \<subseteq> ids \<and>
     set (keys (eu_labels u)) \<subseteq> labels \<and> set (keys (eu_facets u)) \<subseteq> facets"

lemma gate_entity_within:
  assumes "emission_gate facet_gate facets" and "gate_entity g facet_gate e = (Some u, rejs)"
  shows "upsert_within (emittable g) (set (gr_labels g)) facets u"
proof -
  from assms(2) have "eu_ids u \<noteq> []" and "eu_ids u = passing (allows_identity g) (oe_ids e)"
    and "eu_labels u = passing (allows_label g) (oe_labels e)" and "eu_facets u = passing facet_gate (oe_facets e)"
    by (auto simp: gate_entity_def Let_def split: if_splits)
  then show ?thesis
    by (simp only: upsert_within_def identity_gate.admitted_within label_gate.admitted_within
        emission_gate.admitted_within [OF assms(1)] simp_thms)
qed

lemma to_upsert_within:
  "to_upsert g e = (Some u, rejs) \<Longrightarrow> upsert_within (emittable g) (set (gr_labels g)) (set (gr_facets g)) u"
  unfolding to_upsert_def by (rule gate_entity_within [OF facet_gate.emission_gate_axioms])

lemma write_back_within:
  "gate_entity g (allows_write_back g scope) e = (Some u, rejs) \<Longrightarrow>
    upsert_within (emittable g) (set (gr_labels g)) (set (gr_facets g) \<inter> set scope) u"
  by (rule gate_entity_within [OF write_back_gate.emission_gate_axioms])

section \<open>The governed fold\<close>

lemma when_some_simps [simp]: "when_some None f s = s" "when_some (Some y) f s = f y s"
  by (simp_all add: when_some_def)

text \<open>Each part of a response leaves the verdict of the others alone.\<close>

lemma govern_frame [simp]:
  "gs_failed (govern_write_back g sc e s) = gs_failed s" "gs_terminal (govern_write_back g sc e s) = gs_terminal s"
  "ra_per_target (govern_write_back g sc e s) = ra_per_target s"
  "gs_failed (govern_drift d s) = gs_failed s" "gs_terminal (govern_drift d s) = gs_terminal s"
  "ra_per_target (govern_drift d s) = ra_per_target s"
  "gs_failed (govern_outputs p c x s) = gs_failed s" "gs_terminal (govern_outputs p c x s) = gs_terminal s"
  "ra_per_target (govern_outputs p c x s) = ra_per_target s"
  "gs_failed (govern_derived g v s) = gs_failed s" "gs_terminal (govern_derived g v s) = gs_terminal s"
  "ra_per_target (govern_derived g v s) = ra_per_target s"
  "ra_per_target (govern_event ev s) = ra_per_target s"
  by (auto simp: govern_write_back_def govern_drift_def govern_outputs_def govern_derived_def govern_event_def Let_def
      split: prod.splits)

lemma govern_writes_frame [simp]:
  "gs_failed (fold (govern_write_back g sc) es s) = gs_failed s"
  "gs_terminal (fold (govern_write_back g sc) es s) = gs_terminal s"
  "ra_per_target (fold (govern_write_back g sc) es s) = ra_per_target s"
  by (induction es arbitrary: s) simp_all

lemma govern_rest_frame [simp]:
  "gs_failed (when_some x (govern_derived g) s) = gs_failed s" "gs_terminal (when_some x (govern_derived g) s) = gs_terminal s"
  "ra_per_target (when_some x (govern_derived g) s) = ra_per_target s"
  "gs_failed (when_some y (govern_outputs p c) s) = gs_failed s" "gs_terminal (when_some y (govern_outputs p c) s) = gs_terminal s"
  "ra_per_target (when_some y (govern_outputs p c) s) = ra_per_target s"
  "gs_failed (when_some z govern_drift s) = gs_failed s" "gs_terminal (when_some z govern_drift s) = gs_terminal s"
  "ra_per_target (when_some z govern_drift s) = ra_per_target s"
  "ra_per_target (when_some w govern_event s) = ra_per_target s"
  by (auto simp: when_some_def split: option.splits)








lemma truncate_fields [simp]:
  "ra_succeeded (raw_apply.truncate s) = ra_succeeded s" "ra_per_target (raw_apply.truncate s) = ra_per_target s"
  "ra_write_back (raw_apply.truncate s) = ra_write_back s" "ra_rejections (raw_apply.truncate s) = ra_rejections s"
  "ra_derived (raw_apply.truncate s) = ra_derived s" "ra_outputs (raw_apply.truncate s) = ra_outputs s"
  "ra_error (raw_apply.truncate s) = ra_error s" "ra_drift (raw_apply.truncate s) = ra_drift s"
  by (simp_all add: raw_apply.truncate_def)



text \<open>The status recorded for a target: the first failure reported for it, and otherwise the last report.\<close>

definition reports_of :: "string \<Rightarrow> apply_response list \<Rightarrow> string list" where
  "reports_of key msgs = List.map_filter (\<lambda>m. case ar_result m of None \<Rightarrow> None
     | Some (k, st) \<Rightarrow> if k = key then Some (apply_status st) else None) msgs"

definition verdict_of :: "string list \<Rightarrow> string option" where
  "verdict_of sts = (case find is_bad sts of Some b \<Rightarrow> Some b | None \<Rightarrow> if sts = [] then None else Some (last sts))"

definition add_report :: "string option \<Rightarrow> string \<Rightarrow> string option" where
  "add_report prev st = (case prev of Some b \<Rightarrow> if is_bad b then prev else Some st | None \<Rightarrow> Some st)"

lemma find_append: "find P (xs @ ys) = (case find P xs of Some x \<Rightarrow> Some x | None \<Rightarrow> find P ys)"
  by (induction xs) auto

lemma verdict_snoc: "verdict_of (sts @ [st]) = add_report (verdict_of sts) st"
proof (cases "find is_bad sts")
  case None
  then have "\<forall>x \<in> set sts. \<not> is_bad x" by (simp add: find_None_iff)
  then have "sts \<noteq> [] \<Longrightarrow> \<not> is_bad (last sts)" by simp
  with None show ?thesis by (auto simp: verdict_of_def add_report_def find_append)
next
  case (Some b)
  then have "is_bad b" by (auto simp: find_Some_iff)
  with Some show ?thesis by (simp add: verdict_of_def add_report_def find_append)
qed

lemma govern_result_target:
  "map_of (ra_per_target (govern_result tset (key, st) s)) k =
    (if k = key \<and> k \<noteq> [] \<and> k \<in> set tset then add_report (map_of (ra_per_target s) k) (apply_status st)
     else map_of (ra_per_target s) k)"
  by (auto simp: govern_result_def Let_def add_report_def map_of_aput split: option.splits)

lemma reports_of_snoc:
  "reports_of k (msgs @ [m]) = reports_of k msgs @
    (case ar_result m of None \<Rightarrow> [] | Some (k', st) \<Rightarrow> if k' = k then [apply_status st] else [])"
  by (auto simp: reports_of_def List.map_filter_def split: option.splits)

lemma govern_step_target:
  "map_of (ra_per_target (govern_step g pinned tset scope m s)) k =
    (case ar_result m of None \<Rightarrow> map_of (ra_per_target s) k
     | Some (key, st) \<Rightarrow> if k = key \<and> k \<noteq> [] \<and> k \<in> set tset then add_report (map_of (ra_per_target s) k) (apply_status st)
         else map_of (ra_per_target s) k)"
proof (cases "ar_result m")
  case None
  then show ?thesis by (simp add: govern_step_def)
next
  case (Some r)
  then show ?thesis by (cases r) (auto simp: govern_step_def govern_result_target)
qed

lemma govern_fold_target:
  "map_of (ra_per_target (govern_fold g pinned tset scope msgs)) k =
    (if k \<noteq> [] \<and> k \<in> set tset then verdict_of (reports_of k msgs) else None)"
proof (induction msgs rule: rev_induct)
  case Nil
  show ?case by (simp add: govern_fold_def govern_start_def reports_of_def verdict_of_def List.map_filter_def)
next
  case (snoc m msgs)
  have "govern_fold g pinned tset scope (msgs @ [m]) = govern_step g pinned tset scope m (govern_fold g pinned tset scope msgs)"
    by (simp add: govern_fold_def)
  with snoc show ?case
    by (cases "ar_result m") (auto simp: govern_step_target reports_of_snoc verdict_snoc)
qed

theorem per_target_verdict:
  assumes "govern g pinned tset scope (msgs, Eof) = Inr out"
  shows "map_of (ra_per_target out) k = (if k \<noteq> [] \<and> k \<in> set tset then verdict_of (reports_of k msgs) else None)"
proof -
  from assms have "ra_per_target out = ra_per_target (govern_fold g pinned tset scope msgs)"
    by (auto simp: govern_def Let_def)
  then show ?thesis by (simp add: govern_fold_target)
qed

section \<open>What a governed result may hold\<close>

definition confined_apply :: "grant \<Rightarrow> string \<Rightarrow> string list \<Rightarrow> 'a raw_apply_scheme \<Rightarrow> bool" where
  "confined_apply g pinned scope out \<longleftrightarrow>
     list_all (upsert_within (emittable g) (set (gr_labels g)) (set (gr_facets g) \<inter> set scope)) (ra_write_back out) \<and>
     list_all (\<lambda>d. owns_schema g (ds_id d)) (ra_derived out) \<and>
     (ra_outputs out \<noteq> None \<longrightarrow> pinned \<noteq> [])"

lemma confined_write_back:
  "confined_apply g pinned scope s \<Longrightarrow> confined_apply g pinned scope (govern_write_back g scope e s)"
  using write_back_within [of g scope e]
  by (cases "gate_entity g (allows_write_back g scope) e")
    (auto simp: confined_apply_def govern_write_back_def split: option.splits)

lemma confined_write_backs:
  "confined_apply g pinned scope s \<Longrightarrow> confined_apply g pinned scope (fold (govern_write_back g scope) es s)"
  by (induction es arbitrary: s) (auto intro: confined_write_back)

lemma confined_rest:
  assumes "confined_apply g pinned scope s"
  shows "confined_apply g pinned scope (when_some x (govern_derived g) s)"
    and "confined_apply g pinned scope (when_some y (govern_outputs pinned c) s)"
    and "confined_apply g pinned scope (when_some z govern_drift s)"
    and "confined_apply g pinned scope (when_some w (govern_result tset) s)"
    and "confined_apply g pinned scope (when_some v govern_event s)"
  using assms
  by (auto simp: confined_apply_def when_some_def govern_derived_def govern_outputs_def govern_drift_def govern_result_def
      govern_event_def Let_def split: option.splits prod.splits)

lemma confined_fold:
  "confined_apply g pinned scope s \<Longrightarrow> confined_apply g pinned scope (fold (govern_step g pinned tset scope) msgs s)"
proof (induction msgs arbitrary: s)
  case (Cons m msgs)
  have "confined_apply g pinned scope (govern_step g pinned tset scope m s)"
    unfolding govern_step_def by (intro confined_rest confined_write_backs Cons.prems)
  with Cons.IH show ?case by simp
qed simp

text \<open>C19. C1.
  What an Apply may write back is within the grant, and its Facets also within the write scope of the Step; derived
  schemas are in the namespace of the Source, and outputs are captured under a pinned contract only.
\<close>

theorem governed_apply_is_confined:
  assumes "govern g pinned tset scope stream = Inr out"
  shows "confined_apply g pinned scope out"
proof -
  obtain msgs where "ra_write_back out = ra_write_back (govern_fold g pinned tset scope msgs)"
    and "ra_derived out = ra_derived (govern_fold g pinned tset scope msgs)"
    and "ra_outputs out = ra_outputs (govern_fold g pinned tset scope msgs)"
    using assms by (cases stream) (auto simp: govern_def Let_def split: stream_end.splits)
  moreover have "confined_apply g pinned scope (govern_fold g pinned tset scope msgs)"
    unfolding govern_fold_def by (rule confined_fold) (simp add: confined_apply_def govern_start_def)
  ultimately show ?thesis by (simp add: confined_apply_def)
qed


text \<open>Nothing a plugin writes back vanishes: it is in the result or a rejection names it.\<close>

lemma gate_entity_accounts:
  assumes "emission_gate facet_gate facets" and "gate_entity g facet_gate e = (up, rejs)" and "(ns, v) \<in> set (oe_facets e)"
  shows "(\<exists>u. up = Some u \<and> eu_kind u = oe_kind e \<and> (ns, v) \<in> set (eu_facets u)) \<or>
    (\<exists>r. rejection ''facet'' ns r \<in> set rejs) \<or> rejection ''entity'' (oe_kind e) NoGrantedKey \<in> set rejs"
proof (cases "passing (allows_identity g) (oe_ids e) = []")
  case True
  with assms(2) show ?thesis by (auto simp: gate_entity_def Let_def)
next
  case False
  from emission_gate.admitted_or_reported [OF assms(1,3), of "''facet''"]
  consider "(ns, v) \<in> set (passing facet_gate (oe_facets e))"
    | r where "rejection ''facet'' ns r \<in> set (refused facet_gate ''facet'' (oe_facets e))" by blast
  then show ?thesis using assms(2) False by cases (auto simp: gate_entity_def Let_def)
qed

lemma govern_grows:
  "set (ra_write_back s) \<subseteq> set (ra_write_back (govern_step g pinned tset scope m s))"
  "set (ra_rejections s) \<subseteq> set (ra_rejections (govern_step g pinned tset scope m s))"
  "e \<in> set (ar_write_back m) \<Longrightarrow> gate_entity g (allows_write_back g scope) e = (up, rejs) \<Longrightarrow>
    set (case up of None \<Rightarrow> [] | Some u \<Rightarrow> [u]) \<subseteq> set (ra_write_back (govern_step g pinned tset scope m s)) \<and>
    set rejs \<subseteq> set (ra_rejections (govern_step g pinned tset scope m s))"
proof -
  have one: "set (ra_write_back s') \<subseteq> set (ra_write_back (govern_write_back g scope x s'))"
    "set (ra_rejections s') \<subseteq> set (ra_rejections (govern_write_back g scope x s'))" for x s'
    by (auto simp: govern_write_back_def split: prod.splits)
  have many: "set (ra_write_back s') \<subseteq> set (ra_write_back (fold (govern_write_back g scope) es s'))"
    "set (ra_rejections s') \<subseteq> set (ra_rejections (fold (govern_write_back g scope) es s'))" for es s'
    by (induction es arbitrary: s') (use one in \<open>force+\<close>)
  have mine: "set (case up of None \<Rightarrow> [] | Some u \<Rightarrow> [u]) \<subseteq> set (ra_write_back (fold (govern_write_back g scope) es s')) \<and>
      set rejs \<subseteq> set (ra_rejections (fold (govern_write_back g scope) es s'))"
    if "e \<in> set es" "gate_entity g (allows_write_back g scope) e = (up, rejs)" for es s'
    using that(1)
  proof (induction es arbitrary: s')
    case (Cons x es)
    show ?case
    proof (cases "e = x")
      case True
      with that(2) have "set (case up of None \<Rightarrow> [] | Some u \<Rightarrow> [u]) \<subseteq> set (ra_write_back (govern_write_back g scope x s'))"
        "set rejs \<subseteq> set (ra_rejections (govern_write_back g scope x s'))"
        by (auto simp: govern_write_back_def split: option.splits)
      with many [of "govern_write_back g scope x s'" es] show ?thesis by force
    next
      case False
      with Cons show ?thesis by simp
    qed
  qed simp
  have rest: "ra_write_back (when_some x (govern_derived g) s') = ra_write_back s'"
    "ra_write_back (when_some y (govern_outputs pinned c) s') = ra_write_back s'"
    "ra_write_back (when_some z govern_drift s') = ra_write_back s'"
    "ra_write_back (when_some w (govern_result tset) s') = ra_write_back s'"
    "ra_write_back (when_some v govern_event s') = ra_write_back s'"
    "set (ra_rejections s') \<subseteq> set (ra_rejections (when_some x (govern_derived g) s'))"
    "set (ra_rejections s') \<subseteq> set (ra_rejections (when_some y (govern_outputs pinned c) s'))"
    "ra_rejections (when_some z govern_drift s') = ra_rejections s'"
    "set (ra_rejections s') \<subseteq> set (ra_rejections (when_some w (govern_result tset) s'))"
    "ra_rejections (when_some v govern_event s') = ra_rejections s'" for x y z w v c s'
    by (auto simp: when_some_def govern_derived_def govern_outputs_def govern_drift_def govern_result_def govern_event_def Let_def
        split: option.splits prod.splits)
  show "set (ra_write_back s) \<subseteq> set (ra_write_back (govern_step g pinned tset scope m s))"
    unfolding govern_step_def rest using many(1) [of "when_some (ar_result m) (govern_result tset) (when_some (ar_event m) govern_event s)"]
    by (simp add: rest)
  show "set (ra_rejections s) \<subseteq> set (ra_rejections (govern_step g pinned tset scope m s))"
    unfolding govern_step_def
    by (intro subset_trans [OF _ rest(6)] subset_trans [OF _ rest(7)]) (simp add: rest, intro subset_trans [OF _ many(2)]
        subset_trans [OF _ rest(9)], simp add: rest)
  show "set (case up of None \<Rightarrow> [] | Some u \<Rightarrow> [u]) \<subseteq> set (ra_write_back (govern_step g pinned tset scope m s)) \<and>
      set rejs \<subseteq> set (ra_rejections (govern_step g pinned tset scope m s))"
    if "e \<in> set (ar_write_back m)" "gate_entity g (allows_write_back g scope) e = (up, rejs)"
    using mine [OF that, of "when_some (ar_result m) (govern_result tset) (when_some (ar_event m) govern_event s)"]
    unfolding govern_step_def rest by (auto intro!: subsetD [OF rest(6)] subsetD [OF rest(7)] simp: rest)
qed

theorem write_back_accounted:
  assumes "govern g pinned tset scope (msgs, Eof) = Inr out" and "m \<in> set msgs" and "e \<in> set (ar_write_back m)"
    and "(ns, v) \<in> set (oe_facets e)"
  shows "(\<exists>u \<in> set (ra_write_back out). eu_kind u = oe_kind e \<and> (ns, v) \<in> set (eu_facets u)) \<or>
    (\<exists>rj \<in> set (ra_rejections out). rj_kind rj = ''facet'' \<and> rj_detail rj = ns \<or> rj_kind rj = ''entity'' \<and> rj_detail rj = oe_kind e)"
proof -
  obtain up rejs where gate: "gate_entity g (allows_write_back g scope) e = (up, rejs)" by fastforce
  have "set (case up of None \<Rightarrow> [] | Some u \<Rightarrow> [u]) \<subseteq> set (ra_write_back (fold (govern_step g pinned tset scope) msgs s)) \<and>
      set rejs \<subseteq> set (ra_rejections (fold (govern_step g pinned tset scope) msgs s))" for s
    using assms(2)
  proof (induction msgs rule: rev_induct)
    case (snoc x msgs)
    show ?case
    proof (cases "m = x")
      case True
      with govern_grows(3) [OF assms(3) gate] show ?thesis by simp
    next
      case False
      with snoc govern_grows(1,2) [of _ g pinned tset scope x] show ?thesis by simp (meson subset_trans)
    qed
  qed simp
  moreover have "ra_write_back out = ra_write_back (fold (govern_step g pinned tset scope) msgs govern_start)"
    "ra_rejections out = ra_rejections (fold (govern_step g pinned tset scope) msgs govern_start)"
    using assms(1) by (auto simp: govern_def govern_fold_def Let_def)
  ultimately have "set (case up of None \<Rightarrow> [] | Some u \<Rightarrow> [u]) \<subseteq> set (ra_write_back out)" "set rejs \<subseteq> set (ra_rejections out)"
    by simp_all
  note kept = this
  have named: "rj_kind (rejection k d r) = k" "rj_detail (rejection k d r) = d" for k d r by (simp_all add: rejection_def)
  from gate_entity_accounts [OF write_back_gate.emission_gate_axioms gate assms(4)]
  consider u where "up = Some u" "eu_kind u = oe_kind e" "(ns, v) \<in> set (eu_facets u)"
    | r where "rejection ''facet'' ns r \<in> set rejs" | "rejection ''entity'' (oe_kind e) NoGrantedKey \<in> set rejs" by blast
  then show ?thesis
  proof cases
    case 1
    with kept(1) have "u \<in> set (ra_write_back out)" by simp
    with 1 show ?thesis by blast
  next
    case 2
    with kept(2) have "rejection ''facet'' ns r \<in> set (ra_rejections out)" by blast
    with named show ?thesis by metis
  next
    case 3
    with kept(2) have "rejection ''entity'' (oe_kind e) NoGrantedKey \<in> set (ra_rejections out)" by blast
    with named show ?thesis by metis
  qed
qed


section \<open>The governed Invoke\<close>

definition last_terminal :: "invoke_response list \<Rightarrow> task_event option" where
  "last_terminal msgs = (let evs = filter te_terminal (List.map_filter ir_event msgs)
     in if evs = [] then None else Some (last evs))"

definition confined_invoke :: "grant \<Rightarrow> raw_invoke \<Rightarrow> bool" where
  "confined_invoke g out \<longleftrightarrow>
     list_all (\<lambda>a. ae_ids a \<noteq> [] \<and> set (keys (ae_ids a)) \<subseteq> emittable g \<and>
       gl_to_scheme ` set (ae_relations a) \<subseteq> emittable g) (rv_entities out) \<and>
     list_all (owns_cred g) (rv_creds out)"

lemma confined_invoke_step:
  assumes "confined_invoke g out" and "invoke_step g expect m out = Inr out'"
  shows "confined_invoke g out'"
proof -
  have ev: "confined_invoke g (when_some x invoke_event o')" if "confined_invoke g o'" for x o'
    using that by (auto simp: confined_invoke_def when_some_def invoke_event_def split: option.splits)
  have ent: "confined_invoke g (invoke_entity g e o')" if "confined_invoke g o'" for e o'
    using that identity_gate.admitted_within [of g "oe_ids e"] identity_gate.gate_iff [of g]
    by (auto simp: confined_invoke_def invoke_entity_def Let_def)
  have ents: "confined_invoke g (fold (invoke_entity g) es o')" if "confined_invoke g o'" for es o'
    using that by (induction es arbitrary: o') (auto intro: ent)
  have cred: "confined_invoke g (fold (invoke_cred g) cs o')" if "confined_invoke g o'" for cs o'
    using that by (induction cs arbitrary: o') (auto simp: confined_invoke_def invoke_cred_def)
  have out: "confined_invoke g (o'\<lparr>rv_outputs := a, rv_consumed := b\<rparr>)" if "confined_invoke g o'" for o' a b
    using that by (simp add: confined_invoke_def)
  from assms show ?thesis
    by (auto simp: invoke_step_def Let_def split: option.splits if_splits intro!: cred ents out ev)
qed

interpretation invoke_loop: checked_loop "invoke_step g expect" "confined_invoke g" for g expect
  by unfold_locales (rule confined_invoke_step)

theorem governed_invoke_is_confined:
  assumes "invoke_raw g expect stream = Inr out"
  shows "confined_invoke g out"
proof -
  from assms have "fold_err (invoke_step g expect) (fst stream) invoke_start = Inr out"
    by (auto simp: invoke_raw_def split: prod.splits sum.splits stream_end.splits)
  then show ?thesis by (rule invoke_loop.loop_inv [rotated]) (simp add: confined_invoke_def invoke_start_def)
qed

lemma invoke_step_ok:
  assumes "invoke_step g expect m out = Inr out'"
  shows "rv_ok out' = (case ir_event m of None \<Rightarrow> rv_ok out | Some ev \<Rightarrow> if te_terminal ev then te_ok ev else rv_ok out)"
proof -
  have "rv_ok (invoke_entity g e o') = rv_ok o'" "rv_ok (invoke_cred g c o') = rv_ok o'" for e c o'
    by (simp_all add: invoke_entity_def invoke_cred_def Let_def)
  then have "rv_ok (fold (invoke_entity g) es o') = rv_ok o'" "rv_ok (fold (invoke_cred g) cs o') = rv_ok o'" for es cs o'
    by (induction es arbitrary: o', simp_all) (induction cs arbitrary: o', simp_all)
  with assms show ?thesis
    by (auto simp: invoke_step_def when_some_def invoke_event_def Let_def split: option.splits if_splits)
qed

lemma last_terminal_snoc:
  "last_terminal (msgs @ [m]) = (case ir_event m of Some ev \<Rightarrow> if te_terminal ev then Some ev else last_terminal msgs | None \<Rightarrow> last_terminal msgs)"
  by (auto simp: last_terminal_def List.map_filter_def Let_def split: option.splits)

text \<open>An Action succeeded when the last terminal event of its stream says so; a stream with none did not.\<close>

theorem invoke_verdict:
  assumes "invoke_raw g expect stream = Inr out"
  shows "rv_ok out = (case last_terminal (fst stream) of None \<Rightarrow> False | Some ev \<Rightarrow> te_ok ev)"
proof -
  have "rv_ok out = (case last_terminal msgs of None \<Rightarrow> False | Some ev \<Rightarrow> te_ok ev)"
    if "fold_err (invoke_step g expect) msgs invoke_start = Inr out" for msgs out
    using that
  proof (induction msgs arbitrary: out rule: rev_induct)
    case Nil
    then show ?case by (auto simp: invoke_start_def last_terminal_def List.map_filter_def)
  next
    case (snoc m msgs)
    then obtain mid where "fold_err (invoke_step g expect) msgs invoke_start = Inr mid" and step: "invoke_step g expect m mid = Inr out"
      by (auto simp: fold_err_append split: sum.splits)
    with snoc.IH invoke_step_ok [OF step] show ?case by (auto simp: last_terminal_snoc split: option.splits)
  qed
  with assms show ?thesis by (auto simp: invoke_raw_def split: prod.splits sum.splits stream_end.splits)
qed

text \<open>A relay host sends names alone; a local host sends either coordinate pair, never both.\<close>

theorem wire_cred_coordinates:
  "cr_name (wire_cred coord c) = cd_ref_name c \<and> (cr_resolved (wire_cred coord c) = None \<longleftrightarrow> \<not> coord) \<and>
   (\<forall>r. cr_resolved (wire_cred coord c) = Some r \<longrightarrow> rf_keys r = cd_keys c \<and>
     (rf_vault r = None \<or> rf_secret_namespace r = [] \<and> rf_secret_name r = []))"
  by (auto simp: wire_cred_def split: option.splits)

section \<open>A small stream\<close>

definition demo_grant :: grant where
  "demo_grant = \<lparr>gr_identity = ''tofu'', gr_tier = ''community'',
     gr_source = \<lparr>ss_kind = ''opentofu'', ss_name = ''tofu'', ss_endpoint = [], ss_credential_ref = []\<rparr>,
     gr_facets = [''os''], gr_authoritative = [], gr_labels = [''env''], gr_schemes = [''host.name'', ''dns.fqdn''],
     gr_tombstones = [''host.name''], gr_emitter = []\<rparr>"

definition silent :: apply_response where
  "silent = \<lparr>ar_event = None, ar_write_back = [], ar_result = None, ar_drift = None, ar_outputs = None,
     ar_output_contract = [], ar_derived = None\<rparr>"

definition ending :: "bool \<Rightarrow> apply_response" where
  "ending good = silent\<lparr>ar_event := Some \<lparr>te_terminal = True, te_ok = good, te_message = [], te_checkpoint = []\<rparr>\<rparr>"

definition reporting :: "string \<Rightarrow> item_status \<Rightarrow> apply_response" where
  "reporting key st = silent\<lparr>ar_result := Some (key, st)\<rparr>"

definition writing :: "observed_entity \<Rightarrow> apply_response" where
  "writing e = silent\<lparr>ar_write_back := [e]\<rparr>"

definition demo_seen :: observed_entity where
  "demo_seen = \<lparr>oe_kind = ''host'', oe_ids = [(''host.name'', ''a''), (''dns.fqdn'', ''a.example'')], oe_labels = [(''env'', ''prod''), (''team'', ''x'')],
     oe_facets = [(''os'', ''{}''), (''secret'', ''{}'')], oe_relations = []\<rparr>"

definition demo_stream :: "apply_response list" where
  "demo_stream = [reporting ''a'' StatusFailed, reporting ''a'' StatusOK, reporting ''b'' StatusChanged, writing demo_seen, ending True]"

definition demo_outcome :: "host_error + raw_apply" where
  "demo_outcome = govern demo_grant [] [''a''] [''os''] (demo_stream, Eof)"

lemma demo_outcome_value:
  "demo_outcome = Inr \<lparr>ra_succeeded = False, ra_error = [], ra_per_target = [(''a'', ''failed'')],
     ra_write_back = [\<lparr>eu_kind = ''host'', eu_ids = [(''host.name'', ''a'')], eu_labels = [(''env'', ''prod'')], eu_facets = [(''os'', ''{}'')]\<rparr>],
     ra_drift = [], ra_derived = [], ra_checkpoint = [],
     ra_rejections = [rejection ''item-result'' ''b'' OutsideResolvedSet, rejection ''identity-scheme'' ''dns.fqdn'' SharedSchemeUntrusted,
       rejection ''label'' ''team'' LabelUngranted, rejection ''facet'' ''secret'' FacetUngranted],
     ra_outputs = None\<rparr>"
  by code_simp


theorem per_target_verdict_witness:
  "\<exists>out. demo_outcome = Inr out \<and> map_of (ra_per_target out) ''a'' = Some ''failed'' \<and> map_of (ra_per_target out) ''b'' = None"
proof -
  from demo_outcome_value obtain out where out: "demo_outcome = Inr out" by blast
  have "verdict_of (reports_of ''a'' demo_stream) = Some ''failed''" by code_simp
  with per_target_verdict [OF out [unfolded demo_outcome_def], of "''a''"]
    per_target_verdict [OF out [unfolded demo_outcome_def], of "''b''"]
  have "map_of (ra_per_target out) ''a'' = Some ''failed'' \<and> map_of (ra_per_target out) ''b'' = None" by simp
  with out show ?thesis by blast
qed

theorem governed_apply_is_confined_witness:
  "\<exists>out. demo_outcome = Inr out \<and> confined_apply demo_grant [] [''os''] out"
proof -
  from demo_outcome_value obtain out where out: "demo_outcome = Inr out" by blast
  with governed_apply_is_confined [OF out [unfolded demo_outcome_def]] show ?thesis by blast
qed

theorem write_back_accounted_witness:
  "\<exists>out. demo_outcome = Inr out \<and>
    ((\<exists>u \<in> set (ra_write_back out). eu_kind u = oe_kind demo_seen \<and> (''secret'', ''{}'') \<in> set (eu_facets u)) \<or>
     (\<exists>rj \<in> set (ra_rejections out). rj_kind rj = ''facet'' \<and> rj_detail rj = ''secret'' \<or> rj_kind rj = ''entity'' \<and> rj_detail rj = oe_kind demo_seen))"
proof -
  from demo_outcome_value obtain out where out: "demo_outcome = Inr out" by blast
  have "writing demo_seen \<in> set demo_stream" by code_simp
  moreover have "demo_seen \<in> set (ar_write_back (writing demo_seen))" by (simp add: writing_def)
  moreover have "(''secret'', ''{}'') \<in> set (oe_facets demo_seen)" by (simp add: demo_seen_def)
  ultimately show ?thesis using write_back_accounted [OF out [unfolded demo_outcome_def]] out by blast
qed

definition demo_invoke :: "invoke_response list \<times> stream_end" where
  "demo_invoke = ([\<lparr>ir_event = Some \<lparr>te_terminal = True, te_ok = True, te_message = [], te_checkpoint = []\<rparr>,
     ir_result = Some \<lparr>iv_outputs = ''{}'', iv_consumed = [], iv_output_contract = [], iv_entities = [demo_seen], iv_creds = [''cred/tofu/db'', ''db'']\<rparr>\<rparr>], Eof)"

lemma demo_invoke_value:
  "invoke_raw demo_grant [] demo_invoke = Inr \<lparr>rv_ok = True, rv_error = [], rv_outputs = ''{}'',
     rv_entities = [\<lparr>ae_kind = ''host'', ae_ids = [(''host.name'', ''a'')], ae_labels = [(''env'', ''prod''), (''team'', ''x'')], ae_relations = []\<rparr>],
     rv_creds = [''cred/tofu/db''],
     rv_rejections = [rejection ''identity-scheme'' ''dns.fqdn'' SharedSchemeUntrusted, rejection ''provisioned-cred'' ''db'' OutsideSource],
     rv_consumed = []\<rparr>"
  by code_simp

theorem governed_invoke_is_confined_witness:
  "\<exists>out. invoke_raw demo_grant [] demo_invoke = Inr out \<and> confined_invoke demo_grant out"
  using demo_invoke_value governed_invoke_is_confined by blast

theorem invoke_verdict_witness: "\<exists>out. invoke_raw demo_grant [] demo_invoke = Inr out \<and> rv_ok out"
proof -
  from demo_invoke_value obtain out where out: "invoke_raw demo_grant [] demo_invoke = Inr out" by blast
  have "(case last_terminal (fst demo_invoke) of None \<Rightarrow> False | Some ev \<Rightarrow> te_ok ev)" by code_simp
  with invoke_verdict [OF out] out show ?thesis by blast
qed

text \<open>A green terminal is enough: no per-target result has to agree with it, and an unspecified one does not object.\<close>

theorem green_terminal_suffices:
  "list_all (\<lambda>msgs. case govern demo_grant [] [''a'', ''b''] [] (msgs @ [ending True], Eof) of Inl _ \<Rightarrow> False | Inr out \<Rightarrow> ra_succeeded out)
     [[], [reporting ''a'' StatusUnspecified]]"
  by code_simp

text \<open>Bytes that name no contract are captured as the outputs of an Actuator that pins one, whatever they hold.\<close>

theorem unnamed_outputs_captured:
  "pinned \<noteq> [] \<Longrightarrow> case govern g pinned tset scope ([silent\<lparr>ar_outputs := Some bytes\<rparr>], Eof) of
     Inl _ \<Rightarrow> False | Inr out \<Rightarrow> ra_outputs out = Some bytes \<and> ra_rejections out = []"
  by (simp add: govern_def govern_fold_def govern_step_def govern_outputs_def govern_start_def silent_def Let_def)

end
