(* ===== verification/Syncing.thy ===== *)
theory Syncing
  imports Governor
begin

text \<open>
  A Syncer under its grant (\<open>Host.Register\<close>, \<open>Deregister\<close>, \<open>ValidateManifest\<close>, \<open>Sync\<close> and the Emitter's
  \<open>subscribeOnce\<close> of \<open>core/internal/pluginhost/host.go\<close>): the Manifest against the grant, the ownership claims that
  follow from the grant, and one Observe pass over the graph.  A pass is a sequence of transactions; an error ends it
  and leaves what was committed, so a step answers its error beside the state.
\<close>

section \<open>Loops over committed state\<close>

fun run_each :: "('a \<Rightarrow> 's \<Rightarrow> 'e option \<times> 's) \<Rightarrow> 'a list \<Rightarrow> 's \<Rightarrow> 'e option \<times> 's" where
  "run_each f [] s = (None, s)"
| "run_each f (x # xs) s = (case f x s of (Some e, s') \<Rightarrow> (Some e, s') | (None, s') \<Rightarrow> run_each f xs s')"

definition after :: "'e option \<times> 's \<Rightarrow> ('s \<Rightarrow> 'e option \<times> 's) \<Rightarrow> 'e option \<times> 's" where
  "after r f = (case r of (Some e, s) \<Rightarrow> (Some e, s) | (None, s) \<Rightarrow> f s)"

text \<open>What relates the state before a loop to the one after it, however it ends.\<close>

locale committed_loop =
  fixes body :: "'a \<Rightarrow> 's \<Rightarrow> 'e option \<times> 's"
    and good :: "'a \<Rightarrow> bool"
    and inv :: "'s \<Rightarrow> bool"
    and rel :: "'s \<Rightarrow> 's \<Rightarrow> bool"
  assumes reflexive: "rel s s"
    and transitive: "rel s t \<Longrightarrow> rel t u \<Longrightarrow> rel s u"
    and keeps: "inv s \<Longrightarrow> good x \<Longrightarrow> inv (snd (body x s)) \<and> rel s (snd (body x s))"
begin

lemma loop: "inv s \<Longrightarrow> list_all good xs \<Longrightarrow> inv (snd (run_each body xs s)) \<and> rel s (snd (run_each body xs s))"
proof (induction xs arbitrary: s)
  case (Cons x xs)
  then have one: "inv (snd (body x s)) \<and> rel s (snd (body x s))" by (intro keeps) simp_all
  obtain r s' where body: "body x s = (r, s')" by fastforce
  show ?case
  proof (cases r)
    case None
    with Cons one body have "inv (snd (run_each body xs s')) \<and> rel s' (snd (run_each body xs s'))" by simp
    with None one body show ?thesis by (auto intro: transitive)
  next
    case (Some e)
    with one body show ?thesis by simp
  qed
qed (simp add: reflexive)

end

section \<open>Registration\<close>

datatype verb = VerbUnspecified | VerbObserve | VerbPlan | VerbApply | VerbDestroy | VerbInvoke | VerbEmit

record manifest =
  mf_plugin_id :: string
  mf_verbs :: "verb list"
  mf_contracts :: "string list"
  mf_tombstone_schemes :: "string list"

definition manifest_has_verb :: "manifest \<Rightarrow> verb \<Rightarrow> bool" where
  "manifest_has_verb m v \<longleftrightarrow> v \<in> set (mf_verbs m)"

definition validate_manifest :: "grant \<Rightarrow> manifest option \<Rightarrow> host_error option" where
  "validate_manifest g m =
     (case m of None \<Rightarrow> Some ManifestUnread
      | Some m \<Rightarrow> if mf_plugin_id m \<noteq> gr_identity g then Some IdentityMismatch else None)"

definition check_manifest :: "grant \<Rightarrow> manifest option \<Rightarrow> host_error option" where
  "check_manifest g m =
     (case validate_manifest g m of Some e \<Rightarrow> Some e | None \<Rightarrow>
      (case m of None \<Rightarrow> Some ManifestUnread
       | Some m \<Rightarrow>
          if \<not> manifest_has_verb m VerbObserve then Some VerbMissing
          else case first_err (\<lambda>c. if allows_facet g c \<noteq> None then Some (ContractUngranted c) else None) (mf_contracts m) of
                 Some e \<Rightarrow> Some e
               | None \<Rightarrow> first_err (\<lambda>ts. map_option (TombstoneRefused ts) (allows_identity g ts)) (mf_tombstone_schemes m)))"

definition syncer_claim :: "grant \<Rightarrow> string \<Rightarrow> owner_row" where
  "syncer_claim g ns = \<lparr>ow_namespace = ns, ow_kind = ''syncer'', ow_ref = writer_ref g, ow_scope = [],
     ow_authoritative = (ns \<in> set (gr_authoritative g))\<rparr>"

definition claim_facet :: "grant \<Rightarrow> string \<Rightarrow> graph_db \<Rightarrow> host_error option \<times> graph_db" where
  "claim_facet g ns db = (case register_facet_owner (syncer_claim g ns) db of
     Inl e \<Rightarrow> (Some (OwnerRefused e), db) | Inr db' \<Rightarrow> (None, db'))"

definition claim_label :: "grant \<Rightarrow> string \<Rightarrow> graph_db \<Rightarrow> host_error option \<times> graph_db" where
  "claim_label g k db =
     (case register_label_owner k \<lparr>lo_kind = ''syncer'', lo_ref = writer_ref g, lo_scope = []\<rparr> db of
        Inl e \<Rightarrow> (Some (OwnerRefused e), db) | Inr db' \<Rightarrow> (None, db'))"

text \<open>\<open>RegisterSource\<close> of the Home registry, over the graph of the Cell.\<close>

definition register_graph_source :: "source_spec \<Rightarrow> graph_db \<Rightarrow> graph_db" where
  "register_graph_source s db = db\<lparr>db_sources := db_sources (register_source s [] (cell_db.truncate db))\<rparr>"

definition register_host :: "grant \<Rightarrow> manifest option \<Rightarrow> graph_db \<Rightarrow> host_error option \<times> graph_db" where
  "register_host g m db =
     (case check_manifest g m of Some e \<Rightarrow> (Some e, db)
      | None \<Rightarrow> after (run_each (claim_facet g) (gr_facets g) (register_graph_source (gr_source g) db))
          (run_each (claim_label g) (gr_labels g)))"

definition deregister_host :: "grant \<Rightarrow> graph_db \<Rightarrow> graph_db" where
  "deregister_host g db =
     fold (\<lambda>k. deregister_label_owner k (writer_ref g)) (gr_labels g)
       (fold (\<lambda>ns. deregister_facet_owner ns (writer_ref g)) (gr_facets g) db)"

section \<open>One Observe pass\<close>

record gone_relation =
  go_type :: string
  go_from_scheme :: string
  go_from_value :: string
  go_to_scheme :: string
  go_to_value :: string

record observe_response =
  os_entities :: "observed_entity list"
  os_gone :: "(string \<times> string) list"
  os_full_sync_complete :: bool
  os_next_cursor :: string
  os_gone_relations :: "gone_relation list"

record sync_state =
  sy_db :: graph_db
  sy_rejections :: "rejected list"
  sy_seen :: "string list gomap"
  sy_seen_rels :: "(string \<times> string) list gomap"
  sy_pending :: "(string \<times> observed_relation) list"

type_synonym sync_step = "sync_state \<Rightarrow> host_error option \<times> sync_state"

definition host_provenance :: "grant \<Rightarrow> provenance" where
  "host_provenance g = \<lparr>pv_kind = WriterSyncer, pv_ref = writer_ref g, pv_source = ss_name (gr_source g)\<rparr>"

definition reject :: "string \<Rightarrow> string \<Rightarrow> refusal \<Rightarrow> sync_state \<Rightarrow> sync_state" where
  "reject kind detail r s = s\<lparr>sy_rejections := sy_rejections s @ [rejection kind detail r]\<rparr>"

definition append_at :: "string \<Rightarrow> 'a \<Rightarrow> 'a list gomap \<Rightarrow> 'a list gomap" where
  "append_at k x m = aput k ((case map_of m k of None \<Rightarrow> [] | Some xs \<Rightarrow> xs) @ [x]) m"

definition mark_seen :: "string list \<Rightarrow> string gomap \<Rightarrow> string list gomap \<Rightarrow> string list gomap" where
  "mark_seen schemes ids seen =
     fold (\<lambda>s m. case map_of ids s of None \<Rightarrow> m | Some v \<Rightarrow> append_at s v m) schemes seen"

definition sync_entity :: "graph_env \<Rightarrow> grant \<Rightarrow> observed_entity \<Rightarrow> sync_step" where
  "sync_entity env g e s =
     (case to_upsert g e of
        (None, rejs) \<Rightarrow> (None, s\<lparr>sy_rejections := sy_rejections s @ rejs\<rparr>)
      | (Some u, rejs) \<Rightarrow>
          let s1 = s\<lparr>sy_rejections := sy_rejections s @ rejs\<rparr>
          in case upsert_entities env Normalizer (host_provenance g) [u] (sy_db s) of
               Inl IdentityConflict \<Rightarrow> (None, reject ''entity'' (eu_kind u) IdentitiesConflict s1)
             | Inl e' \<Rightarrow> (Some (GraphFailed e'), s1)
             | Inr (ids, db') \<Rightarrow>
                 (None, s1\<lparr>sy_db := db', sy_pending := sy_pending s1 @ map (Pair (hd ids)) (oe_relations e),
                           sy_seen := mark_seen (gr_tombstones g) (eu_ids u) (sy_seen s1)\<rparr>))"

definition sync_relation :: "grant \<Rightarrow> string \<times> observed_relation \<Rightarrow> sync_step" where
  "sync_relation g pr s = (case pr of (from, rel) \<Rightarrow>
     (case allows_identity g (ob_to_scheme rel) of
        Some r \<Rightarrow> (None, reject ''relation-target'' (ob_to_scheme rel) r s)
      | None \<Rightarrow>
          (case entity_id_by_identity (sy_db s) (ob_to_scheme rel) (ob_to_value rel) of
             None \<Rightarrow> (None, reject ''relation'' (ob_type rel) TargetNotFound s)
           | Some to \<Rightarrow>
               (case upsert_relation Normalizer (host_provenance g) (ob_type rel) from to (sy_db s) of
                  Inl e \<Rightarrow> (Some (GraphFailed e), s)
                | Inr db' \<Rightarrow> (None, s\<lparr>sy_db := db', sy_seen_rels := append_at (ob_type rel) (from, to) (sy_seen_rels s)\<rparr>)))))"

definition sync_gone :: "grant \<Rightarrow> string \<times> string \<Rightarrow> sync_step" where
  "sync_gone g key s = (case key of (scheme, val) \<Rightarrow>
     (case allows_identity g scheme of
        Some r \<Rightarrow> (None, reject ''identity-scheme'' scheme r s)
      | None \<Rightarrow>
          (case tombstone_by_identity Normalizer (host_provenance g) scheme val (sy_db s) of
             Inl e \<Rightarrow> (Some (GraphFailed e), s) | Inr (_, db') \<Rightarrow> (None, s\<lparr>sy_db := db'\<rparr>))))"

definition sync_gone_relation :: "grant \<Rightarrow> gone_relation \<Rightarrow> sync_step" where
  "sync_gone_relation g gr s =
     (case allows_identity g (go_from_scheme gr) of
        Some r \<Rightarrow> (None, reject ''relation-gone-from'' (go_from_scheme gr) r s)
      | None \<Rightarrow>
     (case allows_identity g (go_to_scheme gr) of
        Some r \<Rightarrow> (None, reject ''relation-gone-to'' (go_to_scheme gr) r s)
      | None \<Rightarrow>
     (case (entity_id_by_identity (sy_db s) (go_from_scheme gr) (go_from_value gr),
            entity_id_by_identity (sy_db s) (go_to_scheme gr) (go_to_value gr)) of
        (Some from, Some to) \<Rightarrow> (None, s\<lparr>sy_db := retract_relation (go_type gr) from to (sy_db s)\<rparr>)
      | _ \<Rightarrow> (None, s))))"

definition sync_tombstones :: "grant \<Rightarrow> string \<Rightarrow> sync_step" where
  "sync_tombstones g scheme s =
     (case tombstone_absent Normalizer (host_provenance g) scheme (case map_of (sy_seen s) scheme of None \<Rightarrow> [] | Some vs \<Rightarrow> vs) (sy_db s) of
        Inl e \<Rightarrow> (Some (GraphFailed e), s) | Inr (_, db') \<Rightarrow> (None, s\<lparr>sy_db := db'\<rparr>))"

definition sync_replace :: "grant \<Rightarrow> string \<Rightarrow> sync_step" where
  "sync_replace g ty s =
     (None, s\<lparr>sy_db := snd (retract_source_presence_except (ss_name (gr_source g)) ty
        (case map_of (sy_seen_rels s) ty of None \<Rightarrow> [] | Some ps \<Rightarrow> ps) (sy_db s))\<rparr>)"

definition sync_full :: "grant \<Rightarrow> sync_step" where
  "sync_full g s =
     after (run_each (sync_tombstones g) (gr_tombstones g) s)
       (\<lambda>s. run_each (sync_replace g)
          (remdups (relation_types_by_source (ss_name (gr_source g)) (sy_db s) @ keys (sy_seen_rels s))) s)"

definition sync_cursor_step :: "grant \<Rightarrow> string \<Rightarrow> sync_step" where
  "sync_cursor_step g c s =
     (if c = [] then (None, s)
      else case set_sync_cursor (ss_name (gr_source g)) c (sy_db s) of
        Inl e \<Rightarrow> (Some (GraphFailed e), s) | Inr db' \<Rightarrow> (None, s\<lparr>sy_db := db'\<rparr>))"

definition sync_message :: "graph_env \<Rightarrow> grant \<Rightarrow> observe_response \<Rightarrow> sync_step" where
  "sync_message env g m s =
     after (run_each (sync_entity env g) (os_entities m) (s\<lparr>sy_pending := []\<rparr>)) (\<lambda>s.
     after (run_each (sync_relation g) (sy_pending s) s) (\<lambda>s.
     after (run_each (sync_gone g) (os_gone m) s) (\<lambda>s.
     after (run_each (sync_gone_relation g) (os_gone_relations m) s) (\<lambda>s.
     after (if os_full_sync_complete m then sync_full g s else (None, s)) (\<lambda>s.
     sync_cursor_step g (os_next_cursor m) s)))))"

text \<open>\<open>feed\<close> is what the plugin streams when it is asked to resume at the stored cursor; \<open>None\<close> when the call fails.\<close>

definition sync :: "graph_env \<Rightarrow> grant \<Rightarrow> bool \<Rightarrow> (string \<Rightarrow> (observe_response list \<times> stream_end) option) \<Rightarrow> graph_db \<Rightarrow>
    host_error option \<times> sync_state" where
  "sync env g registered feed db =
     (let s = \<lparr>sy_db = db, sy_rejections = [], sy_seen = [], sy_seen_rels = [], sy_pending = []\<rparr>
      in if \<not> registered then (Some NotRegistered, s)
         else case feed (sync_cursor (ss_name (gr_source g)) db) of
           None \<Rightarrow> (Some RpcFailed, s)
         | Some (msgs, fin) \<Rightarrow> after (run_each (sync_message env g) msgs s)
             (\<lambda>s. (case fin of Eof \<Rightarrow> None | RecvFailed \<Rightarrow> Some StreamFailed | Canceled \<Rightarrow> Some StreamCanceled, s)))"

section \<open>The Emitter\<close>

record emitter_event =
  em_emitter :: string
  em_payload :: string

text \<open>An event of the stream is its match projection, if it has one; \<open>publish\<close> answers whether the bus took it.\<close>

definition subscribe_once :: "grant \<Rightarrow> (string \<Rightarrow> bool) \<Rightarrow> string option list \<Rightarrow> emitter_event list \<times> rejected list" where
  "subscribe_once g publish evs =
     (map (\<lambda>p. \<lparr>em_emitter = emitter_name g, em_payload = p\<rparr>) (filter publish (List.map_filter (\<lambda>x. x) evs)),
      List.map_filter (\<lambda>ev. case ev of None \<Rightarrow> Some (rejection ''emitter'' (emitter_name g) NoMatch)
        | Some p \<Rightarrow> if publish p then None else Some (rejection ''emitter'' (emitter_name g) PublishFailed)) evs)"

definition subscribe_loop :: "grant \<Rightarrow> manifest option \<Rightarrow> (string \<Rightarrow> bool) \<Rightarrow> string option list list \<Rightarrow>
    host_error + (emitter_event list \<times> rejected list)" where
  "subscribe_loop g m publish streams =
     (case validate_manifest g m of Some e \<Rightarrow> Inl e
      | None \<Rightarrow> Inr (concat (map (fst \<circ> subscribe_once g publish) streams), concat (map (snd \<circ> subscribe_once g publish) streams)))"

definition max_backoff :: nat where
  "max_backoff = 30"

fun backoffs :: "nat \<Rightarrow> nat \<Rightarrow> nat list" where
  "backoffs 0 b = []"
| "backoffs (Suc n) b = b # backoffs n (if b * 2 > max_backoff then max_backoff else b * 2)"


section \<open>A pass stays within its grant\<close>

definition reach_of :: "grant \<Rightarrow> reach" where
  "reach_of g = \<lparr>re_source = ss_name (gr_source g), re_schemes = filter (\<lambda>s. allows_identity g s = None) (gr_schemes g),
     re_labels = gr_labels g, re_facets = gr_facets g\<rparr>"

lemma reach_of_fields [simp]:
  "re_source (reach_of g) = ss_name (gr_source g)" "set (re_schemes (reach_of g)) = emittable g"
  "re_labels (reach_of g) = gr_labels g" "re_facets (reach_of g) = gr_facets g"
  by (auto simp: reach_of_def emittable_def allows_identity_def)

lemma host_provenance_source [simp]: "pv_source (host_provenance g) = ss_name (gr_source g)"
  by (simp add: host_provenance_def)

lemma reject_db [simp]: "sy_db (reject k d r s) = sy_db s" "sy_pending (reject k d r s) = sy_pending s"
  by (simp_all add: reject_def)

definition moves_within :: "grant \<Rightarrow> sync_state \<Rightarrow> sync_state \<Rightarrow> bool" where
  "moves_within g s t \<longleftrightarrow> confined (reach_of g) (sy_db s) (sy_db t)"

lemma moves_within_same [intro]: "sy_db t = sy_db s \<Longrightarrow> moves_within g s t"
  by (simp add: moves_within_def)

lemma upsert_entities_single:
  "upsert_entities env wp pv [u] db = (case upsert_entity env wp pv u db of Inl e \<Rightarrow> Inl e | Inr (eid, d) \<Rightarrow> Inr ([eid], d))"
  by (simp add: upsert_entities_def split: sum.splits prod.splits)

lemma sync_entity_cases:
  obtains (kept) "sy_db (snd (sync_entity env g e s)) = sy_db s" "sy_pending (snd (sync_entity env g e s)) = sy_pending s"
  | (wrote) u rejs eid db' where "to_upsert g e = (Some u, rejs)"
      and "upsert_entity env Normalizer (host_provenance g) u (sy_db s) = Inr (eid, db')"
      and "sy_db (snd (sync_entity env g e s)) = db'"
      and "sy_pending (snd (sync_entity env g e s)) = sy_pending s @ map (Pair eid) (oe_relations e)"
proof (cases "to_upsert g e")
  case (Pair x rejs)
  show ?thesis
  proof (cases x)
    case None
    with Pair show ?thesis by (intro kept) (simp_all add: sync_entity_def)
  next
    case (Some u)
    show ?thesis
    proof (cases "upsert_entity env Normalizer (host_provenance g) u (sy_db s)")
      case (Inl er)
      with Pair Some show ?thesis
        by (intro kept) (simp_all add: sync_entity_def upsert_entities_single Let_def split: graph_error.splits)
    next
      case (Inr p)
      obtain eid db' where "p = (eid, db')" by (cases p)
      with Pair Some Inr show ?thesis
        by (intro wrote [of u rejs eid db']) (simp_all add: sync_entity_def upsert_entities_single Let_def)
    qed
  qed
qed

lemma sync_entity_within: "fresh_uuids env \<Longrightarrow> moves_within g s (snd (sync_entity env g e s))"
proof (cases rule: sync_entity_cases [of env g e s])
  case (wrote u rejs eid db')
  assume "fresh_uuids env"
  moreover from wrote(1) have "upsert_within (emittable g) (set (gr_labels g)) (set (gr_facets g)) u" by (rule to_upsert_within)
  ultimately have "confined (reach_of g) (sy_db s) db'"
    by (intro upsert_entity_within [OF _ _ _ _ _ wrote(2)]) (simp_all add: upsert_within_def)
  with wrote(3) show ?thesis by (simp add: moves_within_def)
qed auto

lemma sync_relation_within: "moves_within g s (snd (sync_relation g pr s))"
  unfolding moves_within_def sync_relation_def
  by (auto split: prod.splits option.splits sum.splits dest: upsert_relation_within [where sc = "reach_of g"])

lemma sync_gone_within: "moves_within g s (snd (sync_gone g key s))"
  unfolding moves_within_def sync_gone_def
  by (auto split: prod.splits option.splits sum.splits dest: tombstone_by_identity_within [where sc = "reach_of g"])

lemma sync_gone_relation_within: "moves_within g s (snd (sync_gone_relation g gr s))"
  unfolding moves_within_def sync_gone_relation_def
  by (auto split: option.splits intro: retract_relation_within)

lemma sync_tombstones_within: "moves_within g s (snd (sync_tombstones g sch s))"
  unfolding moves_within_def sync_tombstones_def
  by (auto split: prod.splits sum.splits dest: tombstone_absent_within [where sc = "reach_of g"])

lemma sync_replace_within: "moves_within g s (snd (sync_replace g ty s))"
  unfolding moves_within_def sync_replace_def
  by (simp add: retract_source_presence_except_within)

lemma sync_cursor_within: "moves_within g s (snd (sync_cursor_step g c s))"
proof -
  have "confined (reach_of g) db (db\<lparr>g_cursors := aput (ss_name (gr_source g)) c (g_cursors db)\<rparr>)" for db
    by (auto simp: within_parts label_of_def identity_at_def map_of_aput)
  then show ?thesis by (auto simp: moves_within_def sync_cursor_step_def set_sync_cursor_def)
qed

lemma moves_within_refl [simp]: "moves_within g s s"
  by (simp add: moves_within_def)

lemma moves_within_trans: "moves_within g s t \<Longrightarrow> moves_within g t u \<Longrightarrow> moves_within g s u"
  by (auto simp: moves_within_def intro: within_trans)

interpretation entity_loop: committed_loop "sync_entity env g" "\<lambda>_. True" "\<lambda>_. fresh_uuids env" "moves_within g" for env g
  by unfold_locales (auto intro: moves_within_trans sync_entity_within)

interpretation relation_loop: committed_loop "sync_relation g" "\<lambda>_. True" "\<lambda>_. True" "moves_within g" for g
  by unfold_locales (auto intro: moves_within_trans sync_relation_within)

interpretation gone_loop: committed_loop "sync_gone g" "\<lambda>_. True" "\<lambda>_. True" "moves_within g" for g
  by unfold_locales (auto intro: moves_within_trans sync_gone_within)

interpretation gone_relation_loop: committed_loop "sync_gone_relation g" "\<lambda>_. True" "\<lambda>_. True" "moves_within g" for g
  by unfold_locales (auto intro: moves_within_trans sync_gone_relation_within)

interpretation tombstone_loop: committed_loop "sync_tombstones g" "\<lambda>_. True" "\<lambda>_. True" "moves_within g" for g
  by unfold_locales (auto intro: moves_within_trans sync_tombstones_within)

interpretation replace_loop: committed_loop "sync_replace g" "\<lambda>_. True" "\<lambda>_. True" "moves_within g" for g
  by unfold_locales (auto intro: moves_within_trans sync_replace_within)

lemma all_True [simp]: "list_all (\<lambda>_. True) xs"
  by (simp add: list_all_iff)

lemma after_within:
  assumes "moves_within g s (snd r)" and "\<And>t. moves_within g t (snd (f t))"
  shows "moves_within g s (snd (after r f))"
  using assms by (auto simp: after_def split: prod.splits option.splits intro: moves_within_trans)

lemma sync_message_within:
  assumes "fresh_uuids env"
  shows "moves_within g s (snd (sync_message env g m s))"
proof -
  have "moves_within g s (s\<lparr>sy_pending := []\<rparr>)" by (intro moves_within_same) simp
  moreover have "moves_within g (s\<lparr>sy_pending := []\<rparr>) (snd (run_each (sync_entity env g) (os_entities m) (s\<lparr>sy_pending := []\<rparr>)))"
    using entity_loop.loop [OF assms] by simp
  ultimately have start: "moves_within g s (snd (run_each (sync_entity env g) (os_entities m) (s\<lparr>sy_pending := []\<rparr>)))"
    by (rule moves_within_trans)
  show ?thesis unfolding sync_message_def
    by (intro after_within start)
      (auto simp: sync_full_def relation_loop.loop gone_loop.loop gone_relation_loop.loop sync_cursor_within
        intro!: after_within tombstone_loop.loop [THEN conjunct2] replace_loop.loop [THEN conjunct2])
qed

interpretation message_loop: committed_loop "sync_message env g" "\<lambda>_. True" "\<lambda>_. fresh_uuids env" "moves_within g" for env g
  by unfold_locales (auto intro: moves_within_trans sync_message_within)

lemma sync_within:
  assumes "fresh_uuids env"
  shows "confined (reach_of g) db (sy_db (snd (sync env g registered feed db)))"
proof -
  let ?s = "\<lparr>sy_db = db, sy_rejections = [], sy_seen = [], sy_seen_rels = [], sy_pending = []\<rparr>"
  have "moves_within g ?s (snd (run_each (sync_message env g) msgs ?s))" for msgs
    using message_loop.loop [OF assms] by simp
  then have "moves_within g ?s (snd (sync env g registered feed db))"
    by (auto simp: sync_def Let_def split: option.splits prod.splits stream_end.splits intro!: after_within)
  then show ?thesis by (simp add: moves_within_def)
qed



text \<open>So the Entities another Source observes outlive the pass, with the labels and the keys that are not the plugin's.\<close>

section \<open>A pass keeps the graph sound\<close>

definition proper :: "observed_entity \<Rightarrow> bool" where
  "proper e \<longleftrightarrow> distinct (keys (oe_ids e))"

definition rooted :: "string set \<Rightarrow> sync_state \<Rightarrow> bool" where
  "rooted P s \<longleftrightarrow> graph_ok (sy_db s) \<and> P \<subseteq> set (db_live (sy_db s))"

definition pending_rooted :: "sync_state \<Rightarrow> bool" where
  "pending_rooted s \<longleftrightarrow> graph_ok (sy_db s) \<and> fst ` set (sy_pending s) \<subseteq> set (db_live (sy_db s))"

lemma sync_entity_sound:
  assumes "pending_rooted s" and "proper e"
  shows "pending_rooted (snd (sync_entity env g e s))"
proof (cases rule: sync_entity_cases [of env g e s])
  case kept
  with assms show ?thesis by (simp add: pending_rooted_def)
next
  case (wrote u rejs eid db')
  from wrote(1) have "eu_ids u = passing (allows_identity g) (oe_ids e)"
    by (auto simp: to_upsert_def gate_entity_def Let_def split: if_splits)
  with assms(2) have d: "distinct (keys (eu_ids u))" by (simp add: proper_def identity_gate.admitted_distinct)
  from assms(1) have ok: "graph_ok (sy_db s)" by (simp add: pending_rooted_def)
  from upsert_entity_ok [OF ok d wrote(2)] upsert_entity_lands [OF ok d wrote(2)] assms(1) wrote(3,4)
  show ?thesis by (auto simp: pending_rooted_def)
qed

interpretation entity_sound: committed_loop "sync_entity env g" proper pending_rooted "\<lambda>_ _. True" for env g
  by unfold_locales (auto intro: sync_entity_sound)

lemma sync_relation_sound:
  assumes "rooted P s" and "fst pr \<in> P"
  shows "rooted P (snd (sync_relation g pr s))"
proof -
  obtain src rel where pr: "pr = (src, rel)" by (cases pr)
  have "rooted P (s\<lparr>sy_db := db', sy_seen_rels := x\<rparr>)"
    if "entity_id_by_identity (sy_db s) (ob_to_scheme rel) (ob_to_value rel) = Some to"
      and up: "upsert_relation Normalizer (host_provenance g) (ob_type rel) src to (sy_db s) = Inr db'" for to db' x
  proof -
    from assms pr have ok: "graph_ok (sy_db s)" and f: "src \<in> set (db_live (sy_db s))" by (auto simp: rooted_def)
    from that(1) ok have t: "to \<in> set (db_live (sy_db s))" by (simp add: entity_id_by_identity_iff)
    from up obtain ps where "db' = (sy_db s)\<lparr>g_relations := aput (ob_type rel, src, to) (host_provenance g) (g_relations (sy_db s)), g_edge_presence := ps\<rparr>"
      by (rule upsert_relation_effect)
    then have "db_live db' = db_live (sy_db s)" by simp
    with upsert_relation_ok [OF ok f t up] assms show ?thesis by (simp add: rooted_def)
  qed
  with assms show ?thesis
    by (auto simp: sync_relation_def pr rooted_def split: option.splits sum.splits)
qed

interpretation relation_sound: committed_loop "sync_relation g" "\<lambda>pr. fst pr \<in> P" "rooted P" "\<lambda>_ _. True" for g P
  by unfold_locales (auto intro: sync_relation_sound)

definition sound :: "sync_state \<Rightarrow> bool" where
  "sound s \<longleftrightarrow> graph_ok (sy_db s)"

interpretation gone_sound: committed_loop "sync_gone g" "\<lambda>_. True" sound "\<lambda>_ _. True" for g
  by unfold_locales
    (auto simp: sync_gone_def sound_def reject_def split: prod.splits option.splits sum.splits dest: tombstone_by_identity_ok)

interpretation gone_relation_sound: committed_loop "sync_gone_relation g" "\<lambda>_. True" sound "\<lambda>_ _. True" for g
  by unfold_locales (auto simp: sync_gone_relation_def sound_def retract_relation_ok split: option.splits)

interpretation tombstone_sound: committed_loop "sync_tombstones g" "\<lambda>_. True" sound "\<lambda>_ _. True" for g
  by unfold_locales (auto simp: sync_tombstones_def sound_def split: prod.splits sum.splits dest: tombstone_absent_ok)

interpretation replace_sound: committed_loop "sync_replace g" "\<lambda>_. True" sound "\<lambda>_ _. True" for g
  by unfold_locales (auto simp: sync_replace_def sound_def retract_source_presence_except_ok)

lemma after_keeps:
  assumes "P (snd r)" and "\<And>t. P t \<Longrightarrow> P (snd (f t))"
  shows "P (snd (after r f))"
  using assms by (auto simp: after_def split: prod.splits option.splits)

lemma after_keeps_at:
  assumes "P (snd r)" and "P (snd r) \<Longrightarrow> P (snd (f (snd r)))"
  shows "P (snd (after r f))"
  using assms by (auto simp: after_def split: prod.splits option.splits)

lemma sync_full_sound: "sound s \<Longrightarrow> sound (snd (sync_full g s))"
  unfolding sync_full_def
  by (intro after_keeps [where P = sound])
    (auto simp: tombstone_sound.loop replace_sound.loop)

lemma sync_cursor_sound: "sound s \<Longrightarrow> sound (snd (sync_cursor_step g c s))"
  by (auto simp: sync_cursor_step_def set_sync_cursor_def sound_def graph_inv)

lemma sync_message_sound:
  assumes "sound s" and "list_all proper (os_entities m)"
  shows "sound (snd (sync_message env g m s))"
proof -
  have "pending_rooted (s\<lparr>sy_pending := []\<rparr>)" using assms(1) by (simp add: sound_def pending_rooted_def)
  with assms(2) have "pending_rooted (snd (run_each (sync_entity env g) (os_entities m) (s\<lparr>sy_pending := []\<rparr>)))"
    by (simp add: entity_sound.loop)
  moreover have "sound (snd (run_each (sync_relation g) (sy_pending t) t))" if "pending_rooted t" for t
  proof -
    have "rooted (fst ` set (sy_pending t)) t" using that by (simp add: pending_rooted_def rooted_def)
    moreover have "list_all (\<lambda>pr. fst pr \<in> fst ` set (sy_pending t)) (sy_pending t)" by (simp add: list_all_iff)
    ultimately have "rooted (fst ` set (sy_pending t)) (snd (run_each (sync_relation g) (sy_pending t) t))"
      by (simp add: relation_sound.loop)
    then show ?thesis by (simp add: rooted_def sound_def)
  qed
  moreover have "pending_rooted t \<Longrightarrow> sound t" for t by (simp add: pending_rooted_def sound_def)
  ultimately have start: "sound (snd (after (run_each (sync_entity env g) (os_entities m) (s\<lparr>sy_pending := []\<rparr>))
      (\<lambda>t. run_each (sync_relation g) (sy_pending t) t)))"
    by (auto simp: after_def split: prod.splits option.splits)
  have assoc: "after (after r f) h = after r (\<lambda>x. after (f x) h)" for r :: "host_error option \<times> sync_state" and f h
    by (auto simp: after_def split: prod.splits option.splits)
  have "sound (snd (after (after (run_each (sync_entity env g) (os_entities m) (s\<lparr>sy_pending := []\<rparr>))
      (\<lambda>t. run_each (sync_relation g) (sy_pending t) t)) (\<lambda>s.
     after (run_each (sync_gone g) (os_gone m) s) (\<lambda>s.
     after (run_each (sync_gone_relation g) (os_gone_relations m) s) (\<lambda>s.
     after (if os_full_sync_complete m then sync_full g s else (None, s)) (\<lambda>s.
     sync_cursor_step g (os_next_cursor m) s))))))"
    by (intro after_keeps [where P = sound] start)
      (auto simp: gone_sound.loop gone_relation_sound.loop sync_full_sound sync_cursor_sound)
  then show ?thesis by (simp add: sync_message_def assoc)
qed

interpretation message_sound: committed_loop "sync_message env g" "\<lambda>m. list_all proper (os_entities m)" sound "\<lambda>_ _. True"
  for env g
  by unfold_locales (auto intro: sync_message_sound)

definition proper_feed :: "(string \<Rightarrow> (observe_response list \<times> stream_end) option) \<Rightarrow> bool" where
  "proper_feed feed \<longleftrightarrow> (\<forall>c. case feed c of None \<Rightarrow> True
     | Some (msgs, _) \<Rightarrow> list_all (\<lambda>m. list_all proper (os_entities m)) msgs)"

lemma sync_keeps_ok:
  assumes "graph_ok db" and "proper_feed feed"
  shows "graph_ok (sy_db (snd (sync env g registered feed db)))"
proof -
  let ?s = "\<lparr>sy_db = db, sy_rejections = [], sy_seen = [], sy_seen_rels = [], sy_pending = []\<rparr>"
  have start: "sound ?s" using assms(1) by (simp add: sound_def)
  have "sound (snd (sync env g registered feed db))"
  proof (cases "registered \<and> feed (sync_cursor (ss_name (gr_source g)) db) \<noteq> None")
    case True
    then obtain msgs fin where feed: "feed (sync_cursor (ss_name (gr_source g)) db) = Some (msgs, fin)" by auto
    with assms(2) have "list_all (\<lambda>m. list_all proper (os_entities m)) msgs"
      unfolding proper_feed_def by (metis (mono_tags, lifting) case_prod_conv option.case(2))
    with start have "sound (snd (run_each (sync_message env g) msgs ?s))" by (simp add: message_sound.loop)
    with True feed show ?thesis
      by (auto simp: sync_def Let_def intro!: after_keeps [where P = sound])
  next
    case False
    with start show ?thesis by (auto simp: sync_def Let_def split: option.splits)
  qed
  then show ?thesis by (simp add: sound_def)
qed

text \<open>C17. C1.
  A Sync keeps the graph well formed, also when it breaks off in the middle: one Entity per identity key, no presence,
  edge or Facet without its live or known Entity, and an Entity that a Source observes is live.
\<close>

theorem sync_keeps_graph:
  assumes "graph_ok db" and "proper_feed feed"
  shows "graph_ok (sy_db (snd (sync env g registered feed db)))"
  using assms by (rule sync_keeps_ok)

text \<open>C20. An Entity that another Source still observes survives every Sync, whatever the plugin declares gone.\<close>

theorem sync_spares_the_observed:
  assumes "fresh_uuids env" and "graph_ok db" and "proper_feed feed"
    and "(e, other) \<in> set (db_presence db)" and "other \<noteq> ss_name (gr_source g)"
  shows "e \<in> set (db_live (sy_db (snd (sync env g registered feed db))))"
  by (rule within_keeps_alive [OF sync_within [OF assms(1)] sync_keeps_ok [OF assms(2,3)] assms(4)])
    (simp add: assms(5))


section \<open>Ownership follows from the grant\<close>

lemma claim_facet_effect:
  assumes "claim_facet g ns db = (None, db')"
  shows "db' = db\<lparr>g_facet_owners := filter (\<lambda>x. \<not> (ow_namespace x = ns \<and> ow_ref x = writer_ref g)) (g_facet_owners db) @ [syncer_claim g ns]\<rparr>"
  using assms
  by (auto simp: claim_facet_def register_facet_owner_def syncer_claim_def Let_def split: sum.splits if_splits)

lemma claim_facets_effect:
  assumes "run_each (claim_facet g) nss db = (None, db')"
  shows "set (g_facet_owners db') = {o' \<in> set (g_facet_owners db). \<not> (ow_namespace o' \<in> set nss \<and> ow_ref o' = writer_ref g)}
      \<union> syncer_claim g ` set nss \<and> g_label_owners db' = g_label_owners db"
  using assms
proof (induction nss arbitrary: db)
  case (Cons ns nss)
  from Cons.prems obtain d where one: "claim_facet g ns db = (None, d)" and rest: "run_each (claim_facet g) nss d = (None, db')"
    by (auto split: prod.splits option.splits)
  have mine: "ow_namespace (syncer_claim g n) = n" "ow_ref (syncer_claim g n) = writer_ref g" for n by (simp_all add: syncer_claim_def)
  from Cons.IH [OF rest] show ?case unfolding claim_facet_effect [OF one] by (auto simp: mine)
qed auto

lemma claim_label_effect:
  assumes "claim_label g k db = (None, db')"
  shows "\<exists>o'. lo_ref o' = writer_ref g \<and> lo_kind o' = ''syncer'' \<and> db' = db\<lparr>g_label_owners := aput k o' (g_label_owners db)\<rparr> \<and>
    (case map_of (g_label_owners db) k of None \<Rightarrow> True | Some x \<Rightarrow> lo_ref x = writer_ref g)"
proof (cases "map_of (g_label_owners db) k")
  case None
  with assms show ?thesis
    by (intro exI [of _ "\<lparr>lo_kind = ''syncer'', lo_ref = writer_ref g, lo_scope = []\<rparr>"])
      (simp add: claim_label_def register_label_owner_def)
next
  case (Some x)
  with assms show ?thesis
    by (intro exI [of _ "x\<lparr>lo_scope := []\<rparr>"])
      (auto simp: claim_label_def register_label_owner_def split: if_splits)
qed

definition other_labels :: "string \<Rightarrow> label_owner gomap \<Rightarrow> (string \<times> label_owner) set" where
  "other_labels ref m = {p \<in> set m. lo_ref (snd p) \<noteq> ref}"

definition own_labels :: "string \<Rightarrow> label_owner gomap \<Rightarrow> string set" where
  "own_labels ref m = {k. \<exists>x. (k, x) \<in> set m \<and> lo_ref x = ref}"

definition holds_label :: "string \<Rightarrow> label_owner gomap \<Rightarrow> string \<Rightarrow> bool" where
  "holds_label ref m k \<longleftrightarrow> (\<exists>x. map_of m k = Some x \<and> lo_ref x = ref \<and> lo_kind x = ''syncer'')"

lemma claim_label_step:
  assumes one: "claim_label g k db = (None, d)" and dist: "distinct (keys (g_label_owners db))"
  shows "g_facet_owners d = g_facet_owners db \<and> distinct (keys (g_label_owners d)) \<and>
    other_labels (writer_ref g) (g_label_owners d) = other_labels (writer_ref g) (g_label_owners db) \<and>
    own_labels (writer_ref g) (g_label_owners d) \<subseteq> insert k (own_labels (writer_ref g) (g_label_owners db)) \<and>
    (\<forall>n. n = k \<or> holds_label (writer_ref g) (g_label_owners db) n \<longrightarrow> holds_label (writer_ref g) (g_label_owners d) n)"
proof -
  from claim_label_effect [OF one] obtain o' where o': "lo_ref o' = writer_ref g" "lo_kind o' = ''syncer''"
    and d: "d = db\<lparr>g_label_owners := aput k o' (g_label_owners db)\<rparr>"
    and prev: "case map_of (g_label_owners db) k of None \<Rightarrow> True | Some x \<Rightarrow> lo_ref x = writer_ref g" by blast
  have set': "set (g_label_owners d) = insert (k, o') {x \<in> set (g_label_owners db). fst x \<noteq> k}"
    using set_aput [OF dist] by (simp add: d)
  have was: "lo_ref x = writer_ref g" if "(k, x) \<in> set (g_label_owners db)" for x
    using prev that dist by (simp add: map_of_is_SomeI)
  have "other_labels (writer_ref g) (g_label_owners d) = other_labels (writer_ref g) (g_label_owners db)"
    using was o'(1) unfolding other_labels_def set' by auto
  moreover have "own_labels (writer_ref g) (g_label_owners d) \<subseteq> insert k (own_labels (writer_ref g) (g_label_owners db))"
    unfolding own_labels_def set' by auto
  moreover have "\<forall>n. n = k \<or> holds_label (writer_ref g) (g_label_owners db) n \<longrightarrow> holds_label (writer_ref g) (g_label_owners d) n"
    using o' by (auto simp: d holds_label_def map_of_aput)
  moreover have "distinct (keys (g_label_owners d))" using dist by (simp add: d distinct_aput)
  ultimately show ?thesis by (simp add: d)
qed

lemma claim_labels_effect:
  assumes "run_each (claim_label g) ks db = (None, db')" and "distinct (keys (g_label_owners db))"
  shows "g_facet_owners db' = g_facet_owners db \<and>
    other_labels (writer_ref g) (g_label_owners db') = other_labels (writer_ref g) (g_label_owners db) \<and>
    own_labels (writer_ref g) (g_label_owners db') \<subseteq> set ks \<union> own_labels (writer_ref g) (g_label_owners db) \<and>
    (\<forall>n. n \<in> set ks \<or> holds_label (writer_ref g) (g_label_owners db) n \<longrightarrow> holds_label (writer_ref g) (g_label_owners db') n)"
  using assms
proof (induction ks arbitrary: db)
  case (Cons k ks)
  from Cons.prems obtain d where one: "claim_label g k db = (None, d)" and rest: "run_each (claim_label g) ks d = (None, db')"
    by (auto split: prod.splits option.splits)
  from claim_label_step [OF one Cons.prems(2)] have step: "g_facet_owners d = g_facet_owners db"
    "distinct (keys (g_label_owners d))"
    "other_labels (writer_ref g) (g_label_owners d) = other_labels (writer_ref g) (g_label_owners db)"
    "own_labels (writer_ref g) (g_label_owners d) \<subseteq> insert k (own_labels (writer_ref g) (g_label_owners db))"
    "\<forall>n. n = k \<or> holds_label (writer_ref g) (g_label_owners db) n \<longrightarrow> holds_label (writer_ref g) (g_label_owners d) n"
    by blast+
  from Cons.IH [OF rest step(2)] step show ?case by (simp, blast)
qed auto

text \<open>C27. C1.
  Deregistering a Syncer gives back the ownership registry as it was before its registration: every claim of the grant
  is released and no other writer's.
\<close>

theorem registration_round_trip:
  assumes reg: "register_host g m db = (None, db')"
    and facets: "\<forall>x \<in> set (g_facet_owners db). ow_ref x \<noteq> writer_ref g"
    and labels: "\<forall>x \<in> set (g_label_owners db). lo_ref (snd x) \<noteq> writer_ref g" and dist: "distinct (keys (g_label_owners db))"
  shows "set (g_facet_owners (deregister_host g db')) = set (g_facet_owners db) \<and>
    set (g_label_owners (deregister_host g db')) = set (g_label_owners db)"
proof -
  let ?db0 = "register_graph_source (gr_source g) db"
  from reg obtain d where one: "run_each (claim_facet g) (gr_facets g) ?db0 = (None, d)"
    and two: "run_each (claim_label g) (gr_labels g) d = (None, db')"
    by (auto simp: register_host_def after_def split: option.splits prod.splits)
  have src: "g_facet_owners ?db0 = g_facet_owners db" "g_label_owners ?db0 = g_label_owners db"
    by (simp_all add: register_graph_source_def)
  have dr_f: "g_facet_owners (fold (\<lambda>k. deregister_label_owner k r) ks x) = g_facet_owners x"
    "set (g_label_owners (fold (\<lambda>k. deregister_label_owner k r) ks x)) = {p \<in> set (g_label_owners x). \<not> (fst p \<in> set ks \<and> lo_ref (snd p) = r)}" for r ks x
    by (induction ks arbitrary: x) (auto simp: deregister_label_owner_def)
  have dr_n: "g_label_owners (fold (\<lambda>n. deregister_facet_owner n r) ns x) = g_label_owners x"
    "set (g_facet_owners (fold (\<lambda>n. deregister_facet_owner n r) ns x)) = {p \<in> set (g_facet_owners x). \<not> (ow_namespace p \<in> set ns \<and> ow_ref p = r)}" for r ns x
    by (induction ns arbitrary: x) (auto simp: deregister_facet_owner_def)
  have f: "set (g_facet_owners d) = set (g_facet_owners db) \<union> syncer_claim g ` set (gr_facets g)" "g_label_owners d = g_label_owners db"
    using claim_facets_effect [OF one] facets by (auto simp: src)
  from claim_labels_effect [OF two] dist f(2)
  have l: "g_facet_owners db' = g_facet_owners d"
    "other_labels (writer_ref g) (g_label_owners db') = other_labels (writer_ref g) (g_label_owners db)"
    "own_labels (writer_ref g) (g_label_owners db') \<subseteq> set (gr_labels g) \<union> own_labels (writer_ref g) (g_label_owners db)" by simp_all
  have mine: "ow_namespace (syncer_claim g n) = n" "ow_ref (syncer_claim g n) = writer_ref g" for n by (simp_all add: syncer_claim_def)
  have "set (g_facet_owners (deregister_host g db')) = set (g_facet_owners db)"
    using facets by (auto simp: deregister_host_def dr_f dr_n l(1) f mine)
  moreover have "set (g_label_owners (deregister_host g db')) = set (g_label_owners db)"
  proof -
    have none: "own_labels (writer_ref g) (g_label_owners db) = {}" using labels by (force simp: own_labels_def)
    have "p \<in> set (g_label_owners db') \<and> \<not> (fst p \<in> set (gr_labels g) \<and> lo_ref (snd p) = writer_ref g) \<longleftrightarrow>
        p \<in> other_labels (writer_ref g) (g_label_owners db')" for p
      using l(3) none by (cases p) (auto simp: other_labels_def own_labels_def)
    moreover have "other_labels (writer_ref g) (g_label_owners db) = set (g_label_owners db)"
      using labels by (force simp: other_labels_def)
    ultimately show ?thesis using l(2) by (auto simp: deregister_host_def dr_f dr_n)
  qed
  ultimately show ?thesis ..
qed

text \<open>What registration admits, and what the store will then accept of the plugin.\<close>

definition manifest_within :: "grant \<Rightarrow> manifest \<Rightarrow> bool" where
  "manifest_within g m \<longleftrightarrow> mf_plugin_id m = gr_identity g \<and> manifest_has_verb m VerbObserve \<and>
     set (mf_contracts m) \<subseteq> set (gr_facets g) \<and> set (mf_tombstone_schemes m) \<subseteq> emittable g"

lemma check_manifest_iff: "check_manifest g (Some m) = None \<longleftrightarrow> manifest_within g m"
proof -
  have chain: "(case x of None \<Rightarrow> r | Some e \<Rightarrow> Some e) = None \<longleftrightarrow> x = None \<and> r = None" for x r :: "host_error option"
    by (cases x) simp_all
  show ?thesis
    using identity_gate.gate_iff [of g] facet_gate.gate_iff [of g]
    by (auto simp: check_manifest_def validate_manifest_def manifest_within_def chain)
qed

theorem registration_entitles:
  assumes reg: "register_host g m db = (None, db')" and dist: "distinct (keys (g_label_owners db))"
  shows "(case m of None \<Rightarrow> False | Some mf \<Rightarrow> manifest_within g mf) \<and>
    list_all (\<lambda>ns. \<not> facet_refused (g_facet_owners db') (host_provenance g) ns) (gr_facets g) \<and>
    (set (keys new) \<subseteq> set (gr_labels g) \<longrightarrow> label_check (g_label_owners db') (host_provenance g) old new = None)"
proof -
  let ?db0 = "register_graph_source (gr_source g) db"
  from reg obtain d where chk: "check_manifest g m = None" and one: "run_each (claim_facet g) (gr_facets g) ?db0 = (None, d)"
    and two: "run_each (claim_label g) (gr_labels g) d = (None, db')"
    by (auto simp: register_host_def after_def split: option.splits prod.splits)
  have src: "g_label_owners ?db0 = g_label_owners db" by (simp add: register_graph_source_def)
  have f: "syncer_claim g ` set (gr_facets g) \<subseteq> set (g_facet_owners d)" and "g_label_owners d = g_label_owners db"
    using claim_facets_effect [OF one] by (auto simp: src)
  with claim_labels_effect [OF two] dist have owners: "g_facet_owners db' = g_facet_owners d"
    and labels: "\<forall>k \<in> set (gr_labels g). holds_label (writer_ref g) (g_label_owners db') k"
    by simp_all
  have "case m of None \<Rightarrow> False | Some mf \<Rightarrow> manifest_within g mf"
  proof (cases m)
    case None
    with chk show ?thesis by (simp add: check_manifest_def validate_manifest_def)
  next
    case (Some mf)
    with chk show ?thesis by (simp add: check_manifest_iff)
  qed
  moreover have "\<not> facet_refused (g_facet_owners db') (host_provenance g) ns" if "ns \<in> set (gr_facets g)" for ns
  proof -
    from f that owners have "syncer_claim g ns \<in> set (g_facet_owners db')" by auto
    moreover have "ow_namespace (syncer_claim g ns) = ns" "ow_kind (syncer_claim g ns) = ''syncer''" "ow_ref (syncer_claim g ns) = writer_ref g"
      by (simp_all add: syncer_claim_def)
    ultimately show ?thesis unfolding facet_refused_def host_provenance_def by auto
  qed
  moreover have "label_check (g_label_owners db') (host_provenance g) old new = None" if "set (keys new) \<subseteq> set (gr_labels g)"
    using that labels by (force simp: label_check_def host_provenance_def holds_label_def split: option.splits)
  ultimately show ?thesis by (simp add: list_all_iff)
qed


section \<open>Two Sources and one graph\<close>

definition pair_grant :: "string \<Rightarrow> string list \<Rightarrow> grant" where
  "pair_grant n tombs = \<lparr>gr_identity = n, gr_tier = ''trusted'',
     gr_source = \<lparr>ss_kind = ''vcenter'', ss_name = n, ss_endpoint = [], ss_credential_ref = []\<rparr>,
     gr_facets = [''os''], gr_authoritative = [], gr_labels = [''env''], gr_schemes = [''uuid'', ''host.name'', ''mac''],
     gr_tombstones = tombs, gr_emitter = []\<rparr>"

definition pair_manifest :: "string \<Rightarrow> manifest" where
  "pair_manifest n = \<lparr>mf_plugin_id = n, mf_verbs = [VerbObserve], mf_contracts = [''os''], mf_tombstone_schemes = [''uuid'']\<rparr>"

definition seen_host :: "string gomap \<Rightarrow> observed_relation list \<Rightarrow> observed_entity" where
  "seen_host ids rels = \<lparr>oe_kind = ''host'', oe_ids = ids, oe_labels = [], oe_facets = [], oe_relations = rels\<rparr>"

definition window :: "observed_entity list \<Rightarrow> gone_relation list \<Rightarrow> bool \<Rightarrow> observe_response" where
  "window es gone full = \<lparr>os_entities = es, os_gone = [], os_full_sync_complete = full, os_next_cursor = [], os_gone_relations = gone\<rparr>"

definition pass :: "grant \<Rightarrow> observe_response list \<Rightarrow> graph_db \<Rightarrow> graph_db" where
  "pass g msgs db = sy_db (snd (sync demo_env g True (\<lambda>_. Some (msgs, Eof)) db))"

definition host_pair :: "observed_entity list" where
  "host_pair = [seen_host [(''uuid'', ''a'')] [\<lparr>ob_type = ''runs-on'', ob_to_scheme = ''uuid'', ob_to_value = ''b''\<rparr>],
     seen_host [(''uuid'', ''b'')] []]"

definition both_assert :: graph_db where
  "both_assert = pass (pair_grant ''vc'' [''uuid'']) [window host_pair [] True] (pass (pair_grant ''chef'' [''uuid'']) [window host_pair [] True] demo_graph)"

lemma pair_feed: "proper_feed (\<lambda>_. Some ([window host_pair [] True], Eof))"
  by (simp add: proper_feed_def window_def host_pair_def seen_host_def proper_def)


theorem sync_keeps_graph_witness: "graph_ok (pass (pair_grant ''chef'' [''uuid'']) [window host_pair [] True] demo_graph)"
  unfolding pass_def by (rule sync_keeps_graph [OF demo_graph_ok pair_feed])

lemma chef_graph_ok: "graph_ok (pass (pair_grant ''chef'' [''uuid'']) [window host_pair [] True] demo_graph)"
  by code_simp

theorem sync_spares_the_observed_witness:
  "''e'' \<in> set (db_live (sy_db (snd (sync demo_env (pair_grant ''vc'' [''uuid'']) True (\<lambda>_. Some ([window host_pair [] True], Eof))
     (pass (pair_grant ''chef'' [''uuid'']) [window host_pair [] True] demo_graph)))))"
proof (rule sync_spares_the_observed [OF demo_env_fresh chef_graph_ok pair_feed])
  show "(''e'', ''chef'') \<in> set (db_presence (pass (pair_grant ''chef'' [''uuid'']) [window host_pair [] True] demo_graph))" by code_simp
  show "''chef'' \<noteq> ss_name (gr_source (pair_grant ''vc'' [''uuid'']))" by code_simp
qed

definition registered_vc :: "host_error option \<times> graph_db" where
  "registered_vc = register_host (pair_grant ''vc'' [''uuid'']) (Some (pair_manifest ''vc'')) demo_graph"

theorem registration_round_trip_witness:
  "\<exists>db'. registered_vc = (None, db') \<and>
    set (g_facet_owners (deregister_host (pair_grant ''vc'' [''uuid'']) db')) = set (g_facet_owners demo_graph) \<and>
    set (g_label_owners (deregister_host (pair_grant ''vc'' [''uuid'']) db')) = set (g_label_owners demo_graph)"
proof -
  have "fst registered_vc = None" by code_simp
  then obtain db' where r: "registered_vc = (None, db')" by (metis prod.collapse)
  have "\<forall>x \<in> set (g_facet_owners demo_graph). ow_ref x \<noteq> writer_ref (pair_grant ''vc'' [''uuid''])"
    "\<forall>x \<in> set (g_label_owners demo_graph). lo_ref (snd x) \<noteq> writer_ref (pair_grant ''vc'' [''uuid''])"
    "distinct (keys (g_label_owners demo_graph))"
    by (simp_all add: demo_graph_def writer_ref_def pair_grant_def)
  from registration_round_trip [OF r [unfolded registered_vc_def] this] r show ?thesis by blast
qed

theorem registration_entitles_witness:
  "\<exists>db'. registered_vc = (None, db') \<and> label_check (g_label_owners db') (host_provenance (pair_grant ''vc'' [''uuid''])) [] [(''env'', ''prod'')] = None"
proof -
  have "fst registered_vc = None" by code_simp
  then obtain db' where r: "registered_vc = (None, db')" by (metis prod.collapse)
  have "distinct (keys (g_label_owners demo_graph))" by (simp add: demo_graph_def)
  from registration_entitles [OF r [unfolded registered_vc_def] this, of "[(''env'', ''prod'')]" "[]"]
  have "label_check (g_label_owners db') (host_provenance (pair_grant ''vc'' [''uuid''])) [] [(''env'', ''prod'')] = None"
    by (simp add: pair_grant_def)
  with r show ?thesis by blast
qed

text \<open>A delta that retracts an edge retracts it for every Source: the other one still asserted it.\<close>

definition edge_gone :: gone_relation where
  "edge_gone = \<lparr>go_type = ''runs-on'', go_from_scheme = ''uuid'', go_from_value = ''a'', go_to_scheme = ''uuid'', go_to_value = ''b''\<rparr>"

theorem delta_drops_a_shared_edge:
  "let edge = (''runs-on'', ''e'', ''ee'') in
    (edge, ''chef'') \<in> set (g_edge_presence both_assert) \<and> edge \<in> set (keys (g_relations both_assert)) \<and>
    edge \<notin> set (keys (g_relations (pass (pair_grant ''vc'' [''uuid'']) [window [] [edge_gone] False] both_assert)))"
  by code_simp

text \<open>Two tombstone schemes: a host seen again under one key of its two is tombstoned by the pass that saw it.\<close>

theorem seen_host_is_tombstoned:
  "let g = pair_grant ''vc'' [''uuid'', ''host.name''];
       one = pass g [window [seen_host [(''uuid'', ''a''), (''host.name'', ''a.example'')] []] [] True] demo_graph;
       two = pass g [window [seen_host [(''uuid'', ''a'')] []] [] True] one
   in db_live one = [''e''] \<and> db_live two = []"
  by code_simp

text \<open>An observation whose keys meet two Entities is refused, and the full sync then tombstones both.\<close>

theorem conflict_tombstones_both:
  "let g = pair_grant ''vc'' [''uuid'', ''mac''];
       one = pass g [window [seen_host [(''uuid'', ''a'')] [], seen_host [(''mac'', ''m'')] []] [] True] demo_graph;
       two = pass g [window [seen_host [(''uuid'', ''a''), (''mac'', ''m'')] []] [] True] one
   in set (db_live one) = {''e'', ''ee''} \<and> db_live two = []"
  by code_simp

text \<open>The seal of a re-home fences inserts and updates; a pass of the sealed Source still retracts.\<close>

definition sealed_vc :: "graph_db \<Rightarrow> graph_db" where
  "sealed_vc db = db\<lparr>db_sources := aput ''vc'' ((demo_source ''vc'')\<lparr>sr_rehoming_to := Some ''us''\<rparr>) (db_sources db)\<rparr>"

theorem sealed_source_retracts:
  "let g = pair_grant ''vc'' [''uuid'']; db = sealed_vc both_assert; db' = pass g [window [] [] True] db
   in (''e'', ''vc'') \<in> set (db_presence db) \<and> (''e'', ''vc'') \<notin> set (db_presence db')"
  by code_simp

end
