(* ===== verification/TriggerEngine.thy ===== *)
theory TriggerEngine
  imports RunView
begin

text \<open>
  The Trigger engine (\<open>core/internal/triggerengine/engine.go\<close>) and the correlation windows it decides on
  (\<open>core/internal/graph/triggerwindow.go\<close>): which event-kind Triggers an Emitter event fires, when a Trigger waits for
  more events, and what a fire launches under which workflow id.  Times are seconds of the database clock.  The CEL
  rules, the hash of an event and the schema check of an Actuator's params are parameters, and so is the Temporal
  service: a workflow id that is running is not started again.
\<close>

section \<open>Windows\<close>

record trigger_window =
  tw_opened_at :: int
  tw_match_count :: int
  tw_satisfied :: "int list"
  tw_last_fired_at :: "int option"

type_synonym windows = "((string \<times> string) \<times> trigger_window) list" \<comment> \<open>Trigger and correlation key\<close>

text \<open>\<open>nullableInterval\<close>: no interval at zero or below.\<close>

definition nullable_interval :: "int \<Rightarrow> int option" where
  "nullable_interval d = (if d \<le> 0 then None else Some d)"

definition window_expired :: "int \<Rightarrow> int \<Rightarrow> trigger_window \<Rightarrow> bool" where
  "window_expired clock width w = (case nullable_interval width of None \<Rightarrow> False | Some d \<Rightarrow> clock - tw_opened_at w > d)"

definition first_satisfied :: "int \<Rightarrow> int list" where
  "first_satisfied idx = (if idx \<ge> 0 then [idx] else [])"

definition advance_window :: "int \<Rightarrow> int \<Rightarrow> int \<Rightarrow> trigger_window option \<Rightarrow> trigger_window" where
  "advance_window clock width idx old =
     (case old of
        None \<Rightarrow> \<lparr>tw_opened_at = clock, tw_match_count = 1, tw_satisfied = first_satisfied idx, tw_last_fired_at = None\<rparr>
      | Some w \<Rightarrow>
          if window_expired clock width w
          then w\<lparr>tw_opened_at := clock, tw_match_count := 1, tw_satisfied := first_satisfied idx\<rparr>
          else w\<lparr>tw_match_count := tw_match_count w + 1,
                 tw_satisfied := (if idx \<ge> 0 \<and> idx \<notin> set (tw_satisfied w) then tw_satisfied w @ [idx] else tw_satisfied w)\<rparr>)"

definition trigger_window_advance :: "int \<Rightarrow> int \<Rightarrow> int \<Rightarrow> string \<times> string \<Rightarrow> windows \<Rightarrow> trigger_window \<times> windows" where
  "trigger_window_advance clock width idx key ws =
     (let w = advance_window clock width idx (map_of ws key) in (w, aput key w ws))"

definition fired_window :: "int \<Rightarrow> trigger_window" where
  "fired_window clock = \<lparr>tw_opened_at = clock, tw_match_count = 0, tw_satisfied = [], tw_last_fired_at = Some clock\<rparr>"

definition trigger_window_fired :: "int \<Rightarrow> string \<times> string \<Rightarrow> windows \<Rightarrow> windows" where
  "trigger_window_fired clock key ws = aput key (fired_window clock) ws"

definition trigger_window_sweep :: "int \<Rightarrow> int \<Rightarrow> windows \<Rightarrow> nat \<times> windows" where
  "trigger_window_sweep clock keep ws =
     (case nullable_interval keep of
        None \<Rightarrow> (0, ws)
      | Some d \<Rightarrow>
          let stale = (\<lambda>(_, w). tw_opened_at w < clock - d \<and>
                (case tw_last_fired_at w of None \<Rightarrow> True | Some f \<Rightarrow> f < clock - d))
          in (length (filter stale ws), filter (\<lambda>x. \<not> stale x) ws))"

section \<open>The decision\<close>

record trigger =
  tt_name :: string
  tt_kind :: string
  tt_emitter :: string
  tt_when :: string
  tt_cooldown :: int
  tt_within :: int
  tt_count :: int
  tt_all_of :: "string list"
  tt_correlate_by :: string
  tt_view_name :: string
  tt_view_params :: "jmap option"
  tt_actuator :: string
  tt_actuator_capability :: string
  tt_facet_write_scope :: "string list"
  tt_params :: "jmap option"
  tt_slices :: int
  tt_credential_refs :: "string list"
  tt_inputs :: "jmap option"
  tt_workflow_name :: string
  tt_principal :: string

record emitted =
  ee_emitter :: string
  ee_payload :: jmap

text \<open>\<open>eval expr emitter payload\<close> is the answer of the compiled rule, \<open>None\<close> when it does not compile or evaluate.\<close>

type_synonym rules = "string \<Rightarrow> string \<Rightarrow> jmap \<Rightarrow> bool option"

fun match_all_of :: "rules \<Rightarrow> emitted \<Rightarrow> int \<Rightarrow> string list \<Rightarrow> int option" where
  "match_all_of eval ev i [] = Some (- 1)"
| "match_all_of eval ev i (expr # es) =
     (case eval expr (ee_emitter ev) (ee_payload ev) of
        None \<Rightarrow> None
      | Some True \<Rightarrow> Some i
      | Some False \<Rightarrow> match_all_of eval ev (i + 1) es)"

fun walk_event :: "json \<Rightarrow> string list \<Rightarrow> json option" where
  "walk_event v [] = Some v"
| "walk_event v (seg # segs) =
     (if seg = [] then walk_event v segs
      else case v of JObj m \<Rightarrow> (case map_of m seg of None \<Rightarrow> None | Some x \<Rightarrow> walk_event x segs) | _ \<Rightarrow> None)"

definition event_path :: "string \<Rightarrow> string list" where
  "event_path p = split_on (CHR ''.'') (case cut_prefix ''event.'' p of Some r \<Rightarrow> r | None \<Rightarrow> p)"

definition correlation_key :: "(rat \<Rightarrow> string) \<Rightarrow> trigger \<Rightarrow> emitted \<Rightarrow> string option" where
  "correlation_key ff t ev =
     (if tt_correlate_by t = [] then Some []
      else case walk_event (JObj (ee_payload ev)) (event_path (tt_correlate_by t)) of
             Some (JStr s) \<Rightarrow> if s = [] then None else Some s
           | Some (JBool b) \<Rightarrow> Some (if b then ''true'' else ''false'')
           | Some (JFloat r) \<Rightarrow> Some (ff r)
           | _ \<Rightarrow> None)"

text \<open>The condition the event satisfies: \<open>-1\<close> for a plain \<open>when\<close>; \<open>None\<close> is an error of the rule.\<close>

datatype match_result = RuleError | NoMatch | Matches int

definition match_event :: "rules \<Rightarrow> trigger \<Rightarrow> emitted \<Rightarrow> match_result" where
  "match_event eval t ev =
     (if tt_all_of t \<noteq> []
      then (case match_all_of eval ev 0 (tt_all_of t) of None \<Rightarrow> RuleError | Some i \<Rightarrow> if i < 0 then NoMatch else Matches i)
      else case eval (tt_when t) (ee_emitter ev) (ee_payload ev) of
             None \<Rightarrow> RuleError | Some True \<Rightarrow> Matches (- 1) | Some False \<Rightarrow> NoMatch)"

definition cooling :: "int \<Rightarrow> trigger \<Rightarrow> trigger_window \<Rightarrow> bool" where
  "cooling clock t w \<longleftrightarrow> tt_cooldown t > 0 \<and> (case tw_last_fired_at w of None \<Rightarrow> False | Some f \<Rightarrow> clock - f < tt_cooldown t)"

definition window_decides :: "int \<Rightarrow> trigger \<Rightarrow> trigger_window \<Rightarrow> bool" where
  "window_decides clock t w \<longleftrightarrow> \<not> cooling clock t w \<and>
     (if tt_all_of t \<noteq> [] then length (tw_satisfied w) \<ge> length (tt_all_of t)
      else if tt_count t > 1 then tw_match_count w \<ge> tt_count t
      else True)"

datatype trigger_decision = Undecided | Ignored | Held string | Fire string

text \<open>\<open>store_up\<close> is whether the window table answers.\<close>

definition decide ::
  "rules \<Rightarrow> (rat \<Rightarrow> string) \<Rightarrow> bool \<Rightarrow> int \<Rightarrow> trigger \<Rightarrow> emitted \<Rightarrow> windows \<Rightarrow> trigger_decision \<times> windows" where
  "decide eval ff store_up clock t ev ws =
     (case match_event eval t ev of
        RuleError \<Rightarrow> (Undecided, ws)
      | NoMatch \<Rightarrow> (Ignored, ws)
      | Matches idx \<Rightarrow>
          (case correlation_key ff t ev of
             None \<Rightarrow> (Ignored, ws)
           | Some key \<Rightarrow>
               if \<not> store_up then (Undecided, ws)
               else let (w, ws') = trigger_window_advance clock (tt_within t) idx (tt_name t, key) ws
                    in (if window_decides clock t w then Fire key else Held key, ws')))"

section \<open>The launch\<close>

datatype launch = LaunchWorkflow dag_input | LaunchRun view_run

record launcher =
  la_ff :: "rat \<Rightarrow> string"
  la_environment :: string
  la_resolve_actuator :: "(string \<Rightarrow> string option) option"
  la_actuator_params :: "string \<Rightarrow> jmap option \<Rightarrow> namespaces \<Rightarrow> string option"
  la_hash :: "emitted \<Rightarrow> string"

definition event_ns :: "emitted \<Rightarrow> namespaces" where
  "event_ns ev = [(''event'', ee_payload ev)]"

definition launch_id :: "launcher \<Rightarrow> trigger \<Rightarrow> emitted \<Rightarrow> string" where
  "launch_id L t ev = ''trigger-'' @ tt_name t @ ''-'' @ take 16 (la_hash L ev)"

definition workflow_dag_input :: "launcher \<Rightarrow> trigger \<Rightarrow> emitted \<Rightarrow> dag_input option" where
  "workflow_dag_input L t ev =
     (case substitute_params (la_ff L) (tt_inputs t) (event_ns ev) of
        Inl _ \<Rightarrow> None
      | Inr inputs \<Rightarrow> Some \<lparr>di_workflow_run_id = [], di_workflow_name = tt_workflow_name t, di_principal = tt_principal t,
          di_trigger = tt_name t, di_event = ee_payload ev, di_launch_params = (case inputs of None \<Rightarrow> [] | Some m \<Rightarrow> m),
          di_view_name = [], di_entity_scope = [], di_environment = la_environment L, di_context = [],
          di_parent_workflow_run_id = [], di_parent_step_name = [], di_image = [], di_credential_refs = [], di_resolved_capability = no_capability\<rparr>)"

definition trigger_actuator :: "launcher \<Rightarrow> trigger \<Rightarrow> string option" where
  "trigger_actuator L t =
     (if tt_actuator_capability t = [] then Some (tt_actuator t)
      else case la_resolve_actuator L of None \<Rightarrow> None | Some bound \<Rightarrow> bound (tt_actuator_capability t))"

definition trigger_run_input :: "launcher \<Rightarrow> trigger \<Rightarrow> emitted \<Rightarrow> view_run option" where
  "trigger_run_input L t ev =
     (case trigger_actuator L t of None \<Rightarrow> None | Some actuator \<Rightarrow>
      (case la_actuator_params L actuator (tt_params t) (event_ns ev) of None \<Rightarrow> None | Some params \<Rightarrow>
       (case substitute_params (la_ff L) (tt_view_params t) (event_ns ev) of Inl _ \<Rightarrow> None | Inr view_params \<Rightarrow>
        Some \<lparr>ri_view_name = tt_view_name t, ri_actuator = actuator, ri_action = [], ri_action_capability = [],
          ri_dry_run = False, ri_params = params, ri_capability_args = [], ri_slices = tt_slices t,
          ri_credential_refs = tt_credential_refs t, ri_principal = tt_principal t, ri_workflow_run_id = [],
          ri_step_name = [], ri_plan = False, ri_plan_from = [], ri_plan_digest = [],
          ri_facet_write_scope = tt_facet_write_scope t, ri_entity_scope = [], ri_image = [], ri_group_by = [],
          ai_run_id = [], ai_stay_local = False,
          vr_view_params = (case view_params of None \<Rightarrow> [] | Some m \<Rightarrow> m), vr_trigger = tt_name t, vr_baseline = []\<rparr>)))"

text \<open>What a fire would start: \<open>None\<close> is a terminal data problem, logged and dropped.\<close>

definition launch_of :: "launcher \<Rightarrow> trigger \<Rightarrow> emitted \<Rightarrow> launch option" where
  "launch_of L t ev =
     (if tt_workflow_name t \<noteq> [] then map_option LaunchWorkflow (workflow_dag_input L t ev)
      else map_option LaunchRun (trigger_run_input L t ev))"

record engine =
  en_windows :: windows
  en_running :: "string list" \<comment> \<open>workflow ids with a running execution\<close>
  en_started :: "(string \<times> launch) list"

text \<open>\<open>ExecuteWorkflow\<close>: \<open>None\<close> is success, a deduplicated start included; the service may be down.\<close>

definition start_workflow :: "bool \<Rightarrow> string \<Rightarrow> launch \<Rightarrow> engine \<Rightarrow> bool \<times> engine" where
  "start_workflow up ident l e =
     (if \<not> up then (False, e)
      else if ident \<in> set (en_running e) then (True, e)
      else (True, e\<lparr>en_running := ident # en_running e, en_started := en_started e @ [(ident, l)]\<rparr>))"

definition launch_trigger :: "launcher \<Rightarrow> bool \<Rightarrow> trigger \<Rightarrow> emitted \<Rightarrow> engine \<Rightarrow> bool \<times> engine" where
  "launch_trigger L up t ev e =
     (case launch_of L t ev of None \<Rightarrow> (True, e) | Some l \<Rightarrow> start_workflow up (launch_id L t ev) l e)"

section \<open>One event\<close>

record weather =
  we_now :: int
  we_store_up :: "string \<Rightarrow> bool" \<comment> \<open>per Trigger: the window table answers\<close>
  we_reset_up :: "string \<Rightarrow> bool" \<comment> \<open>the reset of its window is written\<close>
  we_temporal_up :: "string \<Rightarrow> bool" \<comment> \<open>its launch reaches Temporal\<close>

definition listens :: "trigger \<Rightarrow> emitted \<Rightarrow> bool" where
  "listens t ev \<longleftrightarrow> tt_kind t = ''event'' \<and> tt_emitter t = ee_emitter ev"

definition handle_trigger :: "rules \<Rightarrow> launcher \<Rightarrow> weather \<Rightarrow> emitted \<Rightarrow> trigger \<Rightarrow> bool \<times> engine \<Rightarrow> bool \<times> engine" where
  "handle_trigger eval L we ev t acc = (case acc of (ok, e) \<Rightarrow>
     if \<not> listens t ev then (ok, e)
     else case decide eval (la_ff L) (we_store_up we (tt_name t)) (we_now we) t ev (en_windows e) of
       (Fire key, ws) \<Rightarrow>
         let ws' = (if we_reset_up we (tt_name t) then trigger_window_fired (we_now we) (tt_name t, key) ws else ws);
             (up, e') = launch_trigger L (we_temporal_up we (tt_name t)) t ev (e\<lparr>en_windows := ws'\<rparr>)
         in (ok \<and> up, e')
     | (_, ws) \<Rightarrow> (ok, e\<lparr>en_windows := ws\<rparr>))"

text \<open>The answer is whether the event is acknowledged; a negative one redelivers it.\<close>

definition handle_event :: "rules \<Rightarrow> launcher \<Rightarrow> weather \<Rightarrow> trigger list option \<Rightarrow> emitted \<Rightarrow> engine \<Rightarrow> bool \<times> engine" where
  "handle_event eval L we triggers ev e =
     (case triggers of None \<Rightarrow> (False, e) | Some ts \<Rightarrow> fold (handle_trigger eval L we ev) ts (True, e))"


section \<open>What a fire rests on\<close>

text \<open>
  The life of one window: its matches in order, each a time and a condition, cut into the runs that end in a fire.
\<close>

definition decides_on :: "trigger \<Rightarrow> int \<times> int \<Rightarrow> trigger_window option \<Rightarrow> bool \<times> trigger_window" where
  "decides_on t m w = (let w1 = advance_window (fst m) (tt_within t) (snd m) w
     in if window_decides (fst m) t w1 then (True, fired_window (fst m)) else (False, w1))"

fun fires_of :: "trigger \<Rightarrow> (int \<times> int) list \<Rightarrow> trigger_window option \<Rightarrow> (int \<times> int) list \<Rightarrow> (int \<times> int) list list" where
  "fires_of t seg w [] = []"
| "fires_of t seg w (m # ms) =
     (case decides_on t m w of
        (True, w1) \<Rightarrow> (seg @ [m]) # fires_of t [] (Some w1) ms
      | (False, w1) \<Rightarrow> fires_of t (seg @ [m]) (Some w1) ms)"









text \<open>A count Trigger without a time span or a cooldown fires at every \<open>count\<close>-th match.\<close>

lemma count_fires_of:
  assumes t: "tt_all_of t = []" "tt_count t > 1" "tt_within t \<le> 0" "tt_cooldown t \<le> 0"
  shows "int (length (fires_of t [] None ms)) = int (length ms) div tt_count t"
proof -
  have run: "int (length (fires_of t seg w ms)) = ((case w of None \<Rightarrow> 0 | Some x \<Rightarrow> tw_match_count x) + int (length ms)) div tt_count t"
    if "case w of None \<Rightarrow> True | Some x \<Rightarrow> 0 \<le> tw_match_count x \<and> tw_match_count x < tt_count t" for seg w
    using that
  proof (induction ms arbitrary: seg w)
    case Nil
    with t show ?case by (cases w) auto
  next
    case (Cons m ms)
    let ?c = "case w of None \<Rightarrow> 0 | Some x \<Rightarrow> tw_match_count x"
    let ?w = "advance_window (fst m) (tt_within t) (snd m) w"
    have c: "0 \<le> ?c" "?c < tt_count t" using Cons.prems t by (cases w; simp)+
    have count: "tw_match_count ?w = ?c + 1"
      using t(3) by (cases w) (auto simp: advance_window_def window_expired_def nullable_interval_def)
    have dec: "window_decides (fst m) t ?w \<longleftrightarrow> ?c + 1 = tt_count t"
      using t c count by (auto simp: window_decides_def cooling_def)
    show ?case
    proof (cases "?c + 1 = tt_count t")
      case True
      with dec have "fires_of t seg w (m # ms) = (seg @ [m]) # fires_of t [] (Some (fired_window (fst m))) ms"
        by (simp add: decides_on_def)
      moreover have "int (length (fires_of t [] (Some (fired_window (fst m))) ms)) = int (length ms) div tt_count t"
        using Cons.IH [of "Some (fired_window (fst m))"] t by (simp add: fired_window_def)
      moreover have "(?c + int (length (m # ms))) div tt_count t = 1 + int (length ms) div tt_count t"
      proof -
        have eq: "?c + int (length (m # ms)) = tt_count t + int (length ms)" using True by simp
        show ?thesis unfolding eq using t(2) by simp
      qed
      ultimately show ?thesis by simp
    next
      case False
      with dec have "fires_of t seg w (m # ms) = fires_of t (seg @ [m]) (Some ?w) ms" by (simp add: decides_on_def)
      with Cons.IH [of "Some ?w" "seg @ [m]"] c count False show ?thesis by (simp add: algebra_simps)
    qed
  qed
  show ?thesis using run [of None "[]"] by simp
qed



section \<open>Events in sequence\<close>

text \<open>
  One Trigger over a stream of events, with the window table up: \<open>handle\<close>'s decision and reset, in order.  The windows
  of different keys do not touch: a key's fires are those of its own matches.
\<close>

definition after_decide :: "int \<Rightarrow> trigger \<Rightarrow> trigger_decision \<times> windows \<Rightarrow> windows" where
  "after_decide clock t dw = (case dw of (Fire key, ws) \<Rightarrow> trigger_window_fired clock (tt_name t, key) ws | (_, ws) \<Rightarrow> ws)"

fun decisions :: "rules \<Rightarrow> (rat \<Rightarrow> string) \<Rightarrow> trigger \<Rightarrow> (int \<times> emitted) list \<Rightarrow> windows \<Rightarrow> (int \<times> trigger_decision) list" where
  "decisions eval ff t [] ws = []"
| "decisions eval ff t (ce # es) ws =
     (let dw = decide eval ff True (fst ce) t (snd ce) ws
      in (fst ce, fst dw) # decisions eval ff t es (after_decide (fst ce) t dw))"

definition fires_at :: "string \<Rightarrow> (int \<times> trigger_decision) list \<Rightarrow> int list" where
  "fires_at key ds = map fst (filter (\<lambda>d. snd d = Fire key) ds)"

definition match_under :: "rules \<Rightarrow> (rat \<Rightarrow> string) \<Rightarrow> trigger \<Rightarrow> string \<Rightarrow> int \<times> emitted \<Rightarrow> (int \<times> int) option" where
  "match_under eval ff t key ce =
     (case match_event eval t (snd ce) of
        Matches i \<Rightarrow> if correlation_key ff t (snd ce) = Some key then Some (fst ce, i) else None
      | _ \<Rightarrow> None)"

definition matches_of :: "rules \<Rightarrow> (rat \<Rightarrow> string) \<Rightarrow> trigger \<Rightarrow> string \<Rightarrow> (int \<times> emitted) list \<Rightarrow> (int \<times> int) list" where
  "matches_of eval ff t key es = List.map_filter (match_under eval ff t key) es"

lemma matches_of_simps [simp]:
  "matches_of eval ff t key [] = []"
  "matches_of eval ff t key (ce # es) =
     (case match_under eval ff t key ce of None \<Rightarrow> matches_of eval ff t key es | Some m \<Rightarrow> m # matches_of eval ff t key es)"
  by (simp_all add: matches_of_def split: option.splits)

lemma decide_off_key:
  assumes "match_under eval ff t key ce = None"
  shows "fst (decide eval ff True (fst ce) t (snd ce) ws) \<noteq> Fire key"
    and "map_of (after_decide (fst ce) t (decide eval ff True (fst ce) t (snd ce) ws)) (tt_name t, key) = map_of ws (tt_name t, key)"
  using assms
  by (auto simp: match_under_def decide_def after_decide_def trigger_window_advance_def trigger_window_fired_def Let_def map_of_aput
      split: match_result.splits option.splits if_splits)

lemma decide_on_key:
  assumes "match_under eval ff t key ce = Some m"
  shows "fst (decide eval ff True (fst ce) t (snd ce) ws) = Fire key \<longleftrightarrow> fst (decides_on t m (map_of ws (tt_name t, key)))"
    and "map_of (after_decide (fst ce) t (decide eval ff True (fst ce) t (snd ce) ws)) (tt_name t, key)
       = Some (snd (decides_on t m (map_of ws (tt_name t, key))))"
    and "fst m = fst ce"
  using assms
  by (auto simp: match_under_def decide_def after_decide_def trigger_window_advance_def trigger_window_fired_def Let_def map_of_aput decides_on_def
      split: match_result.splits option.splits if_splits)

lemma fires_at_runs:
  "fires_at key (decisions eval ff t es ws)
   = map (\<lambda>r. fst (last r)) (fires_of t seg (map_of ws (tt_name t, key)) (matches_of eval ff t key es))"
proof (induction es arbitrary: ws seg)
  case (Cons ce es)
  let ?dw = "decide eval ff True (fst ce) t (snd ce) ws"
  have step: "fires_at key (decisions eval ff t (ce # es) ws)
      = (if fst ?dw = Fire key then [fst ce] else []) @ fires_at key (decisions eval ff t es (after_decide (fst ce) t ?dw))"
    by (simp add: fires_at_def Let_def)
  show ?case
  proof (cases "match_under eval ff t key ce")
    case None
    from decide_off_key [OF None, of ws] Cons.IH [of _ seg] show ?thesis unfolding step by (simp add: None)
  next
    case (Some m)
    note on_key = decide_on_key(1,2) [OF Some, of ws] decide_on_key(3) [OF Some]
    obtain d w1 where dw: "decides_on t m (map_of ws (tt_name t, key)) = (d, w1)" by fastforce
    with on_key Cons.IH [of "after_decide (fst ce) t ?dw"] show ?thesis unfolding step by (cases d) (simp_all add: Some)
  qed
qed (simp add: fires_at_def)





section \<open>Fixtures\<close>

definition demo_rules :: rules where
  "demo_rules expr emitter payload = Some (map_of payload expr = Some (JBool True))"

definition demo_trigger :: trigger where
  "demo_trigger = \<lparr>tt_name = ''storm'', tt_kind = ''event'', tt_emitter = ''alerts'', tt_when = ''down'', tt_cooldown = 0,
     tt_within = 0, tt_count = 2, tt_all_of = [], tt_correlate_by = [], tt_view_name = [], tt_view_params = None, tt_actuator = [],
     tt_actuator_capability = [], tt_facet_write_scope = [], tt_params = None, tt_slices = 0, tt_credential_refs = [],
     tt_inputs = None, tt_workflow_name = ''failover'', tt_principal = ''ops''\<rparr>"

definition demo_pair :: trigger where
  "demo_pair = demo_trigger\<lparr>tt_count := 0, tt_all_of := [''deployed'', ''down''], tt_correlate_by := ''event.service''\<rparr>"

definition demo_cooled :: trigger where
  "demo_cooled = demo_trigger\<lparr>tt_count := 0, tt_cooldown := 60\<rparr>"

definition event_of :: "string list \<Rightarrow> string \<Rightarrow> emitted" where
  "event_of facts service =
     \<lparr>ee_emitter = ''alerts'', ee_payload = (''service'', JStr service) # map (\<lambda>f. (f, JBool True)) facts\<rparr>"

definition down :: "int \<Rightarrow> int \<times> emitted" where
  "down clock = (clock, event_of [''down''] ''web'')"

definition demo_launcher :: launcher where
  "demo_launcher = \<lparr>la_ff = (\<lambda>_. []), la_environment = ''prod'', la_resolve_actuator = None, la_actuator_params = (\<lambda>_ _ _. None),
     la_hash = (\<lambda>ev. ''0123456789abcdef'' @ concat (map fst (ee_payload ev)))\<rparr>"

definition fair :: "int \<Rightarrow> weather" where
  "fair clock = \<lparr>we_now = clock, we_store_up = (\<lambda>_. True), we_reset_up = (\<lambda>_. True), we_temporal_up = (\<lambda>_. True)\<rparr>"

definition idle_engine :: engine where
  "idle_engine = \<lparr>en_windows = [], en_running = [], en_started = []\<rparr>"

lemmas trigger_demos = demo_trigger_def demo_pair_def demo_cooled_def

section \<open>What the decision does not give\<close>

text \<open>
  \<open>handle\<close>'s comment says at-least-once holds end to end.  It does not for a count: the window is reset before the launch,
  so when Temporal is down at the deciding event, the redelivered event is the first of the next window and starts nothing.
\<close>

definition deliver :: "weather \<Rightarrow> int \<times> emitted \<Rightarrow> engine \<Rightarrow> bool \<times> engine" where
  "deliver we ce e = handle_event demo_rules demo_launcher we (Some [demo_trigger]) (snd ce) e"

lemma failed_launch_is_lost:
  "let e1 = snd (deliver (fair 10) (down 10) idle_engine);
       lost = deliver ((fair 20)\<lparr>we_temporal_up := (\<lambda>_. False)\<rparr>) (down 20) e1;
       again = deliver (fair 30) (down 20) (snd lost)
   in \<not> fst lost \<and> fst again \<and> en_started (snd again) = [] \<and> en_started (snd (deliver (fair 20) (down 20) e1)) \<noteq> []"
  by code_simp

text \<open>
  \<open>TriggerWindowAdvance\<close> says the fifth event has exactly one winner.  The increment is atomic but the reset is another
  statement: a replica that advances between another's advance and its reset decides to fire as well.
\<close>

lemma two_replicas_both_fire:
  "let ws1 = snd (decide demo_rules (\<lambda>_. []) True 10 demo_trigger (snd (down 10)) []);
       (first, ws2) = decide demo_rules (\<lambda>_. []) True 20 demo_trigger (snd (down 20)) ws1;
       (second, ws3) = decide demo_rules (\<lambda>_. []) True 21 demo_trigger (event_of [''down'', ''late''] ''web'') ws2
   in first = Fire [] \<and> second = Fire []"
  by code_simp

text \<open>
  A redelivery after the started workflow has closed is started again: the id deduplicates only against a running
  execution.  The package comment says launches are deduplicated by construction.
\<close>

lemma closed_launch_is_repeated:
  "let t = demo_cooled\<lparr>tt_cooldown := 0\<rparr>; go = handle_event demo_rules demo_launcher (fair 10) (Some [t]) (snd (down 10));
       e1 = snd (go idle_engine); e2 = snd (go (e1\<lparr>en_running := []\<rparr>))
   in length (en_started (snd (go e1))) = 1 \<and> length (en_started e2) = 2"
  by code_simp

text \<open>
  An event that satisfies two conditions of an \<open>allOf\<close> is recorded for the first alone (\<open>matchAllOf\<close> returns one index): a
  Trigger whose every condition holds of the one event is held.
\<close>

lemma one_event_for_both_conditions_is_held:
  "fst (decide demo_rules (\<lambda>_. []) True 10 demo_pair (event_of [''deployed'', ''down''] ''web'') []) = Held ''web''"
  by code_simp

section \<open>Properties\<close>



text \<open>A count Trigger with neither a span nor a cooldown fires at every \<open>count\<close>-th match of a key and at no other.\<close>

theorem count_trigger_fires:
  assumes "tt_all_of t = []" and "tt_count t > 1" and "tt_within t \<le> 0" and "tt_cooldown t \<le> 0"
  shows "int (length (fires_at key (decisions eval ff t es []))) = int (length (matches_of eval ff t key es)) div tt_count t"
  using count_fires_of [OF assms] by (simp add: fires_at_runs [where seg = "[]"])

theorem count_trigger_fires_witness:
  "int (length (fires_at [] (decisions demo_rules (\<lambda>_. []) demo_trigger [down 1, down 2, down 3, down 4, down 5] [])))
   = int (length (matches_of demo_rules (\<lambda>_. []) demo_trigger [] [down 1, down 2, down 3, down 4, down 5])) div 2"
  using count_trigger_fires [of demo_trigger "[]" demo_rules "\<lambda>_. []" "[down 1, down 2, down 3, down 4, down 5]"]
  by (simp add: trigger_demos)



end
