(* ===== verification/DesiredState.thy ===== *)
theory DesiredState
  imports Json GoText Float64
begin

text \<open>
  The desired state in Git and the reconcile that realizes it (\<open>core/internal/desiredstate/desiredstate.go\<close>,
  \<open>controller.go\<close> and the declaration stores of \<open>core/internal/graph\<close>): the plan of every declared kind against what is
  stored, the guard on pinned versions, the apply of a plan entry by entry, the environment slice and the blast-radius
  guard of the unattended cycle.  A declaration is its JSON document with the fields the plan reads.
\<close>

section \<open>Declarations and their tables\<close>

datatype decl_kind = KView | KCredentialRef | KConnector | KActuator | KCapabilityBinding | KTrigger | KWorkflow | KEmitter
  | KBaseline | KMCPServer | KIntent | KAssignment | KBlueprint | KNotifySink | KSubscription | KSite | KCell | KSCIMIdP

fun kind_name :: "decl_kind \<Rightarrow> string" where
  "kind_name KView = ''view''" | "kind_name KCredentialRef = ''credential-ref''" | "kind_name KConnector = ''connector''"
| "kind_name KActuator = ''actuator''" | "kind_name KCapabilityBinding = ''capability-binding''"
| "kind_name KTrigger = ''trigger''" | "kind_name KWorkflow = ''workflow''" | "kind_name KEmitter = ''emitter''"
| "kind_name KBaseline = ''baseline''" | "kind_name KMCPServer = ''mcp-server''" | "kind_name KIntent = ''intent''"
| "kind_name KAssignment = ''assignment''" | "kind_name KBlueprint = ''blueprint''" | "kind_name KNotifySink = ''notify-sink''"
| "kind_name KSubscription = ''subscription''" | "kind_name KSite = ''site''" | "kind_name KCell = ''cell''"
| "kind_name KSCIMIdP = ''scim-idp''"

text \<open>The kinds in the order \<open>ComputePlan\<close> visits them.\<close>

definition all_kinds :: "decl_kind list" where
  "all_kinds = [KView, KCredentialRef, KConnector, KActuator, KCapabilityBinding, KTrigger, KWorkflow, KEmitter, KSite, KCell,
     KSCIMIdP, KNotifySink, KSubscription, KBaseline, KMCPServer, KIntent, KAssignment, KBlueprint]"

record declared =
  de_name :: string
  de_version :: int
  de_envs :: "string list"
  de_doc :: json
  de_pin_intent :: "string \<times> int"
  de_pin_blueprint :: "string \<times> int"
  de_compiled :: bool \<comment> \<open>\<open>CompiledFrom\<close> is set\<close>

type_synonym declarations = "decl_kind \<Rightarrow> declared list"

record stored =
  st_decl :: declared
  st_by :: string

text \<open>A row is found under its kind and its name, which for the versioned kinds carries the version.\<close>

type_synonym row_key = "decl_kind \<times> string"

record desired_store =
  ds_rows :: "(row_key \<times> stored) list"
  ds_env :: string

definition versioned_ref :: "string \<Rightarrow> int \<Rightarrow> string" where
  "versioned_ref name v = name @ ''@'' @ show_int (if v < 1 then 1 else v)"

datatype apply_error = BadRef | RowMissing | VersionTaken | StoreDown | NotDeclared | Pinned "string list"

definition split_versioned_ref :: "string \<Rightarrow> apply_error + (string \<times> int)" where
  "split_versioned_ref ref =
     (let ver = after_last (CHR ''@'') ref; pos = length ref - Suc (length ver)
      in if CHR ''@'' \<notin> set ref \<or> pos = 0 \<or> ver = [] then Inl BadRef
         else case atoi ver of None \<Rightarrow> Inl BadRef | Some v \<Rightarrow> if v < 1 then Inl BadRef else Inr (take pos ref, v))"

definition entry_name :: "decl_kind \<Rightarrow> declared \<Rightarrow> string" where
  "entry_name k d =
     (if k = KIntent then versioned_ref (de_name d) (de_version d)
      else if k = KBlueprint then de_name d @ ''@'' @ show_int (de_version d)
      else de_name d)"

definition in_scope :: "string list \<Rightarrow> string \<Rightarrow> bool" where
  "in_scope envs active \<longleftrightarrow> active = [] \<or> envs = [] \<or> active \<in> set envs"

definition env_listed :: "decl_kind \<Rightarrow> bool" where
  "env_listed k \<longleftrightarrow> k \<in> {KAssignment, KTrigger, KBaseline, KIntent, KConnector, KActuator, KCapabilityBinding}"

definition env_applied :: "decl_kind \<Rightarrow> bool" where
  "env_applied k \<longleftrightarrow> k \<in> {KAssignment, KTrigger, KBaseline, KIntent}"

definition owned :: "decl_kind \<Rightarrow> bool" where
  "owned k \<longleftrightarrow> k \<in> {KView, KCredentialRef}"

text \<open>The rows a \<open>List\<close> of the store answers with; the Baselines the compiler owns are no concern of the plan.\<close>

definition list_rows :: "desired_store \<Rightarrow> decl_kind \<Rightarrow> stored gomap" where
  "list_rows s k = map (\<lambda>((_, n), r). (n, r))
     (filter (\<lambda>((k', _), r). k' = k \<and> (env_listed k \<longrightarrow> in_scope (de_envs (st_decl r)) (ds_env s))) (ds_rows s))"

definition plan_rows :: "desired_store \<Rightarrow> decl_kind \<Rightarrow> stored gomap" where
  "plan_rows s k = filter (\<lambda>(_, r). k = KBaseline \<longrightarrow> \<not> de_compiled (st_decl r)) (list_rows s k)"

definition scope_to_environment :: "declarations \<Rightarrow> string \<Rightarrow> declarations" where
  "scope_to_environment ds env = (\<lambda>k. if env \<noteq> [] \<and> env_applied k then filter (\<lambda>d. in_scope (de_envs d) env) (ds k) else ds k)"

section \<open>The plan\<close>

datatype plan_action = ActionCreate | ActionUpdate | ActionAdopt | ActionNoop | ActionDelete

record plan_entry =
  pe_kind :: decl_kind
  pe_name :: string
  pe_action :: plan_action
  pe_members :: int
  pe_param_dependent :: bool
  pe_error :: "apply_error option"

definition entry :: "decl_kind \<Rightarrow> string \<Rightarrow> plan_action \<Rightarrow> plan_entry" where
  "entry k n a = \<lparr>pe_kind = k, pe_name = n, pe_action = a, pe_members = 0, pe_param_dependent = False, pe_error = None\<rparr>"

definition diff_action :: "bool \<Rightarrow> bool \<Rightarrow> plan_action" where
  "diff_action exists equal = (if \<not> exists then ActionCreate else if equal then ActionNoop else ActionUpdate)"

definition row_equals :: "stored option \<Rightarrow> declared \<Rightarrow> bool" where
  "row_equals r d = (case r of None \<Rightarrow> False | Some r \<Rightarrow> deep_equal (de_doc (st_decl r)) (de_doc d))"

text \<open>The kinds only Git writes: \<open>computeTriggerPlan\<close> and its siblings.\<close>

definition plan_kind :: "decl_kind \<Rightarrow> stored gomap \<Rightarrow> declared list \<Rightarrow> plan_entry list" where
  "plan_kind k rows ds =
     map (\<lambda>d. entry k (entry_name k d)
            (diff_action (map_of rows (entry_name k d) \<noteq> None) (row_equals (map_of rows (entry_name k d)) d))) ds
     @ map (\<lambda>(n, _). entry k n ActionDelete) (filter (\<lambda>(n, _). n \<notin> set (map (entry_name k) ds)) rows)"

text \<open>Views and CredentialRefs have an API path beside Git: an API row is adopted, and never pruned.\<close>

definition owned_action :: "stored gomap \<Rightarrow> string \<Rightarrow> declared \<Rightarrow> plan_action" where
  "owned_action rows n d =
     (case map_of rows n of
        None \<Rightarrow> ActionCreate
      | Some r \<Rightarrow> if st_by r = ''api'' then ActionAdopt
                  else if deep_equal (de_doc (st_decl r)) (de_doc d) then ActionNoop else ActionUpdate)"

definition plan_owned :: "decl_kind \<Rightarrow> stored gomap \<Rightarrow> declared list \<Rightarrow> plan_entry list" where
  "plan_owned k rows ds =
     map (\<lambda>d. entry k (entry_name k d) (owned_action rows (entry_name k d) d)) ds
     @ map (\<lambda>(n, _). entry k n ActionDelete)
         (filter (\<lambda>(n, r). st_by r = ''cac'' \<and> n \<notin> set (map (entry_name k) ds)) rows)"

text \<open>A View that changes shows how many Entities it selects, unless its selector waits for launch parameters.\<close>

record selectors =
  sl_template :: "json \<Rightarrow> bool"
  sl_count :: "json \<Rightarrow> int option" \<comment> \<open>\<open>CountSelector\<close>; \<open>None\<close> is a failed read\<close>

definition count_members :: "selectors \<Rightarrow> json \<Rightarrow> plan_entry \<Rightarrow> plan_entry option" where
  "count_members sl doc e =
     (if pe_action e = ActionNoop then Some e
      else if sl_template sl doc then Some (e\<lparr>pe_param_dependent := True\<rparr>)
      else map_option (\<lambda>n. e\<lparr>pe_members := n\<rparr>) (sl_count sl doc))"

definition view_doc :: "stored gomap \<Rightarrow> declared list \<Rightarrow> plan_entry \<Rightarrow> json" where
  "view_doc rows ds e =
     (case find (\<lambda>d. entry_name KView d = pe_name e) ds of
        Some d \<Rightarrow> de_doc d
      | None \<Rightarrow> (case map_of rows (pe_name e) of Some r \<Rightarrow> de_doc (st_decl r) | None \<Rightarrow> JNull))"

datatype plan_error = CountFailed string

definition compute_view_plan :: "selectors \<Rightarrow> stored gomap \<Rightarrow> declared list \<Rightarrow> plan_error + plan_entry list" where
  "compute_view_plan sl rows ds =
     map_err (\<lambda>e. case count_members sl (view_doc rows ds e) e of None \<Rightarrow> Inl (CountFailed (pe_name e)) | Some e' \<Rightarrow> Inr e')
       (plan_owned KView rows ds)"

text \<open>\<open>guardPinnedVersions\<close>: an entry that edits or removes a version an Assignment pins is refused.\<close>

definition pinned_by :: "(declared \<Rightarrow> string \<times> int) \<Rightarrow> declared list \<Rightarrow> string \<Rightarrow> string list" where
  "pinned_by pin asgs key =
     map de_name (filter (\<lambda>a. fst (pin a) \<noteq> [] \<and> versioned_ref (fst (pin a)) (snd (pin a)) = key) asgs)"

definition guard_entry :: "declared list \<Rightarrow> plan_entry \<Rightarrow> plan_entry" where
  "guard_entry asgs e =
     (if pe_action e \<noteq> ActionUpdate \<and> pe_action e \<noteq> ActionDelete then e
      else let by = (if pe_kind e = KIntent then pinned_by de_pin_intent asgs (pe_name e)
                     else if pe_kind e = KBlueprint then pinned_by de_pin_blueprint asgs (pe_name e)
                     else [])
           in if by = [] then e else e\<lparr>pe_error := Some (Pinned (sort by))\<rparr>)"

definition guard_pinned_versions :: "declared list \<Rightarrow> plan_entry list \<Rightarrow> plan_entry list" where
  "guard_pinned_versions asgs es = map (guard_entry asgs) es"

definition compute_intent_layer_plan :: "desired_store \<Rightarrow> declarations \<Rightarrow> plan_entry list" where
  "compute_intent_layer_plan s ds =
     guard_pinned_versions (ds KAssignment) (plan_kind KIntent (plan_rows s KIntent) (ds KIntent))
     @ plan_kind KAssignment (plan_rows s KAssignment) (ds KAssignment)
     @ plan_kind KBlueprint (plan_rows s KBlueprint) (ds KBlueprint)"

text \<open>One function per kind: the kinds only Git writes share one diff.\<close>

definition compute_credential_ref_plan :: "desired_store \<Rightarrow> declarations \<Rightarrow> plan_entry list" where
  "compute_credential_ref_plan s ds = plan_owned KCredentialRef (plan_rows s KCredentialRef) (ds KCredentialRef)"

definition compute_connector_plan :: "desired_store \<Rightarrow> declarations \<Rightarrow> plan_entry list" where
  "compute_connector_plan s ds = plan_kind KConnector (plan_rows s KConnector) (ds KConnector)"

definition compute_actuator_plan :: "desired_store \<Rightarrow> declarations \<Rightarrow> plan_entry list" where
  "compute_actuator_plan s ds = plan_kind KActuator (plan_rows s KActuator) (ds KActuator)"

definition compute_capability_binding_plan :: "desired_store \<Rightarrow> declarations \<Rightarrow> plan_entry list" where
  "compute_capability_binding_plan s ds = plan_kind KCapabilityBinding (plan_rows s KCapabilityBinding) (ds KCapabilityBinding)"

definition compute_trigger_plan :: "desired_store \<Rightarrow> declarations \<Rightarrow> plan_entry list" where
  "compute_trigger_plan s ds = plan_kind KTrigger (plan_rows s KTrigger) (ds KTrigger)"

definition compute_workflow_plan :: "desired_store \<Rightarrow> declarations \<Rightarrow> plan_entry list" where
  "compute_workflow_plan s ds = plan_kind KWorkflow (plan_rows s KWorkflow) (ds KWorkflow)"

definition compute_emitter_plan :: "desired_store \<Rightarrow> declarations \<Rightarrow> plan_entry list" where
  "compute_emitter_plan s ds = plan_kind KEmitter (plan_rows s KEmitter) (ds KEmitter)"

definition compute_site_plan :: "desired_store \<Rightarrow> declarations \<Rightarrow> plan_entry list" where
  "compute_site_plan s ds = plan_kind KSite (plan_rows s KSite) (ds KSite)"

definition compute_cell_plan :: "desired_store \<Rightarrow> declarations \<Rightarrow> plan_entry list" where
  "compute_cell_plan s ds = plan_kind KCell (plan_rows s KCell) (ds KCell)"

definition compute_scim_plan :: "desired_store \<Rightarrow> declarations \<Rightarrow> plan_entry list" where
  "compute_scim_plan s ds = plan_kind KSCIMIdP (plan_rows s KSCIMIdP) (ds KSCIMIdP)"

definition compute_notify_sink_plan :: "desired_store \<Rightarrow> declarations \<Rightarrow> plan_entry list" where
  "compute_notify_sink_plan s ds = plan_kind KNotifySink (plan_rows s KNotifySink) (ds KNotifySink)"

definition compute_subscription_plan :: "desired_store \<Rightarrow> declarations \<Rightarrow> plan_entry list" where
  "compute_subscription_plan s ds = plan_kind KSubscription (plan_rows s KSubscription) (ds KSubscription)"

definition compute_baseline_plan :: "desired_store \<Rightarrow> declarations \<Rightarrow> plan_entry list" where
  "compute_baseline_plan s ds = plan_kind KBaseline (plan_rows s KBaseline) (ds KBaseline)"

definition compute_mcp_server_plan :: "desired_store \<Rightarrow> declarations \<Rightarrow> plan_entry list" where
  "compute_mcp_server_plan s ds = plan_kind KMCPServer (plan_rows s KMCPServer) (ds KMCPServer)"

definition unsorted_plan :: "desired_store \<Rightarrow> declarations \<Rightarrow> plan_entry list \<Rightarrow> plan_entry list" where
  "unsorted_plan s ds views =
     views @ compute_credential_ref_plan s ds @ compute_connector_plan s ds @ compute_actuator_plan s ds @ compute_capability_binding_plan s ds
     @ compute_trigger_plan s ds @ compute_workflow_plan s ds @ compute_emitter_plan s ds
     @ compute_site_plan s ds @ compute_cell_plan s ds @ compute_scim_plan s ds
     @ compute_notify_sink_plan s ds @ compute_subscription_plan s ds @ compute_baseline_plan s ds
     @ compute_mcp_server_plan s ds
     @ compute_intent_layer_plan s ds"

definition simple_kinds :: "decl_kind list" where
  "simple_kinds = [KConnector, KActuator, KCapabilityBinding, KTrigger, KWorkflow, KEmitter, KSite, KCell,
     KSCIMIdP, KNotifySink, KSubscription, KBaseline, KMCPServer]"

lemma unsorted_plan_kinds:
  "unsorted_plan s ds views =
     views @ plan_owned KCredentialRef (plan_rows s KCredentialRef) (ds KCredentialRef)
     @ concat (map (\<lambda>k. plan_kind k (plan_rows s k) (ds k)) simple_kinds)
     @ compute_intent_layer_plan s ds"
  by (simp add: unsorted_plan_def simple_kinds_def compute_credential_ref_plan_def compute_connector_plan_def compute_actuator_plan_def compute_capability_binding_plan_def compute_trigger_plan_def compute_workflow_plan_def compute_emitter_plan_def 
    compute_site_plan_def compute_cell_plan_def compute_scim_plan_def compute_notify_sink_plan_def compute_subscription_plan_def compute_baseline_plan_def compute_mcp_server_plan_def)

definition plan_order :: "plan_entry \<Rightarrow> string list" where
  "plan_order e = [kind_name (pe_kind e), pe_name e]"

definition compute_plan :: "selectors \<Rightarrow> desired_store \<Rightarrow> declarations \<Rightarrow> plan_error + plan_entry list" where
  "compute_plan sl s ds =
     (case compute_view_plan sl (plan_rows s KView) (ds KView) of
        Inl e \<Rightarrow> Inl e
      | Inr views \<Rightarrow> Inr (sort_key plan_order (unsorted_plan s ds views)))"

section \<open>The apply\<close>

text \<open>
  \<open>Upsert\<close> and \<open>Delete\<close> of the store.  The primary key of the intent table is still the name (migration 00041), so a second
  version of a name is a duplicate key.
\<close>

definition version_taken :: "desired_store \<Rightarrow> decl_kind \<Rightarrow> declared \<Rightarrow> bool" where
  "version_taken s k d \<longleftrightarrow> k = KIntent \<and>
     (\<exists>((k', n), r) \<in> set (ds_rows s). k' = KIntent \<and> de_name (st_decl r) = de_name d \<and> n \<noteq> entry_name k d)"

definition put_row :: "decl_kind \<Rightarrow> declared \<Rightarrow> desired_store \<Rightarrow> apply_error option \<times> desired_store" where
  "put_row k d s =
     (if version_taken s k d then (Some VersionTaken, s)
      else (None, s\<lparr>ds_rows := aput (k, entry_name k d) \<lparr>st_decl = d, st_by = ''cac''\<rparr> (ds_rows s)\<rparr>))"

definition drop_row :: "decl_kind \<Rightarrow> string \<Rightarrow> desired_store \<Rightarrow> apply_error option \<times> desired_store" where
  "drop_row k n s =
     (case map_of (ds_rows s) (k, n) of
        None \<Rightarrow> (Some RowMissing, s)
      | Some r \<Rightarrow> if owned k \<and> st_by r \<noteq> ''cac'' then (Some RowMissing, s)
                  else (None, s\<lparr>ds_rows := filter (\<lambda>(x, _). x \<noteq> (k, n)) (ds_rows s)\<rparr>))"

text \<open>The declaration an entry names: the maps of \<open>Apply\<close> keep the last of two with one name.\<close>

definition declaration_of :: "declarations \<Rightarrow> plan_entry \<Rightarrow> declared option" where
  "declaration_of ds e = find (\<lambda>d. entry_name (pe_kind e) d = pe_name e) (rev (ds (pe_kind e)))"

definition delete_entry :: "plan_entry \<Rightarrow> desired_store \<Rightarrow> apply_error option \<times> desired_store" where
  "delete_entry e s =
     (if pe_kind e = KIntent \<or> pe_kind e = KBlueprint
      then (case split_versioned_ref (pe_name e) of
              Inl err \<Rightarrow> (Some err, s)
            | Inr (n, v) \<Rightarrow> drop_row (pe_kind e) (versioned_ref n v) s)
      else drop_row (pe_kind e) (pe_name e) s)"

text \<open>\<open>up e\<close> is whether the statement of the entry reaches the database.\<close>

definition execute_entry ::
  "(plan_entry \<Rightarrow> bool) \<Rightarrow> declarations \<Rightarrow> plan_entry \<Rightarrow> desired_store \<Rightarrow> apply_error option \<times> desired_store" where
  "execute_entry up ds e s =
     (if \<not> up e then (Some StoreDown, s)
      else if pe_action e = ActionDelete then delete_entry e s
      else case declaration_of ds e of None \<Rightarrow> (Some NotDeclared, s) | Some d \<Rightarrow> put_row (pe_kind e) d s)"

definition apply_entry ::
  "(plan_entry \<Rightarrow> bool) \<Rightarrow> declarations \<Rightarrow> plan_entry \<Rightarrow> desired_store \<Rightarrow> plan_entry \<times> desired_store" where
  "apply_entry up ds e s =
     (if pe_action e = ActionNoop \<or> pe_error e \<noteq> None then (e, s)
      else let (err, s') = execute_entry up ds e s in (e\<lparr>pe_error := err\<rparr>, s'))"

fun apply_entries ::
  "(plan_entry \<Rightarrow> bool) \<Rightarrow> declarations \<Rightarrow> plan_entry list \<Rightarrow> desired_store \<Rightarrow> plan_entry list \<times> desired_store" where
  "apply_entries up ds [] s = ([], s)"
| "apply_entries up ds (e # es) s =
     (let (e', s1) = apply_entry up ds e s; (es', s2) = apply_entries up ds es s1 in (e' # es', s2))"

definition apply_desired ::
  "selectors \<Rightarrow> (plan_entry \<Rightarrow> bool) \<Rightarrow> declarations \<Rightarrow> desired_store \<Rightarrow> plan_error + (plan_entry list \<times> desired_store)" where
  "apply_desired sl up ds s =
     (case compute_plan sl s ds of Inl e \<Rightarrow> Inl e | Inr es \<Rightarrow> Inr (apply_entries up ds es s))"

section \<open>The unattended cycle\<close>

definition plan_deletes :: "plan_entry list \<Rightarrow> decl_kind \<Rightarrow> nat" where
  "plan_deletes es k = length (filter (\<lambda>e. pe_kind e = k \<and> pe_action e = ActionDelete) es)"

definition plan_total :: "plan_entry list \<Rightarrow> decl_kind \<Rightarrow> nat" where
  "plan_total es k =
     length (filter (\<lambda>e. pe_kind e = k \<and> pe_action e \<in> {ActionDelete, ActionNoop, ActionUpdate}) es)"

definition prune_stats :: "plan_entry list \<Rightarrow> (decl_kind \<times> nat \<times> nat) list" where
  "prune_stats es = map (\<lambda>k. (k, plan_deletes es k, plan_total es k)) (remdups (map pe_kind es))"

definition max_prune_fraction :: "rat \<Rightarrow> rat" where
  "max_prune_fraction f = (if f \<le> 0 then 1 / 2 else f)"

definition prunes_too_much :: "rat \<Rightarrow> plan_entry list \<Rightarrow> bool" where
  "prunes_too_much f es \<longleftrightarrow>
     list_ex (\<lambda>(_, d, n). n > 0 \<and> f64 (of_nat d / of_nat n) > max_prune_fraction f) (prune_stats es)"

text \<open>One cycle of the controller up to the compile: \<open>decls\<close> is \<open>None\<close> when the checkout cannot be read.\<close>

definition reconcile ::
  "selectors \<Rightarrow> (plan_entry \<Rightarrow> bool) \<Rightarrow> rat \<Rightarrow> declarations option \<Rightarrow> desired_store \<Rightarrow> plan_entry list option \<times> desired_store" where
  "reconcile sl up f decls s =
     (case decls of None \<Rightarrow> (None, s) | Some ds0 \<Rightarrow>
      let ds = scope_to_environment ds0 (ds_env s)
      in case compute_plan sl s ds of Inl _ \<Rightarrow> (None, s) | Inr es \<Rightarrow>
         if prunes_too_much f es then (None, s)
         else case apply_desired sl up ds s of Inl _ \<Rightarrow> (None, s) | Inr (es', s') \<Rightarrow> (Some es', s'))"

section \<open>Names and rows\<close>

lemma after_last_version: "CHR ''@'' \<notin> set v \<Longrightarrow> after_last (CHR ''@'') (n @ ''@'' @ v) = v"
  using after_last_sep [of "CHR ''@''" v n] by simp

lemma show_nat_plain: "CHR ''@'' \<notin> set (show_nat n)"
proof
  assume "CHR ''@'' \<in> set (show_nat n)"
  then obtain d where "d < 10" "CHR ''@'' = digit_char d" using show_nat_digits by blast
  then have "digit_val (CHR ''@'') = Some d" by simp
  moreover have "digit_val (CHR ''@'') = None" by code_simp
  ultimately show False by simp
qed

lemma atoi_show_nat: "int n \<le> max_int64 \<Longrightarrow> atoi (show_nat n) = Some (int n)"
  using atoi_pad [of n 0] by (simp add: pad_def)

lemma split_versioned:
  assumes "n \<noteq> []" and "v \<le> max_int64"
  shows "split_versioned_ref (versioned_ref n v) = Inr (n, if v < 1 then 1 else v)"
proof -
  let ?w = "if v < 1 then 1 else v"
  have w: "show_int ?w = show_nat (nat ?w)" by (simp add: show_int_def)
  have "int (nat ?w) \<le> max_int64" using assms(2) by (auto simp: max_int64_def)
  from atoi_show_nat [OF this] have atoi: "atoi (show_nat (nat ?w)) = Some ?w" by simp
  have after: "after_last (CHR ''@'') (versioned_ref n v) = show_nat (nat ?w)"
    unfolding versioned_ref_def w by (rule after_last_version) (rule show_nat_plain)
  have len: "length (versioned_ref n v) - Suc (length (show_nat (nat ?w))) = length n"
    unfolding versioned_ref_def w by simp
  have take: "take (length n) (versioned_ref n v) = n" by (simp add: versioned_ref_def)
  have mem: "CHR ''@'' \<in> set (versioned_ref n v)" by (simp add: versioned_ref_def)
  show ?thesis unfolding split_versioned_ref_def Let_def after len take atoi using assms(1) mem by simp
qed

lemma versioned_ref_again: "versioned_ref n (if v < 1 then 1 else v) = versioned_ref n v"
  by (simp add: versioned_ref_def)

text \<open>Every row is stored under its own name, by a writer its kind knows, with a version that can be printed.\<close>

definition version_ok :: "decl_kind \<Rightarrow> declared \<Rightarrow> bool" where
  "version_ok k d \<longleftrightarrow> de_name d \<noteq> [] \<and> de_version d \<le> max_int64 \<and> (k = KBlueprint \<longrightarrow> de_version d \<ge> 1)"

definition row_ok :: "row_key \<Rightarrow> stored \<Rightarrow> bool" where
  "row_ok x r \<longleftrightarrow> snd x = entry_name (fst x) (st_decl r) \<and> version_ok (fst x) (st_decl r) \<and>
     (if owned (fst x) then st_by r = ''api'' \<or> st_by r = ''cac'' else st_by r = ''cac'')"

definition store_ok :: "desired_store \<Rightarrow> bool" where
  "store_ok s \<longleftrightarrow> distinct (keys (ds_rows s)) \<and> list_all (\<lambda>(x, r). row_ok x r) (ds_rows s)"

definition decls_ok :: "declarations \<Rightarrow> bool" where
  "decls_ok ds \<longleftrightarrow> list_all (\<lambda>k. distinct (map (entry_name k) (ds k)) \<and>
     list_all (\<lambda>d. version_ok k d \<and> json_ok (de_doc d) \<and> \<not> de_compiled d) (ds k)) all_kinds"

definition decls_in_scope :: "declarations \<Rightarrow> string \<Rightarrow> bool" where
  "decls_in_scope ds env \<longleftrightarrow> list_all (\<lambda>k. env_listed k \<longrightarrow> list_all (\<lambda>d. in_scope (de_envs d) env) (ds k)) all_kinds"

lemma all_kinds [simp]: "set all_kinds = UNIV"
proof -
  have "k \<in> set all_kinds" for k by (cases k) (simp_all add: all_kinds_def)
  then show ?thesis by blast
qed

definition row_at :: "desired_store \<Rightarrow> decl_kind \<Rightarrow> string \<Rightarrow> stored option" where
  "row_at s k n = map_of (ds_rows s) (k, n)"

definition listed :: "desired_store \<Rightarrow> decl_kind \<Rightarrow> stored \<Rightarrow> bool" where
  "listed s k r \<longleftrightarrow> (env_listed k \<longrightarrow> in_scope (de_envs (st_decl r)) (ds_env s)) \<and> (k = KBaseline \<longrightarrow> \<not> de_compiled (st_decl r))"

lemma plan_rows_listed: "plan_rows s k = map (\<lambda>((_, n), r). (n, r)) (filter (\<lambda>((k', _), r). k' = k \<and> listed s k r) (ds_rows s))"
proof -
  have "filter (\<lambda>(_, r). Q r) (map (\<lambda>((_, n), r). (n, r)) (filter (\<lambda>((k', _), r). k' = k \<and> P r) rows))
    = map (\<lambda>((_, n), r). (n, r)) (filter (\<lambda>((k', _), r). k' = k \<and> P r \<and> Q r) rows)" for P Q and rows :: "(row_key \<times> stored) list"
    by (induction rows) auto
  then show ?thesis by (simp add: plan_rows_def list_rows_def listed_def)
qed

definition declared_at :: "declarations \<Rightarrow> decl_kind \<Rightarrow> string \<Rightarrow> declared option" where
  "declared_at ds k n = find (\<lambda>d. entry_name k d = n) (ds k)"

definition prunable :: "desired_store \<Rightarrow> decl_kind \<Rightarrow> string \<Rightarrow> bool" where
  "prunable s k n \<longleftrightarrow> (case row_at s k n of None \<Rightarrow> False | Some r \<Rightarrow> listed s k r \<and> (owned k \<longrightarrow> st_by r = ''cac''))"

lemma map_of_kind_rows:
  "distinct (keys rows) \<Longrightarrow>
    map_of (map (\<lambda>((_, n), r). (n, r)) (filter (\<lambda>((k', _), r). k' = k \<and> P r) rows)) n
    = (case map_of rows (k, n) of None \<Rightarrow> None | Some r \<Rightarrow> if P r then Some r else None)"
proof (induction rows)
  case (Cons x rows)
  obtain k' n' r where x: "x = ((k', n'), r)" by (metis surj_pair)
  from Cons.prems have "map_of rows (k', n') = None" by (simp add: x map_of_None_key)
  with Cons show ?case by (auto simp: x)
qed simp

lemma map_of_plan_rows:
  assumes "distinct (keys (ds_rows s))"
  shows "map_of (plan_rows s k) n = (case row_at s k n of None \<Rightarrow> None | Some r \<Rightarrow> if listed s k r then Some r else None)"
  unfolding plan_rows_listed row_at_def by (rule map_of_kind_rows [OF assms])

lemma distinct_plan_rows:
  assumes "distinct (keys (ds_rows s))"
  shows "distinct (keys (plan_rows s k))"
proof -
  have "distinct (keys rows) \<Longrightarrow> distinct (map fst (map (\<lambda>((_, n), r). (n, r)) (filter (\<lambda>((k', _), r). k' = k \<and> P r) rows)))"
    for rows :: "(row_key \<times> stored) list" and P
    by (induction rows) (auto simp: image_iff)
  with assms show ?thesis by (simp add: plan_rows_listed)
qed

section \<open>What one entry does\<close>

definition entry_key :: "plan_entry \<Rightarrow> row_key" where
  "entry_key e = (pe_kind e, pe_name e)"

definition sayable :: "plan_entry \<Rightarrow> bool" where
  "sayable e \<longleftrightarrow> (pe_kind e = KIntent \<or> pe_kind e = KBlueprint) \<and> pe_action e = ActionDelete \<longrightarrow>
     (\<exists>n v. n \<noteq> [] \<and> v \<le> max_int64 \<and> pe_name e = versioned_ref n v)"

definition target_row :: "declarations \<Rightarrow> plan_entry \<Rightarrow> stored option" where
  "target_row ds e = (if pe_action e = ActionDelete then None
     else map_option (\<lambda>d. \<lparr>st_decl = d, st_by = ''cac''\<rparr>) (declaration_of ds e))"

lemma put_row_effect:
  "put_row k d s = (err, s') \<Longrightarrow> ds_env s' = ds_env s \<and>
     (if err = None then ds_rows s' = aput (k, entry_name k d) \<lparr>st_decl = d, st_by = ''cac''\<rparr> (ds_rows s) else s' = s)"
  by (auto simp: put_row_def split: if_splits)

lemma drop_row_effect:
  "drop_row k n s = (err, s') \<Longrightarrow> ds_env s' = ds_env s \<and>
     (if err = None then ds_rows s' = filter (\<lambda>(x, _). x \<noteq> (k, n)) (ds_rows s) else s' = s)"
  by (auto simp: drop_row_def split: option.splits if_splits)

lemma declaration_of_name: "declaration_of ds e = Some d \<Longrightarrow> entry_name (pe_kind e) d = pe_name e \<and> d \<in> set (ds (pe_kind e))"
  by (auto simp: declaration_of_def find_Some_iff) (metis nth_mem set_rev length_rev)

lemma execute_entry_effect:
  assumes "execute_entry up ds e s = (err, s')" and "sayable e"
  shows "ds_env s' = ds_env s"
    and "err \<noteq> None \<Longrightarrow> s' = s"
    and "err = None \<Longrightarrow> map_of (ds_rows s') x = (if x = entry_key e then target_row ds e else map_of (ds_rows s) x)"
    and "distinct (keys (ds_rows s)) \<Longrightarrow> distinct (keys (ds_rows s'))"
    and "err = None \<Longrightarrow> pe_action e \<noteq> ActionDelete \<Longrightarrow> declaration_of ds e \<noteq> None"
proof -
  have del_eq: "pe_action e = ActionDelete \<Longrightarrow> delete_entry e s = drop_row (pe_kind e) (pe_name e) s"
    using assms(2) by (auto simp: delete_entry_def sayable_def split_versioned versioned_ref_again)
  consider (down) "err \<noteq> None" "s' = s"
    | (drop) "err = None" "pe_action e = ActionDelete" "ds_env s' = ds_env s"
        "ds_rows s' = filter (\<lambda>(x, _). x \<noteq> (pe_kind e, pe_name e)) (ds_rows s)"
    | (put) d where "err = None" "pe_action e \<noteq> ActionDelete" "declaration_of ds e = Some d" "ds_env s' = ds_env s"
        "ds_rows s' = aput (pe_kind e, pe_name e) \<lparr>st_decl = d, st_by = ''cac''\<rparr> (ds_rows s)"
  proof (cases "up e \<and> pe_action e = ActionDelete")
    case True
    with assms(1) del_eq have "drop_row (pe_kind e) (pe_name e) s = (err, s')" by (simp add: execute_entry_def)
    from drop_row_effect [OF this] True show ?thesis using that by (auto split: if_splits)
  next
    case False
    with assms(1) show ?thesis using that
      by (auto simp: execute_entry_def split: if_splits option.splits dest!: put_row_effect dest: declaration_of_name)
  qed
  note cases = this
  show "ds_env s' = ds_env s" using cases by cases auto
  show "err \<noteq> None \<Longrightarrow> s' = s" using cases by cases auto
  show "err = None \<Longrightarrow> map_of (ds_rows s') x = (if x = entry_key e then target_row ds e else map_of (ds_rows s) x)"
    using cases by cases (auto simp: map_of_without map_of_aput entry_key_def target_row_def)
  show "distinct (keys (ds_rows s)) \<Longrightarrow> distinct (keys (ds_rows s'))"
    using cases by cases (auto simp: distinct_aput distinct_keys_filter)
  show "err = None \<Longrightarrow> pe_action e \<noteq> ActionDelete \<Longrightarrow> declaration_of ds e \<noteq> None" using cases by cases auto
qed

text \<open>An entry is realized when it was carried out without an error.\<close>

definition realized :: "plan_entry \<Rightarrow> plan_entry \<Rightarrow> bool" where
  "realized e e' \<longleftrightarrow> pe_action e \<noteq> ActionNoop \<and> pe_error e = None \<and> pe_error e' = None"

lemma apply_entry_effect:
  assumes "apply_entry up ds e s = (e', s')" and "sayable e"
  shows "ds_env s' = ds_env s"
    and "map_of (ds_rows s') x = (if x = entry_key e \<and> realized e e' then target_row ds e else map_of (ds_rows s) x)"
    and "distinct (keys (ds_rows s)) \<Longrightarrow> distinct (keys (ds_rows s'))"
    and "entry_key e' = entry_key e" and "pe_action e' = pe_action e" and "pe_error e \<noteq> None \<Longrightarrow> e' = e"
    and "realized e e' \<Longrightarrow> pe_action e \<noteq> ActionDelete \<Longrightarrow> declaration_of ds e \<noteq> None"
proof -
  obtain err t where ex: "execute_entry up ds e s = (err, t)" by fastforce
  note eff = execute_entry_effect [OF ex assms(2)]
  show "ds_env s' = ds_env s" and "distinct (keys (ds_rows s)) \<Longrightarrow> distinct (keys (ds_rows s'))"
    and "entry_key e' = entry_key e" and "pe_action e' = pe_action e" and "pe_error e \<noteq> None \<Longrightarrow> e' = e"
    and "realized e e' \<Longrightarrow> pe_action e \<noteq> ActionDelete \<Longrightarrow> declaration_of ds e \<noteq> None"
    using assms(1) eff(1,4,5) by (auto simp: apply_entry_def ex entry_key_def realized_def split: if_splits)
  show "map_of (ds_rows s') x = (if x = entry_key e \<and> realized e e' then target_row ds e else map_of (ds_rows s) x)"
    using assms(1) eff(2) eff(3) [of x] by (cases "err = None") (auto simp: apply_entry_def ex realized_def split: if_splits)
qed

text \<open>Entries of different names do not meet: what an apply leaves under a name is what the entry of that name did.\<close>

definition left_by :: "declarations \<Rightarrow> desired_store \<Rightarrow> desired_store \<Rightarrow> plan_entry \<Rightarrow> plan_entry \<Rightarrow> bool" where
  "left_by ds s s' e e' \<longleftrightarrow> entry_key e' = entry_key e \<and> pe_action e' = pe_action e \<and> (pe_error e \<noteq> None \<longrightarrow> e' = e) \<and>
     (realized e e' \<longrightarrow> pe_action e \<noteq> ActionDelete \<longrightarrow> declaration_of ds e \<noteq> None) \<and>
     map_of (ds_rows s') (entry_key e) = (if realized e e' then target_row ds e else map_of (ds_rows s) (entry_key e))"

lemma left_by_from:
  "left_by ds s1 s' e e' \<Longrightarrow> map_of (ds_rows s1) (entry_key e) = map_of (ds_rows s) (entry_key e) \<Longrightarrow> left_by ds s s' e e'"
  by (simp add: left_by_def)

lemma apply_entries_effect:
  assumes "apply_entries up ds es s = (es', s')" and "distinct (map entry_key es)" and "list_all sayable es"
  shows "ds_env s' = ds_env s" and "distinct (keys (ds_rows s)) \<Longrightarrow> distinct (keys (ds_rows s'))"
    and "list_all2 (left_by ds s s') es es'"
    and "\<And>x. x \<notin> set (map entry_key es) \<Longrightarrow> map_of (ds_rows s') x = map_of (ds_rows s) x"
proof -
  have "ds_env s' = ds_env s \<and> (distinct (keys (ds_rows s)) \<longrightarrow> distinct (keys (ds_rows s'))) \<and>
    list_all2 (left_by ds s s') es es' \<and> (\<forall>x. x \<notin> set (map entry_key es) \<longrightarrow> map_of (ds_rows s') x = map_of (ds_rows s) x)"
    using assms
  proof (induction es arbitrary: s es' s')
    case (Cons e es)
    obtain e1 s1 where one: "apply_entry up ds e s = (e1, s1)" by fastforce
    obtain es2 s2 where rest: "apply_entries up ds es s1 = (es2, s2)" by fastforce
    from Cons.prems(1) have eq: "es' = e1 # es2" "s' = s2" by (simp_all add: one rest)
    from Cons.prems(2,3) have fresh: "entry_key e \<notin> set (map entry_key es)" and d: "distinct (map entry_key es)"
      and say: "sayable e" "list_all sayable es" by auto
    note eff = apply_entry_effect [OF one say(1)]
    from Cons.IH [OF rest d say(2)] have env: "ds_env s2 = ds_env s1"
      and dist: "distinct (keys (ds_rows s1)) \<Longrightarrow> distinct (keys (ds_rows s2))"
      and each: "list_all2 (left_by ds s1 s2) es es2"
      and tail: "\<And>x. x \<notin> set (map entry_key es) \<Longrightarrow> map_of (ds_rows s2) x = map_of (ds_rows s1) x" by blast+
    have other: "map_of (ds_rows s1) (entry_key f) = map_of (ds_rows s) (entry_key f)" if "f \<in> set es" for f
    proof -
      from that fresh have "entry_key f \<noteq> entry_key e" by (metis imageI set_map)
      then show ?thesis using eff(2) [of "entry_key f"] by simp
    qed
    have "list_all2 (left_by ds s s2) es es2"
      using each by (rule list.rel_mono_strong) (rule left_by_from [OF _ other])
    moreover have "left_by ds s s2 e e1"
      using eff(2) [of "entry_key e"] tail [OF fresh] eff(4-7) by (simp add: left_by_def)
    moreover have "map_of (ds_rows s2) x = map_of (ds_rows s) x" if "x \<notin> set (map entry_key (e # es))" for x
      using that tail [of x] eff(2) [of x] by simp
    ultimately show ?case using env dist eff(1,3) by (simp add: eq)
  qed simp
  then show "ds_env s' = ds_env s" and "distinct (keys (ds_rows s)) \<Longrightarrow> distinct (keys (ds_rows s'))"
    and "list_all2 (left_by ds s s') es es'"
    and "\<And>x. x \<notin> set (map entry_key es) \<Longrightarrow> map_of (ds_rows s') x = map_of (ds_rows s) x" by blast+
qed

section \<open>What the plan says of a name\<close>

definition planned_action :: "desired_store \<Rightarrow> declarations \<Rightarrow> decl_kind \<Rightarrow> string \<Rightarrow> plan_action option" where
  "planned_action s ds k n =
     (case declared_at ds k n of
        Some d \<Rightarrow> Some (if owned k then owned_action (plan_rows s k) n d
                        else diff_action (map_of (plan_rows s k) n \<noteq> None) (row_equals (map_of (plan_rows s k) n) d))
      | None \<Rightarrow> if prunable s k n then Some ActionDelete else None)"

definition entries_of :: "desired_store \<Rightarrow> declarations \<Rightarrow> decl_kind \<Rightarrow> plan_entry list" where
  "entries_of s ds k = (if owned k then plan_owned k (plan_rows s k) (ds k) else plan_kind k (plan_rows s k) (ds k))"

lemma declared_at_None: "declared_at ds k n = None \<longleftrightarrow> n \<notin> entry_name k ` set (ds k)"
  by (auto simp: declared_at_def find_None_iff)

lemma find_named: "distinct (map f xs) \<Longrightarrow> x \<in> set xs \<Longrightarrow> find (\<lambda>y. f y = f x) xs = Some x"
proof (induction xs)
  case (Cons y ys)
  then show ?case by (cases "f y = f x") (auto simp: image_iff)
qed simp

lemma declared_at_mem: "distinct (map (entry_name k) (ds k)) \<Longrightarrow> d \<in> set (ds k) \<Longrightarrow> declared_at ds k (entry_name k d) = Some d"
  unfolding declared_at_def by (rule find_named)

lemma prunable_listed:
  assumes "distinct (keys (ds_rows s))"
  shows "prunable s k n \<longleftrightarrow> (\<exists>r. (n, r) \<in> set (plan_rows s k) \<and> (owned k \<longrightarrow> st_by r = ''cac''))"
proof -
  have "(n, r) \<in> set (plan_rows s k) \<longleftrightarrow> map_of (plan_rows s k) n = Some r" for r
    using distinct_plan_rows [OF assms] by simp
  then show ?thesis by (auto simp: prunable_def map_of_plan_rows [OF assms] split: option.splits if_splits)
qed

lemma entry_fields [simp]:
  "pe_kind (entry k n a) = k" "pe_name (entry k n a) = n" "pe_action (entry k n a) = a" "pe_error (entry k n a) = None"
  by (simp_all add: entry_def)

lemma in_set_keys: "n \<in> set (keys m) \<Longrightarrow> (\<And>v. (n, v) \<in> set m \<Longrightarrow> P) \<Longrightarrow> P"
  by auto

lemma entries_of_names:
  assumes "distinct (keys (ds_rows s))" and "distinct (map (entry_name k) (ds k))"
  shows "distinct (map entry_key (entries_of s ds k))"
    and "e \<in> set (entries_of s ds k) \<Longrightarrow> pe_kind e = k \<and> pe_error e = None \<and> planned_action s ds k (pe_name e) = Some (pe_action e)"
    and "planned_action s ds k n = Some a \<Longrightarrow> \<exists>e \<in> set (entries_of s ds k). pe_name e = n"
proof -
  have names: "map (entry_name k) (ds k) = map pe_name (map (\<lambda>d. entry k (entry_name k d) (f d)) (ds k))" for f
    by simp
  have inj: "inj_on (Pair k) A" for A :: "string set" by (simp add: inj_on_def)
  let ?rows = "plan_rows s k"
  let ?gone = "filter (\<lambda>(n, r). (owned k \<longrightarrow> st_by r = ''cac'') \<and> n \<notin> entry_name k ` set (ds k)) ?rows"
  have form: "\<exists>f. entries_of s ds k = map (\<lambda>d. entry k (entry_name k d) (f d)) (ds k) @ map (\<lambda>(n, _). entry k n ActionDelete) ?gone \<and>
      (\<forall>d \<in> set (ds k). planned_action s ds k (entry_name k d) = Some (f d))"
  proof (cases "owned k")
    case True
    then show ?thesis
      by (intro exI [of _ "\<lambda>d. owned_action ?rows (entry_name k d) d"])
        (auto simp: entries_of_def plan_owned_def planned_action_def declared_at_mem [where ds = ds and k = k, OF assms(2)])
  next
    case False
    then show ?thesis
      by (intro exI [of _ "\<lambda>d. diff_action (map_of ?rows (entry_name k d) \<noteq> None) (row_equals (map_of ?rows (entry_name k d)) d)"])
        (auto simp: entries_of_def plan_kind_def planned_action_def declared_at_mem [where ds = ds and k = k, OF assms(2)])
  qed
  then obtain f where f: "entries_of s ds k = map (\<lambda>d. entry k (entry_name k d) (f d)) (ds k) @ map (\<lambda>(n, _). entry k n ActionDelete) ?gone"
    and act: "\<forall>d \<in> set (ds k). planned_action s ds k (entry_name k d) = Some (f d)" by blast
  have gone: "n \<in> fst ` set ?gone \<longleftrightarrow> planned_action s ds k n = Some ActionDelete \<and> n \<notin> entry_name k ` set (ds k)" for n
  proof -
    have "n \<in> fst ` set ?gone \<longleftrightarrow> prunable s k n \<and> n \<notin> entry_name k ` set (ds k)"
      unfolding prunable_listed [OF assms(1)] by force
    moreover have "planned_action s ds k n = Some ActionDelete \<longleftrightarrow> prunable s k n" if "n \<notin> entry_name k ` set (ds k)"
      using that by (simp add: planned_action_def flip: declared_at_None)
    ultimately show ?thesis by blast
  qed
  have gone_mem: "planned_action s ds k (fst x) = Some ActionDelete" if "x \<in> set ?gone" for x
    by (rule conjunct1 [OF iffD1 [OF gone imageI [OF that]]])
  have keys_gone: "map entry_key (map (\<lambda>(n, _). entry k n ActionDelete) ?gone) = map (Pair k) (map fst ?gone)"
    by (auto simp: entry_key_def)
  have keys_decl: "map entry_key (map (\<lambda>d. entry k (entry_name k d) (f d)) (ds k)) = map (Pair k) (map (entry_name k) (ds k))"
    by (simp add: entry_key_def)
  have dist: "distinct (map fst ?gone)" by (rule distinct_keys_filter [OF distinct_plan_rows [OF assms(1)]])
  have disj: "set (map (entry_name k) (ds k)) \<inter> set (map fst ?gone) = {}" using gone by auto
  have "distinct (map (Pair k) (map (entry_name k) (ds k) @ map fst ?gone))"
    using assms(2) dist disj inj by (subst distinct_map) (simp del: map_append add: distinct_append inj)
  then show "distinct (map entry_key (entries_of s ds k))"
    unfolding f map_append keys_gone keys_decl by simp
  show "e \<in> set (entries_of s ds k) \<Longrightarrow> pe_kind e = k \<and> pe_error e = None \<and> planned_action s ds k (pe_name e) = Some (pe_action e)"
    unfolding f using act gone_mem by (auto simp del: set_filter)
  assume "planned_action s ds k n = Some a"
  then have "n \<in> entry_name k ` set (ds k) \<or> planned_action s ds k n = Some ActionDelete \<and> n \<notin> entry_name k ` set (ds k)"
    by (cases "n \<in> entry_name k ` set (ds k)") (simp_all add: planned_action_def split: if_splits flip: declared_at_None)
  then show "\<exists>e \<in> set (entries_of s ds k). pe_name e = n"
  proof
    assume "n \<in> entry_name k ` set (ds k)"
    then obtain d where "d \<in> set (ds k)" "n = entry_name k d" by blast
    then show ?thesis unfolding f by (intro bexI [of _ "entry k n (f d)"]) simp_all
  next
    assume "planned_action s ds k n = Some ActionDelete \<and> n \<notin> entry_name k ` set (ds k)"
    then have "n \<in> set (map fst ?gone)" unfolding set_map by (rule iffD2 [OF gone])
    then obtain r where "(n, r) \<in> set ?gone" by (rule in_set_keys)
    then have "entry k n ActionDelete \<in> set (map (\<lambda>(n, _). entry k n ActionDelete) ?gone)"
      unfolding set_map by (rule rev_image_eqI) simp
    then show ?thesis unfolding f by (intro bexI [of _ "entry k n ActionDelete"]) (simp_all del: filter.simps set_filter)
  qed
qed

section \<open>The plan as a whole\<close>

lemma view_entries:
  assumes "compute_view_plan sl rows ds = Inr es"
  shows "list_all2 (\<lambda>e e'. pe_kind e' = pe_kind e \<and> pe_name e' = pe_name e \<and> pe_action e' = pe_action e \<and> pe_error e' = pe_error e)
    (plan_owned KView rows ds) es"
  using assms unfolding compute_view_plan_def map_err_Inr
  by (rule list.rel_mono_strong) (auto simp: count_members_def split: option.splits if_splits)

lemma guard_entry_fields [simp]:
  "pe_kind (guard_entry asgs e) = pe_kind e" "pe_name (guard_entry asgs e) = pe_name e" "pe_action (guard_entry asgs e) = pe_action e"
  by (simp_all add: guard_entry_def Let_def)

definition same_plan :: "plan_entry \<Rightarrow> plan_entry \<Rightarrow> bool" where
  "same_plan e e' \<longleftrightarrow> entry_key e' = entry_key e \<and> pe_action e' = pe_action e \<and>
     (pe_kind e \<noteq> KIntent \<longrightarrow> pe_error e' = pe_error e)"

text \<open>Every kind's entries are in the plan, with the counts of the Views and the refusals of the guard added.\<close>

lemma unsorted_plan_entries:
  assumes "compute_view_plan sl (plan_rows s KView) (ds KView) = Inr views"
  shows "list_all2 same_plan
    (concat (map (entries_of s ds) ([KView, KCredentialRef] @ simple_kinds @ [KIntent, KAssignment, KBlueprint])))
    (unsorted_plan s ds views)"
proof -
  have views: "list_all2 same_plan (entries_of s ds KView) views"
    using view_entries [OF assms] by (auto simp: entries_of_def owned_def same_plan_def entry_key_def elim!: list.rel_mono_strong)
  have refl: "list_all2 same_plan es es" for es by (rule list.rel_refl) (simp add: same_plan_def)
  have creds: "entries_of s ds KCredentialRef = plan_owned KCredentialRef (plan_rows s KCredentialRef) (ds KCredentialRef)"
    by (simp add: entries_of_def owned_def)
  have simple: "map (entries_of s ds) simple_kinds = map (\<lambda>k. plan_kind k (plan_rows s k) (ds k)) simple_kinds"
    by (simp add: simple_kinds_def entries_of_def owned_def)
  have "list_all2 same_plan (entries_of s ds KIntent) (guard_pinned_versions (ds KAssignment) (plan_kind KIntent (plan_rows s KIntent) (ds KIntent)))"
  proof -
    have kind: "pe_kind e = KIntent" if "e \<in> set (plan_kind KIntent (plan_rows s KIntent) (ds KIntent))" for e
      using that by (auto simp: plan_kind_def)
    then show ?thesis
      unfolding guard_pinned_versions_def by (simp add: entries_of_def owned_def list.rel_map)
        (rule list.rel_refl_strong, simp add: same_plan_def entry_key_def)
  qed
  then show ?thesis
    unfolding unsorted_plan_kinds compute_intent_layer_plan_def map_append concat_append
    by (auto intro!: list_all2_appendI views refl simp: creds simple [symmetric] entries_of_def [of _ _ KAssignment] entries_of_def [of _ _ KBlueprint] owned_def)
qed

lemma kinds_covered: "set ([KView, KCredentialRef] @ simple_kinds @ [KIntent, KAssignment, KBlueprint]) = UNIV"
  and kinds_distinct: "distinct ([KView, KCredentialRef] @ simple_kinds @ [KIntent, KAssignment, KBlueprint])"
proof -
  have "k \<in> set ([KView, KCredentialRef] @ simple_kinds @ [KIntent, KAssignment, KBlueprint])" for k
    by (cases k) (simp_all add: simple_kinds_def)
  then show "set ([KView, KCredentialRef] @ simple_kinds @ [KIntent, KAssignment, KBlueprint]) = UNIV" by blast
qed (simp add: simple_kinds_def)

lemma list_all2_right: "list_all2 P xs ys \<Longrightarrow> y \<in> set ys \<Longrightarrow> (\<And>x. x \<in> set xs \<Longrightarrow> P x y \<Longrightarrow> thesis) \<Longrightarrow> thesis"
  by (induction rule: list_all2_induct) auto

lemma list_all2_left: "list_all2 P xs ys \<Longrightarrow> x \<in> set xs \<Longrightarrow> (\<And>y. y \<in> set ys \<Longrightarrow> P x y \<Longrightarrow> thesis) \<Longrightarrow> thesis"
  by (induction rule: list_all2_induct) auto

definition names_ok :: "desired_store \<Rightarrow> declarations \<Rightarrow> bool" where
  "names_ok s ds \<longleftrightarrow> distinct (keys (ds_rows s)) \<and> (\<forall>k. distinct (map (entry_name k) (ds k)))"

lemma plan_facts:
  assumes "compute_plan sl s ds = Inr es" and ok: "names_ok s ds"
  shows "distinct (map entry_key es)"
    and "e \<in> set es \<Longrightarrow> planned_action s ds (pe_kind e) (pe_name e) = Some (pe_action e)"
    and "e \<in> set es \<Longrightarrow> pe_kind e \<noteq> KIntent \<Longrightarrow> pe_error e = None"
    and "planned_action s ds k n = Some a \<Longrightarrow> \<exists>e \<in> set es. entry_key e = (k, n)"
proof -
  from assms(1) obtain views where views: "compute_view_plan sl (plan_rows s KView) (ds KView) = Inr views"
    and es: "es = sort_key plan_order (unsorted_plan s ds views)"
    by (auto simp: compute_plan_def split: sum.splits)
  let ?ks = "[KView, KCredentialRef] @ simple_kinds @ [KIntent, KAssignment, KBlueprint]"
  let ?all = "concat (map (entries_of s ds) ?ks)"
  have same: "list_all2 same_plan ?all (unsorted_plan s ds views)" by (rule unsorted_plan_entries [where s = s and ds = ds, OF views])
  have keys: "map entry_key (unsorted_plan s ds views) = map entry_key ?all"
    using same by (induction rule: list_all2_induct) (simp_all add: same_plan_def)
  from ok have rows: "distinct (keys (ds_rows s))" and names: "distinct (map (entry_name k) (ds k))" for k
    by (simp_all add: names_ok_def)
  note of_kind = entries_of_names [where s = s and ds = ds, OF rows names]
  have per_kind: "fst x = k" if "x \<in> set (map entry_key (entries_of s ds k))" for x k
    using that of_kind(2) by (auto simp: entry_key_def)
  have "distinct (concat (map (\<lambda>k. map entry_key (entries_of s ds k)) ks))" if "distinct ks" for ks
    using that
  proof (induction ks)
    case (Cons k ks)
    have "set (map entry_key (entries_of s ds k)) \<inter> set (concat (map (\<lambda>k. map entry_key (entries_of s ds k)) ks)) = {}"
    proof (rule equals0I)
      fix x assume x: "x \<in> set (map entry_key (entries_of s ds k)) \<inter> set (concat (map (\<lambda>k. map entry_key (entries_of s ds k)) ks))"
      then obtain k' where k': "k' \<in> set ks" "x \<in> set (map entry_key (entries_of s ds k'))"
        by (auto simp only: set_concat set_map)
      from x per_kind have "fst x = k" by blast
      moreover from k' per_kind have "fst x = k'" by blast
      ultimately show False using k'(1) Cons.prems by simp
    qed
    with Cons of_kind(1) show ?case by simp
  qed simp
  from this [OF kinds_distinct] have "distinct (map entry_key ?all)" by (simp only: map_concat map_map comp_def)
  then have "distinct (map entry_key (unsorted_plan s ds views))" by (simp only: keys)
  moreover have "mset (map entry_key es) = mset (map entry_key (unsorted_plan s ds views))"
    unfolding es by (simp only: mset_map mset_sort)
  ultimately show "distinct (map entry_key es)" using mset_eq_imp_distinct_iff by blast
  have from_kind: "\<exists>f \<in> set (entries_of s ds (pe_kind e)). same_plan f e" if "e \<in> set es" for e
  proof -
    from that have "e \<in> set (unsorted_plan s ds views)" by (simp add: es)
    with same obtain f where f: "f \<in> set ?all" "same_plan f e" by (rule list_all2_right)
    then obtain k where k: "f \<in> set (entries_of s ds k)" by (auto simp only: set_concat set_map)
    with of_kind(2) have "pe_kind f = k" by blast
    moreover have "pe_kind e = pe_kind f" using f(2) by (simp add: same_plan_def entry_key_def)
    ultimately show ?thesis using k f(2) by (intro bexI [of _ f]) simp_all
  qed
  show "e \<in> set es \<Longrightarrow> planned_action s ds (pe_kind e) (pe_name e) = Some (pe_action e)"
  proof -
    assume "e \<in> set es"
    from from_kind [OF this] obtain f where f: "f \<in> set (entries_of s ds (pe_kind e))" "same_plan f e" by blast
    with of_kind(2) [OF f(1)] show ?thesis by (simp add: same_plan_def entry_key_def)
  qed
  show "e \<in> set es \<Longrightarrow> pe_kind e \<noteq> KIntent \<Longrightarrow> pe_error e = None"
  proof -
    assume e: "e \<in> set es" "pe_kind e \<noteq> KIntent"
    from from_kind [OF e(1)] obtain f where f: "f \<in> set (entries_of s ds (pe_kind e))" "same_plan f e" by blast
    with of_kind(2) [OF f(1)] e(2) show ?thesis by (simp add: same_plan_def entry_key_def)
  qed
  assume "planned_action s ds k n = Some a"
  from of_kind(3) [OF this] obtain f where f: "f \<in> set (entries_of s ds k)" "pe_name f = n" by blast
  then have "entry_key f = (k, n)" using of_kind(2) by (simp add: entry_key_def)
  moreover have "k \<in> set ?ks" using kinds_covered by blast
  with f(1) have "f \<in> set ?all" by auto
  ultimately have "(k, n) \<in> set (map entry_key ?all)" by (metis imageI set_map)
  then have "(k, n) \<in> set (map entry_key (unsorted_plan s ds views))" by (simp only: keys)
  then show "\<exists>e \<in> set es. entry_key e = (k, n)" by (auto simp: es)
qed

lemma store_ok_rows:
  assumes "store_ok s" and "row_at s k n = Some r"
  shows "row_ok (k, n) r"
  using assms by (auto simp: store_ok_def row_at_def list_all_iff dest!: map_of_SomeD)

lemma decls_ok_at:
  assumes "decls_ok ds"
  shows "distinct (map (entry_name k) (ds k))" and "d \<in> set (ds k) \<Longrightarrow> version_ok k d \<and> json_ok (de_doc d) \<and> \<not> de_compiled d"
proof -
  have "k \<in> set all_kinds" by simp
  with assms show "distinct (map (entry_name k) (ds k))" and "d \<in> set (ds k) \<Longrightarrow> version_ok k d \<and> json_ok (de_doc d) \<and> \<not> de_compiled d"
    unfolding decls_ok_def list_all_iff by blast+
qed

lemma names_okI: "store_ok s \<Longrightarrow> decls_ok ds \<Longrightarrow> names_ok s ds"
  by (simp add: names_ok_def store_ok_def decls_ok_at)

lemma plan_sayable:
  assumes "compute_plan sl s ds = Inr es" and "store_ok s" and "decls_ok ds"
  shows "list_all sayable es"
proof -
  have "sayable e" if e: "e \<in> set es" for e
    unfolding sayable_def
  proof (intro impI)
    assume del: "(pe_kind e = KIntent \<or> pe_kind e = KBlueprint) \<and> pe_action e = ActionDelete"
    from plan_facts(2) [OF assms(1) names_okI [OF assms(2,3)] e] del
    have "prunable s (pe_kind e) (pe_name e)"
      by (auto simp: planned_action_def owned_def diff_action_def split: option.splits if_splits)
    then obtain r where r: "row_at s (pe_kind e) (pe_name e) = Some r" by (auto simp: prunable_def split: option.splits)
    from store_ok_rows [OF assms(2) r] del
    have "pe_name e = versioned_ref (de_name (st_decl r)) (de_version (st_decl r)) \<and>
        de_name (st_decl r) \<noteq> [] \<and> de_version (st_decl r) \<le> max_int64"
      by (auto simp: row_ok_def version_ok_def entry_name_def versioned_ref_def)
    then show "\<exists>n v. n \<noteq> [] \<and> v \<le> max_int64 \<and> pe_name e = versioned_ref n v" by blast
  qed
  then show ?thesis by (simp add: list_all_iff)
qed

lemma declaration_of_declared:
  assumes "decls_ok ds"
  shows "declaration_of ds e = declared_at ds (pe_kind e) (pe_name e)"
proof (cases "declared_at ds (pe_kind e) (pe_name e)")
  case None
  then have "\<not> (\<exists>d. d \<in> set (ds (pe_kind e)) \<and> entry_name (pe_kind e) d = pe_name e)"
    by (auto simp: declared_at_def find_None_iff)
  then have "declaration_of ds e = None" by (auto simp: declaration_of_def find_None_iff)
  with None show ?thesis by simp
next
  case (Some d)
  then have d: "d \<in> set (ds (pe_kind e))" "entry_name (pe_kind e) d = pe_name e"
    by (auto simp: declared_at_def find_Some_iff)
  have "distinct (map (entry_name (pe_kind e)) (rev (ds (pe_kind e))))"
    using decls_ok_at(1) [OF assms] by (simp flip: rev_map)
  from find_named [OF this, of d] d have "declaration_of ds e = Some d" by (simp add: declaration_of_def)
  with Some show ?thesis by simp
qed

text \<open>
  What an apply leaves under a name, whatever failed: the row of its entry when that was realized, else what was there.
\<close>

lemma apply_leaves:
  assumes ap: "apply_desired sl up ds s = Inr (es', s')" and ok: "store_ok s" "decls_ok ds"
  shows "ds_env s' = ds_env s"
    and "distinct (keys (ds_rows s'))"
    and "planned_action s ds k n = None \<Longrightarrow> row_at s' k n = row_at s k n"
    and "planned_action s ds k n = Some a \<Longrightarrow> \<exists>e' \<in> set es'. entry_key e' = (k, n) \<and> pe_action e' = a \<and>
      row_at s' k n = (if a \<noteq> ActionNoop \<and> pe_error e' = None
        then (if a = ActionDelete then None else map_option (\<lambda>d. \<lparr>st_decl = d, st_by = ''cac''\<rparr>) (declared_at ds k n))
        else row_at s k n)"
    and "e' \<in> set es' \<Longrightarrow> planned_action s ds (pe_kind e') (pe_name e') = Some (pe_action e')"
proof -
  from ap obtain es where plan: "compute_plan sl s ds = Inr es" and run: "apply_entries up ds es s = (es', s')"
    by (auto simp: apply_desired_def split: sum.splits)
  note facts = plan_facts [OF plan names_okI [OF ok]]
  note eff = apply_entries_effect [OF run facts(1) plan_sayable [OF plan ok]]
  show "ds_env s' = ds_env s" by (rule eff(1))
  show "distinct (keys (ds_rows s'))" using eff(2) ok(1) by (simp add: store_ok_def)
  show "row_at s' k n = row_at s k n" if none: "planned_action s ds k n = None"
  proof -
    have "(k, n) \<notin> set (map entry_key es)" using facts(2) none by (force simp: entry_key_def)
    from eff(4) [OF this] show ?thesis by (simp add: row_at_def)
  qed
  show "planned_action s ds (pe_kind e') (pe_name e') = Some (pe_action e')" if "e' \<in> set es'"
  proof -
    from eff(3) that obtain e where "e \<in> set es" "left_by ds s s' e e'" by (rule list_all2_right)
    with facts(2) [of e] show ?thesis by (simp add: left_by_def entry_key_def)
  qed
  assume act: "planned_action s ds k n = Some a"
  from facts(4) [OF act] obtain e where e: "e \<in> set es" "entry_key e = (k, n)" by blast
  with facts(2) [OF e(1)] act have a: "pe_action e = a" by (simp add: entry_key_def)
  from eff(3) e(1) obtain e' where e': "e' \<in> set es'" "left_by ds s s' e e'" by (rule list_all2_left)
  have "realized e e' \<longleftrightarrow> a \<noteq> ActionNoop \<and> pe_error e' = None" using e'(2) a by (auto simp: realized_def left_by_def)
  moreover have "target_row ds e = (if a = ActionDelete then None else map_option (\<lambda>d. \<lparr>st_decl = d, st_by = ''cac''\<rparr>) (declared_at ds k n))"
    using e(2) a declaration_of_declared [OF ok(2), of e] by (auto simp: target_row_def entry_key_def)
  ultimately show "\<exists>e' \<in> set es'. entry_key e' = (k, n) \<and> pe_action e' = a \<and>
      row_at s' k n = (if a \<noteq> ActionNoop \<and> pe_error e' = None
        then (if a = ActionDelete then None else map_option (\<lambda>d. \<lparr>st_decl = d, st_by = ''cac''\<rparr>) (declared_at ds k n))
        else row_at s k n)"
    using e' e(2) a by (intro bexI [OF _ e'(1)]) (auto simp: left_by_def row_at_def)
qed

section \<open>Properties\<close>

lemma owned_row_by:
  assumes "store_ok s" and "row_at s k n = Some r" and "owned k"
  shows "st_by r = ''api'' \<or> st_by r = ''cac''"
  using store_ok_rows [OF assms(1,2)] assms(3) by (simp add: row_ok_def)

text \<open>A declared name that the plan leaves alone is stored as declared.\<close>

lemma noop_means_equal:
  assumes ok: "store_ok s" and d: "declared_at ds k n = Some d" and noop: "planned_action s ds k n = Some ActionNoop"
  shows "\<exists>r. row_at s k n = Some r \<and> listed s k r \<and> (owned k \<longrightarrow> st_by r \<noteq> ''api'') \<and> deep_equal (de_doc (st_decl r)) (de_doc d)"
proof -
  have rows: "distinct (keys (ds_rows s))" using ok by (simp add: store_ok_def)
  from noop d show ?thesis
    by (auto simp: planned_action_def owned_action_def diff_action_def row_equals_def map_of_plan_rows [OF rows]
        split: if_splits option.splits)
qed

lemma equal_means_noop:
  assumes rows: "distinct (keys (ds_rows s))" and d: "declared_at ds k n = Some d" and r: "row_at s k n = Some r" "listed s k r"
    and by_git: "owned k \<Longrightarrow> st_by r \<noteq> ''api''" and eq: "deep_equal (de_doc (st_decl r)) (de_doc d)"
  shows "planned_action s ds k n = Some ActionNoop"
  using assms by (auto simp: planned_action_def owned_action_def diff_action_def row_equals_def map_of_plan_rows [OF rows])

lemma declared_at_props:
  assumes "decls_ok ds" and "declared_at ds k n = Some d"
  shows "d \<in> set (ds k)" and "entry_name k d = n" and "json_ok (de_doc d)" and "\<not> de_compiled d"
proof -
  show d: "d \<in> set (ds k)" and "entry_name k d = n" using assms(2) by (auto simp: declared_at_def find_Some_iff)
  show "json_ok (de_doc d)" and "\<not> de_compiled d" using decls_ok_at(2) [OF assms(1) d] by simp_all
qed

lemma in_scope_at:
  assumes "decls_in_scope ds env" and "d \<in> set (ds k)" and "env_listed k"
  shows "in_scope (de_envs d) env"
proof -
  have "k \<in> set all_kinds" by simp
  with assms show ?thesis unfolding decls_in_scope_def list_all_iff by blast
qed

lemma realized_plan_is_empty:
  assumes ap: "apply_desired sl up ds s = Inr (es, s')" and ok: "store_ok s" "decls_ok ds"
    and scope: "decls_in_scope ds (ds_env s)" and clean: "list_all (\<lambda>e. pe_error e = None) es"
  shows "planned_action s' ds k n = None \<or> planned_action s' ds k n = Some ActionNoop"
proof -
  note left = apply_leaves [OF ap ok]
  have rows: "distinct (keys (ds_rows s))" using ok(1) by (simp add: store_ok_def)
  have same: "listed s' = listed s" by (intro ext) (simp add: listed_def left(1))
  show ?thesis
  proof (cases "declared_at ds k n")
    case None
    have "\<not> prunable s' k n"
    proof (cases "prunable s k n")
      case True
      with None have "planned_action s ds k n = Some ActionDelete" by (simp add: planned_action_def)
      from left(4) [OF this] clean have "row_at s' k n = None" by (auto simp: list_all_iff)
      then show ?thesis by (simp add: prunable_def)
    next
      case False
      with None have "planned_action s ds k n = None" by (simp add: planned_action_def)
      from left(3) [OF this] False show ?thesis unfolding prunable_def same by simp
    qed
    with None show ?thesis by (simp add: planned_action_def)
  next
    case (Some d)
    note props = declared_at_props [OF ok(2) Some]
    from Some obtain a where a: "planned_action s ds k n = Some a" by (simp add: planned_action_def)
    have not_del: "a \<noteq> ActionDelete"
      using a Some by (auto simp: planned_action_def owned_action_def diff_action_def split: if_splits option.splits)
    have "\<exists>r. row_at s' k n = Some r \<and> listed s' k r \<and> (owned k \<longrightarrow> st_by r \<noteq> ''api'') \<and> deep_equal (de_doc (st_decl r)) (de_doc d)"
    proof (cases "a = ActionNoop")
      case True
      with left(4) [OF a] have "row_at s' k n = row_at s k n" by auto
      with noop_means_equal [OF ok(1) Some] a True show ?thesis by (simp add: listed_def left(1))
    next
      case False
      with left(4) [OF a] clean not_del Some have "row_at s' k n = Some \<lparr>st_decl = d, st_by = ''cac''\<rparr>"
        by (auto simp: list_all_iff)
      then show ?thesis using in_scope_at [OF scope props(1)] deep_equal_refl [OF props(3)] props(4)
        by (simp add: listed_def left(1))
    qed
    then show ?thesis using equal_means_noop [OF left(2) Some] by blast
  qed
qed

lemma noop_views_are_planned:
  assumes "\<And>n. planned_action s ds KView n = None \<or> planned_action s ds KView n = Some ActionNoop" and "names_ok s ds"
  shows "\<exists>views. compute_view_plan sl (plan_rows s KView) (ds KView) = Inr views"
proof -
  have "pe_action e = ActionNoop" if "e \<in> set (plan_owned KView (plan_rows s KView) (ds KView))" for e
  proof -
    have "e \<in> set (entries_of s ds KView)" using that by (simp add: entries_of_def owned_def)
    from entries_of_names(2) [where k = KView, OF _ _ this] assms(2)
    have "planned_action s ds KView (pe_name e) = Some (pe_action e)" by (simp add: names_ok_def)
    with assms(1) [of "pe_name e"] show ?thesis by simp
  qed
  then have "\<forall>e \<in> set (plan_owned KView (plan_rows s KView) (ds KView)).
      (case count_members sl (view_doc (plan_rows s KView) (ds KView) e) e of None \<Rightarrow> Inl (CountFailed (pe_name e)) | Some e' \<Rightarrow> Inr e') = Inr e"
    by (simp add: count_members_def)
  then show ?thesis unfolding compute_view_plan_def by (intro exI) (rule map_err_id, blast)
qed

text \<open>C22. C1.
  Reconciliation converges: after an apply that reported no error, over declarations of the daemon's own environment, the
  plan of the same declarations has nothing left to do.
\<close>

theorem apply_converges:
  assumes "apply_desired sl up ds s = Inr (es, s')" and "store_ok s" and "decls_ok ds"
    and "decls_in_scope ds (ds_env s)" and "list_all (\<lambda>e. pe_error e = None) es"
  shows "\<exists>es2. compute_plan sl s' ds = Inr es2 \<and> list_all (\<lambda>e. pe_action e = ActionNoop) es2"
proof -
  have names: "names_ok s' ds" using apply_leaves(2) [OF assms(1-3)] decls_ok_at(1) [OF assms(3)] by (simp add: names_ok_def)
  note empty = realized_plan_is_empty [OF assms]
  obtain views where "compute_view_plan sl (plan_rows s' KView) (ds KView) = Inr views"
    using noop_views_are_planned [OF empty names] by blast
  then obtain es2 where es2: "compute_plan sl s' ds = Inr es2" by (simp add: compute_plan_def)
  have "pe_action e = ActionNoop" if "e \<in> set es2" for e
    using plan_facts(2) [OF es2 names that] empty [of "pe_kind e" "pe_name e"] by simp
  with es2 show ?thesis by (auto simp: list_all_iff)
qed

text \<open>C23. C1.
  Git is the truth for what it declares and for nothing else: an apply without errors leaves under every name the declared
  document, nothing where a row of the slice is no longer declared, and every other row (of another environment, or declared
  through the API) as it was.
\<close>

theorem apply_realizes_declarations:
  assumes "apply_desired sl up ds s = Inr (es, s')" and "store_ok s" and "decls_ok ds" and "list_all (\<lambda>e. pe_error e = None) es"
  shows "case declared_at ds k n of
      Some d \<Rightarrow> (case row_at s' k n of None \<Rightarrow> False | Some r \<Rightarrow> st_by r = ''cac'' \<and> deep_equal (de_doc (st_decl r)) (de_doc d))
    | None \<Rightarrow> row_at s' k n = (if prunable s k n then None else row_at s k n)"
proof (cases "declared_at ds k n")
  case None
  note left = apply_leaves [OF assms(1-3)]
  show ?thesis
  proof (cases "prunable s k n")
    case True
    with None have "planned_action s ds k n = Some ActionDelete" by (simp add: planned_action_def)
    from left(4) [OF this] assms(4) True None show ?thesis by (auto simp: list_all_iff)
  next
    case False
    with None have "planned_action s ds k n = None" by (simp add: planned_action_def)
    from left(3) [OF this] False None show ?thesis by simp
  qed
next
  case (Some d)
  note left = apply_leaves [OF assms(1-3)]
  note props = declared_at_props [OF assms(3) Some]
  from Some obtain a where a: "planned_action s ds k n = Some a" by (simp add: planned_action_def)
  have not_del: "a \<noteq> ActionDelete"
    using a Some by (auto simp: planned_action_def owned_action_def diff_action_def split: if_splits option.splits)
  show ?thesis
  proof (cases "a = ActionNoop")
    case True
    with left(4) [OF a] have same: "row_at s' k n = row_at s k n" by auto
    from noop_means_equal [OF assms(2) Some] a True obtain r where r: "row_at s k n = Some r"
      "owned k \<longrightarrow> st_by r \<noteq> ''api''" "deep_equal (de_doc (st_decl r)) (de_doc d)" by blast
    have "st_by r = ''cac''" using store_ok_rows [OF assms(2) r(1)] r(2) by (auto simp: row_ok_def split: if_splits)
    with r same Some show ?thesis by simp
  next
    case False
    with left(4) [OF a] assms(4) not_del Some have "row_at s' k n = Some \<lparr>st_decl = d, st_by = ''cac''\<rparr>"
      by (auto simp: list_all_iff)
    with Some deep_equal_refl [OF props(3)] show ?thesis by simp
  qed
qed

lemma apply_stays_in_its_slice_aux:
  assumes "apply_desired sl up ds s = Inr (es, s')" and "store_ok s" and "decls_ok ds"
  shows "row_at s' k n = row_at s k n
    \<or> (\<exists>d \<in> set (ds k). entry_name k d = n \<and> row_at s' k n = Some \<lparr>st_decl = d, st_by = ''cac''\<rparr>)
    \<or> (prunable s k n \<and> n \<notin> entry_name k ` set (ds k) \<and> row_at s' k n = None)"
proof (cases "planned_action s ds k n")
  case None
  then show ?thesis using apply_leaves(3) [OF assms] by blast
next
  case (Some a)
  show ?thesis
  proof (cases "a = ActionDelete")
    case True
    with Some have gone: "declared_at ds k n = None" "prunable s k n"
      by (auto simp: planned_action_def owned_action_def diff_action_def split: if_splits option.splits)
    have "row_at s' k n = None \<or> row_at s' k n = row_at s k n" using apply_leaves(4) [OF assms Some] True by (auto split: if_splits)
    with gone show ?thesis by (auto simp: declared_at_None)
  next
    case False
    with Some obtain d where d: "declared_at ds k n = Some d" by (auto simp: planned_action_def split: if_splits option.splits)
    have "row_at s' k n = row_at s k n \<or> row_at s' k n = Some \<lparr>st_decl = d, st_by = ''cac''\<rparr>"
      using apply_leaves(4) [OF assms Some] False d by (auto split: if_splits)
    with declared_at_props [OF assms(3) d] show ?thesis by blast
  qed
qed

text \<open>C1.
  Whatever fails, an apply touches no row it does not declare and may not prune: the rows of other environments and the
  Views and CredentialRefs of the API stay, and each row it may touch is left as it was, as declared, or gone.
\<close>

theorem apply_stays_in_its_slice:
  assumes "apply_desired sl up ds s = Inr (es, s')" and "store_ok s" and "decls_ok ds"
  shows "row_at s' k n = row_at s k n
    \<or> (\<exists>d \<in> set (ds k). entry_name k d = n \<and> row_at s' k n = Some \<lparr>st_decl = d, st_by = ''cac''\<rparr>)
    \<or> (prunable s k n \<and> n \<notin> entry_name k ` set (ds k) \<and> row_at s' k n = None)"
  by (rule apply_stays_in_its_slice_aux [OF assms])

section \<open>The guards\<close>



lemma f64_above_half:
  assumes "1 / 2 + 1 / 2 ^ 53 \<le> x" and "x \<le> 1"
  shows "1 / 2 < f64 x"
proof -
  have half: "(1::rat) / 2 < x" using assms(1) by (rule less_le_trans [rotated]) simp
  then have pos: "0 < x" by (rule less_trans [rotated]) simp
  note b = bin_exp_bounds [OF pos]
  have "bin_exp x \<le> 0"
  proof (rule ccontr)
    assume "\<not> bin_exp x \<le> 0"
    then have "pow2 1 * 1 \<le> pow2 1 * pow2 (bin_exp x - 1)" by (intro mult_left_mono) (auto simp: pow2_def)
    also have "\<dots> = pow2 (bin_exp x)" by (simp flip: pow2_add)
    finally show False using b(1) assms(2) by (simp add: pow2_def)
  qed
  moreover have "- 1 \<le> bin_exp x"
  proof (rule ccontr)
    assume "\<not> - 1 \<le> bin_exp x"
    then have "pow2 (bin_exp x + 1) * 1 \<le> pow2 (bin_exp x + 1) * pow2 (- 2 - bin_exp x)"
      by (intro mult_left_mono) (auto simp: pow2_def)
    also have "\<dots> = pow2 (- 1)" by (simp flip: pow2_add)
    finally have "pow2 (bin_exp x + 1) \<le> 1 / 2" by (simp add: pow2_def)
    with b(2) half show False by simp
  qed
  ultimately consider "bin_exp x = 0" | "bin_exp x = - 1" by linarith
  then show ?thesis
  proof cases
    case 1
    with b(1) assms(2) have "x = of_int 1" by (simp add: pow2_def)
    then show ?thesis using f64_int [of 1] by simp
  next
    case 2
    have u: "pow2 (bin_exp x - 52) = 1 / 2 ^ 53" by (simp add: 2 pow2_def)
    have "of_int (2 ^ 52 + 1) \<le> x / (1 / 2 ^ 53)" using assms(1) by simp
    then have "2 ^ 52 + 1 \<le> round_even (x / (1 / 2 ^ 53))" by (rule round_even_ge)
    then have "of_int (2 ^ 52 + 1) \<le> (of_int (round_even (x / (1 / 2 ^ 53))) :: rat)" by (simp only: of_int_le_iff)
    then have "of_int (2 ^ 52 + 1) * (1 / 2 ^ 53) \<le> of_int (round_even (x / (1 / 2 ^ 53))) * (1 / 2 ^ 53 :: rat)"
      by (rule mult_right_mono) simp
    moreover have "(1::rat) / 2 < of_int (2 ^ 52 + 1) * (1 / 2 ^ 53)" by simp
    ultimately show ?thesis using pos unfolding f64_def f64_pos_def Let_def u by simp
  qed
qed

lemma f64_over_half_count:
  assumes "d \<le> n" and "n \<le> 2 ^ 52" and "n < 2 * d"
  shows "1 / 2 < f64 (of_nat d / of_nat n)"
proof (rule f64_above_half)
  have n: "n > 0" using assms(1,3) by simp
  show "of_nat d / of_nat n \<le> (1::rat)" using assms(1) n by simp
  have "n + 1 \<le> 2 * d" using assms(3) by simp
  then have "of_nat (n + 1) \<le> (of_nat (2 * d) :: rat)" by (simp only: of_nat_le_iff)
  then have "(of_nat n + 1) / 2 \<le> (of_nat d :: rat)" by simp
  then have "(of_nat n + 1) / 2 / of_nat n \<le> (of_nat d / of_nat n :: rat)" by (rule divide_right_mono) simp
  then have 1: "(of_nat n + 1) / (2 * of_nat n) \<le> (of_nat d / of_nat n :: rat)" by simp
  have "of_nat n \<le> (of_nat (2 ^ 52) :: rat)" using assms(2) by (simp only: of_nat_le_iff)
  then have "1 / 2 ^ 53 \<le> (1 / (2 * of_nat n) :: rat)" using n by (simp add: field_simps)
  moreover have "(of_nat n + 1) / (2 * of_nat n) = (1 / 2 + 1 / (2 * of_nat n) :: rat)" using n by (simp add: field_simps)
  ultimately show "1 / 2 + 1 / 2 ^ 53 \<le> (of_nat d / of_nat n :: rat)" using 1 by linarith
qed

text \<open>The entries of a plan that count a row of the estate are the rows themselves.\<close>

definition git_rows :: "desired_store \<Rightarrow> decl_kind \<Rightarrow> string set" where
  "git_rows s k = {n. prunable s k n}"

lemma git_rows_named: "git_rows s k \<subseteq> snd ` set (keys (ds_rows s))"
proof
  fix n assume "n \<in> git_rows s k"
  then obtain r where "map_of (ds_rows s) (k, n) = Some r" by (auto simp: git_rows_def prunable_def row_at_def split: option.splits)
  then have "(k, n) \<in> set (keys (ds_rows s))" by (rule map_of_Some_key)
  then show "n \<in> snd ` set (keys (ds_rows s))" by force
qed

lemma finite_git_rows: "finite (git_rows s k)"
  by (rule finite_subset [OF git_rows_named]) simp

lemma planned_without_row:
  assumes "distinct (keys (ds_rows s))" and "row_at s k n = None"
  shows "planned_action s ds k n = (if declared_at ds k n = None then None else Some ActionCreate)"
  using assms(2)
  by (simp add: planned_action_def prunable_def owned_action_def diff_action_def map_of_plan_rows [OF assms(1)] split: option.split)

lemma planned_with_row:
  assumes "distinct (keys (ds_rows s))" and "row_at s k n = Some r"
  shows "planned_action s ds k n =
    (case declared_at ds k n of
       None \<Rightarrow> if listed s k r \<and> (owned k \<longrightarrow> st_by r = ''cac'') then Some ActionDelete else None
     | Some d \<Rightarrow> Some (if \<not> listed s k r then ActionCreate
                       else if owned k \<and> st_by r = ''api'' then ActionAdopt
                       else if deep_equal (de_doc (st_decl r)) (de_doc d) then ActionNoop else ActionUpdate))"
  using assms(2)
  by (simp add: planned_action_def prunable_def owned_action_def diff_action_def row_equals_def map_of_plan_rows [OF assms(1)]
      split: option.split)

lemma prunable_action:
  assumes "store_ok s"
  shows "prunable s k n \<longleftrightarrow> planned_action s ds k n \<in> Some ` {ActionDelete, ActionNoop, ActionUpdate}"
proof -
  have rows: "distinct (keys (ds_rows s))" using assms by (simp add: store_ok_def)
  show ?thesis
  proof (cases "row_at s k n")
    case None
    then show ?thesis unfolding planned_without_row [OF rows None] by (simp add: prunable_def)
  next
    case (Some r)
    have "owned k \<Longrightarrow> st_by r = ''api'' \<or> st_by r = ''cac''" by (rule owned_row_by [OF assms Some])
    with Some show ?thesis unfolding planned_with_row [OF rows Some]
      by (simp add: prunable_def image_iff split: option.split) blast
  qed
qed

lemma plan_count:
  assumes plan: "compute_plan sl s ds = Inr es" and ok: "names_ok s ds"
  shows "length (filter (\<lambda>e. pe_kind e = k \<and> P (pe_action e)) es) = card {n. \<exists>a. planned_action s ds k n = Some a \<and> P a}"
proof -
  note facts = plan_facts [OF plan ok]
  let ?es = "filter (\<lambda>e. pe_kind e = k \<and> P (pe_action e)) es"
  have "distinct (map entry_key ?es)" using facts(1) by (induction es) auto
  from distinct_card [OF this] have "length ?es = card (set (map entry_key ?es))" by simp
  also have "set (map entry_key ?es) = Pair k ` {n. \<exists>a. planned_action s ds k n = Some a \<and> P a}"
  proof (intro equalityI subsetI)
    fix x assume "x \<in> set (map entry_key ?es)"
    then obtain e where "e \<in> set es" "pe_kind e = k" "P (pe_action e)" "x = (k, pe_name e)" by (auto simp: entry_key_def)
    with facts(2) show "x \<in> Pair k ` {n. \<exists>a. planned_action s ds k n = Some a \<and> P a}" by auto
  next
    fix x assume "x \<in> Pair k ` {n. \<exists>a. planned_action s ds k n = Some a \<and> P a}"
    then obtain n a where n: "x = (k, n)" "planned_action s ds k n = Some a" "P a" by blast
    from facts(4) [OF n(2)] obtain e where e: "e \<in> set es" "entry_key e = (k, n)" by blast
    with facts(2) [OF e(1)] n have "pe_kind e = k \<and> pe_action e = a" by (simp add: entry_key_def)
    with e n show "x \<in> set (map entry_key ?es)" by force
  qed
  also have "card \<dots> = card {n. \<exists>a. planned_action s ds k n = Some a \<and> P a}" by (rule card_image) (simp add: inj_on_def)
  finally show ?thesis .
qed

lemma plan_total_rows:
  assumes "compute_plan sl s ds = Inr es" and "store_ok s" and "decls_ok ds"
  shows "plan_total es k = card (git_rows s k)"
proof -
  have "plan_total es k = card {n. \<exists>a. planned_action s ds k n = Some a \<and> a \<in> {ActionDelete, ActionNoop, ActionUpdate}}"
    unfolding plan_total_def by (rule plan_count [OF assms(1) names_okI [OF assms(2,3)]])
  also have "{n. \<exists>a. planned_action s ds k n = Some a \<and> a \<in> {ActionDelete, ActionNoop, ActionUpdate}} = git_rows s k"
    unfolding git_rows_def using prunable_action [OF assms(2), of k _ ds] by auto
  finally show ?thesis .
qed

lemma plan_deletes_rows:
  assumes "compute_plan sl s ds = Inr es" and "store_ok s" and "decls_ok ds"
  shows "plan_deletes es k = card {n. planned_action s ds k n = Some ActionDelete}"
  unfolding plan_deletes_def using plan_count [OF assms(1) names_okI [OF assms(2,3)], of k "\<lambda>a. a = ActionDelete"] by simp

lemma unguarded_kind:
  assumes "\<not> prunes_too_much f es" and "f \<le> 0" and "plan_deletes es k \<le> plan_total es k" and "plan_total es k \<le> 2 ^ 52"
  shows "2 * plan_deletes es k \<le> plan_total es k"
proof (rule ccontr)
  assume over: "\<not> 2 * plan_deletes es k \<le> plan_total es k"
  then have "plan_deletes es k > 0" by simp
  then obtain e where "e \<in> set es" "pe_kind e = k" by (auto simp: plan_deletes_def filter_empty_conv)
  then have "(k, plan_deletes es k, plan_total es k) \<in> set (prune_stats es)" by (auto simp: prune_stats_def)
  moreover have "f64 (of_nat (plan_deletes es k) / of_nat (plan_total es k)) > 1 / 2"
    using f64_over_half_count [OF assms(3,4)] over by simp
  moreover have "plan_total es k > 0" using \<open>plan_deletes es k > 0\<close> assms(3) by simp
  ultimately have "prunes_too_much f es" using assms(2)
    by (auto simp: prunes_too_much_def list_ex_iff max_prune_fraction_def)
  with assms(1) show False by simp
qed

lemma scoped_decls_ok: "decls_ok ds \<Longrightarrow> decls_ok (scope_to_environment ds env)"
  unfolding decls_ok_def list_all_iff by (auto simp: scope_to_environment_def distinct_map inj_on_def)

text \<open>C25. C1.
  The unattended cycle at its default guard removes at most half of the declarations of any kind from the estate; a
  checkout that cannot be read removes none.
\<close>

theorem reconcile_prunes_at_most_half:
  assumes "reconcile sl up f decls s = (out, s')" and "store_ok s" and "\<And>ds. decls = Some ds \<Longrightarrow> decls_ok ds"
    and "f \<le> 0" and "card (git_rows s k) \<le> 2 ^ 52"
  shows "2 * card {n \<in> git_rows s k. row_at s' k n = None} \<le> card (git_rows s k)"
proof (cases "s' = s")
  case True
  then have "{n \<in> git_rows s k. row_at s' k n = None} = {}" by (auto simp: git_rows_def prunable_def split: option.splits)
  then show ?thesis by (simp only: card.empty)
next
  case False
  with assms(1) obtain ds0 es es' where d: "decls = Some ds0" and plan: "compute_plan sl s (scope_to_environment ds0 (ds_env s)) = Inr es"
    and small: "\<not> prunes_too_much f es" and ap: "apply_desired sl up (scope_to_environment ds0 (ds_env s)) s = Inr (es', s')"
    by (auto simp: reconcile_def Let_def split: option.splits sum.splits if_splits prod.splits)
  let ?ds = "scope_to_environment ds0 (ds_env s)"
  have ok: "decls_ok ?ds" using assms(3) [OF d] by (rule scoped_decls_ok)
  note total = plan_total_rows [OF plan assms(2) ok, of k] and deletes = plan_deletes_rows [OF plan assms(2) ok, of k]
  have sub: "{n. planned_action s ?ds k n = Some ActionDelete} \<subseteq> git_rows s k"
    using prunable_action [OF assms(2), of k _ ?ds] by (auto simp: git_rows_def)
  have "{n \<in> git_rows s k. row_at s' k n = None} \<subseteq> {n. planned_action s ?ds k n = Some ActionDelete}"
  proof
    fix n assume n: "n \<in> {n \<in> git_rows s k. row_at s' k n = None}"
    then have "row_at s k n \<noteq> None" by (auto simp: git_rows_def prunable_def split: option.splits)
    with n apply_stays_in_its_slice_aux [OF ap assms(2) ok, of k n] have "n \<notin> entry_name k ` set (?ds k)" "prunable s k n" by auto
    then have "planned_action s ?ds k n = Some ActionDelete" by (simp add: planned_action_def flip: declared_at_None)
    then show "n \<in> {n. planned_action s ?ds k n = Some ActionDelete}" by simp
  qed
  then have "card {n \<in> git_rows s k. row_at s' k n = None} \<le> plan_deletes es k"
    unfolding deletes by (rule card_mono [OF finite_subset [OF sub finite_git_rows]])
  moreover have "2 * plan_deletes es k \<le> plan_total es k"
    using card_mono [OF finite_git_rows sub] assms(5) by (intro unguarded_kind [OF small assms(4)]) (simp_all add: total deletes)
  ultimately show ?thesis by (simp add: total)
qed

section \<open>Examples\<close>

definition decl :: "string \<Rightarrow> int \<Rightarrow> string list \<Rightarrow> json \<Rightarrow> declared" where
  "decl n v envs doc = \<lparr>de_name = n, de_version = v, de_envs = envs, de_doc = doc, de_pin_intent = ([], 0), de_pin_blueprint = ([], 0),
     de_compiled = False\<rparr>"

definition pinning :: "string \<Rightarrow> string \<times> int \<Rightarrow> string \<times> int \<Rightarrow> declared" where
  "pinning n i b = (decl n 0 [] (JStr n))\<lparr>de_pin_intent := i, de_pin_blueprint := b\<rparr>"

definition from_git :: "declared \<Rightarrow> stored" where
  "from_git d = \<lparr>st_decl = d, st_by = ''cac''\<rparr>"

definition counting :: selectors where
  "counting = \<lparr>sl_template = (\<lambda>_. False), sl_count = (\<lambda>_. Some 3)\<rparr>"

abbreviation "tls1 \<equiv> decl ''tls'' 1 [] (JStr ''strict'')"
abbreviation "web_view \<equiv> decl ''web'' 0 [] (JStr ''role=web'')"
abbreviation "prod_asg \<equiv> pinning ''prod'' (''tls'', 1) ([], 0)"

text \<open>
  An estate in \<open>dev\<close>: an API-written View that Git now declares, a View Git has dropped, an Intent that is pinned, a
  Trigger of another environment.
\<close>

definition demo_estate :: desired_store where
  "demo_estate = \<lparr>ds_rows =
     [((KView, ''web''), \<lparr>st_decl = decl ''web'' 0 [] (JStr ''role=old''), st_by = ''api''\<rparr>),
      ((KView, ''db''), from_git (decl ''db'' 0 [] (JStr ''role=db''))),
      ((KIntent, ''tls@1''), from_git tls1),
      ((KTrigger, ''nightly''), from_git (decl ''nightly'' 0 [''prod''] JNull))], ds_env = ''dev''\<rparr>"

definition demo_decls :: declarations where
  "demo_decls k = (if k = KView then [web_view] else if k = KIntent then [tls1] else if k = KAssignment then [prod_asg] else [])"

definition demo_run :: "plan_entry list \<times> desired_store" where
  "demo_run = (case apply_desired counting (\<lambda>_. True) demo_decls demo_estate of Inl _ \<Rightarrow> ([], demo_estate) | Inr r \<Rightarrow> r)"

lemma demo_estate_ok: "store_ok demo_estate" by code_simp

lemma demo_decls_ok: "decls_ok demo_decls" by code_simp

lemma demo_in_scope: "decls_in_scope demo_decls (ds_env demo_estate)" by code_simp

lemma demo_applies: "apply_desired counting (\<lambda>_. True) demo_decls demo_estate = Inr (fst demo_run, snd demo_run)"
proof -
  have "\<not> isl (apply_desired counting (\<lambda>_. True) demo_decls demo_estate)" by code_simp
  then show ?thesis by (auto simp: demo_run_def split: sum.splits)
qed

lemma demo_succeeds: "list_all (\<lambda>e. pe_error e = None) (fst demo_run)" by code_simp

lemma demo_plan: "map (\<lambda>e. (pe_kind e, pe_name e, pe_action e)) (fst demo_run) =
  [(KAssignment, ''prod'', ActionCreate), (KIntent, ''tls@1'', ActionNoop), (KView, ''db'', ActionDelete), (KView, ''web'', ActionAdopt)]"
  by code_simp

theorem apply_converges_witness:
  "\<exists>es2. compute_plan counting (snd demo_run) demo_decls = Inr es2 \<and> list_all (\<lambda>e. pe_action e = ActionNoop) es2"
  by (rule apply_converges [OF demo_applies demo_estate_ok demo_decls_ok demo_in_scope demo_succeeds])

theorem apply_realizes_declarations_witness:
  "case row_at (snd demo_run) KView ''web'' of None \<Rightarrow> False | Some r \<Rightarrow> st_by r = ''cac'' \<and> deep_equal (de_doc (st_decl r)) (JStr ''role=web'')"
proof -
  have at_web: "declared_at demo_decls KView ''web'' = Some web_view" by code_simp
  have doc: "de_doc web_view = JStr ''role=web''" by (simp add: decl_def)
  show ?thesis
    using apply_realizes_declarations [OF demo_applies demo_estate_ok demo_decls_ok demo_succeeds, of KView "''web''"]
    unfolding at_web option.case doc .
qed

theorem apply_stays_in_its_slice_witness:
  "row_at (snd demo_run) KTrigger ''nightly'' = row_at demo_estate KTrigger ''nightly''"
proof -
  have "demo_decls KTrigger = []" by (simp add: demo_decls_def)
  moreover have "\<not> prunable demo_estate KTrigger ''nightly''" by code_simp
  ultimately show ?thesis
    using apply_stays_in_its_slice [OF demo_applies demo_estate_ok demo_decls_ok, of KTrigger "''nightly''"] by simp
qed




theorem reconcile_prunes_at_most_half_witness:
  "2 * card {n \<in> git_rows demo_estate KView.
       row_at (snd (reconcile counting (\<lambda>_. True) 0 (Some demo_decls) demo_estate)) KView n = None}
   \<le> card (git_rows demo_estate KView)"
proof (rule reconcile_prunes_at_most_half)
  show "reconcile counting (\<lambda>_. True) 0 (Some demo_decls) demo_estate =
    (fst (reconcile counting (\<lambda>_. True) 0 (Some demo_decls) demo_estate),
     snd (reconcile counting (\<lambda>_. True) 0 (Some demo_decls) demo_estate))" by simp
  show "\<And>ds. Some demo_decls = Some ds \<Longrightarrow> decls_ok ds" using demo_decls_ok by simp
  have "card (git_rows demo_estate KView) \<le> card (snd ` set (keys (ds_rows demo_estate)))"
    by (rule card_mono [OF _ git_rows_named]) simp
  also have "\<dots> \<le> length (ds_rows demo_estate)" by (metis card_length length_map list.set_map)
  finally show "card (git_rows demo_estate KView) \<le> 2 ^ 52" by (simp add: demo_estate_def)
qed (simp_all add: demo_estate_ok)

section \<open>What the reconcile does not keep\<close>

text \<open>
  The guard runs before the Blueprints join the plan: a pinned Blueprint is edited in place.
\<close>

definition blueprint_estate :: desired_store where
  "blueprint_estate = \<lparr>ds_rows = [((KBlueprint, ''os@1''), from_git (decl ''os'' 1 [] (JStr ''old'')))], ds_env = []\<rparr>"

definition blueprint_decls :: declarations where
  "blueprint_decls k = (if k = KBlueprint then [decl ''os'' 1 [] (JStr ''new'')]
     else if k = KAssignment then [pinning ''prod'' ([], 0) (''os'', 1)] else [])"

lemma pinned_blueprint_is_edited:
  "case apply_desired counting (\<lambda>_. True) blueprint_decls blueprint_estate of
     Inl _ \<Rightarrow> False | Inr (es, s') \<Rightarrow> list_all (\<lambda>e. pe_error e = None) es \<and>
       map_option (de_doc \<circ> st_decl) (row_at s' KBlueprint ''os@1'') = Some (JStr ''new'')"
  by code_simp

text \<open>
  Promotion in one commit, from version 9 to 10: the create sorts before the delete, meets the old version under the same
  name and fails; the old version is then deleted and neither is left.
\<close>

definition nine_estate :: desired_store where
  "nine_estate = \<lparr>ds_rows = [((KIntent, ''tls@9''), from_git (decl ''tls'' 9 [] JNull))], ds_env = []\<rparr>"

definition ten_decls :: declarations where
  "ten_decls k = (if k = KIntent then [decl ''tls'' 10 [] JNull]
     else if k = KAssignment then [pinning ''prod'' (''tls'', 10) ([], 0)] else [])"

lemma promotion_past_nine_fails:
  "case apply_desired counting (\<lambda>_. True) ten_decls nine_estate of
     Inl _ \<Rightarrow> False | Inr (es, s') \<Rightarrow> row_at s' KIntent ''tls@9'' = None \<and> row_at s' KIntent ''tls@10'' = None \<and>
       list_ex (\<lambda>e. pe_name e = ''tls@10'' \<and> pe_error e = Some VersionTaken) es"
  by code_simp

text \<open>
  Connectors, Actuators and CapabilityBindings are listed by environment but not scoped when they are declared: one of
  another environment is created by every cycle.
\<close>

definition prod_actuator :: declarations where
  "prod_actuator k = (if k = KActuator then [decl ''tofu'' 0 [''prod''] JNull] else [])"

lemma out_of_scope_actuator_is_recreated:
  "case reconcile counting (\<lambda>_. True) 0 (Some prod_actuator) \<lparr>ds_rows = [], ds_env = ''dev''\<rparr> of
     (_, s1) \<Rightarrow> row_at s1 KActuator ''tofu'' \<noteq> None \<and>
       map_option (map (\<lambda>e. (pe_name e, pe_action e))) (fst (reconcile counting (\<lambda>_. True) 0 (Some prod_actuator) s1))
       = Some [(''tofu'', ActionCreate)]"
  by code_simp

end
