(* ===== verification/WorkflowCheck.thy ===== *)
theory WorkflowCheck
  imports Compiler Dag
begin

text \<open>
  What the loader checks of a Workflow before anything runs it (\<open>ValidateWorkflow\<close> and \<open>validatePlanPinning\<close> of
  \<open>core/internal/desiredstate/desiredstate.go\<close>, \<open>nested_workflow.go\<close>, the shape gate of \<open>core/internal/contract\<close>), and what
  follows for the walk of an accepted one.  The registry of Contracts is a parameter: for a name, the compiled schema and
  the document it was compiled from.
\<close>

section \<open>Contracts\<close>

record contract_lib = schema_lib +
  contract_of :: "string \<Rightarrow> (json \<Rightarrow> bool) option"
  contract_doc :: "string \<Rightarrow> jmap option"

datatype params_error = NoContract string | ViolatesContract string | UnknownKeys "string list" | MissingKeys "string list" | NoActuator

text \<open>The sliver of a schema \<open>checkKeys\<close> reads; \<open>None\<close> is a document it does not decode.\<close>

definition string_items :: "json option \<Rightarrow> string list option" where
  "string_items v = (case v of
       None \<Rightarrow> Some [] | Some JNull \<Rightarrow> Some []
     | Some (JArr xs) \<Rightarrow> those (map (\<lambda>x. case x of JStr s \<Rightarrow> Some s | JNull \<Rightarrow> Some [] | _ \<Rightarrow> None) xs)
     | _ \<Rightarrow> None)"

definition param_schema :: "jmap \<Rightarrow> (string list \<times> bool \<times> string list) option" where
  "param_schema doc =
     (case (case map_of doc ''properties'' of None \<Rightarrow> Some [] | Some JNull \<Rightarrow> Some [] | Some (JObj ps) \<Rightarrow> Some (keys ps) | _ \<Rightarrow> None) of
        None \<Rightarrow> None
      | Some props \<Rightarrow> map_option (\<lambda>req. (props, map_of doc ''additionalProperties'' = Some (JBool False), req))
          (string_items (map_of doc ''required'')))"

definition check_keys :: "jmap \<Rightarrow> jmap \<Rightarrow> params_error option" where
  "check_keys doc params =
     (case param_schema doc of None \<Rightarrow> None | Some (props, shut, req) \<Rightarrow>
        let unknown = filter (\<lambda>k. k \<notin> set props) (keys params); lacking = filter (\<lambda>r. r \<notin> set (keys params)) req
        in if shut \<and> props \<noteq> [] \<and> unknown \<noteq> [] then Some (UnknownKeys (sort unknown))
           else if lacking \<noteq> [] then Some (MissingKeys (sort lacking)) else None)"

definition validate_param_keys :: "'a contract_lib_scheme \<Rightarrow> string \<Rightarrow> jmap \<Rightarrow> params_error option" where
  "validate_param_keys C name params = (case contract_doc C name of None \<Rightarrow> None | Some doc \<Rightarrow> check_keys doc params)"

definition validate_named :: "'a contract_lib_scheme \<Rightarrow> string \<Rightarrow> jmap \<Rightarrow> params_error option" where
  "validate_named C name params =
     (case contract_of C name of None \<Rightarrow> Some (NoContract name)
      | Some ok \<Rightarrow> if ok (JObj params) then None else Some (ViolatesContract name))"

definition actuator_input :: "string \<Rightarrow> string" where
  "actuator_input a = ''actuators/'' @ a @ ''.input''"

definition action_contract :: "string \<Rightarrow> string" where
  "action_contract a = ''actions/'' @ a @ ''.input''"

definition capability_input :: "string \<Rightarrow> string" where
  "capability_input c = ''capabilities/'' @ c @ ''.input''"

text \<open>The Contract of an Actuator's own name, else that of the plugin it is a declaration of.\<close>

definition actuator_contract :: "'a contract_lib_scheme \<Rightarrow> string gomap \<Rightarrow> string \<Rightarrow> string" where
  "actuator_contract C ids actuator =
     (if contract_of C (actuator_input actuator) \<noteq> None then actuator_input actuator
      else case map_of ids actuator of
          Some i \<Rightarrow> if i \<noteq> [] \<and> i \<noteq> actuator then actuator_input i else actuator_input actuator
        | None \<Rightarrow> actuator_input actuator)"

definition validate_params_contract :: "'a contract_lib_scheme \<Rightarrow> string gomap \<Rightarrow> string \<Rightarrow> jmap \<Rightarrow> params_error option" where
  "validate_params_contract C ids actuator params =
     (if actuator = [] then Some NoActuator
      else if has (JObj params) then validate_param_keys C (actuator_contract C ids actuator) params
      else validate_named C (actuator_contract C ids actuator) params)"

definition validate_action_params :: "'a contract_lib_scheme \<Rightarrow> string \<Rightarrow> jmap \<Rightarrow> params_error option" where
  "validate_action_params C action params =
     (if has (JObj params) then validate_param_keys C (action_contract action) params else validate_named C (action_contract action) params)"

definition validate_capability_params :: "'a contract_lib_scheme \<Rightarrow> string \<Rightarrow> jmap \<Rightarrow> params_error option" where
  "validate_capability_params C class params =
     (if contract_of C (capability_input class) = None then Some (NoContract (capability_input class))
      else if has (JObj params) then None else validate_named C (capability_input class) params)"

section \<open>The Steps of a Workflow\<close>

record workflow_decl = workflow_doc +
  wd_steps :: "wstep list"

datatype step_error =
    NoShape | WorkflowAndCapability | CapabilityWithoutKind | KindWithoutCapability | NestedAndMore | InputsOnOther
  | ActionAndCapability | ManyShapes | ActionAndActuation | GateWithoutApprovers | NegativeTimeout | NegativeThreshold
  | PolicyWithoutControls | NegativeSlices

datatype workflow_error =
    NoStepsOrName | InputsError input_error | StepUnnamed | DuplicateStep string | BadWhen string | WhenWithoutNeeds string
  | StepError string step_error | ControlsError string verror | UndeclaredLaunchField string string
  | ParamsError string params_error | ForeignNamespace string string | UnknownNeed string string | NeedsItself string
  | StepCycle | PlanFromUnknown string string | PlanFromNotPlan string string | GateBindsUnneededPlan string string
  | ApplyUngated string string

definition has_gate :: "wstep \<Rightarrow> bool" where "has_gate s \<longleftrightarrow> ws_gate s \<noteq> None"

definition has_policy :: "wstep \<Rightarrow> bool" where "has_policy s \<longleftrightarrow> ws_policy s \<noteq> None"

definition names_action :: "wstep \<Rightarrow> bool" where "names_action s \<longleftrightarrow> ws_action s \<noteq> [] \<or> ws_action_capability s \<noteq> []"

definition names_actuation :: "wstep \<Rightarrow> bool" where
  "names_actuation s \<longleftrightarrow> ws_view_name s \<noteq> [] \<or> ws_actuator s \<noteq> [] \<or> ws_slices s \<noteq> 0"

definition names_nested :: "wstep \<Rightarrow> bool" where
  "names_nested s \<longleftrightarrow> ws_workflow s \<noteq> [] \<or> ws_workflow_capability s \<noteq> []"

lemmas shape_defs = has_gate_def has_policy_def names_action_def names_actuation_def names_nested_def

text \<open>The switch over the shapes, in its order.\<close>

definition step_shape_error :: "wstep \<Rightarrow> step_error option" where
  "step_shape_error s =
     (if \<not> has_gate s \<and> \<not> has_policy s \<and> \<not> names_action s \<and> \<not> names_actuation s \<and> \<not> names_nested s then Some NoShape
      else if ws_workflow s \<noteq> [] \<and> ws_workflow_capability s \<noteq> [] then Some WorkflowAndCapability
      else if ws_workflow_capability s \<noteq> [] \<and> ws_for_kind s = [] then Some CapabilityWithoutKind
      else if ws_for_kind s \<noteq> [] \<and> ws_workflow_capability s = [] then Some KindWithoutCapability
      else if names_nested s \<and> (has_gate s \<or> has_policy s \<or> names_action s \<or> names_actuation s) then Some NestedAndMore
      else if \<not> names_nested s \<and> ws_inputs s \<noteq> [] then Some InputsOnOther
      else if ws_action s \<noteq> [] \<and> ws_action_capability s \<noteq> [] then Some ActionAndCapability
      else if has_policy s \<and> (has_gate s \<or> names_action s \<or> names_actuation s) \<or> has_gate s \<and> (names_action s \<or> names_actuation s)
        then Some ManyShapes
      else if names_action s \<and> names_actuation s then Some ActionAndActuation
      else case ws_gate s of
          Some g \<Rightarrow> if ga_principals (gs_approvers g) = [] \<and> ga_teams (gs_approvers g) = [] then Some GateWithoutApprovers
                    else if gs_timeout_seconds g < 0 then Some NegativeTimeout
                    else if gs_threshold g < 0 then Some NegativeThreshold else None
        | None \<Rightarrow>
            if ws_policy s = Some [] then Some PolicyWithoutControls
            else if \<not> has_policy s \<and> \<not> names_nested s \<and> ws_slices s < 0 then Some NegativeSlices else None)"

definition when_error :: "wstep \<Rightarrow> workflow_error option" where
  "when_error s =
     (if ws_when s \<notin> {[], ''success'', ''failure'', ''always''} then Some (BadWhen (ws_name s))
      else if ws_when s \<noteq> [] \<and> ws_when s \<noteq> ''success'' \<and> ws_needs s = [] then Some (WhenWithoutNeeds (ws_name s)) else None)"

definition check_launch_field :: "string list \<Rightarrow> string \<Rightarrow> string \<Rightarrow> workflow_error option" where
  "check_launch_field declared what path =
     (case split_on (CHR ''.'') path of
        n # f # _ \<Rightarrow> if n = ''launch'' \<and> f \<notin> set declared then Some (UndeclaredLaunchField what f) else None
      | _ \<Rightarrow> None)"

definition check_launch_fields :: "string list \<Rightarrow> string \<Rightarrow> jmap \<Rightarrow> workflow_error option" where
  "check_launch_fields declared what params = first_err (check_launch_field declared what) (paths (JObj params))"

definition check_template_namespaces :: "string list \<Rightarrow> string \<Rightarrow> jmap \<Rightarrow> workflow_error option" where
  "check_template_namespaces allowed what params =
     first_err (\<lambda>ns. if ns \<in> set allowed then None else Some (ForeignNamespace what ns)) (references (JObj params))"

definition bindable :: "string list" where
  "bindable = [''event'', ''steps'', ''launch'']"

text \<open>The params of a Step against the Contract of what it runs, then against the namespaces a Step may bind.\<close>

definition step_params_error :: "'a contract_lib_scheme \<Rightarrow> string gomap \<Rightarrow> wstep \<Rightarrow> workflow_error option" where
  "step_params_error C ids s =
     (if names_action s then
        (case (if ws_action_capability s \<noteq> [] then validate_capability_params C (ws_action_capability s) (ws_params s)
               else validate_action_params C (ws_action s) (ws_params s)) of
           Some e \<Rightarrow> Some (ParamsError (ws_name s) e)
         | None \<Rightarrow> check_template_namespaces bindable (ws_name s) (ws_params s))
      else if names_nested s then None
      else if \<not> has_gate s \<and> \<not> has_policy s then
        (case validate_params_contract C ids (ws_actuator s) (ws_params s) of
           Some e \<Rightarrow> Some (ParamsError (ws_name s) e)
         | None \<Rightarrow> check_template_namespaces bindable (ws_name s) (ws_params s))
      else None)"

definition controls_error :: "pdp \<Rightarrow> wstep \<Rightarrow> workflow_error option" where
  "controls_error p s =
     (case ws_policy s of None \<Rightarrow> None | Some cs \<Rightarrow> map_option (ControlsError (ws_name s)) (validate_controls p cs))"

definition step_error_of ::
  "'a contract_lib_scheme \<Rightarrow> pdp \<Rightarrow> string gomap \<Rightarrow> string list \<Rightarrow> wstep \<Rightarrow> workflow_error option" where
  "step_error_of C p ids declared s = first_err id
     [when_error s, map_option (StepError (ws_name s)) (step_shape_error s), controls_error p s,
      check_launch_fields declared (ws_name s) (ws_params s), step_params_error C ids s]"

fun check_steps ::
  "'a contract_lib_scheme \<Rightarrow> pdp \<Rightarrow> string gomap \<Rightarrow> string list \<Rightarrow> wstep list \<Rightarrow> string list \<Rightarrow> workflow_error option" where
  "check_steps C p ids declared [] seen = None"
| "check_steps C p ids declared (s # ss) seen =
     (if ws_name s = [] then Some StepUnnamed
      else if ws_name s \<in> set seen then Some (DuplicateStep (ws_name s))
      else case step_error_of C p ids declared s of
          Some e \<Rightarrow> Some e
        | None \<Rightarrow> check_steps C p ids declared ss (ws_name s # seen))"

section \<open>The graph of the Steps\<close>

definition step_names :: "wstep list \<Rightarrow> string list" where
  "step_names steps = map ws_name steps"

definition needs_error :: "wstep list \<Rightarrow> workflow_error option" where
  "needs_error steps = first_err (\<lambda>s. first_err (\<lambda>n.
       if n \<notin> set (step_names steps) then Some (UnknownNeed (ws_name s) n)
       else if n = ws_name s then Some (NeedsItself (ws_name s)) else None) (ws_needs s)) steps"

text \<open>Kahn's algorithm as the code writes it: in-degrees in a map, a queue of names, a count of those taken from it.\<close>

definition degree :: "int gomap \<Rightarrow> string \<Rightarrow> int" where
  "degree m n = (case map_of m n of None \<Rightarrow> 0 | Some d \<Rightarrow> d)"

definition indegrees :: "wstep list \<Rightarrow> int gomap" where
  "indegrees steps = fold (\<lambda>s. fold (\<lambda>_ m. aput (ws_name s) (degree m (ws_name s) + 1) m) (ws_needs s)) steps []"

definition release_need :: "string \<Rightarrow> string \<Rightarrow> string \<Rightarrow> int gomap \<times> string list \<Rightarrow> int gomap \<times> string list" where
  "release_need cur name n st =
     (if n \<noteq> cur then st
      else case st of (m, queue) \<Rightarrow>
        let d = degree m name - 1 in (aput name d m, if d = 0 then queue @ [name] else queue))"

definition release :: "string \<Rightarrow> wstep list \<Rightarrow> int gomap \<times> string list \<Rightarrow> int gomap \<times> string list" where
  "release cur steps st = fold (\<lambda>s. fold (release_need cur (ws_name s)) (ws_needs s)) steps st"

definition waiting :: "int gomap \<Rightarrow> nat" where
  "waiting m = length (filter (\<lambda>(_, d). d > 0) m)"

lemma waiting_pos: "degree m n > 0 \<Longrightarrow> waiting m > 0"
proof -
  assume "degree m n > 0"
  then obtain e where e: "map_of m n = Some e" "e > 0" by (auto simp: degree_def split: option.splits)
  then have "(n, e) \<in> set m" by (simp add: map_of_SomeD)
  with e show "waiting m > 0" by (auto simp: waiting_def filter_empty_conv)
qed

lemma waiting_aput:
  "waiting (aput n d m) = (if d > 0 then waiting m + (if degree m n > 0 then 0 else 1)
     else waiting m - (if degree m n > 0 then 1 else 0))"
proof (induction m)
  case (Cons x m)
  obtain k e where x: "x = (k, e)" by fastforce
  with Cons waiting_pos [of m n] show ?case by (auto simp: x waiting_def degree_def)
qed (simp add: waiting_def degree_def)

lemma degree_aput [simp]: "degree (aput n d m) k = (if k = n then d else degree m k)"
  by (simp add: degree_def map_of_aput)

lemma release_need_measure: "release_need cur name n (m, q) = (m', q') \<Longrightarrow> waiting m' + length q' \<le> waiting m + length q"
  using waiting_pos [of m name] by (auto simp: release_need_def Let_def waiting_aput split: if_splits)

lemma release_step_measure:
  "fold (release_need cur name) ns (m, q) = (m', q') \<Longrightarrow> waiting m' + length q' \<le> waiting m + length q"
proof (induction ns arbitrary: m q)
  case (Cons n ns)
  obtain m1 q1 where r: "release_need cur name n (m, q) = (m1, q1)" by fastforce
  with Cons release_need_measure [OF r] show ?case by fastforce
qed simp

lemma release_measure: "release cur steps (m, q) = (m', q') \<Longrightarrow> waiting m' + length q' \<le> waiting m + length q"
  unfolding release_def
proof (induction steps arbitrary: m q)
  case (Cons s ss)
  obtain m1 q1 where r: "fold (release_need cur (ws_name s)) (ws_needs s) (m, q) = (m1, q1)" by fastforce
  with Cons release_step_measure [OF r] show ?case by fastforce
qed simp

function visits :: "wstep list \<Rightarrow> int gomap \<Rightarrow> string list \<Rightarrow> nat" where
  "visits steps m [] = 0"
| "visits steps m (cur # queue) = (case release cur steps (m, queue) of (m', queue') \<Rightarrow> Suc (visits steps m' queue'))"
  by pat_completeness auto
termination
proof (relation "measure (\<lambda>(steps, m, queue). waiting m + length queue)")
  show "((steps, x, y), steps, m, cur # queue) \<in> measure (\<lambda>(steps, m, queue). waiting m + length queue)"
    if "(x, y) = release cur steps (m, queue)" for steps m cur queue x y
    using release_measure [OF that [symmetric]] by simp
qed simp

declare visits.simps(2) [simp del]

definition cycle_error :: "wstep list \<Rightarrow> workflow_error option" where
  "cycle_error steps =
     (let m = indegrees steps
      in if visits steps m (filter (\<lambda>n. degree m n = 0) (step_names steps)) \<noteq> length steps then Some StepCycle else None)"

section \<open>Plan pinning\<close>

definition step_named :: "wstep list \<Rightarrow> string \<Rightarrow> wstep option" where
  "step_named steps n = find (\<lambda>s. ws_name s = n) steps"

definition needs_of :: "wstep list \<Rightarrow> string \<Rightarrow> string list" where
  "needs_of steps n = (case step_named steps n of None \<Rightarrow> [] | Some s \<Rightarrow> ws_needs s)"

definition gate_at :: "wstep list \<Rightarrow> string \<Rightarrow> string \<Rightarrow> bool" where
  "gate_at steps plan n \<longleftrightarrow> (case step_named steps n of None \<Rightarrow> False | Some s \<Rightarrow> has_gate s \<and> ws_plan_from s = plan)"

text \<open>
  \<open>guardedByGateForPlan\<close>; the set of names seen is shared by the whole search, as the map of the code is.  Every
  recursion sees one more name, so as much fuel as there are Steps is enough.
\<close>

fun guarded :: "wstep list \<Rightarrow> string \<Rightarrow> nat \<Rightarrow> string \<Rightarrow> string list \<Rightarrow> bool \<times> string list"
and guarded_by_any :: "wstep list \<Rightarrow> string \<Rightarrow> nat \<Rightarrow> string list \<Rightarrow> string list \<Rightarrow> bool \<times> string list" where
  "guarded steps plan fuel name seen =
     (if name \<in> set seen then (False, seen)
      else case fuel of 0 \<Rightarrow> (False, seen)
        | Suc f \<Rightarrow> guarded_by_any steps plan f (needs_of steps name) (name # seen))"
| "guarded_by_any steps plan fuel [] seen = (False, seen)"
| "guarded_by_any steps plan fuel (n # ns) seen =
     (if gate_at steps plan n then (True, seen)
      else case guarded steps plan fuel n seen of
          (True, seen') \<Rightarrow> (True, seen')
        | (False, seen') \<Rightarrow> guarded_by_any steps plan fuel ns seen')"

definition guarded_by_gate_for_plan :: "wstep list \<Rightarrow> string \<Rightarrow> string \<Rightarrow> bool" where
  "guarded_by_gate_for_plan steps name plan = fst (guarded steps plan (Suc (length steps)) name [])"

definition apply_pinned :: "wstep \<Rightarrow> bool" where
  "apply_pinned s \<longleftrightarrow> ws_plan_from s \<noteq> [] \<and> \<not> has_gate s \<and> \<not> ws_plan s"

definition plan_source_error :: "wstep list \<Rightarrow> wstep \<Rightarrow> workflow_error option" where
  "plan_source_error steps s =
     (if ws_plan_from s = [] then None
      else case step_named steps (ws_plan_from s) of
          None \<Rightarrow> Some (PlanFromUnknown (ws_name s) (ws_plan_from s))
        | Some ref \<Rightarrow>
            if \<not> ws_plan ref then Some (PlanFromNotPlan (ws_name s) (ws_plan_from s))
            else if has_gate s \<and> ws_plan_from s \<notin> set (ws_needs s) then Some (GateBindsUnneededPlan (ws_name s) (ws_plan_from s))
            else None)"

definition validate_plan_pinning :: "wstep list \<Rightarrow> workflow_error option" where
  "validate_plan_pinning steps =
     (case first_err (plan_source_error steps) steps of
        Some e \<Rightarrow> Some e
      | None \<Rightarrow> first_err (\<lambda>s. if apply_pinned s \<and> \<not> guarded_by_gate_for_plan steps (ws_name s) (ws_plan_from s)
                                 then Some (ApplyUngated (ws_name s) (ws_plan_from s)) else None) steps)"

text \<open>\<open>ValidateWorkflow\<close>.\<close>

definition validate_workflow :: "'a contract_lib_scheme \<Rightarrow> pdp \<Rightarrow> string gomap \<Rightarrow> workflow_decl \<Rightarrow> workflow_error option" where
  "validate_workflow C p ids w =
     (if wd_name w = [] \<or> wd_steps w = [] then Some NoStepsOrName
      else case compile_input_schema C (wd_name w) (wd_inputs w) of
          Inl e \<Rightarrow> Some (InputsError e)
        | Inr _ \<Rightarrow> (case input_names C (wd_inputs w) of
              Inl e \<Rightarrow> Some (InputsError e)
            | Inr declared \<Rightarrow> first_err id
                [check_steps C p ids declared (wd_steps w) [], needs_error (wd_steps w), cycle_error (wd_steps w),
                 validate_plan_pinning (wd_steps w)]))"

section \<open>Nested Workflows\<close>

text \<open>What a declared Actuator or Connector says of itself, as far as the checks of the estate read it.\<close>

record plugin_decl =
  pd_name :: string
  pd_provides :: "string list"
  pd_provisions :: "string gomap"
  pd_decommissions :: "string gomap"
  pd_remediates :: "string gomap"
  pd_environments :: "string list"
  pd_address :: string
  pd_facet_namespaces :: "string list"
  pd_substrate :: string
  pd_identity_schemes :: "string list"

record estate =
  es_workflows :: "workflow_decl list"
  es_actuators :: "plugin_decl list"
  es_connectors :: "plugin_decl list"

definition es_plugins :: "'a estate_scheme \<Rightarrow> plugin_decl list" where
  "es_plugins E = es_actuators E @ es_connectors E"

definition workflow_named :: "'a estate_scheme \<Rightarrow> string \<Rightarrow> workflow_decl option" where
  "workflow_named E n = find (\<lambda>w. wd_name w = n) (rev (es_workflows E))"

text \<open>Every Workflow a nested Step could run: the one it names, or one per provider of the class that builds the kind.\<close>

definition nested_target :: "wstep \<Rightarrow> plugin_decl \<Rightarrow> string option" where
  "nested_target s p =
     (if ws_workflow_capability s \<in> set (pd_provides p)
      then (case map_of (pd_provisions p) (ws_for_kind s) of Some w \<Rightarrow> if w \<noteq> [] then Some w else None | None \<Rightarrow> None)
      else None)"

definition nested_targets :: "'a estate_scheme \<Rightarrow> wstep \<Rightarrow> string list" where
  "nested_targets E s =
     (if ws_workflow s \<noteq> [] then [ws_workflow s]
      else if ws_workflow_capability s = [] \<or> ws_for_kind s = [] then []
      else sort (remdups (List.map_filter (nested_target s) (es_plugins E))))"

datatype nest_error =
    NestedUnknown string string | NestedInputs string input_error | NestedUndeclared string string | NestedLacks string string
  | NoBuilder string string | NestedRing "string list" | NestedTooDeep "string list"

definition required_names :: "'a codec_scheme \<Rightarrow> string \<Rightarrow> input_error + string list" where
  "required_names L doc =
     (if doc = [] then Inr []
      else case unmarshal L doc of
          Some (JObj shape) \<Rightarrow> (case string_items (map_of shape ''required'') of None \<Rightarrow> Inl BadProperties | Some r \<Rightarrow> Inr (sort r))
        | Some JNull \<Rightarrow> Inr []
        | _ \<Rightarrow> Inl NotASchemaObject)"

definition check_nested_inputs :: "'a schema_lib_scheme \<Rightarrow> string \<Rightarrow> workflow_decl \<Rightarrow> jmap \<Rightarrow> nest_error option" where
  "check_nested_inputs L what child inputs =
     (case input_names L (wd_inputs child) of
        Inl e \<Rightarrow> Some (NestedInputs what e)
      | Inr declared \<Rightarrow>
          (case filter (\<lambda>k. k \<notin> set declared) (keys inputs) of
             k # _ \<Rightarrow> Some (NestedUndeclared what k)
           | [] \<Rightarrow>
               (case required_names L (wd_inputs child) of
                  Inl e \<Rightarrow> Some (NestedInputs what e)
                | Inr req \<Rightarrow>
                    (case filter (\<lambda>r. r \<notin> set (keys inputs)) req of
                       r # _ \<Rightarrow> Some (NestedLacks what r)
                     | [] \<Rightarrow>
                         if has (JObj inputs) then None
                         else (case resolve_launch_inputs L (wd_name child) (wd_inputs child) inputs of
                                 Inl e \<Rightarrow> Some (NestedInputs what e) | Inr _ \<Rightarrow> None)))))"

definition check_nested_step :: "'a schema_lib_scheme \<Rightarrow> 'b estate_scheme \<Rightarrow> wstep \<Rightarrow> nest_error option" where
  "check_nested_step L E s =
     (case first_err (\<lambda>c. case workflow_named E c of
             None \<Rightarrow> Some (NestedUnknown (ws_name s) c)
           | Some child \<Rightarrow> check_nested_inputs L (ws_name s) child (ws_inputs s)) (nested_targets E s) of
        Some e \<Rightarrow> Some e
      | None \<Rightarrow> if ws_workflow_capability s \<noteq> [] \<and> nested_targets E s = []
                then Some (NoBuilder (ws_workflow_capability s) (ws_for_kind s)) else None)"

text \<open>
  The search of \<open>checkNestingGraph\<close>.  \<open>room\<close> is the depth that is left: the cap less the length of the path, so the entry
  of a Workflow without room is the path the code refuses as too long.
\<close>

datatype mark = OnStack | Finished

definition max_nesting_depth :: nat where
  "max_nesting_depth = 5"

definition children :: "'a estate_scheme \<Rightarrow> string \<Rightarrow> string list" where
  "children E n = (case workflow_named E n of None \<Rightarrow> [] | Some w \<Rightarrow> sort (concat (map (nested_targets E) (wd_steps w))))"

fun nest_walk :: "'a estate_scheme \<Rightarrow> nat \<Rightarrow> string list \<Rightarrow> string \<Rightarrow> mark gomap \<Rightarrow> nest_error + mark gomap"
and nest_walks :: "'a estate_scheme \<Rightarrow> nat \<Rightarrow> string list \<Rightarrow> string list \<Rightarrow> mark gomap \<Rightarrow> nest_error + mark gomap" where
  "nest_walk E room path n st =
     (case map_of st n of
        Some OnStack \<Rightarrow> Inl (NestedRing (dropWhile (\<lambda>x. x \<noteq> n) path @ [n]))
      | Some Finished \<Rightarrow> Inr st
      | None \<Rightarrow>
          (case room of
             0 \<Rightarrow> Inl (NestedTooDeep (path @ [n]))
           | Suc r \<Rightarrow>
               (case nest_walks E r (path @ [n]) (children E n) (aput n OnStack st) of
                  Inl e \<Rightarrow> Inl e
                | Inr st' \<Rightarrow> Inr (aput n Finished st'))))"
| "nest_walks E room path [] st = Inr st"
| "nest_walks E room path (c # cs) st =
     (if workflow_named E c = None then nest_walks E room path cs st
      else case nest_walk E room path c st of
          Inl e \<Rightarrow> Inl e
        | Inr st' \<Rightarrow> nest_walks E room path cs st')"

declare nest_walk.simps [simp del]

definition check_nesting_graph :: "'a estate_scheme \<Rightarrow> nest_error option" where
  "check_nesting_graph E =
     (case nest_walks E max_nesting_depth [] (sort (remdups (map wd_name (es_workflows E)))) [] of Inl e \<Rightarrow> Some e | Inr _ \<Rightarrow> None)"

definition check_nested_workflows :: "'a schema_lib_scheme \<Rightarrow> 'b estate_scheme \<Rightarrow> nest_error option" where
  "check_nested_workflows L E =
     (case first_err (\<lambda>w. first_err (check_nested_step L E) (wd_steps w)) (es_workflows E) of
        Some e \<Rightarrow> Some e
      | None \<Rightarrow> check_nesting_graph E)"

section \<open>The shapes\<close>

definition names_of_steps_ok :: "wstep list \<Rightarrow> bool" where
  "names_of_steps_ok steps \<longleftrightarrow> distinct (step_names steps) \<and> [] \<notin> set (step_names steps)"

lemma check_steps_names:
  "check_steps C p ids declared ss seen = None \<Longrightarrow>
    distinct (step_names ss) \<and> [] \<notin> set (step_names ss) \<and> set seen \<inter> set (step_names ss) = {} \<and>
    (\<forall>s \<in> set ss. step_error_of C p ids declared s = None)"
proof (induction ss arbitrary: seen)
  case (Cons s ss)
  then have "ws_name s \<noteq> []" "ws_name s \<notin> set seen" "step_error_of C p ids declared s = None"
    and rest: "check_steps C p ids declared ss (ws_name s # seen) = None"
    by (auto split: if_splits option.splits)
  with Cons.IH [OF rest] show ?case by (auto simp: step_names_def)
qed (simp add: step_names_def)

section \<open>Kahn's algorithm decides acyclicity\<close>

lemma degree_count_needs: "degree (fold (\<lambda>_ m. aput k (degree m k + 1) m) ns m) x = degree m x + (if x = k then int (length ns) else 0)"
  by (induction ns arbitrary: m) simp_all

lemma degree_fold_other:
  "x \<notin> set (step_names ss) \<Longrightarrow>
    degree (fold (\<lambda>s. fold (\<lambda>_ m. aput (ws_name s) (degree m (ws_name s) + 1) m) (ws_needs s)) ss m) x = degree m x"
  by (induction ss arbitrary: m) (auto simp: degree_count_needs step_names_def)

lemma degree_indegrees:
  assumes "distinct (step_names steps)" and "s \<in> set steps"
  shows "degree (indegrees steps) (ws_name s) = int (length (ws_needs s))"
proof -
  have "degree m (ws_name s) = 0 \<Longrightarrow> distinct (step_names ss) \<Longrightarrow> s \<in> set ss \<Longrightarrow>
      degree (fold (\<lambda>s. fold (\<lambda>_ m. aput (ws_name s) (degree m (ws_name s) + 1) m) (ws_needs s)) ss m) (ws_name s)
      = int (length (ws_needs s))" for m ss
  proof (induction ss arbitrary: m)
    case (Cons t ss)
    show ?case
    proof (cases "t = s")
      case True
      with Cons.prems show ?thesis by (simp add: degree_count_needs degree_fold_other step_names_def)
    next
      case False
      with Cons.prems have "ws_name t \<noteq> ws_name s" by (auto simp: step_names_def)
      with Cons False show ?thesis by (simp add: degree_count_needs step_names_def)
    qed
  qed simp
  from this [of "[]" steps] assms show ?thesis by (simp add: indegrees_def degree_def)
qed

text \<open>What the release of one name does to one Step, and to all.\<close>

lemma release_need_cases:
  "n \<noteq> cur \<Longrightarrow> release_need cur name n st = st"
  "release_need cur name cur (m, q) = (aput name (degree m name - 1) m, if degree m name = 1 then q @ [name] else q)"
  by (simp_all add: release_need_def Let_def)

lemma count_list_pos: "x \<in> set xs \<longleftrightarrow> count_list xs x > 0"
  by (simp add: count_list_0_iff flip: neq0_conv)

lemma release_one:
  assumes "fold (release_need cur name) ns (m, q) = (m', q')" and "int (count_list ns cur) \<le> degree m name"
  shows "degree m' x = degree m x - (if x = name then int (count_list ns cur) else 0)"
    and "q' = q @ (if cur \<in> set ns \<and> degree m name = int (count_list ns cur) then [name] else [])"
proof -
  have "(\<forall>x. degree m' x = degree m x - (if x = name then int (count_list ns cur) else 0)) \<and>
    q' = q @ (if cur \<in> set ns \<and> degree m name = int (count_list ns cur) then [name] else [])"
    using assms
  proof (induction ns arbitrary: m q)
    case (Cons n ns)
    show ?case
    proof (cases "n = cur")
      case False
      with Cons show ?thesis by (simp add: release_need_cases)
    next
      case True
      let ?d = "degree m name - 1"
      have f: "fold (release_need cur name) ns (aput name ?d m, if ?d = 0 then q @ [name] else q) = (m', q')"
        using Cons.prems(1) unfolding True fold_simps release_need_cases by simp
      have le: "int (count_list ns cur) \<le> degree (aput name ?d m) name" using Cons.prems(2) True by simp
      from Cons.IH [OF f le] have ih: "\<forall>x. degree m' x = degree (aput name ?d m) x - (if x = name then int (count_list ns cur) else 0)"
        "q' = (if ?d = 0 then q @ [name] else q) @
          (if cur \<in> set ns \<and> degree (aput name ?d m) name = int (count_list ns cur) then [name] else [])" by blast+
      have "cur \<in> set ns \<Longrightarrow> count_list ns cur \<noteq> 0" by (simp add: count_list_0_iff)
      moreover have "cur \<notin> set ns \<Longrightarrow> count_list ns cur = 0" by (simp add: count_list_0_iff)
      ultimately show ?thesis using ih True Cons.prems(2) by auto
    qed
  qed simp
  then show "degree m' x = degree m x - (if x = name then int (count_list ns cur) else 0)"
    and "q' = q @ (if cur \<in> set ns \<and> degree m name = int (count_list ns cur) then [name] else [])" by blast+
qed

lemma release_all:
  assumes "release cur ss (m, q) = (m', q')" and "distinct (step_names ss)"
    and "\<And>s. s \<in> set ss \<Longrightarrow> int (count_list (ws_needs s) cur) \<le> degree m (ws_name s)"
  shows "(\<forall>s \<in> set ss. degree m' (ws_name s) = degree m (ws_name s) - int (count_list (ws_needs s) cur)) \<and>
    (\<forall>x. x \<notin> set (step_names ss) \<longrightarrow> degree m' x = degree m x) \<and>
    q' = q @ step_names (filter (\<lambda>s. cur \<in> set (ws_needs s) \<and> degree m (ws_name s) = int (count_list (ws_needs s) cur)) ss)"
  using assms
proof (induction ss arbitrary: m q)
  case (Cons s ss)
  obtain m1 q1 where one: "fold (release_need cur (ws_name s)) (ws_needs s) (m, q) = (m1, q1)" by fastforce
  with Cons.prems(1) have rest: "release cur ss (m1, q1) = (m', q')" by (simp add: release_def)
  note eff = release_one [OF one Cons.prems(3) [of s, simplified]]
  have fresh: "ws_name s \<notin> set (step_names ss)" and d: "distinct (step_names ss)" using Cons.prems(2) by (auto simp: step_names_def)
  have same: "degree m1 (ws_name t) = degree m (ws_name t)" if "t \<in> set ss" for t
  proof -
    have "ws_name t \<noteq> ws_name s" using that fresh by (metis imageI list.set_map step_names_def)
    then show ?thesis using eff(1) [of "ws_name t"] by simp
  qed
  have "int (count_list (ws_needs t) cur) \<le> degree m1 (ws_name t)" if "t \<in> set ss" for t
    using that Cons.prems(3) [of t] same by simp
  from Cons.IH [OF rest d this] have ih: "\<forall>t \<in> set ss. degree m' (ws_name t) = degree m1 (ws_name t) - int (count_list (ws_needs t) cur)"
    "\<forall>x. x \<notin> set (step_names ss) \<longrightarrow> degree m' x = degree m1 x"
    "q' = q1 @ step_names (filter (\<lambda>t. cur \<in> set (ws_needs t) \<and> degree m1 (ws_name t) = int (count_list (ws_needs t) cur)) ss)"
    by blast+
  have "filter (\<lambda>t. cur \<in> set (ws_needs t) \<and> degree m1 (ws_name t) = int (count_list (ws_needs t) cur)) ss
    = filter (\<lambda>t. cur \<in> set (ws_needs t) \<and> degree m (ws_name t) = int (count_list (ws_needs t) cur)) ss"
    by (rule filter_cong) (simp_all add: same)
  with ih(3) eff(2) have "q' = q @ step_names (filter (\<lambda>s. cur \<in> set (ws_needs s) \<and> degree m (ws_name s) = int (count_list (ws_needs s) cur)) (s # ss))"
    by (simp add: step_names_def)
  moreover have "\<forall>t \<in> set (s # ss). degree m' (ws_name t) = degree m (ws_name t) - int (count_list (ws_needs t) cur)"
    using ih(1,2) eff(1) fresh same by simp
  moreover have "\<forall>x. x \<notin> set (step_names (s # ss)) \<longrightarrow> degree m' x = degree m x"
    using ih(2) eff(1) by (simp add: step_names_def)
  ultimately show ?case by blast
qed (simp add: release_def step_names_def)

text \<open>A list of names in which the needs of a Step come before it.\<close>

definition needs_before :: "wstep list \<Rightarrow> string list \<Rightarrow> bool" where
  "needs_before steps os \<longleftrightarrow> (\<forall>s \<in> set steps. \<forall>xs ys. os = xs @ ws_name s # ys \<longrightarrow> set (ws_needs s) \<subseteq> set xs)"

lemma needs_before_append:
  assumes "needs_before steps os" and "\<And>s. s \<in> set steps \<Longrightarrow> ws_name s \<in> set ns \<Longrightarrow> set (ws_needs s) \<subseteq> set os"
  shows "needs_before steps (os @ ns)"
  unfolding needs_before_def
proof (intro ballI allI impI)
  fix s xs ys assume s: "s \<in> set steps" and split: "os @ ns = xs @ ws_name s # ys"
  then consider (old) us where "os = xs @ us" "us @ ns = ws_name s # ys" | (late) us where "os @ us = xs" "ns = us @ ws_name s # ys"
    by (auto simp: append_eq_append_conv2)
  then show "set (ws_needs s) \<subseteq> set xs"
  proof cases
    case old
    show ?thesis
    proof (cases us)
      case Nil
      with old have "ws_name s \<in> set ns" "os = xs" by auto
      with assms(2) [OF s] show ?thesis by simp
    next
      case (Cons u us')
      with old have "os = xs @ ws_name s # us'" by simp
      with assms(1) s show ?thesis by (auto simp: needs_before_def)
    qed
  next
    case late
    then have "ws_name s \<in> set ns" by simp
    with assms(2) [OF s] late(1) show ?thesis by auto
  qed
qed

definition open_needs :: "string set \<Rightarrow> wstep \<Rightarrow> nat" where
  "open_needs V s = length (filter (\<lambda>n. n \<notin> V) (ws_needs s))"

lemma open_needs_step: "c \<notin> V \<Longrightarrow> int (open_needs (insert c V) s) = int (open_needs V s) - int (count_list (ws_needs s) c)"
proof -
  assume c: "c \<notin> V"
  have "length (filter (\<lambda>n. n \<notin> V) ns) = length (filter (\<lambda>n. n \<notin> insert c V) ns) + count_list ns c" for ns
    using c by (induction ns) auto
  then show ?thesis by (simp add: open_needs_def)
qed

lemma open_needs_0: "open_needs V s = 0 \<longleftrightarrow> set (ws_needs s) \<subseteq> V"
  by (auto simp: open_needs_def filter_empty_conv)

definition kahn_inv :: "wstep list \<Rightarrow> string list \<Rightarrow> int gomap \<Rightarrow> string list \<Rightarrow> bool" where
  "kahn_inv steps V m Q \<longleftrightarrow> distinct (V @ Q) \<and> set (V @ Q) \<subseteq> set (step_names steps) \<and> needs_before steps (V @ Q) \<and>
     (\<forall>s \<in> set steps. degree m (ws_name s) = int (open_needs (set V) s) \<and> (ws_name s \<in> set (V @ Q) \<longleftrightarrow> open_needs (set V) s = 0))"

lemma step_of_name: "distinct (step_names steps) \<Longrightarrow> s \<in> set steps \<Longrightarrow> t \<in> set steps \<Longrightarrow> ws_name s = ws_name t \<Longrightarrow> s = t"
  by (auto simp: step_names_def distinct_map dest: inj_onD)

lemma name_in_filter:
  assumes "distinct (step_names steps)" and "s \<in> set steps"
  shows "ws_name s \<in> set (step_names (filter P steps)) \<longleftrightarrow> s \<in> set (filter P steps)"
proof
  assume "ws_name s \<in> set (step_names (filter P steps))"
  then obtain t where "t \<in> set steps" "P t" "ws_name s = ws_name t" by (auto simp: step_names_def)
  with step_of_name [OF assms] show "s \<in> set (filter P steps)" by auto
qed (auto simp: step_names_def)

lemma kahn_step:
  assumes names: "distinct (step_names steps)" and inv: "kahn_inv steps V m (cur # Q)" and rel: "release cur steps (m, Q) = (m', Q')"
  shows "kahn_inv steps (V @ [cur]) m' Q'"
proof -
  have d: "distinct (V @ cur # Q)" and sub: "set (V @ cur # Q) \<subseteq> set (step_names steps)" and before: "needs_before steps (V @ cur # Q)"
    and deg: "\<And>s. s \<in> set steps \<Longrightarrow> degree m (ws_name s) = int (open_needs (set V) s)"
    and mem: "\<And>s. s \<in> set steps \<Longrightarrow> ws_name s \<in> set (V @ cur # Q) \<longleftrightarrow> open_needs (set V) s = 0"
    using inv by (simp_all add: kahn_inv_def)
  from d have cur: "cur \<notin> set V" by simp
  note step = open_needs_step [OF cur]
  have le: "int (count_list (ws_needs s) cur) \<le> degree m (ws_name s)" if "s \<in> set steps" for s
    using step [of s] deg [OF that] by simp
  note rel' = release_all [OF rel names le]
  let ?new = "filter (\<lambda>s. cur \<in> set (ws_needs s) \<and> degree m (ws_name s) = int (count_list (ws_needs s) cur)) steps"
  have deg': "degree m' (ws_name s) = int (open_needs (set (V @ [cur])) s)" if "s \<in> set steps" for s
    using rel' deg [OF that] step [of s] that by simp
  have Q': "Q' = Q @ step_names ?new" using rel' by blast
  have new: "s \<in> set ?new \<longleftrightarrow> open_needs (set V) s \<noteq> 0 \<and> open_needs (set (V @ [cur])) s = 0" if "s \<in> set steps" for s
    using that deg [OF that] step [of s] by (auto simp: count_list_pos)
  have fresh: "set (step_names ?new) \<inter> set (V @ cur # Q) = {}"
  proof -
    have "ws_name s \<notin> set (V @ cur # Q)" if "s \<in> set ?new" for s
      using that new [of s] mem [of s] by auto
    then show ?thesis by (auto simp: step_names_def)
  qed
  have "distinct (step_names ?new)" using names by (simp add: step_names_def distinct_map_filter)
  with d fresh have "distinct ((V @ [cur]) @ Q')" by (auto simp: Q')
  moreover have "set ((V @ [cur]) @ Q') \<subseteq> set (step_names steps)" using sub by (auto simp: Q' step_names_def)
  moreover have "needs_before steps ((V @ [cur]) @ Q')"
  proof -
    have "needs_before steps ((V @ cur # Q) @ step_names ?new)"
    proof (rule needs_before_append [OF before])
      fix s assume s: "s \<in> set steps" "ws_name s \<in> set (step_names ?new)"
      then have "s \<in> set ?new" by (simp only: name_in_filter [OF names])
      with new [OF s(1)] have "open_needs (set (V @ [cur])) s = 0" by blast
      then show "set (ws_needs s) \<subseteq> set (V @ cur # Q)" by (auto simp: open_needs_0)
    qed
    then show ?thesis by (simp add: Q')
  qed
  moreover have "ws_name s \<in> set ((V @ [cur]) @ Q') \<longleftrightarrow> open_needs (set (V @ [cur])) s = 0" if s: "s \<in> set steps" for s
  proof -
    have "ws_name s \<in> set (step_names ?new) \<longleftrightarrow> s \<in> set ?new"
      by (rule name_in_filter [OF names s])
    moreover have "open_needs (set V) s = 0 \<Longrightarrow> open_needs (set (V @ [cur])) s = 0" by (auto simp: open_needs_0)
    ultimately show ?thesis using new [OF s] mem [OF s] by (auto simp: Q')
  qed
  ultimately show ?thesis using deg' by (simp add: kahn_inv_def)
qed

lemma kahn_result:
  "distinct (step_names steps) \<Longrightarrow> kahn_inv steps V m Q \<Longrightarrow> \<exists>os m'. length V + visits steps m Q = length os \<and> kahn_inv steps os m' []"
proof (induction steps m Q arbitrary: V rule: visits.induct)
  case (1 steps m)
  then show ?case by auto
next
  case (2 steps m cur queue)
  obtain m' q' where rel: "release cur steps (m, queue) = (m', q')" by fastforce
  from 2(1) [OF rel [symmetric] 2(2) kahn_step [OF 2(2,3) rel]] show ?case
    by (simp add: visits.simps(2) rel)
qed

lemma kahn_start:
  assumes "distinct (step_names steps)"
  shows "kahn_inv steps [] (indegrees steps) (filter (\<lambda>n. degree (indegrees steps) n = 0) (step_names steps))"
proof -
  note deg = degree_indegrees [OF assms]
  have "needs_before steps ([] @ filter (\<lambda>n. degree (indegrees steps) n = 0) (step_names steps))"
    by (rule needs_before_append) (auto simp: needs_before_def deg)
  then show ?thesis using assms deg by (auto simp: kahn_inv_def open_needs_def step_names_def)
qed

definition place_in :: "string list \<Rightarrow> string \<Rightarrow> nat" where
  "place_in os n = length (takeWhile (\<lambda>x. x \<noteq> n) os)"

lemma place_before: "n \<in> set xs \<Longrightarrow> place_in (xs @ ys) n < length xs"
  by (induction xs) (auto simp: place_in_def)

lemma place_at: "x \<notin> set xs \<Longrightarrow> place_in (xs @ x # ys) x = length xs"
  by (induction xs) (auto simp: place_in_def)

lemma needs_before_acyclic:
  assumes "needs_before steps os" and "distinct os" and "set os = set (step_names steps)"
  shows "acyclic_needs steps (place_in os)"
  unfolding acyclic_needs_def
proof (intro ballI conjI)
  fix s n assume s: "s \<in> set steps" "n \<in> set (ws_needs s)"
  then have "ws_name s \<in> set os" using assms(3) by (auto simp: step_names_def)
  then obtain xs ys where os: "os = xs @ ws_name s # ys" by (meson split_list)
  with assms(1) s have n: "n \<in> set xs" by (auto simp: needs_before_def)
  with os assms(3) show "n \<in> set (map ws_name steps)" by (auto simp: step_names_def)
  have "ws_name s \<notin> set xs" using assms(2) os by auto
  with n show "place_in os n < place_in os (ws_name s)" unfolding os by (simp add: place_before place_at)
qed

lemma cycle_error_sound:
  assumes "distinct (step_names steps)" and "cycle_error steps = None"
  shows "\<exists>rank. acyclic_needs steps rank"
proof -
  from kahn_result [OF assms(1) kahn_start [OF assms(1)]] assms(2)
  obtain os m' where os: "length os = length steps" "kahn_inv steps os m' []"
    by (auto simp: cycle_error_def Let_def split: if_splits)
  then have d: "distinct os" and sub: "set os \<subseteq> set (step_names steps)" and before: "needs_before steps os" by (simp_all add: kahn_inv_def)
  have "card (set os) = card (set (step_names steps))"
    using os(1) distinct_card [OF d] distinct_card [OF assms(1)] by (simp add: step_names_def)
  with sub have "set os = set (step_names steps)" by (intro card_subset_eq) simp_all
  with needs_before_acyclic [OF before d] show ?thesis by blast
qed

lemma cycle_error_complete:
  assumes names: "distinct (step_names steps)" and acyclic: "acyclic_needs steps rank"
  shows "cycle_error steps = None"
proof -
  from kahn_result [OF names kahn_start [OF names]]
  obtain os m' where len: "visits steps (indegrees steps) (filter (\<lambda>n. degree (indegrees steps) n = 0) (step_names steps)) = length os"
    and inv: "kahn_inv steps os m' []" by auto
  have d: "distinct os" and sub: "set os \<subseteq> set (step_names steps)"
    and mem: "\<And>s. s \<in> set steps \<Longrightarrow> ws_name s \<in> set os \<longleftrightarrow> set (ws_needs s) \<subseteq> set os"
    using inv by (simp_all add: kahn_inv_def open_needs_0)
  have "s \<in> set steps \<Longrightarrow> ws_name s \<in> set os" for s
  proof (induction "rank (ws_name s)" arbitrary: s rule: less_induct)
    case less
    have "n \<in> set os" if "n \<in> set (ws_needs s)" for n
    proof -
      from acyclic less(2) that have "n \<in> set (map ws_name steps)" "rank n < rank (ws_name s)" by (auto simp: acyclic_needs_def)
      then obtain u where "u \<in> set steps" "ws_name u = n" by auto
      with less(1) \<open>rank n < rank (ws_name s)\<close> show ?thesis by blast
    qed
    with mem [OF less(2)] show ?case by blast
  qed
  with sub have "set os = set (step_names steps)" by (auto simp: step_names_def)
  with distinct_card [OF d] distinct_card [OF names] have "length os = length steps" by (simp add: step_names_def)
  with len show ?thesis by (simp add: cycle_error_def Let_def)
qed

text \<open>C38. C1.
  The cycle check of the loader decides acyclicity: with distinct names, it passes exactly the Steps that can be ranked so
  that every need is a declared Step of lower rank, given that the needs are declared.
\<close>

theorem kahn_decides:
  assumes "distinct (step_names steps)"
  shows "needs_error steps = None \<and> cycle_error steps = None \<longleftrightarrow> (\<exists>rank. acyclic_needs steps rank)"
proof
  assume "needs_error steps = None \<and> cycle_error steps = None"
  with cycle_error_sound [OF assms] show "\<exists>rank. acyclic_needs steps rank" by simp
next
  assume "\<exists>rank. acyclic_needs steps rank"
  then obtain rank where rank: "acyclic_needs steps rank" ..
  then have "needs_error steps = None" by (force simp: needs_error_def acyclic_needs_def step_names_def)
  with cycle_error_complete [OF assms rank] show "needs_error steps = None \<and> cycle_error steps = None" by simp
qed

lemma kahn_decides_witness:
  "needs_error converge_cleanup = None \<and> cycle_error converge_cleanup = None \<longleftrightarrow> (\<exists>rank. acyclic_needs converge_cleanup rank)"
  by (rule kahn_decides) (simp add: step_names_def converge_cleanup_names)

section \<open>The search for a guarding Gate\<close>



declare guarded.simps [simp del] guarded_by_any.simps(2) [simp del]






section \<open>What an accepted Workflow does\<close>

lemma accepted_facts:
  assumes "validate_workflow C p ids w = None"
  shows "distinct (step_names (wd_steps w))" and "needs_error (wd_steps w) = None"
    and "\<exists>rank. acyclic_needs (wd_steps w) rank" and "validate_plan_pinning (wd_steps w) = None"
    and "s \<in> set (wd_steps w) \<Longrightarrow> step_shape_error s = None"
proof -
  from assms obtain declared where steps: "check_steps C p ids declared (wd_steps w) [] = None"
    and rest: "needs_error (wd_steps w) = None" "cycle_error (wd_steps w) = None" "validate_plan_pinning (wd_steps w) = None"
    by (auto simp: validate_workflow_def simp del: first_err.simps split: if_splits sum.splits)
  from check_steps_names [OF steps] show names: "distinct (step_names (wd_steps w))"
    and "s \<in> set (wd_steps w) \<Longrightarrow> step_shape_error s = None" by (auto simp: step_error_of_def simp del: first_err.simps)
  from rest show "needs_error (wd_steps w) = None" and "validate_plan_pinning (wd_steps w) = None" by simp_all
  show "\<exists>rank. acyclic_needs (wd_steps w) rank" by (rule cycle_error_sound [OF names rest(2)])
qed


lemma step_named_at: "distinct (step_names steps) \<Longrightarrow> s \<in> set steps \<Longrightarrow> step_named steps (ws_name s) = Some s"
  unfolding step_named_def step_names_def by (induction steps) (auto simp: image_iff)




text \<open>C4. C1.
  A Workflow the loader accepts runs to completion: once nothing is in flight in an execution that was not cancelled, every
  Step has ended, and the terminal status is taken over all of them.
\<close>

theorem accepted_workflow_completes:
  assumes "validate_workflow C p ids w = None" and "dag.reach (wd_steps w) res d" and "\<not> dg_cancelled d" and "finished (wd_steps w) d"
  shows "(\<forall>s \<in> set (wd_steps w). terminal (state_of (dg_state d) (ws_name s))) \<and>
    finish_status (wd_steps w) d = (if \<exists>s \<in> set (wd_steps w). state_of (dg_state d) (ws_name s) = Failed then RunFailed else RunSucceeded)"
proof -
  note facts = accepted_facts [OF assms(1)]
  from facts(3) obtain rank where "acyclic_needs (wd_steps w) rank" ..
  with dag_end [OF _ this assms(2-4)] facts(1) assms(3) show ?thesis by (simp add: finish_status_def list_ex_iff step_names_def)
qed

text \<open>C30. C1.
  Every Step of an accepted Workflow has exactly one of the five shapes.
\<close>

theorem accepted_step_has_one_shape:
  assumes "validate_workflow C p ids w = None" and "s \<in> set (wd_steps w)"
  shows "length (filter id [has_gate s, has_policy s, names_action s, names_actuation s, names_nested s]) = 1"
  using accepted_facts(5) [OF assms]
  by (auto simp: step_shape_error_def split: if_splits)

section \<open>Nested Workflows do not run in circles\<close>

definition nests :: "'a estate_scheme \<Rightarrow> string \<Rightarrow> string \<Rightarrow> bool" where
  "nests E a b \<longleftrightarrow> b \<in> set (children E a) \<and> workflow_named E b \<noteq> None"

text \<open>What is finished nests only what was finished before.\<close>

definition ranked_by :: "'a estate_scheme \<Rightarrow> mark gomap \<Rightarrow> (string \<Rightarrow> nat) \<Rightarrow> bool" where
  "ranked_by E st rank \<longleftrightarrow> (\<forall>a b. map_of st a = Some Finished \<longrightarrow> nests E a b \<longrightarrow> map_of st b = Some Finished \<and> rank b < rank a)"

definition walked :: "'a estate_scheme \<Rightarrow> mark gomap \<Rightarrow> mark gomap \<Rightarrow> bool" where
  "walked E st st' \<longleftrightarrow> (\<forall>n. map_of st n = Some Finished \<longrightarrow> map_of st' n = Some Finished) \<and>
     (\<forall>n. map_of st' n = Some OnStack \<longleftrightarrow> map_of st n = Some OnStack) \<and>
     ((\<exists>rank. ranked_by E st rank) \<longrightarrow> (\<exists>rank. ranked_by E st' rank))"

lemma walked_refl: "walked E st st"
  by (simp add: walked_def)

lemma walked_trans: "walked E a b \<Longrightarrow> walked E b c \<Longrightarrow> walked E a c"
  by (simp add: walked_def)

lemma ranked_finish:
  assumes "ranked_by E st rank" and "map_of st n \<noteq> Some Finished"
    and kids: "\<And>b. nests E n b \<Longrightarrow> map_of st b = Some Finished"
  shows "\<exists>rank'. ranked_by E (aput n Finished st) rank'"
proof -
  define top where "top = Suc (sum_list (map rank (children E n)))"
  have below: "rank b < top" if "nests E n b" for b
  proof -
    from that have "rank b \<in> set (map rank (children E n))" by (simp add: nests_def)
    then have "rank b \<le> sum_list (map rank (children E n))" by (rule member_le_sum_list) simp
    then show ?thesis by (simp add: top_def)
  qed
  have "ranked_by E (aput n Finished st) (rank(n := top))"
    unfolding ranked_by_def
  proof (intro allI impI)
    fix a b assume a: "map_of (aput n Finished st) a = Some Finished" and ab: "nests E a b"
    show "map_of (aput n Finished st) b = Some Finished \<and> (rank(n := top)) b < (rank(n := top)) a"
    proof (cases "a = n")
      case True
      with kids [of b] ab have "map_of st b = Some Finished" by simp
      with assms(2) have "b \<noteq> n" by auto
      with True \<open>map_of st b = Some Finished\<close> below ab show ?thesis by (simp add: map_of_aput)
    next
      case False
      with a have "map_of st a = Some Finished" by (simp add: map_of_aput)
      with assms(1) ab have "map_of st b = Some Finished" "rank b < rank a" by (auto simp: ranked_by_def)
      moreover from this assms(2) have "b \<noteq> n" by auto
      ultimately show ?thesis using False by (simp add: map_of_aput)
    qed
  qed
  then show ?thesis by (intro exI [of _ "rank(n := top)"])
qed

lemma ranked_stack: "ranked_by E st rank \<Longrightarrow> map_of st n = None \<Longrightarrow> ranked_by E (aput n OnStack st) rank"
  by (auto simp: ranked_by_def map_of_aput split: if_splits)

lemma nest_walk_facts:
  "nest_walk E room path n st = Inr st' \<Longrightarrow> walked E st st' \<and> map_of st' n = Some Finished"
  "nest_walks E room path cs st = Inr st' \<Longrightarrow> walked E st st' \<and> (\<forall>c \<in> set cs. workflow_named E c \<noteq> None \<longrightarrow> map_of st' c = Some Finished)"
proof (induction E room path n st and E room path cs st arbitrary: st' and st' rule: nest_walk_nest_walks.induct)
  case (1 E room path n st)
  show ?case
  proof (cases "map_of st n")
    case (Some v)
    with 1(2) show ?thesis by (cases v) (simp_all add: nest_walk.simps walked_refl)
  next
    case None
    then obtain r st1 where room: "room = Suc r" and rec: "nest_walks E r (path @ [n]) (children E n) (aput n OnStack st) = Inr st1"
      and st': "st' = aput n Finished st1"
      using 1(2) by (auto simp: nest_walk.simps split: nat.splits sum.splits)
    from 1(1) [OF None room rec] have w: "walked E (aput n OnStack st) st1"
      and kids: "\<forall>c \<in> set (children E n). workflow_named E c \<noteq> None \<longrightarrow> map_of st1 c = Some Finished" by blast+
    from w have on: "map_of st1 m = Some OnStack \<longleftrightarrow> m = n \<or> map_of st m = Some OnStack" for m
      by (auto simp: walked_def map_of_aput)
    have "\<exists>rank. ranked_by E st' rank" if "ranked_by E st rank" for rank
    proof -
      from w ranked_stack [OF that None] obtain rank1 where "ranked_by E st1 rank1" unfolding walked_def by blast
      then show ?thesis unfolding st' by (rule ranked_finish) (use on [of n] kids in \<open>auto simp: nests_def\<close>)
    qed
    moreover have "map_of st' m = Some Finished" if "map_of st m = Some Finished" for m
      using w that None by (auto simp: walked_def st' map_of_aput split: if_splits)
    moreover have "map_of st' m = Some OnStack \<longleftrightarrow> map_of st m = Some OnStack" for m
      using on [of m] None by (auto simp: st' map_of_aput)
    ultimately show ?thesis by (auto simp: walked_def st' map_of_aput)
  qed
next
  case (2 E room path st)
  then show ?case by (simp add: walked_refl)
next
  case (3 E room path c cs st)
  show ?case
  proof (cases "workflow_named E c = None")
    case True
    with 3(1) [OF True, of st'] 3(4) show ?thesis by auto
  next
    case False
    with 3(4) obtain st1 where one: "nest_walk E room path c st = Inr st1" and rest: "nest_walks E room path cs st1 = Inr st'"
      by (auto split: sum.splits)
    from 3(2) [OF False one] 3(3) [OF False one rest] walked_trans [of E st st1 st'] show ?thesis by (auto simp: walked_def)
  qed
qed

lemma nesting_ranked:
  assumes "check_nesting_graph E = None"
  shows "\<exists>rank. \<forall>a b. workflow_named E a \<noteq> None \<longrightarrow> nests E a b \<longrightarrow> rank b < (rank a :: nat)"
proof -
  from assms obtain st where run: "nest_walks E max_nesting_depth [] (sort (remdups (map wd_name (es_workflows E)))) [] = Inr st"
    by (auto simp: check_nesting_graph_def split: sum.splits)
  note facts = nest_walk_facts(2) [OF run]
  have "ranked_by E [] (\<lambda>_. 0)" by (simp add: ranked_by_def)
  with facts obtain rank where rank: "ranked_by E st rank" unfolding walked_def by blast
  have "map_of st a = Some Finished" if "workflow_named E a \<noteq> None" for a
  proof -
    from that have "a \<in> set (map wd_name (es_workflows E))" by (auto simp: workflow_named_def find_None_iff)
    with facts that show ?thesis by (metis set_remdups set_sort)
  qed
  with rank show ?thesis unfolding ranked_by_def by blast
qed

fun chain_of :: "'a estate_scheme \<Rightarrow> string list \<Rightarrow> bool" where
  "chain_of E (a # b # ns) \<longleftrightarrow> nests E a b \<and> chain_of E (b # ns)"
| "chain_of E [a] \<longleftrightarrow> workflow_named E a \<noteq> None"
| "chain_of E [] \<longleftrightarrow> True"

lemma chain_distinct:
  assumes "\<And>a b. nests E a b \<Longrightarrow> rank b < (rank a :: nat)"
  shows "chain_of E (a # ns) \<Longrightarrow> distinct (a # ns) \<and> (\<forall>b \<in> set ns. rank b < rank a)"
proof (induction ns arbitrary: a)
  case (Cons b ns)
  then have "nests E a b" "chain_of E (b # ns)" by simp_all
  with Cons.IH [of b] assms [of a b] show ?case by (fastforce dest: order_less_trans)
qed simp

text \<open>C37. C1.
  In an estate the loader accepts, no chain of Workflows that nest one another repeats one: it is no longer than there are
  Workflows, so a nested launch ends.
\<close>

theorem nested_chains_are_finite:
  assumes "check_nested_workflows L E = None" and "chain_of E ns"
  shows "distinct ns \<and> length ns \<le> length (es_workflows E)"
proof -
  from assms(1) have "check_nesting_graph E = None" by (auto simp: check_nested_workflows_def split: option.splits)
  from nesting_ranked [OF this] obtain rank where rank: "\<And>a b. workflow_named E a \<noteq> None \<Longrightarrow> nests E a b \<Longrightarrow> rank b < (rank a :: nat)"
    by blast
  have declared: "workflow_named E a \<noteq> None" if "nests E a b" for a b
    using that by (cases "workflow_named E a") (simp_all add: nests_def children_def)
  have "distinct ns"
  proof (cases ns)
    case (Cons a ms)
    with chain_distinct [of E rank a ms] rank declared assms(2) show ?thesis by blast
  qed simp
  moreover have "set ns \<subseteq> set (map wd_name (es_workflows E))"
  proof -
    have "chain_of E ms \<Longrightarrow> set ms \<subseteq> {a. workflow_named E a \<noteq> None}" for ms
      by (induction ms rule: induct_list012) (auto dest: declared)
    with assms(2) show ?thesis by (fastforce simp: workflow_named_def find_None_iff)
  qed
  ultimately have "length ns \<le> length (map wd_name (es_workflows E))"
    by (metis card_length card_mono distinct_card finite_set order_trans)
  with \<open>distinct ns\<close> show ?thesis by simp
qed

section \<open>Examples\<close>

definition any_contract :: contract_lib where
  "any_contract = \<lparr>unmarshal = (\<lambda>d. Some (JObj port_shape)), marshal = (\<lambda>v. Inr ''p''), fmt_float = (\<lambda>_. []),
     compile_ad_hoc = (\<lambda>_ _. Some (\<lambda>_. True)), reparse = (\<lambda>raw. Some (JObj [(''port'', JInt 443)])),
     contract_of = (\<lambda>_. Some (\<lambda>_. True)), contract_doc = (\<lambda>_. None)\<rparr>"

text \<open>A plan, a Gate that binds it and the Apply; \<open>always\<close> has the Apply run whatever the Gate says.\<close>

definition plan_step :: wstep where
  "plan_step = (blank_step ''plan'' [] [])\<lparr>ws_plan := True\<rparr>"

definition gate_step :: wstep where
  "gate_step = (blank_step ''gate'' [''plan''] [])\<lparr>ws_view_name := [], ws_actuator := [], ws_plan_from := ''plan'',
     ws_gate := Some \<lparr>gs_approvers = \<lparr>ga_principals = [''alice''], ga_teams = []\<rparr>, gs_timeout_seconds = 0, gs_threshold = 1\<rparr>\<rparr>"

definition apply_step :: "string \<Rightarrow> wstep" where
  "apply_step w = (blank_step ''apply'' [''gate''] w)\<lparr>ws_plan_from := ''plan''\<rparr>"

definition pinned_flow :: "string \<Rightarrow> workflow_decl" where
  "pinned_flow w = \<lparr>wd_name = ''build'', wd_inputs = [], wd_steps = [apply_step w, gate_step, plan_step]\<rparr>"


lemma pinned_flow_accepted: "validate_workflow any_contract toy_pdp [] (pinned_flow []) = None"
  by code_simp

definition all_succeed :: "string \<Rightarrow> status \<times> string" where
  "all_succeed _ = (Succeeded, ''null'')"

definition gate_fails :: "string \<Rightarrow> status \<times> string" where
  "gate_fails n = (if n = ''gate'' then Failed else Succeeded, ''null'')"

lemma pinned_flow_steps:
  "plan_step \<in> set (wd_steps (pinned_flow w))" "gate_step \<in> set (wd_steps (pinned_flow w))" "apply_step w \<in> set (wd_steps (pinned_flow w))"
  by (simp_all add: pinned_flow_def)

text \<open>The states after the plan and after the Gate.\<close>

definition planned :: "string \<Rightarrow> dag" where
  "planned w = receive (wd_steps (pinned_flow w)) ''plan'' Succeeded ''null'' (dag_start (wd_steps (pinned_flow w)))"

definition decided :: "string \<Rightarrow> status \<Rightarrow> dag" where
  "decided w v = receive (wd_steps (pinned_flow w)) ''gate'' v ''null'' (planned w)"

lemma pinned_names: "ws_name plan_step = ''plan''" "ws_name gate_step = ''gate''" "ws_name (apply_step w) = ''apply''"
  by (simp_all add: plan_step_def gate_step_def apply_step_def blank_step_def)

lemma decided_reached:
  assumes "res ''plan'' = (Succeeded, ''null'')" and "res ''gate'' = (v, ''null'')" and "v \<in> {Succeeded, Failed}"
    and "state_of (dg_state (dag_start (wd_steps (pinned_flow w)))) ''plan'' = Running"
    and "state_of (dg_state (planned w)) ''gate'' = Running"
  shows "dag.reach (wd_steps (pinned_flow w)) res (decided w v)"
proof -
  have "dag.reach (wd_steps (pinned_flow w)) res (dag_start (wd_steps (pinned_flow w)))" by (rule dag.reach.start) simp
  then have "dag.reach (wd_steps (pinned_flow w)) res (planned w)" unfolding planned_def
    by (rule reach_complete [where s = plan_step]) (simp_all add: pinned_flow_steps pinned_names assms)
  then show ?thesis unfolding decided_def
    by (rule reach_complete [where s = gate_step]) (use assms in \<open>simp_all add: pinned_flow_steps pinned_names\<close>)
qed

lemma approved_reached: "dag.reach (wd_steps (pinned_flow [])) all_succeed (decided [] Succeeded)"
proof (rule decided_reached)
  show "state_of (dg_state (dag_start (wd_steps (pinned_flow [])))) ''plan'' = Running" by code_simp
  show "state_of (dg_state (planned [])) ''gate'' = Running" by code_simp
qed (simp_all add: all_succeed_def)


definition applied :: dag where
  "applied = receive (wd_steps (pinned_flow [])) ''apply'' Succeeded ''null'' (decided [] Succeeded)"

lemma accepted_workflow_completes_witness: "finish_status (wd_steps (pinned_flow [])) applied = RunSucceeded"
proof -
  have "state_of (dg_state (decided [] Succeeded)) ''apply'' = Running" by code_simp
  with approved_reached have reach: "dag.reach (wd_steps (pinned_flow [])) all_succeed applied" unfolding applied_def
    by (intro reach_complete [where s = "apply_step []"]) (simp_all add: pinned_flow_steps pinned_names all_succeed_def)
  have n: "\<not> dg_cancelled applied" and f: "finished (wd_steps (pinned_flow [])) applied" by code_simp+
  have "\<not> (\<exists>s \<in> set (wd_steps (pinned_flow [])). state_of (dg_state applied) (ws_name s) = Failed)" by code_simp
  then show ?thesis using accepted_workflow_completes [OF pinned_flow_accepted reach n f] by simp
qed

lemma accepted_step_has_one_shape_witness:
  "length (filter id [has_gate gate_step, has_policy gate_step, names_action gate_step, names_actuation gate_step, names_nested gate_step]) = 1"
  by (rule accepted_step_has_one_shape [OF pinned_flow_accepted pinned_flow_steps(2)])

text \<open>Workflows that nest one another by name.\<close>

definition calling :: "string \<Rightarrow> string list \<Rightarrow> workflow_decl" where
  "calling n cs = \<lparr>wd_name = n, wd_inputs = [],
     wd_steps = map (\<lambda>c. (blank_step c [] [])\<lparr>ws_view_name := [], ws_actuator := [], ws_workflow := c\<rparr>) cs\<rparr>"

definition estate_of :: "workflow_decl list \<Rightarrow> estate" where
  "estate_of ws = \<lparr>es_workflows = ws, es_actuators = [], es_connectors = []\<rparr>"

lemma nested_chains_are_finite_witness: "distinct [''outer'', ''inner''] \<and> length [''outer'', ''inner''] \<le> 2"
proof -
  let ?E = "estate_of [calling ''outer'' [''inner''], calling ''inner'' []]"
  have "check_nested_workflows any_contract ?E = None" by code_simp
  moreover have "chain_of ?E [''outer'', ''inner'']" by code_simp
  ultimately have "distinct [''outer'', ''inner''] \<and> length [''outer'', ''inner''] \<le> length (es_workflows ?E)"
    by (rule nested_chains_are_finite)
  then show ?thesis by (simp add: estate_of_def)
qed

section \<open>What the checks let through\<close>

text \<open>
  A Gate on the path is not an approval: with \<open>when: always\<close> the plan-pinned Apply of an accepted Workflow runs after the
  Gate was denied.
\<close>

lemma denied_gate_apply_runs:
  "validate_workflow any_contract toy_pdp [] (pinned_flow ''always'') = None \<and>
   dag.reach (wd_steps (pinned_flow ''always'')) gate_fails (decided ''always'' Failed) \<and>
   state_of (dg_state (decided ''always'' Failed)) ''gate'' = Failed \<and>
   state_of (dg_state (decided ''always'' Failed)) ''apply'' = Running"
proof (intro conjI)
  show "validate_workflow any_contract toy_pdp [] (pinned_flow ''always'') = None" by code_simp
  show "dag.reach (wd_steps (pinned_flow ''always'')) gate_fails (decided ''always'' Failed)"
  proof (rule decided_reached)
    show "state_of (dg_state (dag_start (wd_steps (pinned_flow ''always'')))) ''plan'' = Running" by code_simp
    show "state_of (dg_state (planned ''always'')) ''gate'' = Running" by code_simp
  qed (simp_all add: gate_fails_def)
  show "state_of (dg_state (decided ''always'' Failed)) ''gate'' = Failed" by code_simp
  show "state_of (dg_state (decided ''always'' Failed)) ''apply'' = Running" by code_simp
qed

text \<open>
  The depth cap is measured on the first path that reaches a Workflow.  The search starts from the names in order, so a
  chain whose names sort from the inside out is never seen to be deeper than one.
\<close>

definition inside_out :: estate where
  "inside_out = estate_of [calling ''a'' [], calling ''b'' [''a''], calling ''c'' [''b''], calling ''d'' [''c''], calling ''e'' [''d''],
     calling ''f'' [''e''], calling ''g'' [''f'']]"

definition outside_in :: estate where
  "outside_in = estate_of [calling ''g'' [], calling ''f'' [''g''], calling ''e'' [''f''], calling ''d'' [''e''], calling ''c'' [''d''],
     calling ''b'' [''c''], calling ''a'' [''b'']]"

lemma depth_cap_depends_on_names:
  "check_nesting_graph inside_out = None \<and> chain_of inside_out [''g'', ''f'', ''e'', ''d'', ''c'', ''b'', ''a''] \<and>
   check_nesting_graph outside_in = Some (NestedTooDeep [''a'', ''b'', ''c'', ''d'', ''e'', ''f''])"
  by code_simp

text \<open>The inputs a nested Step passes are not checked for what they bind: an undeclared launch field is accepted.\<close>

definition mistyped :: wstep where
  "mistyped = (blank_step ''child'' [] [])\<lparr>ws_view_name := [], ws_actuator := [], ws_workflow := ''inner'',
     ws_inputs := [(''port'', JStr ''{{.launch.prot}}'')]\<rparr>"

lemma nested_binding_is_unchecked:
  "validate_workflow any_contract toy_pdp [] \<lparr>wd_name = ''outer'', wd_inputs = ''doc'', wd_steps = [mistyped]\<rparr> = None \<and>
   input_names any_contract ''doc'' = Inr [''port''] \<and> paths (JObj (ws_inputs mistyped)) = [''launch.prot''] \<and>
   check_nested_inputs any_contract ''child'' \<lparr>wd_name = ''inner'', wd_inputs = ''doc'', wd_steps = []\<rparr> (ws_inputs mistyped) = None"
  by code_simp

end
