(* ===== verification/BuildCheck.thy ===== *)
theory BuildCheck
  imports WorkflowCheck Provision DesiredState TriggerEngine
begin

text \<open>
  What the loader checks of an estate before the provisioning reconcile runs it: which providers could build or tear down an
  Intent (\<open>provisioning_resolve.go\<close>, \<open>reachable_builders.go\<close>), whether each Workflow they advertise can take the launch the
  reconcile will hand it (\<open>checkProvisioningBuildInputs\<close> and \<open>checkAdvertisedWorkflow\<close> of \<open>desiredstate.go\<close>), and the other
  cross-document checks of that file: Trigger inputs, Blueprint parameters, \<open>delivers\<close>, placement targets, and the owners of
  \<open>facet_write_scope.go\<close>.
\<close>

section \<open>The documents\<close>

record intent_decl = intent_doc +
  id_environments :: "string list"

record blueprint_decl = blueprint +
  bd_delivers :: string

record build_estate = estate +
  xe_intents :: "intent_decl list"
  xe_environments :: "string list"
  xe_bindings :: "capability_binding list"
  xe_blueprints :: "blueprint_decl list"
  xe_assignments :: "assignment list"
  xe_triggers :: "trigger list"

definition IntentCompute :: string where "IntentCompute = ''Intent/Compute''"

definition IntentSubnet :: string where "IntentSubnet = ''Intent/Subnet''"

definition SingletonIntentKinds :: "string list" where
  "SingletonIntentKinds = [IntentSubnet, ''Intent/DnsRecord'', ''Intent/Dmz'', ''Intent/Vlan'']"

definition CapProvisioning :: string where "CapProvisioning = ''provisioning''"

section \<open>Decoding a spec\<close>

text \<open>
  \<open>json.Unmarshal\<close> into the fields of a struct, by type: an absent or null field is the zero value, a value of another type
  an error.  A number decodes into an \<open>int\<close> when it is a whole one of 64 bits.  The schema of the kind has closed the spec
  before, so no key differs from a field in case only, and no cardinality is below one.
\<close>

definition go_string :: "json option \<Rightarrow> string option" where
  "go_string v = (case v of None \<Rightarrow> Some [] | Some JNull \<Rightarrow> Some [] | Some (JStr s) \<Rightarrow> Some s | _ \<Rightarrow> None)"

definition go_int :: "json option \<Rightarrow> int option" where
  "go_int v = (case v of
       None \<Rightarrow> Some 0 | Some JNull \<Rightarrow> Some 0
     | Some (JInt i) \<Rightarrow> if in_int64 i then Some i else None
     | Some (JFloat r) \<Rightarrow> if of_int \<lfloor>r\<rfloor> = r \<and> in_int64 \<lfloor>r\<rfloor> then Some \<lfloor>r\<rfloor> else None
     | _ \<Rightarrow> None)"

definition go_cardinality :: "json option \<Rightarrow> nat option" where
  "go_cardinality v = Option.bind (go_int v) (\<lambda>i. if i < 0 then None else Some (nat i))"

definition go_float :: "json option \<Rightarrow> rat option" where
  "go_float v = (case v of
       None \<Rightarrow> Some 0 | Some JNull \<Rightarrow> Some 0
     | Some (JInt i) \<Rightarrow> Some (f64 (of_int i)) | Some (JFloat r) \<Rightarrow> Some r | _ \<Rightarrow> None)"

definition go_labels :: "json option \<Rightarrow> string gomap option" where
  "go_labels v = (case v of
       None \<Rightarrow> Some [] | Some JNull \<Rightarrow> Some []
     | Some (JObj m) \<Rightarrow> those (map (\<lambda>(k, x). map_option (Pair k) (go_string (Some x))) m)
     | _ \<Rightarrow> None)"

definition go_params :: "json option \<Rightarrow> jmap option option" where
  "go_params v = (case v of None \<Rightarrow> Some None | Some JNull \<Rightarrow> Some None | Some (JObj m) \<Rightarrow> Some (Some m) | _ \<Rightarrow> None)"

definition go_placement :: "json option \<Rightarrow> placement option option" where
  "go_placement v = (case v of
       None \<Rightarrow> Some None | Some JNull \<Rightarrow> Some None
     | Some (JObj m) \<Rightarrow>
         Option.bind (go_string (map_of m ''subnet'')) (\<lambda>sub.
         Option.bind (go_string (map_of m ''dmz'')) (\<lambda>dmz.
         Option.bind (go_string (map_of m ''availabilityZone'')) (\<lambda>az.
           Some (Some \<lparr>pl_subnet = sub, pl_dmz = dmz, pl_availability_zone = az\<rparr>))))
     | _ \<Rightarrow> None)"

definition from_intent :: "'a intent_doc_scheme \<Rightarrow> intent option" where
  "from_intent i = (let s = it_spec i; at_key = map_of s in
     Option.bind (go_cardinality (at_key ''count'')) (\<lambda>cnt.
     Option.bind (go_string (at_key ''namePrefix'')) (\<lambda>prefix.
     Option.bind (go_string (at_key ''projectKind'')) (\<lambda>kind.
     Option.bind (go_labels (at_key ''labels'')) (\<lambda>labels.
     Option.bind (string_items (at_key ''requires'')) (\<lambda>requires.
     Option.bind (go_params (at_key ''params'')) (\<lambda>params.
     Option.bind (go_float (at_key ''maxDelta'')) (\<lambda>delta.
     Option.bind (go_placement (at_key ''placement'')) (\<lambda>place.
     Option.bind (string_items (at_key ''zones'')) (\<lambda>zones.
     Option.bind (go_cardinality (at_key ''perZone'')) (\<lambda>per_zone.
       Some \<lparr>in_name = it_name i, in_spec = \<lparr>cs_count = cnt, cs_name_prefix = prefix, cs_project_kind = kind,
         cs_labels = labels, cs_requires = requires, cs_params = params, cs_max_delta = delta, cs_placement = place,
         cs_zones = zones, cs_per_zone = per_zone\<rparr>\<rparr>)))))))))))"

definition from_singleton_intent :: "'a intent_doc_scheme \<Rightarrow> singleton_intent option" where
  "from_singleton_intent i = (let s = it_spec i; at_key = map_of s in
     Option.bind (go_string (at_key ''projectKind'')) (\<lambda>kind.
     Option.bind (go_labels (at_key ''labels'')) (\<lambda>labels.
     Option.bind (string_items (at_key ''requires'')) (\<lambda>requires.
     Option.bind (go_params (at_key ''params'')) (\<lambda>params.
     Option.bind (go_placement (at_key ''placement'')) (\<lambda>place.
       Some \<lparr>si_name = it_name i, si_kind = it_kind i, si_spec = \<lparr>ss_project_kind = kind, ss_labels = labels,
         ss_requires = requires, ss_params = params, ss_placement = place\<rparr>\<rparr>))))))"

section \<open>Providers\<close>

text \<open>\<open>verified\<close> is the set of \<open>kind/name\<close> keys the code maps to true.\<close>

definition provider_counts :: "string \<Rightarrow> string list \<Rightarrow> string \<Rightarrow> string \<Rightarrow> (plugin_decl \<Rightarrow> string gomap) \<Rightarrow> plugin_decl \<Rightarrow> bool" where
  "provider_counts what verified env cls flows p \<longleftrightarrow>
     what @ pd_name p \<in> set verified \<and> in_scope (pd_environments p) env \<and> cls \<in> set (pd_provides p) \<and> flows p \<noteq> []"

definition offers :: "(plugin_decl \<Rightarrow> string gomap) \<Rightarrow> plugin_decl \<Rightarrow> provider" where
  "offers flows p = \<lparr>pv_name = pd_name p, pv_workflows = flows p, pv_substrate = pd_substrate p\<rparr>"

definition assemble_provisioning_providers ::
  "string list \<Rightarrow> plugin_decl list \<Rightarrow> plugin_decl list \<Rightarrow> string \<Rightarrow> string \<Rightarrow> provider list" where
  "assemble_provisioning_providers verified acts conns env cls =
     map (offers pd_provisions) (filter (provider_counts ''actuator/'' verified env cls pd_provisions) acts) @
     map (offers pd_provisions) (filter (provider_counts ''connector/'' verified env cls pd_provisions) conns)"

definition assemble_teardown_providers :: "string list \<Rightarrow> plugin_decl list \<Rightarrow> plugin_decl list \<Rightarrow> string \<Rightarrow> provider list" where
  "assemble_teardown_providers verified acts conns env =
     map (offers pd_decommissions) (filter (provider_counts ''actuator/'' verified env CapProvisioning pd_decommissions) acts) @
     map (offers pd_decommissions) (filter (provider_counts ''connector/'' verified env CapProvisioning pd_decommissions) conns)"

definition assemble_remediation_providers ::
  "string list \<Rightarrow> plugin_decl list \<Rightarrow> plugin_decl list \<Rightarrow> string \<Rightarrow> string \<Rightarrow> provider list" where
  "assemble_remediation_providers verified acts conns env cls =
     map (offers pd_remediates) (filter (provider_counts ''actuator/'' verified env cls pd_remediates) acts) @
     map (\<lambda>c. \<lparr>pv_name = pd_name c, pv_workflows = pd_remediates c, pv_substrate = []\<rparr>)
       (filter (provider_counts ''connector/'' verified env cls pd_remediates) conns)"

definition in_scope_bindings :: "capability_binding list \<Rightarrow> string \<Rightarrow> capability_binding list" where
  "in_scope_bindings bs env = filter (\<lambda>b. in_scope (cb_environments b) env) bs"

text \<open>The resolutions of the reconcile, over the providers it has verified.\<close>

definition resolve_provisioning :: "string list \<Rightarrow> 'a build_estate_scheme \<Rightarrow> string \<Rightarrow> string \<Rightarrow> string \<Rightarrow> cap_result" where
  "resolve_provisioning verified E env cls kind =
     resolve cls kind (assemble_provisioning_providers verified (es_actuators E) (es_connectors E) env cls)
       (in_scope_bindings (xe_bindings E) env)"

definition resolve_decommission :: "string list \<Rightarrow> 'a build_estate_scheme \<Rightarrow> string \<Rightarrow> string \<Rightarrow> cap_result" where
  "resolve_decommission verified E env kind =
     resolve CapProvisioning kind (assemble_teardown_providers verified (es_actuators E) (es_connectors E) env)
       (in_scope_bindings (xe_bindings E) env)"

definition resolve_remediation :: "string list \<Rightarrow> 'a build_estate_scheme \<Rightarrow> string \<Rightarrow> string \<Rightarrow> string \<Rightarrow> cap_result" where
  "resolve_remediation verified E env cls kind =
     resolve cls kind (assemble_remediation_providers verified (es_actuators E) (es_connectors E) env cls)
       (in_scope_bindings (xe_bindings E) env)"

section \<open>The builders an Intent can reach\<close>

definition all_verified :: "'a estate_scheme \<Rightarrow> string list" where
  "all_verified E = map (\<lambda>a. ''actuator/'' @ pd_name a) (es_actuators E) @ map (\<lambda>c. ''connector/'' @ pd_name c) (es_connectors E)"

definition simulated_providers :: "'a build_estate_scheme \<Rightarrow> bool \<Rightarrow> string \<Rightarrow> provider list" where
  "simulated_providers E teardown env =
     (if teardown then assemble_teardown_providers (all_verified E) (es_actuators E) (es_connectors E) env
      else assemble_provisioning_providers (all_verified E) (es_actuators E) (es_connectors E) env CapProvisioning)"

definition simulate :: "'a build_estate_scheme \<Rightarrow> bool \<Rightarrow> string \<Rightarrow> string \<Rightarrow> cap_result" where
  "simulate E teardown kind env =
     resolve CapProvisioning kind (simulated_providers E teardown env) (in_scope_bindings (xe_bindings E) env)"

definition keep_workflow :: "string \<Rightarrow> string list \<Rightarrow> string list" where
  "keep_workflow w out = (if w \<noteq> [] then ins w out else out)"

definition reach_env :: "'a build_estate_scheme \<Rightarrow> bool \<Rightarrow> string \<Rightarrow> string \<Rightarrow> string list \<Rightarrow> string list" where
  "reach_env E teardown kind env out =
     (if cap_result.cr_status (simulate E teardown kind env) = StatusResolved then keep_workflow (cap_result.cr_workflow (simulate E teardown kind env)) out
      else fold (\<lambda>p. keep_workflow (get0 (pv_workflows p) kind)) (simulated_providers E teardown env) out)"

definition intent_environments :: "'a build_estate_scheme \<Rightarrow> intent_decl \<Rightarrow> string list" where
  "intent_environments E i = (if id_environments i = [] then xe_environments E else id_environments i)"

definition reachable_builders :: "'a build_estate_scheme \<Rightarrow> intent_decl \<Rightarrow> string \<Rightarrow> bool \<Rightarrow> string list" where
  "reachable_builders E i kind teardown =
     (let out = fold (reach_env E teardown kind) (intent_environments E i) []; r = simulate E teardown kind [] in
      sort (if cap_result.cr_status r = StatusResolved then keep_workflow (cap_result.cr_workflow r) out else out))"

section \<open>Can the advertised Workflow take the launch?\<close>

datatype build_error =
    BuildInputs string input_error | NoInputsDeclaredBy string | NeverSupplied string string | NotDeclared string string
  | UnboundInputs string "string list" | UnsuppliedParams string "string list" | HardcodedLabel string string
  | NoApprovalGate string | HardcodedLiteral string string | RequiredNotSupplied string string
  | DanglingBuilder string string | DanglingTeardown string string | DanglingRemediation string string string
  | SpecNotDecoded string

fun walk :: "(string \<Rightarrow> 'a list) \<Rightarrow> json \<Rightarrow> 'a list" where
  "walk f (JStr s) = f s"
| "walk f (JObj m) = concat (map (\<lambda>(k, v). walk f v) m)"
| "walk f (JArr xs) = concat (map (walk f) xs)"
| "walk f v = []"

definition walk_steps :: "(json \<Rightarrow> 'a list) \<Rightarrow> workflow_decl \<Rightarrow> 'a list" where
  "walk_steps f w = concat (map (\<lambda>s. f (JObj (ws_params s))) (wd_steps w))"

definition spec_params :: "'a intent_doc_scheme \<Rightarrow> jmap" where
  "spec_params i = (case map_of (it_spec i) ''params'' of Some (JObj m) \<Rightarrow> m | _ \<Rightarrow> [])"

definition unsupplied_params :: "workflow_decl \<Rightarrow> 'a intent_doc_scheme \<Rightarrow> string list" where
  "unsupplied_params w i =
     sort (remdups (filter (\<lambda>k. k \<notin> set (keys (spec_params i))) (walk_steps (walk launch_param_fields) w)))"

definition unbound_inputs :: "workflow_decl \<Rightarrow> string list \<Rightarrow> string list" where
  "unbound_inputs w declared = filter (\<lambda>n. n \<notin> set (walk_steps (walk launch_fields) w)) declared"

text \<open>Every correlation label written by hand, in the order of the walk; the keys of a map are visited sorted.\<close>

fun correlation_labels :: "json \<Rightarrow> string list" where
  "correlation_labels (JObj m) = concat (map snd (sorted_entries (map (\<lambda>(k, v).
     (k, if has_prefix ''stratt.intent/'' k then [k] else correlation_labels v)) m)))"
| "correlation_labels (JArr xs) = concat (map correlation_labels xs)"
| "correlation_labels v = []"

definition hardcoded_correlation_label :: "workflow_decl \<Rightarrow> string option" where
  "hardcoded_correlation_label w = (case walk_steps correlation_labels w of [] \<Rightarrow> None | l # _ \<Rightarrow> Some l)"

definition has_approval_gate :: "workflow_decl \<Rightarrow> bool" where
  "has_approval_gate w = list_ex has_gate (wd_steps w)"

definition own_values :: "'a intent_doc_scheme \<Rightarrow> string list" where
  "own_values i = List.map_filter (\<lambda>(k, v). case v of JStr s \<Rightarrow> if s \<noteq> [] then Some s else None | _ \<Rightarrow> None) (spec_params i)"

fun instance_literals :: "string \<Rightarrow> string list \<Rightarrow> json \<Rightarrow> string list" where
  "instance_literals name vs (JStr t) = (if name \<noteq> [] \<and> contains name t \<or> t \<in> set vs then [t] else [])"
| "instance_literals name vs (JObj m) = concat (map snd (sorted_entries (map (\<lambda>(k, v). (k, instance_literals name vs v)) m)))"
| "instance_literals name vs (JArr xs) = concat (map (instance_literals name vs) xs)"
| "instance_literals name vs v = []"

definition hardcoded_instance_literal :: "workflow_decl \<Rightarrow> 'a intent_doc_scheme \<Rightarrow> string option" where
  "hardcoded_instance_literal w i =
     (case walk_steps (instance_literals (it_name i) (own_values i)) w of [] \<Rightarrow> None | l # _ \<Rightarrow> Some l)"

definition check_advertised_workflow ::
  "'a schema_lib_scheme \<Rightarrow> string \<Rightarrow> workflow_decl \<Rightarrow> 'b intent_doc_scheme \<Rightarrow> jmap \<Rightarrow> build_error option" where
  "check_advertised_workflow L what w i supplied =
     (case input_names L (wd_inputs w) of
        Inl e \<Rightarrow> Some (BuildInputs what e)
      | Inr declared \<Rightarrow>
          if declared = [] then Some (NoInputsDeclaredBy what)
          else case filter (\<lambda>k. k \<notin> set (keys supplied)) (sort declared) of
            k # _ \<Rightarrow> Some (NeverSupplied what k)
          | [] \<Rightarrow>
          (case filter (\<lambda>k. k \<in> set (keys supplied) \<and> k \<notin> set declared) [''projectKind'', ''labels''] of
            k # _ \<Rightarrow> Some (NotDeclared what k)
          | [] \<Rightarrow>
          if unbound_inputs w (sort declared) \<noteq> [] then Some (UnboundInputs what (unbound_inputs w (sort declared)))
          else if unsupplied_params w i \<noteq> [] then Some (UnsuppliedParams what (unsupplied_params w i))
          else case hardcoded_correlation_label w of
            Some l \<Rightarrow> Some (HardcodedLabel what l)
          | None \<Rightarrow>
          if \<not> has_approval_gate w then Some (NoApprovalGate what)
          else case hardcoded_instance_literal w i of
            Some l \<Rightarrow> Some (HardcodedLiteral what l)
          | None \<Rightarrow>
          (case required_names L (wd_inputs w) of
            Inl e \<Rightarrow> Some (BuildInputs what e)
          | Inr req \<Rightarrow>
              (case filter (\<lambda>r. r \<notin> set (keys supplied)) req of
                 r # _ \<Rightarrow> Some (RequiredNotSupplied what r)
               | [] \<Rightarrow> None))))"

text \<open>What the reconcile will hand a builder: of a representative instance, since only the keys count here.\<close>

definition probe_instance :: "intent \<Rightarrow> inst" where
  "probe_instance p = \<lparr>inst_name = instance_name (cs_name_prefix (in_spec p)) 1 (cs_count (in_spec p)), inst_intent = in_name p,
     inst_ordinal = 1, inst_zone = [], inst_subnet_ref = []\<rparr>"

definition build_probe :: "'a intent_doc_scheme \<Rightarrow> build_error + (jmap \<times> string) option" where
  "build_probe i =
     (if it_kind i = IntentCompute then
        (case from_intent i of
           None \<Rightarrow> Inl (SpecNotDecoded (it_name i))
         | Some p \<Rightarrow> Inr (Some (build_launch_params p (probe_instance p), ''Compute'')))
      else if it_kind i \<in> set SingletonIntentKinds then
        (case from_singleton_intent i of
           None \<Rightarrow> Inl (SpecNotDecoded (it_name i))
         | Some si \<Rightarrow> Inr (Some (singleton_launch_params si (singleton_inst si), short_intent_kind (it_kind i))))
      else Inr None)"

definition teardown_probe_name :: "jmap \<Rightarrow> string" where
  "teardown_probe_name supplied =
     (case map_of supplied ''instance'' of
        Some (JStr s) \<Rightarrow> s
      | _ \<Rightarrow> (case map_of supplied ''singleton'' of Some (JStr s) \<Rightarrow> s | _ \<Rightarrow> []))"

definition teardown_probe :: "string \<Rightarrow> jmap \<Rightarrow> jmap" where
  "teardown_probe name supplied =
     teardown_launch_params name \<lparr>inst_name = teardown_probe_name supplied, inst_intent = name, inst_ordinal = 1, inst_zone = [],
       inst_subnet_ref = []\<rparr> ''provider.identity'' ''probe''"

text \<open>\<open>byName[wfName]\<close>: the empty Workflow when none has the name.\<close>

definition workflow_or_zero :: "'a estate_scheme \<Rightarrow> string \<Rightarrow> workflow_decl" where
  "workflow_or_zero E n = (case workflow_named E n of Some w \<Rightarrow> w | None \<Rightarrow> \<lparr>wd_name = [], wd_inputs = [], wd_steps = []\<rparr>)"

definition check_intent_builds :: "'a schema_lib_scheme \<Rightarrow> 'b build_estate_scheme \<Rightarrow> intent_decl \<Rightarrow> build_error option" where
  "check_intent_builds L E i =
     (case build_probe i of
        Inl e \<Rightarrow> Some e
      | Inr None \<Rightarrow> None
      | Inr (Some (supplied, kind)) \<Rightarrow>
          (case first_err (\<lambda>w. check_advertised_workflow L (it_name i) (workflow_or_zero E w) i supplied)
                  (reachable_builders E i kind False) of
             Some e \<Rightarrow> Some e
           | None \<Rightarrow> first_err (\<lambda>w. check_advertised_workflow L (it_name i) (workflow_or_zero E w) i (teardown_probe (it_name i) supplied))
                  (reachable_builders E i kind True)))"

definition dangling :: "'a estate_scheme \<Rightarrow> (string \<Rightarrow> string \<Rightarrow> build_error) \<Rightarrow> string \<times> string \<Rightarrow> build_error option" where
  "dangling E e = (\<lambda>(kind, w). if workflow_named E w = None then Some (e kind w) else None)"

definition check_provisioning_build_inputs :: "'a schema_lib_scheme \<Rightarrow> 'b build_estate_scheme \<Rightarrow> build_error option" where
  "check_provisioning_build_inputs L E =
     (case first_err (dangling E DanglingBuilder) (concat (map pd_provisions (es_plugins E))) of Some e \<Rightarrow> Some e | None \<Rightarrow>
     (case first_err (dangling E DanglingTeardown) (concat (map pd_decommissions (es_plugins E))) of Some e \<Rightarrow> Some e | None \<Rightarrow>
     (case first_err (\<lambda>p. first_err (dangling E (DanglingRemediation (pd_name p))) (pd_remediates p)) (es_plugins E) of Some e \<Rightarrow> Some e
      | None \<Rightarrow> first_err (check_intent_builds L E) (xe_intents E))))"

section \<open>The other checks across documents\<close>

datatype cross_error =
    TriggerInputs string input_error
  | BlueprintInputs string int string input_error | BlueprintUndeclared string int string string | BlueprintLacks string int string string
  | WrongPackage string string string
  | PlacementUndeclared string string | PlacementOutOfScope string string string
  | Unowned "(string \<times> string) list"

definition check_trigger_inputs :: "'a schema_lib_scheme \<Rightarrow> 'b build_estate_scheme \<Rightarrow> trigger \<Rightarrow> cross_error option" where
  "check_trigger_inputs L E t =
     (let inputs = (case tt_inputs t of None \<Rightarrow> [] | Some m \<Rightarrow> m) in
      if tt_workflow_name t = [] \<or> tt_kind t \<noteq> ''schedule'' \<or> inputs = [] then None
      else case workflow_named E (tt_workflow_name t) of
          None \<Rightarrow> None
        | Some w \<Rightarrow> (case resolve_launch_inputs L (wd_name w) (wd_inputs w) inputs of
              Inl e \<Rightarrow> Some (TriggerInputs (tt_name t) e) | Inr _ \<Rightarrow> None))"

definition check_trigger_launch_inputs :: "'a schema_lib_scheme \<Rightarrow> 'b build_estate_scheme \<Rightarrow> cross_error option" where
  "check_trigger_launch_inputs L E = first_err (check_trigger_inputs L E) (xe_triggers E)"

definition remediation_target :: "string \<Rightarrow> string \<Rightarrow> plugin_decl \<Rightarrow> string option" where
  "remediation_target kind cls p =
     (if cls \<in> set (pd_provides p) \<and> get0 (pd_remediates p) kind \<noteq> [] then Some (get0 (pd_remediates p) kind) else None)"

definition remediation_candidates :: "'a estate_scheme \<Rightarrow> string \<Rightarrow> string \<Rightarrow> string list" where
  "remediation_candidates E intent_kind cls =
     (if cls = [] then [] else sort (remdups (List.map_filter (remediation_target (short_intent_kind intent_kind) cls) (es_plugins E))))"

text \<open>The closure \<open>check\<close> of \<open>checkBlueprintParamNames\<close>.\<close>

definition check_param_names ::
  "'a schema_lib_scheme \<Rightarrow> 'b estate_scheme \<Rightarrow> 'c blueprint_scheme \<Rightarrow> string \<Rightarrow> jmap \<Rightarrow> cross_error option" where
  "check_param_names L E b workflow params =
     (if workflow = [] \<or> params = [] then None
      else case workflow_named E workflow of
          None \<Rightarrow> None
        | Some w \<Rightarrow>
            (case input_names L (wd_inputs w) of
               Inl e \<Rightarrow> Some (BlueprintInputs (bp_name b) (bp_version b) (wd_name w) e)
             | Inr declared \<Rightarrow>
                 (case required_names L (wd_inputs w) of
                    Inl e \<Rightarrow> Some (BlueprintInputs (bp_name b) (bp_version b) (wd_name w) e)
                  | Inr req \<Rightarrow>
                      (case filter (\<lambda>k. k \<notin> set declared) (sort (keys params)) of
                         k # _ \<Rightarrow> Some (BlueprintUndeclared (bp_name b) (bp_version b) (wd_name w) k)
                       | [] \<Rightarrow>
                           (case filter (\<lambda>r. r \<notin> set (keys params)) req of
                              r # _ \<Rightarrow> Some (BlueprintLacks (bp_name b) (bp_version b) (wd_name w) r)
                            | [] \<Rightarrow> None)))))"

definition check_route_params ::
  "'a schema_lib_scheme \<Rightarrow> 'b estate_scheme \<Rightarrow> 'c blueprint_scheme \<Rightarrow> blueprint_route \<Rightarrow> cross_error option" where
  "check_route_params L E b r = first_err (\<lambda>w. check_param_names L E b w (br_remediation_params r))
     (br_remediation_workflow r # remediation_candidates E (bp_for b) (br_remediation_capability r))"

definition check_blueprint_param_names :: "'a schema_lib_scheme \<Rightarrow> 'b build_estate_scheme \<Rightarrow> cross_error option" where
  "check_blueprint_param_names L E = first_err (\<lambda>b.
     case check_param_names L E b (bp_remove_workflow b) (bp_remove_params b) of
       Some e \<Rightarrow> Some e
     | None \<Rightarrow> first_err (check_route_params L E b) (bp_routes b)) (xe_blueprints E)"

definition intent_named :: "'a build_estate_scheme \<Rightarrow> string \<Rightarrow> intent_decl option" where
  "intent_named E n = find (\<lambda>i. it_name i = n) (rev (xe_intents E))"

definition blueprint_pinned :: "'a build_estate_scheme \<Rightarrow> string \<Rightarrow> int \<Rightarrow> blueprint_decl option" where
  "blueprint_pinned E n v = find (\<lambda>b. bp_name b = n \<and> bp_version b = v) (rev (xe_blueprints E))"

definition spec_string :: "'a intent_doc_scheme \<Rightarrow> string \<Rightarrow> string" where
  "spec_string i k = (case map_of (it_spec i) k of Some (JStr s) \<Rightarrow> s | _ \<Rightarrow> [])"

definition check_assignment_delivers :: "'a build_estate_scheme \<Rightarrow> assignment \<Rightarrow> cross_error option" where
  "check_assignment_delivers E a =
     (case blueprint_pinned E (as_blueprint a) (as_blueprint_version a) of
        None \<Rightarrow> None
      | Some b \<Rightarrow>
          if bd_delivers b = [] then None
          else case intent_named E (as_intent a) of
              None \<Rightarrow> None
            | Some i \<Rightarrow> (let pkg = spec_string i ''package'' in
                if pkg = [] \<or> pkg = bd_delivers b then None else Some (WrongPackage (as_name a) pkg (bd_delivers b))))"

definition check_blueprint_delivers :: "'a build_estate_scheme \<Rightarrow> cross_error option" where
  "check_blueprint_delivers E = first_err (check_assignment_delivers E) (xe_assignments E)"

definition placement_target :: "'a intent_doc_scheme \<Rightarrow> string" where
  "placement_target i =
     (case map_of (it_spec i) ''placement'' of
        Some (JObj m) \<Rightarrow> (case map_of m ''subnet'' of Some (JStr s) \<Rightarrow> s | _ \<Rightarrow> [])
      | _ \<Rightarrow> [])"

definition subnet_named :: "'a build_estate_scheme \<Rightarrow> string \<Rightarrow> intent_decl option" where
  "subnet_named E n = find (\<lambda>i. it_name i = n) (rev (filter (\<lambda>i. it_kind i = IntentSubnet) (xe_intents E)))"

definition check_placement_target :: "'a build_estate_scheme \<Rightarrow> intent_decl \<Rightarrow> cross_error option" where
  "check_placement_target E i =
     (let target = placement_target i in
      if target = [] then None
      else case subnet_named E target of
          None \<Rightarrow> Some (PlacementUndeclared (it_name i) target)
        | Some sub \<Rightarrow>
            if id_environments sub = [] then None
            else case filter (\<lambda>e. \<not> in_scope (id_environments sub) e)
                (if id_environments i = [] then sort (xe_environments E) else id_environments i) of
                e # _ \<Rightarrow> Some (PlacementOutOfScope (it_name i) target e)
              | [] \<Rightarrow> None)"

definition check_placement_targets :: "'a build_estate_scheme \<Rightarrow> cross_error option" where
  "check_placement_targets E = first_err (check_placement_target E) (xe_intents E)"

definition owned_at_boot :: "string list" where
  "owned_at_boot = [''os.kernel'', ''software.package'', ''identity.subject'']"

definition owned_namespaces :: "'a build_estate_scheme \<Rightarrow> string list" where
  "owned_namespaces E = owned_at_boot
     @ concat (map (\<lambda>b. List.map_filter (\<lambda>r.
         if br_remediation_workflow r \<noteq> [] \<and> fe_namespace (br_observe r) \<noteq> [] then Some (fe_namespace (br_observe r)) else None)
         (bp_routes b)) (xe_blueprints E))
     @ concat (map pd_facet_namespaces (filter (\<lambda>p. pd_address p \<noteq> []) (es_plugins E)))"

definition write_sites :: "'a build_estate_scheme \<Rightarrow> (string \<times> string) list" where
  "write_sites E =
     concat (map (\<lambda>w. concat (map (\<lambda>s. map (Pair (''workflow '' @ wd_name w @ '' step '' @ ws_name s)) (ws_facet_write_scope s)) (wd_steps w)))
       (es_workflows E))
     @ concat (map (\<lambda>t. map (Pair (''trigger '' @ tt_name t)) (tt_facet_write_scope t)) (xe_triggers E))"

definition check_facet_write_scope_owners :: "'a build_estate_scheme \<Rightarrow> cross_error option" where
  "check_facet_write_scope_owners E =
     (case filter (\<lambda>(_, ns). ns \<notin> set (owned_namespaces E)) (write_sites E) of
        [] \<Rightarrow> None
      | bad \<Rightarrow> Some (Unowned (sort bad)))"

section \<open>The narrowed set of builders is enough\<close>

lemma set_keep_workflow [simp]: "set (keep_workflow w out) = (if w \<noteq> [] then insert w (set out) else set out)"
  by (simp add: keep_workflow_def)

lemma status_resolved [simp]:
  "cap_result.cr_status (pending x) \<noteq> StatusResolved" "cap_result.cr_status (ambiguous x) \<noteq> StatusResolved"
  by (simp_all add: pending_def ambiguous_def)

lemma resolved_form:
  assumes "cap_result.cr_status (resolve cap kind ps bs) = StatusResolved"
  shows "\<exists>q w. resolve cap kind ps bs = resolved q w"
proof -
  have provider: "\<exists>q w. resolve_provider kind ps sel = resolved q w"
    if "cap_result.cr_status (resolve_provider kind ps sel) = StatusResolved" for sel
    using that unfolding resolve_provider_def Let_def by (auto split: if_split_asm option.split_asm)
  have complete: "\<exists>q w. complete_substrate kind sub ps sel = resolved q w"
    if "cap_result.cr_status (complete_substrate kind sub ps sel) = StatusResolved" for sub sel
    using that unfolding complete_substrate_def Let_def by (auto split: if_split_asm)
  have "\<exists>q w. resolve_substrate kind ps sel subs = resolved q w"
    if "cap_result.cr_status (resolve_substrate kind ps sel subs) = StatusResolved" for sel subs
    using that complete unfolding resolve_substrate_def Let_def by (auto split: if_split_asm)
  with assms provider show ?thesis unfolding resolve_def by (simp split: prod.split_asm if_split_asm)
qed

text \<open>Fewer providers never resolve to another one.\<close>

lemma builds_subset: "set ps' \<subseteq> set ps \<Longrightarrow> builds kind ps' p \<Longrightarrow> builds kind ps p"
  by (auto simp: builds_def)

lemma builds_as_unique:
  assumes "distinct (map pv_name ps)" and "builds kind ps p" and "builds kind ps p'" and "pv_name p = pv_name p'"
  shows "p = p'"
  using assms by (auto simp: builds_def distinct_map inj_on_def)

lemma resolve_fewer_same:
  assumes d: "distinct (map pv_name ps)" and d': "distinct (map pv_name ps')" and sub: "set ps' \<subseteq> set ps"
    and full: "resolve cap kind ps bs = resolved q w" and few: "resolve cap kind ps' bs = resolved q' w'"
  shows "w' = w"
proof -
  note F = full [unfolded resolve_iff [OF d]] and G = few [unfolded resolve_iff [OF d']]
  have adm: "admitted cap kind ps' bs \<subseteq> admitted cap kind ps bs" by (auto simp: admitted_def dest: builds_subset [OF sub])
  from F G adm have "q' = q" by blast
  moreover from F G obtain p p' where "builds kind ps p" "pv_name p = q" "get0 (pv_workflows p) kind = w"
    "builds kind ps' p'" "pv_name p' = q'" "get0 (pv_workflows p') kind = w'" by (auto simp: builds_as_def)
  ultimately show ?thesis using builds_as_unique [OF d] builds_subset [OF sub] by metis
qed

lemma resolved_offered:
  assumes "distinct (map pv_name ps)" and "resolve cap kind ps bs = resolved q w"
  shows "\<exists>p \<in> set ps. pv_name p = q \<and> get0 (pv_workflows p) kind = w \<and> w \<noteq> []"
  using assms by (auto simp: resolve_iff builds_as_def builds_def)

text \<open>What the reconcile resolves with the providers it has verified, beside what the check simulates.\<close>

definition reconcile_providers :: "string list \<Rightarrow> 'a estate_scheme \<Rightarrow> bool \<Rightarrow> string \<Rightarrow> provider list" where
  "reconcile_providers verified E teardown env =
     (if teardown then assemble_teardown_providers verified (es_actuators E) (es_connectors E) env
      else assemble_provisioning_providers verified (es_actuators E) (es_connectors E) env CapProvisioning)"

lemma all_verified_simulated: "simulated_providers E teardown env = reconcile_providers (all_verified E) E teardown env"
  by (simp add: simulated_providers_def reconcile_providers_def)

lemma assembled_names:
  assumes "distinct (map pd_name (acts @ conns))"
  shows "distinct (map pv_name (map (offers f) (filter P acts) @ map (offers f) (filter Q conns)))"
proof -
  have names: "map pv_name (map (offers f) xs) = map pd_name xs" for xs by (simp add: offers_def)
  have "distinct (map pd_name (filter P acts))" "distinct (map pd_name (filter Q conns))"
    using assms by (auto intro: distinct_names_filter)
  then show ?thesis using assms by (auto simp: names simp del: map_map)
qed

lemma reconcile_names:
  "distinct (map pd_name (es_plugins E)) \<Longrightarrow> distinct (map pv_name (reconcile_providers verified E teardown env))"
  unfolding reconcile_providers_def assemble_provisioning_providers_def assemble_teardown_providers_def es_plugins_def
  by (cases teardown) (simp_all only: if_True if_False assembled_names)

lemma counts_all_verified:
  assumes "provider_counts what verified env cls f p" and "what @ pd_name p \<in> set (all_verified E)"
  shows "provider_counts what (all_verified E) env cls f p"
  using assms by (simp add: provider_counts_def)

lemma reconcile_fewer: "set (reconcile_providers verified E teardown env) \<subseteq> set (simulated_providers E teardown env)"
  unfolding all_verified_simulated reconcile_providers_def assemble_provisioning_providers_def assemble_teardown_providers_def
  by (auto simp: all_verified_def dest: counts_all_verified [where E = E])

lemma reach_env_keeps: "set out \<subseteq> set (reach_env E teardown kind env out)"
proof -
  have "set out \<subseteq> set (fold (\<lambda>p. keep_workflow (get0 (pv_workflows p) kind)) ps out)" for ps
    by (induction ps arbitrary: out) fastforce+
  then show ?thesis by (auto simp: reach_env_def)
qed

lemma fold_keeps:
  assumes "p \<in> set ps" and "g p \<noteq> []"
  shows "g p \<in> set (fold (\<lambda>p. keep_workflow (g p)) ps out)"
proof -
  have keeps: "set out \<subseteq> set (fold (\<lambda>p. keep_workflow (g p)) ps out)" for ps out by (induction ps arbitrary: out) fastforce+
  from assms show ?thesis
  proof (induction ps arbitrary: out)
    case (Cons x xs)
    then show ?case using keeps [of "keep_workflow (g x) out" xs] by auto
  qed simp
qed

lemma reach_env_adds:
  assumes names: "distinct (map pd_name (es_plugins E))"
    and res: "resolve CapProvisioning kind (reconcile_providers verified E teardown env) (in_scope_bindings (xe_bindings E) env) = resolved q w"
  shows "w \<in> set (reach_env E teardown kind env out)"
proof -
  note d = reconcile_names [OF names]
  obtain p where p: "p \<in> set (simulated_providers E teardown env)" "get0 (pv_workflows p) kind = w" "w \<noteq> []"
    using resolved_offered [OF d res] reconcile_fewer by blast
  show ?thesis
  proof (cases "cap_result.cr_status (simulate E teardown kind env) = StatusResolved")
    case True
    then obtain q' w' where full: "simulate E teardown kind env = resolved q' w'" using resolved_form unfolding simulate_def by blast
    with resolve_fewer_same [OF d d reconcile_fewer [unfolded all_verified_simulated] _ res]
    have "w = w'" by (simp add: simulate_def all_verified_simulated)
    with full p(3) show ?thesis by (simp add: reach_env_def resolved_def)
  next
    case False
    with fold_keeps [of p "simulated_providers E teardown env" "\<lambda>p. get0 (pv_workflows p) kind" out] p
    show ?thesis by (simp add: reach_env_def)
  qed
qed

lemma reach_envs_adds:
  assumes "env \<in> set envs" and "\<And>out. w \<in> set (reach_env E teardown kind env out)"
  shows "w \<in> set (fold (reach_env E teardown kind) envs out)"
proof -
  have keeps: "set out \<subseteq> set (fold (reach_env E teardown kind) envs out)" for envs out
  proof (induction envs arbitrary: out)
    case (Cons e es)
    then show ?case using reach_env_keeps [of out E teardown kind e] by (simp, blast)
  qed simp
  from assms(1) show ?thesis
  proof (induction envs arbitrary: out)
    case (Cons e es)
    then show ?case using assms(2) keeps [of "reach_env E teardown kind e out" es] by auto
  qed simp
qed

lemma reconcile_all_verified:
  assumes "set (all_verified E) \<subseteq> set verified"
  shows "reconcile_providers verified E teardown env = simulated_providers E teardown env"
proof -
  have "provider_counts ''actuator/'' verified env cls f a = provider_counts ''actuator/'' (all_verified E) env cls f a"
    if "a \<in> set (es_actuators E)" for a cls f
    using assms that by (auto simp: provider_counts_def all_verified_def)
  moreover have "provider_counts ''connector/'' verified env cls f c = provider_counts ''connector/'' (all_verified E) env cls f c"
    if "c \<in> set (es_connectors E)" for c cls f
    using assms that by (auto simp: provider_counts_def all_verified_def)
  ultimately show ?thesis
    unfolding all_verified_simulated reconcile_providers_def assemble_provisioning_providers_def assemble_teardown_providers_def
    by (simp cong: filter_cong)
qed

lemma reachable_builders_sound':
  assumes "distinct (map pd_name (es_plugins E))"
    and "resolve CapProvisioning kind (reconcile_providers verified E teardown env) (in_scope_bindings (xe_bindings E) env) = resolved q w"
    and "env \<in> set (intent_environments E i) \<or> env = [] \<and> set (all_verified E) \<subseteq> set verified"
  shows "w \<in> set (reachable_builders E i kind teardown)"
  using assms(3)
proof
  assume "env \<in> set (intent_environments E i)"
  then have "w \<in> set (fold (reach_env E teardown kind) (intent_environments E i) [])"
    by (rule reach_envs_adds) (rule reach_env_adds [OF assms(1,2)])
  then show ?thesis by (simp add: reachable_builders_def Let_def)
next
  assume unscoped: "env = [] \<and> set (all_verified E) \<subseteq> set verified"
  with assms(2) have "simulate E teardown kind [] = resolved q w" by (simp add: simulate_def reconcile_all_verified)
  moreover have "w \<noteq> []" using resolved_offered [OF reconcile_names [OF assms(1)] assms(2)] by blast
  ultimately show ?thesis by (simp add: reachable_builders_def resolved_def)
qed


section \<open>What an accepted builder takes\<close>

definition builder_takes :: "'a schema_lib_scheme \<Rightarrow> workflow_decl \<Rightarrow> 'b intent_doc_scheme \<Rightarrow> jmap \<Rightarrow> string list \<Rightarrow> bool" where
  "builder_takes L w i supplied declared \<longleftrightarrow> input_names L (wd_inputs w) = Inr declared \<and> declared \<noteq> [] \<and>
     set declared \<subseteq> set (keys supplied) \<and> (\<forall>k \<in> {''projectKind'', ''labels''}. k \<in> set (keys supplied) \<longrightarrow> k \<in> set declared) \<and>
     has_approval_gate w \<and> unsupplied_params w i = [] \<and> unbound_inputs w (sort declared) = [] \<and>
     (\<exists>req. required_names L (wd_inputs w) = Inr req \<and> set req \<subseteq> set (keys supplied))"

lemma advertised_takes:
  assumes "check_advertised_workflow L what w i supplied = None"
  shows "\<exists>declared. builder_takes L w i supplied declared"
proof -
  from assms obtain declared where d: "input_names L (wd_inputs w) = Inr declared"
    by (auto simp: check_advertised_workflow_def split: sum.splits)
  note A = assms [unfolded check_advertised_workflow_def d sum.case]
  from A have ne: "declared \<noteq> []" and sup: "filter (\<lambda>k. k \<notin> set (keys supplied)) (sort declared) = []"
    by (auto split: if_split_asm list.split_asm)
  note A = A [unfolded sup list.case]
  from A ne have crit: "filter (\<lambda>k. k \<in> set (keys supplied) \<and> k \<notin> set declared) [''projectKind'', ''labels''] = []"
    by (auto simp del: filter.simps split: list.split_asm)
  note A = A [unfolded crit list.case]
  from A ne have "unbound_inputs w (sort declared) = []" "unsupplied_params w i = []" "has_approval_gate w"
    and "\<exists>req. required_names L (wd_inputs w) = Inr req \<and> filter (\<lambda>r. r \<notin> set (keys supplied)) req = []"
    by (auto split: if_split_asm option.split_asm sum.split_asm list.split_asm)
  then show ?thesis using d ne sup crit
    by (auto simp: builder_takes_def filter_empty_conv split: if_split_asm)
qed

lemma check_build_facts:
  assumes "check_provisioning_build_inputs L E = None"
  shows "\<And>p k w. p \<in> set (es_plugins E) \<Longrightarrow> (k, w) \<in> set (pd_provisions p) \<union> set (pd_decommissions p) \<union> set (pd_remediates p) \<Longrightarrow>
      workflow_named E w \<noteq> None"
    and "\<And>i. i \<in> set (xe_intents E) \<Longrightarrow> check_intent_builds L E i = None"
  using assms by (fastforce simp: check_provisioning_build_inputs_def dangling_def split: option.splits if_splits)+

lemma intent_builds_take:
  assumes "check_intent_builds L E i = None" and "build_probe i = Inr (Some (supplied, kind))"
  shows "w \<in> set (reachable_builders E i kind False) \<Longrightarrow> \<exists>declared. builder_takes L (workflow_or_zero E w) i supplied declared"
    and "w \<in> set (reachable_builders E i kind True) \<Longrightarrow>
      \<exists>declared. builder_takes L (workflow_or_zero E w) i (teardown_probe (it_name i) supplied) declared"
  using assms advertised_takes [of L "it_name i" "workflow_or_zero E w" i]
  by (auto simp: check_intent_builds_def split: option.splits)

lemma keys_build_launch:
  "set (keys (build_launch_params p d)) = {''instance'', ''ordinal'', ''projectKind'', ''labels'', ''placement'', ''params''}"
  by (simp add: build_launch_params_eq)

lemma keys_singleton_launch:
  "set (keys (singleton_launch_params si d)) =
    {''singleton'', ''name'', ''intentKind'', ''projectKind'', ''labels'', ''placement'', ''params''}"
  by (auto simp: singleton_launch_params_def Let_def)

lemma keys_filter_declared:
  "declared \<noteq> [] \<Longrightarrow> set (keys (filter_to_declared ps declared)) = set (keys ps) \<inter> set declared"
  by (force simp: filter_to_declared_def)

lemma map_of_filter_declared:
  "declared \<noteq> [] \<Longrightarrow> map_of (filter_to_declared ps declared) k = (if k \<in> set declared then map_of ps k else None)"
  by (induction ps) (auto simp: filter_to_declared_def)

lemma map_filter_concat: "List.map_filter g (concat xss) = concat (map (List.map_filter g) xss)"
  by (induction xss) (simp_all add: map_filter_def)

lemma walk_paths: "walk (\<lambda>s. List.map_filter g (token_paths s)) v = List.map_filter g (paths v)"
proof (induction v)
  case (JArr xs)
  then have "map (walk (\<lambda>s. List.map_filter g (token_paths s))) xs = map (\<lambda>x. List.map_filter g (paths x)) xs" by simp
  then show ?case by (simp only: walk.simps paths.simps map_filter_concat list.map_comp comp_def)
next
  case (JObj m)
  then have "map (\<lambda>(k, v). walk (\<lambda>s. List.map_filter g (token_paths s)) v) m = map (\<lambda>(k, v). List.map_filter g (paths v)) m"
    by (fastforce intro: snds.intros)
  then show ?case by (simp only: walk.simps paths.simps map_filter_concat list.map_comp comp_def case_prod_unfold)
qed (simp_all add: map_filter_def)

lemma param_path_walked:
  assumes "s \<in> set (wd_steps w)" and "path \<in> set (paths (JObj (ws_params s)))"
    and "split_on (CHR ''.'') path = ''launch'' # ''params'' # k # rest"
  shows "k \<in> set (walk_steps (walk launch_param_fields) w)"
proof -
  have f: "launch_param_fields = (\<lambda>s. List.map_filter (\<lambda>p. case split_on (CHR ''.'') p of
       n # f # g # _ \<Rightarrow> if n = ''launch'' \<and> f = ''params'' then Some g else None | _ \<Rightarrow> None) (token_paths s))"
    by (simp add: launch_param_fields_def fun_eq_iff)
  have "k \<in> set (walk launch_param_fields (JObj (ws_params s)))"
    unfolding f walk_paths using assms(2,3) by (force simp: map_filter_def)
  with assms(1) show ?thesis by (auto simp: walk_steps_def)
qed

lemma unsupplied_none:
  assumes "unsupplied_params w i = []" and "k \<in> set (walk_steps (walk launch_param_fields) w)"
  shows "k \<in> set (keys (spec_params i))"
proof -
  have "set (unsupplied_params w i) = {k \<in> set (walk_steps (walk launch_param_fields) w). k \<notin> set (keys (spec_params i))}"
    by (simp add: unsupplied_params_def)
  with assms show ?thesis by auto
qed

lemma from_intent_params:
  assumes "from_intent i = Some p"
  shows "empty_if_nil (cs_params (in_spec p)) = spec_params i" and "in_name p = it_name i"
  using assms
  by (auto simp: from_intent_def Let_def bind_eq_Some_conv go_params_def spec_params_def empty_if_nil_def
      split: option.splits json.splits)

lemma lookup_launch:
  assumes "split_on (CHR ''.'') path = ''launch'' # segs"
  shows "lookup path [(''launch'', m)] = lookup_segs path segs (JObj m)"
  using assms by (simp add: lookup_def)

text \<open>
  What the check promises of a build: the Workflow is declared, what the reconcile sends of an instance is exactly the inputs
  it declares, the correlation labels among them, it has a Gate, and a Step that binds a launch input, or a key of its opaque
  \<open>params\<close>, finds it there.
\<close>

definition launchable :: "'a schema_lib_scheme \<Rightarrow> workflow_decl \<Rightarrow> jmap \<Rightarrow> bool" where
  "launchable L w sent \<longleftrightarrow> (\<exists>declared. input_names L (wd_inputs w) = Inr declared \<and> set (keys sent) = set declared) \<and>
     ''labels'' \<in> set (keys sent) \<and> has_approval_gate w \<and>
     (\<forall>s \<in> set (wd_steps w). \<forall>path \<in> set (paths (JObj (ws_params s))). \<forall>f k.
        split_on (CHR ''.'') path \<in> {[''launch'', f], [''launch'', ''params'', k]} \<longrightarrow>
        (\<exists>v. lookup path [(''launch'', sent)] = Inr v))"

lemma accepted_launch_field:
  assumes "validate_workflow C p ids w = None" and "input_names C (wd_inputs w) = Inr declared"
    and "s \<in> set (wd_steps w)" and "path \<in> set (paths (JObj (ws_params s)))" and "split_on (CHR ''.'') path = ''launch'' # f # rest"
  shows "f \<in> set declared"
proof -
  from assms(1,2) have "check_steps C p ids declared (wd_steps w) [] = None"
    by (auto simp: validate_workflow_def split: if_splits sum.splits simp del: first_err.simps)
  from check_steps_names [OF this] assms(3) have "step_error_of C p ids declared s = None" by blast
  then have "check_launch_fields declared (ws_name s) (ws_params s) = None"
    by (auto simp: step_error_of_def simp del: first_err.simps)
  with assms(4) have "check_launch_field declared (ws_name s) path = None" by (simp add: check_launch_fields_def del: paths.simps)
  with assms(5) show ?thesis by (simp add: check_launch_field_def split: if_split_asm)
qed

lemma takes_launchable:
  assumes takes: "builder_takes C w i supplied declared" and valid: "validate_workflow C p ids w = None"
    and params: "map_of supplied ''params'' = Some (JObj (spec_params i))" and labels: "''labels'' \<in> set (keys supplied)"
  shows "launchable C w (filter_to_declared supplied declared)"
proof -
  let ?sent = "filter_to_declared supplied declared"
  from takes have d: "input_names C (wd_inputs w) = Inr declared" and ne: "declared \<noteq> []"
    and sub: "set declared \<subseteq> set (keys supplied)" and un: "unsupplied_params w i = []"
    and rest: "''labels'' \<in> set declared" "has_approval_gate w" using labels by (auto simp: builder_takes_def)
  have keys: "set (keys ?sent) = set declared" unfolding keys_filter_declared [OF ne] using sub by blast
  have "\<exists>v. lookup path [(''launch'', ?sent)] = Inr v"
    if s: "s \<in> set (wd_steps w)" and path: "path \<in> set (paths (JObj (ws_params s)))"
      and shape: "split_on (CHR ''.'') path \<in> {[''launch'', f], [''launch'', ''params'', k]}" for s path f k
    using shape
  proof (elim insertE)
    assume sp: "split_on (CHR ''.'') path = [''launch'', f]"
    have "f \<in> set declared" by (rule accepted_launch_field [OF valid d s path sp])
    with keys have "map_of ?sent f \<noteq> None" by (simp add: map_of_eq_None_iff)
    with lookup_launch [OF sp, of ?sent] show ?thesis by auto
  next
    assume sp: "split_on (CHR ''.'') path = [''launch'', ''params'', k]"
    have "''params'' \<in> set declared" by (rule accepted_launch_field [OF valid d s path sp])
    then have "map_of ?sent ''params'' = Some (JObj (spec_params i))" using ne params by (simp add: map_of_filter_declared)
    moreover have "map_of (spec_params i) k \<noteq> None"
      using unsupplied_none [OF un param_path_walked [OF s path sp]] by (simp add: map_of_eq_None_iff)
    ultimately show ?thesis using lookup_launch [OF sp, of ?sent] by auto
  qed simp
  with d keys rest show ?thesis by (auto simp: launchable_def)
qed

definition declared_inputs :: "'a schema_lib_scheme \<Rightarrow> 'b estate_scheme \<Rightarrow> string \<Rightarrow> string list" where
  "declared_inputs L E w =
     (case workflow_named E w of
        None \<Rightarrow> []
      | Some flow \<Rightarrow> (case input_names L (wd_inputs flow) of Inl _ \<Rightarrow> [] | Inr names \<Rightarrow> names))"

lemma resolved_builder_declared:
  assumes "distinct (map pd_name (es_plugins E))" and "check_provisioning_build_inputs L E = None"
    and "resolve CapProvisioning kind (reconcile_providers verified E teardown env) bs = resolved q w"
  shows "workflow_named E w \<noteq> None"
proof -
  obtain p where p: "p \<in> set (reconcile_providers verified E teardown env)" "get0 (pv_workflows p) kind = w" "w \<noteq> []"
    using resolved_offered [OF reconcile_names [OF assms(1)] assms(3)] by blast
  from p(1) have "\<exists>pl \<in> set (es_plugins E). pv_workflows p \<in> {pd_provisions pl, pd_decommissions pl}"
    by (auto simp: reconcile_providers_def assemble_provisioning_providers_def assemble_teardown_providers_def offers_def es_plugins_def
        split: if_splits)
  then obtain pl where "pl \<in> set (es_plugins E)" "pv_workflows p \<in> {pd_provisions pl, pd_decommissions pl}" by blast
  moreover have "(kind, w) \<in> set (pv_workflows p)"
    using p(2,3) by (auto simp: get0_def map_of_SomeD split: option.splits)
  ultimately show ?thesis using check_build_facts(1) [OF assms(2), of pl kind w] by auto
qed

lemma resolved_build_launchable:
  assumes names: "distinct (map pd_name (es_plugins E))" and ok: "check_provisioning_build_inputs C E = None"
    and valid: "\<And>flow. flow \<in> set (es_workflows E) \<Longrightarrow> validate_workflow C p ids flow = None"
    and i: "i \<in> set (xe_intents E)" and probe: "build_probe i = Inr (Some (supplied, kind))"
    and res: "resolve CapProvisioning kind (reconcile_providers verified E False env) (in_scope_bindings (xe_bindings E) env) = resolved q w"
    and env: "env \<in> set (intent_environments E i) \<or> env = [] \<and> set (all_verified E) \<subseteq> set verified"
    and same: "set (keys params) = set (keys supplied)" and pars: "map_of params ''params'' = Some (JObj (spec_params i))"
    and labels: "''labels'' \<in> set (keys params)"
  shows "\<exists>flow. workflow_named E w = Some flow \<and> launchable C flow (filter_to_declared params (declared_inputs C E w))"
proof -
  from resolved_builder_declared [OF names ok res] obtain flow where flow: "workflow_named E w = Some flow" by blast
  then have "flow \<in> set (es_workflows E)" unfolding workflow_named_def find_Some_iff by (metis length_rev nth_mem set_rev)
  then have v: "validate_workflow C p ids flow = None" by (rule valid)
  have "w \<in> set (reachable_builders E i kind False)" by (rule reachable_builders_sound' [OF names res env])
  with intent_builds_take(1) [OF check_build_facts(2) [OF ok i] probe] flow
  obtain declared where "builder_takes C flow i supplied declared" by (fastforce simp: workflow_or_zero_def)
  then have takes: "builder_takes C flow i params declared" unfolding builder_takes_def same .
  then have "declared_inputs C E w = declared" using flow by (simp add: declared_inputs_def builder_takes_def)
  with takes_launchable [OF takes v pars labels] flow show ?thesis by simp
qed

text \<open>
  In an estate the loader accepts, whatever resolves as the builder of an Intent in a checked environment can be launched: what
  the reconcile sends of any instance is exactly what the Workflow declares, the Workflow has a Gate, and no Step of it binds
  a launch input or a key of the provider's parameters that is not there.
\<close>

theorem accepted_build_is_launchable:
  assumes "distinct (map pd_name (es_plugins E))" and "check_provisioning_build_inputs C E = None"
    and "\<forall>flow \<in> set (es_workflows E). validate_workflow C p ids flow = None"
    and "i \<in> set (xe_intents E)" and "it_kind i = IntentCompute" and "from_intent i = Some pin"
    and "resolve_provisioning verified E env CapProvisioning ''Compute'' = resolved q w"
    and "env \<in> set (intent_environments E i) \<or> env = [] \<and> set (all_verified E) \<subseteq> set verified"
  shows "\<exists>flow. workflow_named E w = Some flow \<and>
    launchable C flow (filter_to_declared (build_launch_params pin d) (declared_inputs C E w))"
proof (rule resolved_build_launchable [OF assms(1,2) _ assms(4) _ _ assms(8)])
  show "build_probe i = Inr (Some (build_launch_params pin (probe_instance pin), ''Compute''))"
    using assms(5,6) by (simp add: build_probe_def)
  show "resolve CapProvisioning ''Compute'' (reconcile_providers verified E False env) (in_scope_bindings (xe_bindings E) env) = resolved q w"
    using assms(7) by (simp add: resolve_provisioning_def reconcile_providers_def)
  show "map_of (build_launch_params pin d) ''params'' = Some (JObj (spec_params i))"
    using from_intent_params [OF assms(6)] by (simp add: build_launch_params_eq)
  show "set (keys (build_launch_params pin d)) = set (keys (build_launch_params pin (probe_instance pin)))"
    and "''labels'' \<in> set (keys (build_launch_params pin d))" unfolding keys_build_launch by simp_all
  show "validate_workflow C p ids flow = None" if "flow \<in> set (es_workflows E)" for flow using assms(3) that by blast
qed

section \<open>Examples\<close>

text \<open>A library that knows the input schemas by the name of the document: the properties, and the required names.\<close>

definition input_shape :: "string list \<Rightarrow> string list \<Rightarrow> jmap" where
  "input_shape props req = [(''type'', JStr ''object''), (''additionalProperties'', JBool False),
     (''properties'', JObj (map (\<lambda>p. (p, JObj [])) props)), (''required'', JArr (map JStr req))]"

definition shape_named :: "string \<Rightarrow> jmap" where
  "shape_named d =
     (if d = ''build-inputs'' then input_shape [''projectKind'', ''labels'', ''params''] [''labels'']
      else if d = ''tear-inputs'' then input_shape [''instance''] []
      else if d = ''placed-inputs'' then input_shape [''projectKind'', ''labels'', ''placement''] []
      else input_shape [''projectKind'', ''labels''] [''instance''])"

definition fits_shape :: "jmap \<Rightarrow> json \<Rightarrow> bool" where
  "fits_shape shape v = (case v of
       JObj m \<Rightarrow> list_all (\<lambda>k. k \<in> set (keys (properties_of shape))) (keys m) \<and>
         (case string_items (map_of shape ''required'') of None \<Rightarrow> False | Some req \<Rightarrow> list_all (\<lambda>r. r \<in> set (keys m)) req)
     | _ \<Rightarrow> False)"

definition web_teardown :: jmap where
  "web_teardown = teardown_launch_params ''web'' \<lparr>inst_name = ''web-03'', inst_intent = ''web'', inst_ordinal = 3, inst_zone = [],
     inst_subnet_ref = []\<rparr> ''aws.instance'' ''i-3''"

definition estate_lib :: contract_lib where
  "estate_lib = \<lparr>unmarshal = (\<lambda>d. Some (JObj (shape_named d))), marshal = (\<lambda>v. Inr (if v = JObj web_teardown then ''web'' else [])),
     fmt_float = (\<lambda>_. []), compile_ad_hoc = (\<lambda>_ d. Some (fits_shape (shape_named d))),
     reparse = (\<lambda>raw. if raw = ''web'' then Some (JObj web_teardown) else None),
     contract_of = (\<lambda>_. Some (\<lambda>_. True)), contract_doc = (\<lambda>_. None)\<rparr>"

definition approval :: "string list \<Rightarrow> wstep" where
  "approval needs = (blank_step ''approve'' needs [])\<lparr>ws_view_name := [], ws_actuator := [],
     ws_gate := Some \<lparr>gs_approvers = \<lparr>ga_principals = [''alice''], ga_teams = []\<rparr>, gs_timeout_seconds = 0, gs_threshold = 1\<rparr>\<rparr>"

definition acting :: "string list \<Rightarrow> jmap \<Rightarrow> wstep" where
  "acting needs ps = (blank_step ''act'' needs [])\<lparr>ws_params := ps\<rparr>"

definition forwarding :: "string \<Rightarrow> string \<times> json" where
  "forwarding f = (f, JStr (''{{.launch.'' @ f @ ''}}''))"

definition build_flow :: workflow_decl where
  "build_flow = \<lparr>wd_name = ''build'', wd_inputs = ''build-inputs'', wd_steps = [approval [],
     acting [''approve''] [forwarding ''projectKind'', forwarding ''labels'', forwarding ''params.size'']]\<rparr>"

definition tear_flow :: workflow_decl where
  "tear_flow = \<lparr>wd_name = ''tear'', wd_inputs = ''tear-inputs'', wd_steps = [approval [],
     acting [''approve''] [forwarding ''instance'']]\<rparr>"

definition plugin :: "string \<Rightarrow> string gomap \<Rightarrow> string gomap \<Rightarrow> string list \<Rightarrow> plugin_decl" where
  "plugin n bs ts envs = \<lparr>pd_name = n, pd_provides = [''provisioning''], pd_provisions = bs, pd_decommissions = ts,
     pd_remediates = [], pd_environments = envs, pd_address = [], pd_facet_namespaces = [], pd_substrate = [], pd_identity_schemes = []\<rparr>"

definition web_intent :: "string list \<Rightarrow> intent_decl" where
  "web_intent envs = \<lparr>it_name = ''fleet'', it_version = 0, it_kind = IntentCompute,
     it_spec = [(''count'', JInt 2), (''namePrefix'', JStr ''web''), (''projectKind'', JStr ''host''), (''params'', JObj [(''size'', JStr ''m'')])],
     it_on_remove = ''remove'', id_environments = envs\<rparr>"

definition build_estate_of :: "workflow_decl list \<Rightarrow> plugin_decl list \<Rightarrow> intent_decl list \<Rightarrow> build_estate" where
  "build_estate_of ws acts is = \<lparr>es_workflows = ws, es_actuators = acts, es_connectors = [], xe_intents = is, xe_environments = [],
     xe_bindings = [], xe_blueprints = [], xe_assignments = [], xe_triggers = []\<rparr>"

definition tofu_estate :: build_estate where
  "tofu_estate = build_estate_of [build_flow, tear_flow]
     [plugin ''opentofu'' [(''Compute'', ''build'')] [(''Compute'', ''tear'')] []] [web_intent []]"

lemma tofu_estate_accepted:
  "check_provisioning_build_inputs estate_lib tofu_estate = None"
  "list_all (\<lambda>w. validate_workflow estate_lib toy_pdp [] w = None) (es_workflows tofu_estate)"
  by code_simp+

lemma tofu_resolves:
  "resolve_provisioning [''actuator/opentofu''] tofu_estate [] CapProvisioning ''Compute'' = resolved ''opentofu'' ''build''"
  by code_simp

lemma tofu_names: "distinct (map pd_name (es_plugins tofu_estate))"
  by (simp add: tofu_estate_def build_estate_of_def es_plugins_def)


lemma accepted_build_is_launchable_witness:
  "''labels'' \<in> set (keys (filter_to_declared (build_launch_params (the (from_intent (web_intent [])))
     (hd (desired (the (from_intent (web_intent [])))))) (declared_inputs estate_lib tofu_estate ''build'')))"
proof -
  have i: "web_intent [] \<in> set (xe_intents tofu_estate)" by (simp add: tofu_estate_def build_estate_of_def)
  have k: "it_kind (web_intent []) = IntentCompute" by (simp add: web_intent_def)
  have "from_intent (web_intent []) \<noteq> None" by code_simp
  then have f: "from_intent (web_intent []) = Some (the (from_intent (web_intent [])))" by simp
  have v: "\<forall>flow \<in> set (es_workflows tofu_estate). validate_workflow estate_lib toy_pdp [] flow = None"
    using tofu_estate_accepted(2) by (simp add: list_all_iff)
  from accepted_build_is_launchable [OF tofu_names tofu_estate_accepted(1) v i k f tofu_resolves]
  show ?thesis by (simp add: all_verified_def tofu_estate_def build_estate_of_def plugin_def launchable_def) blast
qed

section \<open>What the checks let through\<close>

text \<open>
  Treating every provider as verified does not only widen.  An unscoped daemon with one of two providers verified resolves a
  builder that the simulation, which sees both and finds them ambiguous, leaves out.
\<close>

definition two_sites :: build_estate where
  "two_sites = build_estate_of [build_flow] [plugin ''a'' [(''Compute'', ''a-build'')] [] [''dev''], plugin ''b'' [(''Compute'', ''b-build'')] [] [''prod'']]
     [web_intent [''dev'']]"

lemma partly_verified_escapes:
  "resolve_provisioning [''actuator/b''] two_sites [] CapProvisioning ''Compute'' = resolved ''b'' ''b-build'' \<and>
   reachable_builders two_sites (web_intent [''dev'']) ''Compute'' False = [''a-build'']"
  by code_simp

text \<open>
  An estate that declares no environments is simulated only for the unscoped daemon, though nothing keeps a daemon from
  running in one.
\<close>

lemma undeclared_environment_escapes:
  "resolve_provisioning [''actuator/a'', ''actuator/b''] two_sites ''dev'' CapProvisioning ''Compute'' = resolved ''a'' ''a-build'' \<and>
   xe_environments two_sites = [] \<and> reachable_builders two_sites (web_intent []) ''Compute'' False = []"
  by code_simp

text \<open>
  The check asks that a required name be one the reconcile supplies, not one that survives the filter: a name that is required
  without being a property is dropped, and every launch is refused.
\<close>

definition odd_flow :: workflow_decl where
  "odd_flow = \<lparr>wd_name = ''odd'', wd_inputs = ''odd-inputs'', wd_steps = [approval [],
     acting [''approve''] [forwarding ''projectKind'', forwarding ''labels'']]\<rparr>"

definition probe_params :: jmap where
  "probe_params = build_launch_params (the (from_intent (web_intent []))) (probe_instance (the (from_intent (web_intent []))))"

lemma required_input_is_dropped:
  "check_advertised_workflow estate_lib ''fleet'' odd_flow (web_intent []) probe_params = None \<and>
   required_names estate_lib (wd_inputs odd_flow) = Inr [''instance''] \<and>
   ''instance'' \<notin> set (keys (filter_to_declared probe_params [''projectKind'', ''labels'']))"
  by code_simp

text \<open>
  A teardown launch is not filtered to the inputs of the Workflow.  The check accepts one that declares the instance alone;
  its closed schema refuses what the reconcile sends.
\<close>

lemma accepted_teardown_is_refused:
  "check_advertised_workflow estate_lib ''fleet'' tear_flow (web_intent []) (teardown_probe ''fleet'' probe_params) = None \<and>
   resolve_launch_inputs estate_lib ''tear'' ''tear-inputs'' web_teardown = Inl Violates"
proof
  show "check_advertised_workflow estate_lib ''fleet'' tear_flow (web_intent []) (teardown_probe ''fleet'' probe_params) = None"
    by code_simp
  show "resolve_launch_inputs estate_lib ''tear'' ''tear-inputs'' web_teardown = Inl Violates" by code_simp
qed

text \<open>A Gate anywhere in the Workflow is enough: the Step that builds runs beside it, without waiting.\<close>

definition beside_flow :: workflow_decl where
  "beside_flow = \<lparr>wd_name = ''beside'', wd_inputs = ''build-inputs'', wd_steps = [approval [],
     acting [] [forwarding ''projectKind'', forwarding ''labels'', forwarding ''params.size'']]\<rparr>"

lemma gate_beside_the_build:
  "check_advertised_workflow estate_lib ''fleet'' beside_flow (web_intent []) probe_params = None \<and>
   validate_workflow estate_lib toy_pdp [] beside_flow = None \<and>
   state_of (dg_state (dag_start (wd_steps beside_flow))) ''act'' = Running"
proof (intro conjI)
  show "check_advertised_workflow estate_lib ''fleet'' beside_flow (web_intent []) probe_params = None" by code_simp
  show "validate_workflow estate_lib toy_pdp [] beside_flow = None" by code_simp
  show "state_of (dg_state (dag_start (wd_steps beside_flow))) ''act'' = Running" by code_simp
qed

text \<open>A binding inside \<open>placement\<close> is not checked: a name that is not there fails at the launch, after the approval.\<close>

definition placed_flow :: workflow_decl where
  "placed_flow = \<lparr>wd_name = ''placed'', wd_inputs = ''placed-inputs'', wd_steps = [approval [],
     acting [''approve''] [forwarding ''projectKind'', forwarding ''labels'', forwarding ''placement.zone'']]\<rparr>"

lemma placement_binding_is_unchecked:
  "check_advertised_workflow estate_lib ''fleet'' placed_flow (web_intent []) probe_params = None \<and>
   lookup ''launch.placement.zone'' [(''launch'', probe_params)] = Inl (UnknownField ''launch.placement.zone'')"
proof
  show "check_advertised_workflow estate_lib ''fleet'' placed_flow (web_intent []) probe_params = None" by code_simp
  show "lookup ''launch.placement.zone'' [(''launch'', probe_params)] = Inl (UnknownField ''launch.placement.zone'')" by code_simp
qed

text \<open>A Connector that remediates is assembled without its substrate, so a binding to that substrate never finds it.\<close>

definition issuer :: plugin_decl where
  "issuer = \<lparr>pd_name = ''vault'', pd_provides = [''certificate''], pd_provisions = [], pd_decommissions = [],
     pd_remediates = [(''Certificate'', ''cert-issue'')], pd_environments = [], pd_address = [], pd_facet_namespaces = [],
     pd_substrate = ''aws'', pd_identity_schemes = []\<rparr>"

definition aws_certificates :: capability_binding where
  "aws_certificates = \<lparr>cb_name = ''aws'', cb_entries = [\<lparr>be_capability = ''certificate'', be_provider = [], be_intent_kind = [],
     be_substrate = ''aws''\<rparr>], cb_environments = []\<rparr>"

lemma remediating_connector_has_no_substrate:
  "resolve ''certificate'' ''Certificate'' (assemble_remediation_providers [''actuator/vault''] [issuer] [] [] ''certificate'')
     [aws_certificates] = resolved ''vault'' ''cert-issue'' \<and>
   cap_result.cr_status (resolve ''certificate'' ''Certificate''
     (assemble_remediation_providers [''connector/vault''] [] [issuer] [] ''certificate'') [aws_certificates]) = StatusPending"
  by code_simp

text \<open>
  A route that remediates through a capability has no Workflow name until the compile binds one, and then owns the namespace
  it manages.  The check of the write scopes counts only routes that name a Workflow, so it refuses the estate.
\<close>

definition cert_route :: blueprint_route where
  "cert_route = \<lparr>br_match = [], br_observe = \<lparr>fe_namespace = ''cert.expiry'', fe_qualifier = [], fe_path = [], fe_equals = [],
     fe_contains = [], fe_not_before = []\<rparr>, br_claim = ''exclusive'', br_remediation_workflow = [],
     br_remediation_capability = ''certificate'', br_remediation_params = []\<rparr>"

definition cert_blueprint :: blueprint_decl where
  "cert_blueprint = \<lparr>bp_name = ''tls'', bp_version = 1, bp_for = ''Intent/Certificate'', bp_defaults = [], bp_routes = [cert_route],
     bp_severity = [], bp_damping = 0, bp_remove_workflow = [], bp_remove_params = [], bd_delivers = []\<rparr>"

definition cert_flow :: workflow_decl where
  "cert_flow = \<lparr>wd_name = ''cert-issue'', wd_inputs = [], wd_steps = [(acting [] [])\<lparr>ws_facet_write_scope := [''cert.expiry'']\<rparr>]\<rparr>"

definition cert_estate :: build_estate where
  "cert_estate = (build_estate_of [cert_flow] [issuer] [])\<lparr>xe_blueprints := [cert_blueprint]\<rparr>"

lemma capability_owner_is_refused:
  "check_facet_write_scope_owners cert_estate = Some (Unowned [(''workflow cert-issue step act'', ''cert.expiry'')]) \<and>
   map_option br_remediation_workflow (case bind_route
       (Some (\<lambda>cls kind. Some (resolve_remediation [''actuator/vault''] cert_estate [] cls kind))) ''Intent/Certificate'' (0, cert_route)
     of Inr r \<Rightarrow> Some r | Inl _ \<Rightarrow> None) = Some ''cert-issue''"
  by code_simp

end
