(* ===== verification/ProvisionPass.thy ===== *)
theory ProvisionPass
  imports BuildCheck
begin

text \<open>
  The provisioning side of the reconcile (\<open>reconcileProvisioning\<close>, \<open>reconcileDecommission\<close> and \<open>reconcilePlacementDrift\<close> of
  \<open>core/internal/desiredstate/controller.go\<close>) over the graph it reads and the Findings it keeps
  (\<open>core/internal/graph/provisionstore.go\<close>, \<open>decommissionstore.go\<close>, \<open>placementstore.go\<close>).  The locale \<open>finding_sync\<close> is the
  contract of the three pairs of store operations: what is live after a pass is what it wrote.
\<close>

section \<open>The graph\<close>

text \<open>
  An Entity as far as these queries read it: its labels, its identities, the names of the live subnets its \<open>placed-in\<close> edges
  reach.
\<close>

record unit_row =
  ur_kind :: string
  ur_labels :: "string gomap"
  ur_deleted :: bool
  ur_identities :: "(string \<times> string) list"
  ur_placed_in :: "string list"

definition labelled :: "string \<Rightarrow> unit_row list \<Rightarrow> (string \<times> unit_row) list" where
  "labelled label rows = List.map_filter (\<lambda>u. if ur_deleted u then None else map_option (\<lambda>n. (n, u)) (map_of (ur_labels u) label)) rows"

definition provisioned :: "string \<Rightarrow> unit_row list \<Rightarrow> string list" where
  "provisioned label rows = remdups (filter (\<lambda>n. n \<noteq> []) (map fst (labelled label rows)))"

definition add_identity :: "string \<times> string \<Rightarrow> string gomap \<Rightarrow> string gomap" where
  "add_identity = (\<lambda>(scheme, v) m. if scheme = [] \<or> v = [] then m else aput scheme v m)"

definition identities_of :: "string gomap gomap \<Rightarrow> string \<Rightarrow> string gomap" where
  "identities_of m k = (case map_of m k of None \<Rightarrow> [] | Some ids \<Rightarrow> ids)"

definition singleton_identities :: "unit_row list \<Rightarrow> string gomap gomap" where
  "singleton_identities rows = fold (\<lambda>(key, u) out.
     fold (\<lambda>(scheme, v) out. if key = [] \<or> scheme = [] \<or> v = [] then out
        else aput key (add_identity (scheme, v) (identities_of out key)) out) (ur_identities u) out) (labelled singleton_label rows) []"

record candidate =
  ca_name :: string
  ca_kind :: string
  ca_identity_keys :: "string gomap"

text \<open>The inner join with the identities: an Entity without one has no row.\<close>

definition decommission_candidates :: "unit_row list \<Rightarrow> candidate list" where
  "decommission_candidates rows = map (\<lambda>(n, u). \<lparr>ca_name = n, ca_kind = ur_kind u,
       ca_identity_keys = fold (\<lambda>(scheme, v) m. if scheme = [] then m else aput scheme v m) (ur_identities u) []\<rparr>)
     (filter (\<lambda>(n, u). ur_identities u \<noteq> []) (labelled instance_label rows))"

definition observed_placements :: "string \<Rightarrow> unit_row list \<Rightarrow> string list gomap" where
  "observed_placements label rows = fold (\<lambda>(n, u) out. fold (\<lambda>sub out.
       if n = [] \<or> sub = [] then out
       else aput n (let seen = (case map_of out n of None \<Rightarrow> [] | Some xs \<Rightarrow> xs) in if sub \<in> set seen then seen else seen @ [sub]) out)
     (ur_placed_in u) out) (labelled label rows) []"

section \<open>The Findings\<close>

datatype outcome = Bound string string | Unbound "Capability.reason option" \<comment> \<open>no reason: the resolution could not be read\<close>

datatype identity_error = NoIdentity | ManyIdentities "string list"

datatype finding_detail =
    BuildDetail jmap outcome "perror option"
  | BatchDetail pause
  | TeardownDetail jmap outcome "identity_error option"
  | DriftDetail drift

record pfinding =
  pf_baseline :: string
  pf_target :: string
  pf_framework :: string
  pf_live :: bool
  pf_drifted :: nat
  pf_detail :: finding_detail
  pf_opened_at :: int
  pf_last_observed :: "int option"
  pf_resolved_at :: "int option"
  pf_resolved_reason :: string
  pf_workflow :: "string option"
  pf_params :: "jmap option"
  pf_launch_kind :: "string option"

text \<open>What one write hands the store; the Baseline is the framework and the subject.\<close>

record finding_write =
  fw_subject :: string
  fw_target :: string
  fw_detail :: finding_detail
  fw_workflow :: string
  fw_params :: jmap

definition baseline_of :: "string \<Rightarrow> finding_write \<Rightarrow> string" where
  "baseline_of framework w = framework @ ''/'' @ fw_subject w"

definition null_if_empty :: "'a list \<Rightarrow> 'a list option" where
  "null_if_empty xs = (if xs = [] then None else Some xs)"

definition same_unit :: "string \<Rightarrow> finding_write \<Rightarrow> pfinding \<Rightarrow> bool" where
  "same_unit framework w r \<longleftrightarrow> pf_live r \<and> pf_baseline r = baseline_of framework w \<and> pf_target r = fw_target w"

text \<open>
  The insert with \<open>ON CONFLICT (baseline, target) WHERE status <> 'resolved' DO UPDATE\<close>; \<open>kind\<close> is the launch kind, which a
  Finding without a Workflow does not have.
\<close>

definition launch_kind_of :: "string \<Rightarrow> finding_write \<Rightarrow> string option" where
  "launch_kind_of kind w = (if fw_workflow w = [] then None else Some kind)"

definition refresh_finding :: "string \<Rightarrow> int \<Rightarrow> finding_write \<Rightarrow> pfinding \<Rightarrow> pfinding" where
  "refresh_finding kind clock w r = r\<lparr>pf_detail := fw_detail w, pf_last_observed := Some clock,
     pf_workflow := null_if_empty (fw_workflow w), pf_params := null_if_empty (fw_params w), pf_launch_kind := launch_kind_of kind w\<rparr>"

definition new_finding :: "string \<Rightarrow> string \<Rightarrow> int \<Rightarrow> finding_write \<Rightarrow> pfinding" where
  "new_finding framework kind clock w = \<lparr>pf_baseline = baseline_of framework w, pf_target = fw_target w, pf_framework = framework,
     pf_live = True, pf_drifted = 1, pf_detail = fw_detail w, pf_opened_at = clock, pf_last_observed = None, pf_resolved_at = None,
     pf_resolved_reason = [], pf_workflow = null_if_empty (fw_workflow w), pf_params = null_if_empty (fw_params w),
     pf_launch_kind = launch_kind_of kind w\<rparr>"

definition write_finding :: "string \<Rightarrow> string \<Rightarrow> int \<Rightarrow> finding_write \<Rightarrow> pfinding list \<Rightarrow> pfinding list" where
  "write_finding framework kind clock w rows =
     (if list_ex (same_unit framework w) rows then map (\<lambda>r. if same_unit framework w r then refresh_finding kind clock w r else r) rows
      else rows @ [new_finding framework kind clock w])"

text \<open>The placement statement refreshes the detail alone.\<close>

definition write_drift :: "int \<Rightarrow> finding_write \<Rightarrow> pfinding list \<Rightarrow> pfinding list" where
  "write_drift clock w rows =
     (if list_ex (same_unit ''placement'' w) rows
      then map (\<lambda>r. if same_unit ''placement'' w r then r\<lparr>pf_detail := fw_detail w, pf_last_observed := Some clock\<rparr> else r) rows
      else rows @ [\<lparr>pf_baseline = baseline_of ''placement'' w, pf_target = fw_target w, pf_framework = ''placement'', pf_live = True,
             pf_drifted = 1, pf_detail = fw_detail w, pf_opened_at = clock, pf_last_observed = None, pf_resolved_at = None,
             pf_resolved_reason = [], pf_workflow = None, pf_params = None, pf_launch_kind = None\<rparr>])"

definition retire_finding :: "string \<Rightarrow> int \<Rightarrow> pfinding \<Rightarrow> pfinding" where
  "retire_finding reason clock r = r\<lparr>pf_live := False, pf_resolved_at := Some clock, pf_last_observed := Some clock, pf_drifted := 0,
     pf_resolved_reason := reason\<rparr>"

definition resolve_where :: "string \<Rightarrow> string \<Rightarrow> int \<Rightarrow> (pfinding \<Rightarrow> bool) \<Rightarrow> pfinding list \<Rightarrow> pfinding list" where
  "resolve_where framework reason clock gone rows =
     map (\<lambda>r. if pf_framework r = framework \<and> pf_live r \<and> gone r then retire_finding reason clock r else r) rows"

definition resolve_except :: "string \<Rightarrow> string \<Rightarrow> int \<Rightarrow> (string \<times> string) list \<Rightarrow> pfinding list \<Rightarrow> pfinding list" where
  "resolve_except framework reason clock kept rows =
     resolve_where framework reason clock (\<lambda>r. (pf_baseline r, pf_target r) \<notin> set kept) rows"

definition resolve_drift_except :: "int \<Rightarrow> string list \<Rightarrow> pfinding list \<Rightarrow> pfinding list" where
  "resolve_drift_except clock kept rows =
     resolve_where ''placement'' ''placement-converged'' clock (\<lambda>r. pf_target r \<notin> set kept) rows"

section \<open>The pass\<close>

text \<open>What the pass reads from outside, and which of its reads and writes fail.\<close>

datatype read = ReadInstances | ReadSingletons | ReadProviders | ReadIdentities | ReadCandidates | ReadPlacements

record pass_world =
  pw_env :: string
  pw_verified :: "string list"
  pw_units :: "unit_row list"
  pw_clock :: int
  pw_read_fails :: "read \<Rightarrow> bool"
  pw_write_fails :: "string \<times> string \<Rightarrow> bool"
  pw_resolve_fails :: "string \<Rightarrow> bool"

text \<open>The writes in order; a failed one is logged and not kept.\<close>

definition write_all :: "('w \<Rightarrow> 'r \<Rightarrow> 'r) \<Rightarrow> ('w \<Rightarrow> 'k) \<Rightarrow> ('k \<Rightarrow> bool) \<Rightarrow> 'w list \<Rightarrow> 'r \<Rightarrow> 'r \<times> 'k list" where
  "write_all put key fails ws rows = fold (\<lambda>w (rows, kept). if fails (key w) then (rows, kept) else (put w rows, kept @ [key w])) ws (rows, [])"

definition finding_key :: "string \<Rightarrow> finding_write \<Rightarrow> string \<times> string" where
  "finding_key framework w = (baseline_of framework w, fw_target w)"

text \<open>The Intents of the two provisioning shapes; \<open>None\<close> when one does not decode, which ends the pass.\<close>

fun decode_intents :: "intent_decl list \<Rightarrow> (intent list \<times> singleton_intent list) option" where
  "decode_intents [] = Some ([], [])"
| "decode_intents (i # is) =
     (if it_kind i = IntentCompute then
        Option.bind (from_intent i) (\<lambda>p. map_option (\<lambda>(ps, ss). (p # ps, ss)) (decode_intents is))
      else if it_kind i \<in> set SingletonIntentKinds then
        Option.bind (from_singleton_intent i) (\<lambda>s. map_option (\<lambda>(ps, ss). (ps, s # ss)) (decode_intents is))
      else decode_intents is)"

definition spec_named :: "intent list \<Rightarrow> string \<Rightarrow> intent option" where
  "spec_named ps n = find (\<lambda>p. in_name p = n) (rev ps)"

definition singleton_named :: "singleton_intent list \<Rightarrow> string \<Rightarrow> singleton_intent option" where
  "singleton_named ss n = find (\<lambda>s. si_name s = n) (rev ss)"

definition resolve_kind :: "pass_world \<Rightarrow> 'a build_estate_scheme \<Rightarrow> string \<Rightarrow> cap_result option" where
  "resolve_kind W E kind =
     (if pw_read_fails W ReadProviders then None else Some (resolve_provisioning (pw_verified W) E (pw_env W) CapProvisioning kind))"

definition bound :: "cap_result option \<Rightarrow> bool" where
  "bound r \<longleftrightarrow> (case r of None \<Rightarrow> False | Some x \<Rightarrow> cap_result.cr_status x = StatusResolved)"

definition outcome_of :: "cap_result option \<Rightarrow> outcome" where
  "outcome_of r = (case r of
       None \<Rightarrow> Unbound None
     | Some x \<Rightarrow> if cap_result.cr_status x = StatusResolved then Bound (cap_result.cr_provider x) (cap_result.cr_workflow x)
                 else Unbound (Some (cr_reason x)))"

definition schemes_of :: "'a estate_scheme \<Rightarrow> string \<Rightarrow> string list" where
  "schemes_of E provider =
     (case find (\<lambda>a. pd_name a = provider) (rev (es_actuators E)) of
        Some a \<Rightarrow> pd_identity_schemes a
      | None \<Rightarrow> (case find (\<lambda>c. pd_name c = provider) (es_connectors E) of Some c \<Rightarrow> pd_identity_schemes c | None \<Rightarrow> []))"

definition placement_subnet :: "placement option \<Rightarrow> string" where
  "placement_subnet p = (case p of None \<Rightarrow> [] | Some pl \<Rightarrow> pl_subnet pl)"

definition resolve_placement :: "'a estate_scheme \<Rightarrow> string gomap gomap \<Rightarrow> string \<Rightarrow> cap_result option \<Rightarrow> string \<times> perror option" where
  "resolve_placement E idents target r =
     (if target = [] \<or> \<not> bound r then ([], None)
      else let key = singleton_key IntentSubnet target in
        (case resolve_subnet_ref key (identities_of idents key) (schemes_of E (cap_result.cr_provider (the r))) of
           Inr ref \<Rightarrow> (ref, None)
         | Inl e \<Rightarrow> ([], Some e)))"

definition labels_json :: "string gomap \<Rightarrow> json" where
  "labels_json m = JObj (map (\<lambda>(k, v). (k, JStr v)) m)"

definition params_json :: "jmap option \<Rightarrow> json" where
  "params_json p = (case p of None \<Rightarrow> JNull | Some m \<Rightarrow> JObj m)"

definition placement_json :: "placement option \<Rightarrow> json" where
  "placement_json p = (case p of None \<Rightarrow> JNull | Some pl \<Rightarrow> JObj (filter (\<lambda>(k, v). v \<noteq> JStr [])
     [(''subnet'', JStr (pl_subnet pl)), (''dmz'', JStr (pl_dmz pl)), (''availabilityZone'', JStr (pl_availability_zone pl))]))"

definition launch_workflow_of :: "cap_result option \<Rightarrow> perror option \<Rightarrow> string" where
  "launch_workflow_of r blocked = (if bound r \<and> blocked = None then cap_result.cr_workflow (the r) else [])"

definition zero_compute :: compute_spec where
  "zero_compute = \<lparr>cs_count = 0, cs_name_prefix = [], cs_project_kind = [], cs_labels = [], cs_requires = [], cs_params = None,
     cs_max_delta = 0, cs_placement = None, cs_zones = [], cs_per_zone = 0\<rparr>"

definition compute_write ::
  "'a schema_lib_scheme \<Rightarrow> 'b build_estate_scheme \<Rightarrow> string gomap gomap \<Rightarrow> cap_result option \<Rightarrow> intent list \<Rightarrow> inst \<Rightarrow> finding_write" where
  "compute_write L E idents r ps d =
     (let sp = (case spec_named ps (inst_intent d) of None \<Rightarrow> zero_compute | Some p \<Rightarrow> in_spec p);
          (ref, blocked) = resolve_placement E idents (placement_subnet (cs_placement sp)) r;
          base = [(''instance'', JStr (inst_name d)), (''intent'', JStr (inst_intent d)), (''ordinal'', JInt (int (inst_ordinal d))),
            (''projectKind'', JStr (cs_project_kind sp)), (''labels'', labels_json (cs_labels sp)), (''params'', params_json (cs_params sp)),
            (''placement'', placement_json (cs_placement sp))];
          workflow = launch_workflow_of r blocked
      in \<lparr>fw_subject = inst_intent d, fw_target = inst_name d, fw_detail = BuildDetail base (outcome_of r) blocked, fw_workflow = workflow,
          fw_params = (if bound r \<and> blocked = None
            then filter_to_declared (build_launch_params \<lparr>in_name = inst_intent d, in_spec = sp\<rparr> (d\<lparr>inst_subnet_ref := ref\<rparr>))
                   (declared_inputs L E (cap_result.cr_workflow (the r))) else [])\<rparr>)"

definition zero_singleton :: singleton_intent where
  "zero_singleton = \<lparr>si_name = [], si_kind = [], si_spec = \<lparr>ss_project_kind = [], ss_labels = [], ss_requires = [], ss_params = None,
     ss_placement = None\<rparr>\<rparr>"

definition singleton_write ::
  "'a schema_lib_scheme \<Rightarrow> 'b build_estate_scheme \<Rightarrow> string gomap gomap \<Rightarrow> (string \<Rightarrow> cap_result option) \<Rightarrow> singleton_intent list \<Rightarrow> inst \<Rightarrow>
     finding_write" where
  "singleton_write L E idents rk ss d =
     (let si = (case singleton_named ss (inst_intent d) of None \<Rightarrow> zero_singleton | Some s \<Rightarrow> s);
          r = rk (short_intent_kind (si_kind si));
          (ref, blocked) = resolve_placement E idents (placement_subnet (ss_placement (si_spec si))) r;
          base = [(''singleton'', JStr (inst_name d)), (''intent'', JStr (inst_intent d)), (''intentKind'', JStr (si_kind si)),
            (''correlationLabel'', JObj [(singleton_label, JStr (inst_name d))]), (''projectKind'', JStr (ss_project_kind (si_spec si))),
            (''labels'', labels_json (ss_labels (si_spec si))), (''params'', params_json (ss_params (si_spec si))),
            (''placement'', placement_json (ss_placement (si_spec si)))]
      in \<lparr>fw_subject = inst_intent d, fw_target = inst_name d, fw_detail = BuildDetail base (outcome_of r) blocked,
          fw_workflow = launch_workflow_of r blocked,
          fw_params = (if bound r \<and> blocked = None
            then filter_to_declared (singleton_launch_params si (d\<lparr>inst_subnet_ref := ref\<rparr>))
                   (declared_inputs L E (cap_result.cr_workflow (the r))) else [])\<rparr>)"

definition batch_target :: string where
  "batch_target = ''(batch)''"

definition batch_write :: "pause \<Rightarrow> finding_write" where
  "batch_write p = \<lparr>fw_subject = pa_intent p, fw_target = batch_target, fw_detail = BatchDetail p, fw_workflow = [], fw_params = []\<rparr>"

definition provision_writes ::
  "'a schema_lib_scheme \<Rightarrow> pass_world \<Rightarrow> 'b build_estate_scheme \<Rightarrow> intent list \<Rightarrow> singleton_intent list \<Rightarrow> plan_result \<Rightarrow> plan_result \<Rightarrow>
     finding_write list" where
  "provision_writes L W E ps ss fleet single =
     (let idents = singleton_identities (pw_units W) in
      map (compute_write L E idents (resolve_kind W E ''Compute'') ps) (r_to_build fleet)
      @ map (singleton_write L E idents (resolve_kind W E) ss) (r_to_build single)
      @ map batch_write (r_paused single) @ map batch_write (r_paused fleet))"

definition sync_provision :: "pass_world \<Rightarrow> finding_write list \<Rightarrow> pfinding list \<Rightarrow> pfinding list" where
  "sync_provision W ws rows =
     (case write_all (write_finding ''provision'' ''build'' (pw_clock W)) (finding_key ''provision'') (pw_write_fails W) ws rows of
        (rows', kept) \<Rightarrow> if pw_resolve_fails W ''provision'' then rows'
                        else resolve_except ''provision'' ''provisioned'' (pw_clock W) kept rows')"

definition drift_write :: "drift \<Rightarrow> finding_write" where
  "drift_write d = \<lparr>fw_subject = dr_unit d, fw_target = dr_unit d, fw_detail = DriftDetail d, fw_workflow = [], fw_params = []\<rparr>"

definition sync_drift :: "pass_world \<Rightarrow> finding_write list \<Rightarrow> pfinding list \<Rightarrow> pfinding list" where
  "sync_drift W ws rows =
     (case write_all (write_drift (pw_clock W)) fw_target (\<lambda>u. pw_write_fails W (''placement/'' @ u, u)) ws rows of
        (rows', kept) \<Rightarrow> if pw_resolve_fails W ''placement'' then rows' else resolve_drift_except (pw_clock W) kept rows')"

definition placement_drifts :: "pass_world \<Rightarrow> intent list \<Rightarrow> singleton_intent list \<Rightarrow> drift list" where
  "placement_drifts W ps ss =
     detect_placement_drift (declared_compute_placements ps) (observed_placements instance_label (pw_units W))
     @ detect_placement_drift (declared_singleton_placements ss) (observed_placements singleton_label (pw_units W))"

definition reconcile_placement_drift :: "pass_world \<Rightarrow> intent list \<Rightarrow> singleton_intent list \<Rightarrow> pfinding list \<Rightarrow> pfinding list" where
  "reconcile_placement_drift W ps ss rows =
     (if declared_compute_placements ps = [] \<and> declared_singleton_placements ss = [] then sync_drift W [] rows
      else if pw_read_fails W ReadPlacements then rows
      else sync_drift W (map drift_write (placement_drifts W ps ss)) rows)"

text \<open>The reads and the plans; \<open>None\<close> is an early return, which leaves the Findings as they are.\<close>

definition provision_plan :: "pass_world \<Rightarrow> 'b build_estate_scheme \<Rightarrow> (intent list \<times> singleton_intent list \<times> plan_result \<times> plan_result) option" where
  "provision_plan W E =
     (case decode_intents (xe_intents E) of None \<Rightarrow> None | Some (ps, ss) \<Rightarrow>
      if pw_read_fails W ReadInstances then None
      else (case plan ps (provisioned instance_label (pw_units W)) 0 of Inl e \<Rightarrow> None | Inr fleet \<Rightarrow>
      if pw_read_fails W ReadSingletons then None
      else (case plan_singletons ss (provisioned singleton_label (pw_units W)) 0 of Inl e \<Rightarrow> None | Inr single \<Rightarrow>
      if pw_read_fails W ReadIdentities then None else Some (ps, ss, fleet, single))))"

definition reconcile_provisioning :: "'a schema_lib_scheme \<Rightarrow> pass_world \<Rightarrow> 'b build_estate_scheme \<Rightarrow> pfinding list \<Rightarrow> pfinding list" where
  "reconcile_provisioning L W E rows =
     (case provision_plan W E of
        None \<Rightarrow> rows
      | Some (ps, ss, fleet, single) \<Rightarrow>
          reconcile_placement_drift W ps ss (sync_provision W (provision_writes L W E ps ss fleet single) rows))"

section \<open>Decommission\<close>

definition sole_identity :: "candidate \<Rightarrow> identity_error + (string \<times> string)" where
  "sole_identity c = (case ca_identity_keys c of
       [] \<Rightarrow> Inl NoIdentity | [(s, v)] \<Rightarrow> Inr (s, v) | ids \<Rightarrow> Inl (ManyIdentities (sort (keys ids))))"

definition removable_intents :: "intent_decl list \<Rightarrow> intent list option" where
  "removable_intents is = those (map from_intent (filter (\<lambda>i. it_kind i = IntentCompute \<and> it_on_remove i = ''remove'') is))"

definition candidate_named :: "candidate list \<Rightarrow> string \<Rightarrow> candidate" where
  "candidate_named cs n = (case find (\<lambda>c. ca_name c = n) (rev cs) of
       Some c \<Rightarrow> c | None \<Rightarrow> \<lparr>ca_name = [], ca_kind = [], ca_identity_keys = []\<rparr>)"

definition resolve_teardown :: "pass_world \<Rightarrow> 'a build_estate_scheme \<Rightarrow> cap_result option" where
  "resolve_teardown W E =
     (if pw_read_fails W ReadProviders then None else Some (resolve_decommission (pw_verified W) E (pw_env W) ''Compute''))"

definition teardown_write :: "cap_result option \<Rightarrow> candidate list \<Rightarrow> intent \<Rightarrow> inst \<Rightarrow> finding_write" where
  "teardown_write r cs p ex =
     (let c = candidate_named cs (inst_name ex);
          base = [(''instance'', JStr (inst_name ex)), (''intent'', JStr (in_name p)), (''ordinal'', JInt (int (inst_ordinal ex))),
            (''identityKeys'', labels_json (ca_identity_keys c)), (''kind'', JStr (ca_kind c))]
      in case sole_identity c of
           Inl e \<Rightarrow> \<lparr>fw_subject = in_name p, fw_target = inst_name ex, fw_detail = TeardownDetail base (outcome_of r) (Some e),
                     fw_workflow = [], fw_params = []\<rparr>
         | Inr (scheme, v) \<Rightarrow> \<lparr>fw_subject = in_name p, fw_target = inst_name ex, fw_detail = TeardownDetail base (outcome_of r) None,
                     fw_workflow = (if bound r then cap_result.cr_workflow (the r) else []),
                     fw_params = (if bound r then teardown_launch_params (in_name p) ex scheme v else [])\<rparr>)"

definition candidate_names :: "candidate list \<Rightarrow> string list" where
  "candidate_names cs = remdups (map ca_name cs)"

definition teardown_writes :: "pass_world \<Rightarrow> 'a build_estate_scheme \<Rightarrow> intent list \<Rightarrow> finding_write list" where
  "teardown_writes W E ps =
     (let cs = filter (\<lambda>c. ca_name c \<noteq> []) (decommission_candidates (pw_units W)) in
      concat (map (\<lambda>p. map (teardown_write (resolve_teardown W E) cs p) (excess p (candidate_names cs))) ps))"

definition sync_decommission :: "pass_world \<Rightarrow> finding_write list \<Rightarrow> pfinding list \<Rightarrow> pfinding list" where
  "sync_decommission W ws rows =
     (case write_all (write_finding ''decommission'' ''remove'' (pw_clock W)) (finding_key ''decommission'') (pw_write_fails W) ws rows of
        (rows', kept) \<Rightarrow> if pw_resolve_fails W ''decommission'' then rows'
                        else resolve_except ''decommission'' ''decommissioned'' (pw_clock W) kept rows')"

definition reconcile_decommission :: "pass_world \<Rightarrow> 'a build_estate_scheme \<Rightarrow> pfinding list \<Rightarrow> pfinding list" where
  "reconcile_decommission W E rows =
     (case removable_intents (xe_intents E) of
        None \<Rightarrow> rows
      | Some [] \<Rightarrow> sync_decommission W [] rows
      | Some ps \<Rightarrow> if pw_read_fails W ReadCandidates then rows else sync_decommission W (teardown_writes W E ps) rows)"

text \<open>\<open>ScopeToEnvironment\<close> on what this pass reads.\<close>

definition scope_estate :: "string \<Rightarrow> 'a build_estate_scheme \<Rightarrow> 'a build_estate_scheme" where
  "scope_estate env E = (if env = [] then E else E\<lparr>xe_intents := filter (\<lambda>i. in_scope (id_environments i) env) (xe_intents E)\<rparr>)"

section \<open>What is live after a pass\<close>

lemma refresh_finding_simps [simp]:
  "pf_live (refresh_finding kind clock w r) = pf_live r" "pf_framework (refresh_finding kind clock w r) = pf_framework r"
  "pf_baseline (refresh_finding kind clock w r) = pf_baseline r" "pf_target (refresh_finding kind clock w r) = pf_target r"
  "pf_workflow (refresh_finding kind clock w r) = null_if_empty (fw_workflow w)"
  "pf_params (refresh_finding kind clock w r) = null_if_empty (fw_params w)"
  by (simp_all add: refresh_finding_def)

lemma retire_finding_simps [simp]:
  "\<not> pf_live (retire_finding reason clock r)" "pf_framework (retire_finding reason clock r) = pf_framework r"
  by (simp_all add: retire_finding_def)

lemma new_finding_simps [simp]:
  "pf_live (new_finding framework kind clock w)" "pf_framework (new_finding framework kind clock w) = framework"
  "pf_baseline (new_finding framework kind clock w) = baseline_of framework w" "pf_target (new_finding framework kind clock w) = fw_target w"
  "pf_workflow (new_finding framework kind clock w) = null_if_empty (fw_workflow w)"
  "pf_params (new_finding framework kind clock w) = null_if_empty (fw_params w)"
  by (simp_all add: new_finding_def)

locale finding_sync =
  fixes put :: "'w \<Rightarrow> 'r \<Rightarrow> 'r" and drop_others :: "'k list \<Rightarrow> 'r \<Rightarrow> 'r" and live :: "'r \<Rightarrow> 'k set"
    and key :: "'w \<Rightarrow> 'k" and ok :: "'r \<Rightarrow> bool"
  assumes ok_put: "ok s \<Longrightarrow> ok (put w s)"
    and live_put: "ok s \<Longrightarrow> live (put w s) = insert (key w) (live s)"
    and live_drop: "live (drop_others ks s) = live s \<inter> set ks"
begin

lemma write_all_live:
  assumes "ok s" and "write_all put key fails ws s = (s', kept)"
  shows "set kept = {k \<in> key ` set ws. \<not> fails k} \<and> live s' = live s \<union> set kept"
proof -
  let ?f = "\<lambda>w (rows, kept). if fails (key w) then (rows, kept) else (put w rows, kept @ [key w])"
  have "ok t \<Longrightarrow> fold ?f ws (t, ks) = (s', kept) \<Longrightarrow>
      set kept = set ks \<union> {k \<in> key ` set ws. \<not> fails k} \<and> live s' = live t \<union> {k \<in> key ` set ws. \<not> fails k}" for t ks
  proof (induction ws arbitrary: t ks)
    case (Cons w ws)
    show ?case
    proof (cases "fails (key w)")
      case True
      with Cons.IH [OF Cons.prems(1), of ks] Cons.prems(2) show ?thesis by auto
    next
      case False
      with Cons.IH [OF ok_put [OF Cons.prems(1)], of w "ks @ [key w]"] Cons.prems live_put [OF Cons.prems(1), of w]
      show ?thesis by auto
    qed
  qed auto
  from this [OF assms(1), of "[]"] assms(2) show ?thesis by (simp add: write_all_def)
qed

text \<open>A pass leaves live exactly what it managed to write.\<close>

lemma sync_live:
  assumes "ok s" and "write_all put key fails ws s = (s', kept)"
  shows "live (drop_others kept s') = {k \<in> key ` set ws. \<not> fails k}"
  using write_all_live [OF assms] by (auto simp: live_drop)

end

definition live_keys :: "string \<Rightarrow> pfinding list \<Rightarrow> (string \<times> string) set" where
  "live_keys framework rows = {(pf_baseline r, pf_target r) | r. r \<in> set rows \<and> pf_live r \<and> pf_framework r = framework}"

definition live_targets :: "pfinding list \<Rightarrow> string set" where
  "live_targets rows = snd ` live_keys ''placement'' rows"

text \<open>The Baseline names of a framework are its own.\<close>

definition framework_ok :: "string \<Rightarrow> pfinding list \<Rightarrow> bool" where
  "framework_ok framework rows \<longleftrightarrow> (\<forall>r \<in> set rows. pf_live r \<longrightarrow> has_prefix (framework @ ''/'') (pf_baseline r) \<longrightarrow> pf_framework r = framework)"

lemma baseline_prefix: "has_prefix (framework @ ''/'') (baseline_of framework w)"
  by (auto simp: has_prefix_iff baseline_of_def)

lemma held_framework: "framework_ok framework rows \<Longrightarrow> r \<in> set rows \<Longrightarrow> same_unit framework w r \<Longrightarrow> pf_framework r = framework"
  using baseline_prefix [of framework w] by (auto simp: framework_ok_def same_unit_def)

lemma live_keys_simps [simp]:
  "live_keys framework [] = {}"
  "live_keys framework (r # rows) =
    (if pf_live r \<and> pf_framework r = framework then insert (pf_baseline r, pf_target r) (live_keys framework rows) else live_keys framework rows)"
  by (auto simp: live_keys_def)

lemma live_keys_append [simp]: "live_keys framework (xs @ ys) = live_keys framework xs \<union> live_keys framework ys"
  by (induction xs) auto

lemma live_keys_member: "r \<in> set rows \<Longrightarrow> pf_live r \<Longrightarrow> pf_framework r = framework \<Longrightarrow> (pf_baseline r, pf_target r) \<in> live_keys framework rows"
  by (auto simp: live_keys_def)

lemma live_keys_map:
  assumes "\<And>r. pf_live (g r) = pf_live r" and "\<And>r. pf_framework (g r) = pf_framework r"
    and "\<And>r. pf_baseline (g r) = pf_baseline r" and "\<And>r. pf_target (g r) = pf_target r"
  shows "live_keys framework (map g rows) = live_keys framework rows"
  by (induction rows) (simp_all add: assms)

lemma live_keys_refresh:
  "live_keys framework (map (\<lambda>r. if P r then refresh_finding kind clock w r else r) rows) = live_keys framework rows"
  by (rule live_keys_map)
    (simp_all only: if_distrib [of pf_live] if_distrib [of pf_framework] if_distrib [of pf_baseline] if_distrib [of pf_target]
       refresh_finding_simps if_cancel)

lemma live_write_finding:
  assumes "framework_ok framework rows"
  shows "live_keys framework (write_finding framework kind clock w rows) = insert (finding_key framework w) (live_keys framework rows)"
proof (cases "list_ex (same_unit framework w) rows")
  case True
  then obtain r where r: "r \<in> set rows" "same_unit framework w r" by (auto simp: list_ex_iff)
  from r(2) have "pf_live r" "pf_baseline r = baseline_of framework w" "pf_target r = fw_target w" by (simp_all add: same_unit_def)
  with live_keys_member [OF r(1) _ held_framework [OF assms r]] have "finding_key framework w \<in> live_keys framework rows"
    by (simp add: finding_key_def)
  moreover have "live_keys framework (write_finding framework kind clock w rows) = live_keys framework rows"
    using True by (simp only: write_finding_def if_True live_keys_refresh)
  ultimately show ?thesis by (simp only: insert_absorb)
next
  case False
  then show ?thesis by (simp add: write_finding_def finding_key_def)
qed

lemma framework_ok_simps [simp]:
  "framework_ok framework []"
  "framework_ok framework (r # rows) \<longleftrightarrow>
    (pf_live r \<longrightarrow> has_prefix (framework @ ''/'') (pf_baseline r) \<longrightarrow> pf_framework r = framework) \<and> framework_ok framework rows"
  by (simp_all add: framework_ok_def)

lemma framework_ok_append [simp]: "framework_ok framework (xs @ ys) \<longleftrightarrow> framework_ok framework xs \<and> framework_ok framework ys"
  by (induction xs) simp_all

lemma framework_ok_map:
  assumes "\<And>r. pf_live (g r) = pf_live r" and "\<And>r. pf_framework (g r) = pf_framework r"
    and "\<And>r. pf_baseline (g r) = pf_baseline r"
  shows "framework_ok framework (map g rows) = framework_ok framework rows"
  by (induction rows) (simp_all add: assms)

lemma ok_write_finding:
  assumes "framework_ok framework rows"
  shows "framework_ok framework (write_finding framework kind clock w rows)"
proof (cases "list_ex (same_unit framework w) rows")
  case True
  show ?thesis unfolding write_finding_def if_P [OF True] using assms by (subst framework_ok_map) simp_all
next
  case False
  show ?thesis unfolding write_finding_def if_not_P [OF False] using assms by simp
qed

lemma live_resolve_where:
  "live_keys framework (resolve_where framework reason clock gone rows) = live_keys framework (filter (\<lambda>r. \<not> gone r) rows)"
  by (induction rows) (auto simp: resolve_where_def)

lemma live_resolve_except: "live_keys framework (resolve_except framework reason clock ks rows) = live_keys framework rows \<inter> set ks"
  unfolding resolve_except_def live_resolve_where by (auto simp: live_keys_def)

interpretation builds_sync: finding_sync "write_finding ''provision'' ''build'' clock" "resolve_except ''provision'' ''provisioned'' clock"
    "live_keys ''provision''" "finding_key ''provision''" "framework_ok ''provision''" for clock
  by unfold_locales (simp_all add: ok_write_finding live_write_finding live_resolve_except)

interpretation teardowns_sync: finding_sync "write_finding ''decommission'' ''remove'' clock" "resolve_except ''decommission'' ''decommissioned'' clock"
    "live_keys ''decommission''" "finding_key ''decommission''" "framework_ok ''decommission''" for clock
  by unfold_locales (simp_all add: ok_write_finding live_write_finding live_resolve_except)

lemma live_write_drift:
  assumes "framework_ok ''placement'' rows"
  shows "live_targets (write_drift clock w rows) = insert (fw_target w) (live_targets rows)"
proof (cases "list_ex (same_unit ''placement'' w) rows")
  case True
  then obtain r where r: "r \<in> set rows" "same_unit ''placement'' w r" by (auto simp: list_ex_iff)
  then have "(pf_baseline r, fw_target w) \<in> live_keys ''placement'' rows"
    using live_keys_member [OF r(1) _ held_framework [OF assms r]] by (simp add: same_unit_def)
  then have "fw_target w \<in> live_targets rows" by (force simp: live_targets_def)
  moreover have "live_keys ''placement'' (write_drift clock w rows) = live_keys ''placement'' rows"
    unfolding write_drift_def if_P [OF True] by (rule live_keys_map) simp_all
  ultimately show ?thesis by (simp only: live_targets_def insert_absorb)
next
  case False
  then show ?thesis by (simp add: write_drift_def live_targets_def)
qed

lemma ok_write_drift:
  assumes "framework_ok framework rows" and "framework = ''placement'' \<or> \<not> has_prefix (framework @ ''/'') (baseline_of ''placement'' w)"
  shows "framework_ok framework (write_drift clock w rows)"
proof (cases "list_ex (same_unit ''placement'' w) rows")
  case True
  show ?thesis unfolding write_drift_def if_P [OF True] using assms(1) by (subst framework_ok_map) simp_all
next
  case False
  show ?thesis unfolding write_drift_def if_not_P [OF False] using assms by auto
qed

interpretation drifts_sync: finding_sync "write_drift clock" "resolve_drift_except clock" live_targets fw_target "framework_ok ''placement''" for clock
proof unfold_locales
  show "framework_ok ''placement'' (write_drift clock w s)" if "framework_ok ''placement'' s" for s w
    using that by (rule ok_write_drift) simp
  show "live_targets (resolve_drift_except clock ks s) = live_targets s \<inter> set ks" for ks s
    unfolding resolve_drift_except_def live_resolve_where live_targets_def by (force simp: live_keys_def)
qed (rule live_write_drift)

section \<open>What the Findings of a pass launch\<close>

definition launches :: "string \<Rightarrow> pfinding list \<Rightarrow> ((string \<times> string) \<times> string option \<times> jmap option) set" where
  "launches framework rows = {((pf_baseline r, pf_target r), pf_workflow r, pf_params r) | r.
     r \<in> set rows \<and> pf_live r \<and> pf_framework r = framework}"

lemma launches_simps [simp]:
  "launches framework [] = {}"
  "launches framework (r # rows) =
    (if pf_live r \<and> pf_framework r = framework then insert ((pf_baseline r, pf_target r), pf_workflow r, pf_params r) (launches framework rows)
     else launches framework rows)"
  by (auto simp: launches_def)

lemma launches_append [simp]: "launches framework (xs @ ys) = launches framework xs \<union> launches framework ys"
  by (induction xs) auto

lemma launches_keys: "live_keys framework rows = fst ` launches framework rows"
  by (induction rows) auto






lemma launches_resolve_other:
  assumes "framework' \<noteq> framework"
  shows "launches framework (resolve_where framework' reason clock gone rows) = launches framework rows"
proof (induction rows)
  case (Cons r rows)
  with assms show ?case by (cases "pf_framework r = framework"; cases "pf_framework r = framework'") (simp_all add: resolve_where_def)
qed (simp add: resolve_where_def)




text \<open>The placement half leaves the Findings of the others as they are.\<close>

lemma launches_write_drift:
  assumes "framework \<noteq> ''placement''"
  shows "launches framework (write_drift clock w rows) = launches framework rows"
proof (cases "list_ex (same_unit ''placement'' w) rows")
  case True
  have "launches framework (map (\<lambda>r. if same_unit ''placement'' w r
      then r\<lparr>pf_detail := fw_detail w, pf_last_observed := Some clock\<rparr> else r) xs) = launches framework xs" for xs
  proof (induction xs)
    case (Cons r xs)
    then show ?case by (cases "same_unit ''placement'' w r") simp_all
  qed simp
  with True show ?thesis by (simp only: write_drift_def if_True)
next
  case False
  with assms show ?thesis by (simp add: write_drift_def)
qed

lemma launches_resolve_drift:
  "framework \<noteq> ''placement'' \<Longrightarrow> launches framework (resolve_drift_except clock ks rows) = launches framework rows"
  by (simp add: resolve_drift_except_def launches_resolve_other)

lemma launches_sync_drift:
  assumes "framework \<noteq> ''placement''"
  shows "launches framework (sync_drift W ws rows) = launches framework rows"
proof -
  let ?f = "\<lambda>w (rows, kept). if pw_write_fails W (''placement/'' @ fw_target w, fw_target w) then (rows, kept)
     else (write_drift (pw_clock W) w rows, kept @ [fw_target w])"
  have "launches framework (fst (fold ?f ws (t, ks))) = launches framework t" for t ks
    by (induction ws arbitrary: t ks) (simp_all add: launches_write_drift [OF assms])
  from this [of rows "[]"] show ?thesis
    unfolding sync_drift_def write_all_def by (cases "fold ?f ws (rows, [])") (simp add: launches_resolve_drift [OF assms])
qed

lemma launches_placement_drift:
  "framework \<noteq> ''placement'' \<Longrightarrow> launches framework (reconcile_placement_drift W ps ss rows) = launches framework rows"
  by (simp add: reconcile_placement_drift_def launches_sync_drift)

section \<open>What a pass surfaces\<close>

lemma finding_keys [simp]:
  "finding_key framework (compute_write L E idents r ps d) = (framework @ ''/'' @ inst_intent d, inst_name d)"
  "finding_key framework (singleton_write L E idents rk ss d) = (framework @ ''/'' @ inst_intent d, inst_name d)"
  "finding_key framework (batch_write p) = (framework @ ''/'' @ pa_intent p, batch_target)"
  by (simp_all add: finding_key_def baseline_of_def compute_write_def singleton_write_def batch_write_def Let_def split: prod.split)

lemma sync_provision_live:
  assumes "framework_ok ''provision'' rows" and "\<not> pw_resolve_fails W ''provision''"
  shows "live_keys ''provision'' (sync_provision W ws rows) = {k \<in> finding_key ''provision'' ` set ws. \<not> pw_write_fails W k}"
proof -
  obtain rows' kept where p: "write_all (write_finding ''provision'' ''build'' (pw_clock W)) (finding_key ''provision'') (pw_write_fails W) ws rows
      = (rows', kept)" by (rule prod.exhaust)
  from builds_sync.sync_live [OF assms(1) p] assms(2) show ?thesis by (simp add: sync_provision_def p)
qed

lemma live_placement_drift: "live_keys ''provision'' (reconcile_placement_drift W ps ss rows) = live_keys ''provision'' rows"
  by (simp add: launches_keys launches_placement_drift)

lemma provision_plan_Some:
  assumes "provision_plan W E = Some (ps, ss, fleet, single)"
  shows "decode_intents (xe_intents E) = Some (ps, ss)" and "plan ps (provisioned instance_label (pw_units W)) 0 = Inr fleet"
    and "plan_singletons ss (provisioned singleton_label (pw_units W)) 0 = Inr single"
  using assms by (auto simp: provision_plan_def split: option.split_asm prod.split_asm sum.split_asm if_split_asm)

text \<open>
  The specification: per fleet its unbuilt instances, or one batch when they exceed the limit; of the singletons the unbuilt
  ones, or one batch when they exceed the default batch.
\<close>

definition fleet_shortfall :: "string list \<Rightarrow> intent \<Rightarrow> (string \<times> string) set" where
  "fleet_shortfall built p =
     (if within_limit 0 built p
      then {(''provision/'' @ in_name p, inst_name d) | d. d \<in> set (desired p) \<and> inst_name d \<notin> set built}
      else {(''provision/'' @ in_name p, batch_target)})"

definition singleton_shortfall :: "string list \<Rightarrow> singleton_intent list \<Rightarrow> (string \<times> string) set" where
  "singleton_shortfall built ss =
     (if int (length (filter (\<lambda>si. skey si \<notin> set built) ss)) \<le> default_max_build_batch
      then {(''provision/'' @ si_name si, skey si) | si. si \<in> set ss \<and> skey si \<notin> set built}
      else {(''provision/(singletons)'', batch_target)})"

lemma keys_fleet:
  assumes "plan ps built 0 = Inr fleet"
  shows "(\<lambda>d. (''provision/'' @ inst_intent d, inst_name d)) ` set (r_to_build fleet) \<union>
      (\<lambda>p. (''provision/'' @ pa_intent p, batch_target)) ` set (r_paused fleet) = (\<Union>p \<in> set ps. fleet_shortfall built p)"
proof -
  have one: "fleet_shortfall built p = (if within_limit 0 built p
      then (\<lambda>d. (''provision/'' @ inst_intent d, inst_name d)) ` set (missing built p)
      else {(''provision/'' @ pa_intent (pause_of 0 built p), batch_target)})" for p
    by (auto simp: fleet_shortfall_def missing_def pause_of_def desired_intent image_iff) (metis desired_intent)+
  show ?thesis unfolding plan_shape [OF assms] one by (auto split: if_splits)
qed

lemma singleton_inst_simps [simp]: "inst_intent (singleton_inst si) = si_name si" "inst_name (singleton_inst si) = skey si"
  by (simp_all add: singleton_inst_def)

lemma plan_singletons_shape:
  assumes "plan_singletons ss built 0 = Inr single"
  shows "r_to_build single = (if int (length (filter (\<lambda>si. skey si \<notin> set built) ss)) \<le> default_max_build_batch
      then map singleton_inst (filter (\<lambda>si. skey si \<notin> set built) (sort_key (\<lambda>si. (si_kind si, si_name si)) ss)) else [])"
    and "map pa_intent (r_paused single) = (if int (length (filter (\<lambda>si. skey si \<notin> set built) ss)) \<le> default_max_build_batch
      then [] else [''(singletons)''])"
proof -
  let ?sorted = "sort_key (\<lambda>si. (si_kind si, si_name si)) ss"
  let ?n = "length (filter (\<lambda>si. skey si \<notin> set built) ss)"
  have m: "filter (\<lambda>d. inst_name d \<notin> set built) (map singleton_inst xs) = map singleton_inst (filter (\<lambda>si. skey si \<notin> set built) xs)" for xs
    by (induction xs) simp_all
  have len: "length (filter (\<lambda>si. skey si \<notin> set built) ?sorted) = ?n" by (simp add: filter_sort)
  have cap: "effective_cap 0 = default_max_build_batch" by (simp add: effective_cap_def)
  obtain claim where "fold_err claim_singleton ?sorted [] = Inr claim"
    using assms by (cases "fold_err claim_singleton ?sorted []") (simp_all add: plan_singletons_def Let_def)
  with assms have "single = (if int ?n > default_max_build_batch
      then \<lparr>r_to_build = [], r_resolved = filter (\<lambda>d. inst_name d \<in> set built) (map singleton_inst ?sorted),
        r_paused = [\<lparr>pa_intent = ''(singletons)'', pa_missing = ?n, pa_desired = length ss, pa_limit = default_max_build_batch\<rparr>]\<rparr>
      else \<lparr>r_to_build = map singleton_inst (filter (\<lambda>si. skey si \<notin> set built) ?sorted),
        r_resolved = filter (\<lambda>d. inst_name d \<in> set built) (map singleton_inst ?sorted), r_paused = []\<rparr>)"
    unfolding plan_singletons_def Let_def by (cases "int ?n > default_max_build_batch") (simp_all add: m len cap)
  then show "r_to_build single = (if int ?n \<le> default_max_build_batch
      then map singleton_inst (filter (\<lambda>si. skey si \<notin> set built) ?sorted) else [])"
    and "map pa_intent (r_paused single) = (if int ?n \<le> default_max_build_batch then [] else [''(singletons)''])" by simp_all
qed

lemma keys_singletons:
  assumes "plan_singletons ss built 0 = Inr single"
  shows "(\<lambda>d. (''provision/'' @ inst_intent d, inst_name d)) ` set (r_to_build single) \<union>
      (\<lambda>p. (''provision/'' @ pa_intent p, batch_target)) ` set (r_paused single) = singleton_shortfall built ss"
proof -
  let ?small = "int (length (filter (\<lambda>si. skey si \<notin> set built) ss)) \<le> default_max_build_batch"
  let ?key = "\<lambda>si. (''provision/'' @ si_name si, skey si)"
  have "(\<lambda>p. (''provision/'' @ pa_intent p, batch_target)) ` set (r_paused single) =
      (\<lambda>n. (''provision/'' @ n, batch_target)) ` set (map pa_intent (r_paused single))" by (simp add: image_image)
  then have paused: "(\<lambda>p. (''provision/'' @ pa_intent p, batch_target)) ` set (r_paused single) =
      (if ?small then {} else {(''provision/(singletons)'', batch_target)})" unfolding plan_singletons_shape(2) [OF assms] by simp
  have "(\<lambda>d. (''provision/'' @ inst_intent d, inst_name d)) ` set (r_to_build single) =
      (if ?small then ?key ` {si \<in> set ss. skey si \<notin> set built} else {})"
    unfolding plan_singletons_shape(1) [OF assms] by (simp add: image_image)
  moreover have "?key ` {si \<in> set ss. skey si \<notin> set built} = {?key si | si. si \<in> set ss \<and> skey si \<notin> set built}" by blast
  ultimately show ?thesis unfolding paused singleton_shortfall_def by simp
qed

text \<open>
  C8. A pass whose writes and resolutions reach the store leaves open exactly the Findings of the shortfall: one per unbuilt
  instance or singleton, one per batch over its limit, none for what is built or no longer declared.
\<close>

theorem provision_pass_surfaces_shortfall:
  assumes "provision_plan W E = Some (ps, ss, fleet, single)" and "framework_ok ''provision'' rows"
    and "\<not> pw_resolve_fails W ''provision''" and "\<forall>k. \<not> pw_write_fails W k"
  shows "live_keys ''provision'' (reconcile_provisioning L W E rows) =
    (\<Union>p \<in> set ps. fleet_shortfall (provisioned instance_label (pw_units W)) p) \<union>
    singleton_shortfall (provisioned singleton_label (pw_units W)) ss"
proof -
  note P = provision_plan_Some [OF assms(1)]
  have keys: "finding_key ''provision'' ` set (provision_writes L W E ps ss fleet single) =
      ((\<lambda>d. (''provision/'' @ inst_intent d, inst_name d)) ` set (r_to_build fleet) \<union>
       (\<lambda>p. (''provision/'' @ pa_intent p, batch_target)) ` set (r_paused fleet)) \<union>
      ((\<lambda>d. (''provision/'' @ inst_intent d, inst_name d)) ` set (r_to_build single) \<union>
       (\<lambda>p. (''provision/'' @ pa_intent p, batch_target)) ` set (r_paused single))"
    unfolding provision_writes_def Let_def set_append set_map image_Un image_image by auto
  have "live_keys ''provision'' (reconcile_provisioning L W E rows) =
      live_keys ''provision'' (sync_provision W (provision_writes L W E ps ss fleet single) rows)"
    by (simp add: reconcile_provisioning_def assms(1) live_placement_drift)
  also have "\<dots> = finding_key ''provision'' ` set (provision_writes L W E ps ss fleet single)"
    using sync_provision_live [OF assms(2,3)] assms(4) by auto
  finally show ?thesis unfolding keys keys_fleet [OF P(2)] keys_singletons [OF P(3)] .
qed

section \<open>What a pass offers to launch\<close>





lemma scope_estate_simps [simp]:
  "es_actuators (scope_estate env E) = es_actuators E" "es_connectors (scope_estate env E) = es_connectors E"
  "es_workflows (scope_estate env E) = es_workflows E" "xe_bindings (scope_estate env E) = xe_bindings E"
  "workflow_named (scope_estate env E) w = workflow_named E w" "schemes_of (scope_estate env E) q = schemes_of E q"
  "reconcile_providers vs (scope_estate env E) t e = reconcile_providers vs E t e"
  "declared_inputs L (scope_estate env E) w = declared_inputs L E w"
  by (simp_all add: scope_estate_def workflow_named_def schemes_of_def reconcile_providers_def declared_inputs_def cong: option.case_cong)







section \<open>What a teardown targets\<close>




section \<open>Examples\<close>

definition unit_of :: "string \<Rightarrow> (string \<times> string) list \<Rightarrow> unit_row" where
  "unit_of n ids = \<lparr>ur_kind = ''host'', ur_labels = [(instance_label, n)], ur_deleted = False, ur_identities = ids, ur_placed_in = []\<rparr>"

definition quiet_world :: "unit_row list \<Rightarrow> pass_world" where
  "quiet_world units = \<lparr>pw_env = [], pw_verified = [''actuator/opentofu''], pw_units = units, pw_clock = 0,
     pw_read_fails = (\<lambda>_. False), pw_write_fails = (\<lambda>_. False), pw_resolve_fails = (\<lambda>_. False)\<rparr>"

lemma quiet_world_simps [simp]:
  "pw_env (quiet_world us) = []" "pw_verified (quiet_world us) = [''actuator/opentofu'']" "pw_units (quiet_world us) = us"
  "pw_read_fails (quiet_world us) x = False" "pw_write_fails (quiet_world us) k = False" "pw_resolve_fails (quiet_world us) f = False"
  by (simp_all add: quiet_world_def)

definition fleet_of :: intent where
  "fleet_of = the (from_intent (web_intent []))"

lemma provision_pass_surfaces_shortfall_witness:
  "(''provision/fleet'', ''web-02'') \<in> live_keys ''provision'' (reconcile_provisioning estate_lib (quiet_world [unit_of ''web-01'' []]) tofu_estate [])"
proof -
  let ?W = "quiet_world [unit_of ''web-01'' []]"
  have "map_option (\<lambda>(ps, ss, _). (ps, ss)) (provision_plan ?W tofu_estate) = Some ([fleet_of], [])" by code_simp
  then obtain fleet single where plan: "provision_plan ?W tofu_estate = Some ([fleet_of], [], fleet, single)" by auto
  let ?built = "provisioned instance_label (pw_units ?W)"
  have lim: "within_limit 0 ?built fleet_of" and n: "in_name fleet_of = ''fleet''"
    and ex: "list_ex (\<lambda>d. inst_name d = ''web-02'' \<and> inst_name d \<notin> set ?built) (desired fleet_of)" by code_simp+
  from ex obtain d where "d \<in> set (desired fleet_of)" "inst_name d = ''web-02''" "inst_name d \<notin> set ?built" unfolding list_ex_iff by blast
  then have "(''provision/fleet'', ''web-02'') \<in> fleet_shortfall ?built fleet_of"
    unfolding fleet_shortfall_def if_P [OF lim] n by (intro CollectI exI [of _ d]) simp
  with provision_pass_surfaces_shortfall [OF plan, of "[]" estate_lib] show ?thesis by simp
qed



section \<open>What a pass gets wrong\<close>

text \<open>
  A failed write is not kept, so the Finding that was open for the instance is resolved as provisioned although nothing was
  built.
\<close>

definition failing_world :: pass_world where
  "failing_world = (quiet_world [])\<lparr>pw_write_fails := (\<lambda>k. snd k = ''web-02'')\<rparr>"

lemma failed_write_resolves_finding:
  "map (\<lambda>r. (pf_target r, pf_live r, pf_resolved_reason r))
     (reconcile_provisioning estate_lib failing_world tofu_estate (reconcile_provisioning estate_lib (quiet_world []) tofu_estate []))
   = [(''web-01'', True, []), (''web-02'', False, ''provisioned'')] \<and>
   provisioned instance_label (pw_units failing_world) = []"
  by code_simp

text \<open>An excess unit without an identity is not a candidate: no Finding says that it is undesired.\<close>

lemma unidentified_excess_is_silent:
  "map inst_name (excess fleet_of (provisioned instance_label [unit_of ''web-03'' []])) = [''web-03''] \<and>
   reconcile_decommission (quiet_world [unit_of ''web-03'' []]) tofu_estate [] = []"
  by code_simp

text \<open>Two Entities that carry one name, each with an identity of its own: the teardown is offered for the one read last.\<close>

lemma shared_name_is_not_ambiguous:
  "map (\<lambda>r. (pf_workflow r, map_option (\<lambda>m. map_of m ''identityValue'') (pf_params r)))
     (reconcile_decommission (quiet_world [unit_of ''web-03'' [(''aws.instance'', ''i-3'')], unit_of ''web-03'' [(''aws.instance'', ''i-4'')]])
       tofu_estate []) = [(Some ''tear'', Some (Some (JStr ''i-4'')))]"
  by code_simp

end
