(* ===== verification/Spec2Isabelle.thy ===== *)
theory Spec2Isabelle
  imports Template Overlay Capability Provision Policy Dag Gate Runners Inputs CompilerPlan AuditTrail StateBackend Home Rehome Across Observe RunView Syncing TriggerEngine DesiredState WorkflowCheck BuildCheck ProvisionPass
begin

text \<open>
  Stratt is a control plane for an estate: Connectors observe external systems and project them into one graph, authors
  declare Views, Intents, Baselines and Workflows over that graph, and Runs act on it.  This development models the parts
  of the Go daemon (\<open>core/internal\<close>, with the data of \<open>types\<close>) that decide something, as functions and step relations
  over the code's own data, and proves what those parts are for.

  \<^bold>\<open>How the parts interact.\<close>  A Syncer's pass (\<open>Syncing\<close>) puts what a plugin reports through the operator's grant
  (\<open>Governor\<close>) and writes it to the graph (\<open>Projection\<close>), on the Cell the Source is homed on (\<open>Home\<close>, \<open>Rehome\<close>).  Intents are
  merged (\<open>Overlay\<close>) and compiled to Baselines (\<open>Compiler\<close>, \<open>CompilerPlan\<close>) or planned as infrastructure to build
  (\<open>Provision\<close>) by a Workflow that capability resolution picks (\<open>Capability\<close>).  A Baseline is checked on its interval
  (\<open>Observe\<close>); an event fires a Trigger (\<open>TriggerEngine\<close>).  Both launch Runs, alone or as Steps of a Workflow
  (\<open>Dag\<close>, \<open>Runners\<close>), whose parameters are bound from what came before (\<open>Template\<close>, \<open>Inputs\<close>), under policy (\<open>Policy\<close>) and
  behind human Gates (\<open>Gate\<close>).  A Run resolves the targets of its View (\<open>Targets\<close>, \<open>TargetGroups\<close>), dispatches slices of
  them and folds their results (\<open>RunView\<close>), scattered over the Cells where the View spans several (\<open>Across\<close>).  OpenTofu keeps
  its state in the daemon (\<open>StateBackend\<close>), and every decision is an event of the audit ledger (\<open>AuditTrail\<close>).

  \<^bold>\<open>The library.\<close>
  \<open>Prelude\<close>: Go maps as association lists with \<open>aput\<close> (locale \<open>go_map\<close>), error-threading folds, generic lemmas.
  \<open>GoText\<close>, \<open>Json\<close>, \<open>Float64\<close>: the standard library the code uses (splitting and trimming of strings, decoded JSON with
  \<open>reflect.DeepEqual\<close>, rounding to 53 bits).  \<open>Claims\<close>: locale \<open>claim_scan\<close>, a scan that refuses a second claimant, instantiated
  by the compiler's and the planner's claims.  \<open>Transitions\<close>: locale \<open>transition_system\<close>, invariants of step relations,
  instantiated by the workflow walk, the re-home driver and the ledger.

  \<^bold>\<open>Theories, their code, and what their lemmas show.\<close>

  \<^item> \<open>Template\<close> (\<open>template/template.go\<close>): substitution of \<open>{{.ns.path}}\<close> tokens.  It fails closed, leaves no residue, keeps
    the type of an exact token, and binding in two stages equals binding at once.
  \<^item> \<open>Overlay\<close> (\<open>overlay/overlay.go\<close>): the layered merge, its provenance and exclusive scalars.
  \<^item> \<open>Capability\<close> (\<open>capability/resolve.go\<close>): a class resolves exactly when the declarations determine one provider.
  \<^item> \<open>Provision\<close> (\<open>provision/provision.go\<close>): instance names, the plan with its blast radius, singletons, drift of placement.
  \<^item> \<open>Policy\<close> (\<open>policy/*.go\<close>, \<open>types/policy.go\<close>): Controls, waivers, break-glass, admission, the exec and bypass deciders
    (locales \<open>outcome_lattice\<close> and \<open>decider_port\<close>).  The most restrictive outcome wins, and what cannot be judged denies.
  \<^item> \<open>Dag\<close>, \<open>Gate\<close>, \<open>Runners\<close>, \<open>Inputs\<close> (\<open>orchestrate/workflow.go\<close>, \<open>policystep.go\<close>, \<open>contract/workflowinputs.go\<close>): \<open>RunDAG\<close> as
    a step relation over Step states with its justification invariant, termination, confluence and completion; the Gate as
    a fold over signals and timers; the runner of each kind of Step; launch inputs against a closed schema.
  \<^item> \<open>Compiler\<close>, \<open>CompilerPlan\<close> (\<open>compiler/compiler.go\<close>, \<open>apply.go\<close>): Assignments to Baselines, claim conflicts, membership and
    expectation gates, apply and prune; the rows written refine the declared routes.
  \<^item> \<open>Projection\<close> (\<open>graph/projector.go\<close>, \<open>reader.go\<close>, \<open>registry.go\<close>, the triggers of migrations 23, 32, 35 and 47): the graph
    database, every write of the projector with the checks the database makes, tombstones by presence, point reads.
    \<open>graph_ok\<close> is its invariant, \<open>confined\<close> the frame a writer may not leave.
  \<^item> \<open>Governor\<close>, \<open>Syncing\<close> (\<open>pluginhost/grant.go\<close>, \<open>host.go\<close>): the gates of a plugin's emissions (locale \<open>emission_gate\<close>), the
    governor of an Apply and of an Action, registration, one Observe pass and the Emitter subscription (locale
    \<open>committed_loop\<close>: a loop that stops at its first error and keeps what it committed).
  \<^item> \<open>TriggerEngine\<close> (\<open>triggerengine/engine.go\<close>, \<open>graph/triggerwindow.go\<close>): matching, correlation, shared windows and launches.
    \<open>fires_of\<close> is the specification of a window's life, refined by the engine's decisions for every key.
  \<^item> \<open>TargetGroups\<close>, \<open>Targets\<close>, \<open>RunView\<close> (\<open>orchestrate/groups.go\<close>, \<open>reachvia.go\<close>, \<open>orchestrate.go\<close>): groups, target
    resolution with bastion chains, and one Run from its grant to its terminal record.
  \<^item> \<open>Across\<close> (\<open>orchestrate/across.go\<close>, \<open>api/server_crosscell.go\<close>): a Run scattered over Cells and gathered again.
  \<^item> \<open>Observe\<close> (\<open>orchestrate/baseline.go\<close>, \<open>graph/findingstore.go\<close>): a Baseline check and the damping of Findings, which refines
    the count of trailing drifted verdicts.
  \<^item> \<open>Home\<close>, \<open>Rehome\<close> (\<open>homegate\<close>, \<open>graph/rehome.go\<close>, \<open>orchestrate/rehome.go\<close>): which Cell may project a Source, the sweep for
    double homes, and the move of a Source between Cells with lost answers and retries.
  \<^item> \<open>AuditTrail\<close> (\<open>audit/hash.go\<close>, \<open>graph/auditstore.go\<close>): the hash-chained ledger.
  \<^item> \<open>StateBackend\<close> (\<open>statebackend/statebackend.go\<close>): OpenTofu's state over HTTP under its lock.

  \<^bold>\<open>Correspondence.\<close>  A Go struct is a record, an enum a datatype, a map an association list whose order is the iteration order
  the runtime picked (properties hold for every order), an error a value of a sum or option type, \<open>int\<close> an unbounded integer
  where no operation can overflow at reachable sizes.  A table is a component of a state record and a statement a function of
  it; a transaction that fails leaves the state it started from.  CEL programs, JSON schemas, hashes, ciphers, the
  answers of plugins, peers, Temporal activities and random ids are parameters, with what the code relies on as named
  hypotheses (\<open>fresh_uuids\<close>, a decryption that inverts the encryption).

  \<^bold>\<open>Bounds.\<close>  Activities retry as often as the code's policy says (three attempts where it names three).  The schedule of the
  walk terminates by the number of Steps not yet ended, the Gate loop by its remaining signals, the bastion walk by the
  declared eight hops and one iteration more to notice the ninth; the reconnect delay is capped at 30 seconds.

  \<^bold>\<open>Not modelled.\<close>  The transports (Kubernetes Jobs, gRPC, NATS, the Site relay), the generated API server and most of its
  handlers, the desired-state loader, authorization tuples and OIDC, the Connector registry, key custody, the cutover of
  schemas, notifications, the AWX and SCIM facades, the command line, the SDK and the plugins: they are listed in the
  manifest with the reason.  Selectors of Views are the store's answer here, and Temporal's event history is the order in
  which a model's steps come.
\<close>

end
